(* ===== verification/DsPrelude.thy ===== *)
theory DsPrelude
  imports Main "HOL-Library.Word"
begin

unbundle bit_operations_syntax

text \<open>
  Shared vocabulary of the development: the machine integers of the C sources, the
  fact collections the component theories feed, the arithmetic of power-of-two masks,
  and the list that a circular array of slots represents.
\<close>

subsection \<open>Machine integers\<close>

type_synonym u8 = "8 word"
type_synonym u32 = "32 word"
type_synonym u64 = "64 word"

text \<open>An arena pointer is a 64-bit address; address 0 is \<open>NULL\<close>.\<close>

type_synonym ptr = u64

abbreviation NULL :: ptr where
  "NULL \<equiv> 0"

text \<open>
  Fact collections: \<open>ds_ops\<close> holds the defining equations of the operations of the
  component under proof, \<open>ds_acc\<close> the accessors of its memory, \<open>ds_variant\<close> the
  agreement of the kernel and userspace variants of an operation.
\<close>

named_theorems ds_ops
named_theorems ds_acc
named_theorems ds_variant

subsection \<open>Power-of-two masks\<close>

definition pow2_word :: "'a::len word \<Rightarrow> bool" where
  "pow2_word n \<longleftrightarrow> n \<noteq> 0 \<and> n AND (n - 1) = 0"

lemma nat_and_pred_zero_pow2:
  "0 < m \<Longrightarrow> (m::nat) AND (m - 1) = 0 \<Longrightarrow> \<exists>k. m = 2 ^ k"
proof (induction m rule: less_induct)
  case (less m)
  show ?case
  proof (cases "even m")
    case True
    then obtain j where m: "m = 2 * j" by auto
    with less.prems have j: "0 < j" by simp
    have "(2 * j) AND (2 * j - 1) = 2 * (j AND (j - 1))"
    proof (rule bit_eqI)
      fix n
      show "bit ((2 * j) AND (2 * j - 1)) n \<longleftrightarrow> bit (2 * (j AND (j - 1))) n"
      proof (cases n)
        case 0
        then show ?thesis by (simp add: bit_0 even_and_iff)
      next
        case (Suc i)
        have "(2 * j - Suc 0) div 2 = j - 1" using j by arith
        then have "bit (2 * j - 1) n = bit (j - 1) i" using Suc by (simp add: bit_Suc)
        with Suc show ?thesis by (simp only: bit_and_iff) (simp add: bit_Suc bit_and_iff)
      qed
    qed
    with less.prems m have "j AND (j - 1) = 0" by simp
    with less.IH [of j] m j obtain k where "j = 2 ^ k" by auto
    with m have "m = 2 ^ Suc k" by simp
    then show ?thesis by blast
  next
    case False
    then obtain j where m: "m = 2 * j + 1" by (blast elim: oddE)
    have "m AND (m - 1) = 2 * j"
    proof (rule bit_eqI)
      fix n
      show "bit (m AND (m - 1)) n \<longleftrightarrow> bit (2 * j) n"
        using m by (simp only: bit_and_iff) (cases n, simp_all add: bit_0 bit_Suc)
    qed
    with less.prems have "j = 0" by simp
    with m have "m = 2 ^ 0" by simp
    then show ?thesis by blast
  qed
qed

lemma unat_pred: "n \<noteq> 0 \<Longrightarrow> unat (n - 1 :: 'a::len word) = unat n - 1"
  by (simp add: unat_sub word_le_nat_alt Suc_leI unat_gt_0)

lemma pow2_word_unat:
  assumes "pow2_word (n :: 'a::len word)"
  shows "\<exists>k < LENGTH('a). unat n = 2 ^ k"
proof -
  from assms have n: "n \<noteq> 0" and a: "n AND (n - 1) = 0" by (simp_all add: pow2_word_def)
  from a have "unat n AND unat (n - 1) = 0"
    by (metis unsigned_and_eq unsigned_0)
  with n have "unat n AND (unat n - 1) = 0" by (simp add: unat_pred)
  moreover from n have "0 < unat n" by (simp add: unat_gt_0)
  ultimately obtain k where k: "unat n = 2 ^ k"
    using nat_and_pred_zero_pow2 by blast
  have "(2::nat) ^ k < 2 ^ LENGTH('a)" using unsigned_less [of n, where 'a = nat] by (simp only: k)
  then have "k < LENGTH('a)" by (rule power_less_imp_less_exp [rotated]) simp
  with k show ?thesis by blast
qed

lemma unat_and_pow2_mask:
  assumes "pow2_word (n :: 'a::len word)"
  shows "unat (x AND (n - 1)) = unat x mod unat n"
proof -
  from pow2_word_unat [OF assms] obtain k where k: "unat n = 2 ^ k" by blast
  have "n \<noteq> 0" using assms by (simp add: pow2_word_def)
  then have "unat (n - 1) = 2 ^ k - 1" using k by (simp add: unat_pred)
  then have "unat (x AND (n - 1)) = unat x AND mask k"
    by (simp add: unsigned_and_eq mask_eq_exp_minus_1)
  also have "\<dots> = unat x mod 2 ^ k" by (simp add: take_bit_eq_mask [symmetric] take_bit_eq_mod)
  finally show ?thesis by (simp add: k)
qed

lemma pow2_word_pos: "pow2_word n \<Longrightarrow> 0 < unat n"
  by (simp add: pow2_word_def unat_gt_0)

lemma pow2_word_dvd:
  assumes "pow2_word (n :: 'a::len word)"
  shows "unat n dvd 2 ^ LENGTH('a)"
proof -
  from pow2_word_unat [OF assms] obtain k where "k < LENGTH('a)" "unat n = 2 ^ k" by blast
  then show ?thesis by (simp add: le_imp_power_dvd)
qed

text \<open>Reducing modulo a power of two commutes with the wrap-around of the word.\<close>

lemma unat_plus_mod_pow2:
  fixes n x y :: "'a::len word"
  assumes "pow2_word n"
  shows "unat (x + y) mod unat n = (unat x + unat y) mod unat n"
  using pow2_word_dvd [OF assms] by (simp add: unat_word_ariths mod_mod_cancel)

lemma unat_minus_mod_pow2:
  fixes n x y :: "'a::len word"
  assumes n: "pow2_word n" and y: "unat y < unat n"
  shows "unat (x - y) mod unat n = (unat x + unat n - unat y) mod unat n"
proof -
  have "x - y + n = x + of_nat (unat n - unat y)" using y by (simp add: of_nat_diff)
  then have "(unat (x - y) + unat n) mod unat n = (unat x + unat (of_nat (unat n - unat y) :: 'a word)) mod unat n"
    by (metis unat_plus_mod_pow2 [OF n])
  moreover have "unat (of_nat (unat n - unat y) :: 'a word) = unat n - unat y"
    using unsigned_less [of n, where 'a = nat] by (simp add: unat_of_nat less_imp_diff_less)
  ultimately show ?thesis using y by simp
qed

text \<open>Sums that do not wrap.\<close>

lemma unat_plus_u64: "unat x + unat y < 2 ^ 64 \<Longrightarrow> unat (x + y) = unat x + unat y"
  for x y :: u64
  using unat_add_lem [of x y] by simp

lemma unat_plus_u32: "unat x + unat y < 2 ^ 32 \<Longrightarrow> unat (x + y) = unat x + unat y"
  for x y :: u32
  using unat_add_lem [of x y] by simp

text \<open>Two's complement reading of 32-bit words.\<close>

lemma sint_of_int_u32: "- (2 ^ 31) \<le> k \<Longrightarrow> k < 2 ^ 31 \<Longrightarrow> sint (of_int k :: u32) = k"
  by (simp add: signed_of_int signed_take_bit_int_eq_self)

lemma sint_of_int_u64: "- (2 ^ 63) \<le> k \<Longrightarrow> k < 2 ^ 63 \<Longrightarrow> sint (of_int k :: u64) = k"
  by (simp add: signed_of_int signed_take_bit_int_eq_self)

lemma sint_small_u32: "unat (x :: u32) < 2 ^ 31 \<Longrightarrow> sint x = int (unat x)"
proof -
  assume "unat x < 2 ^ 31"
  then have u: "int (unat x) < 2 ^ 31" by (simp only: of_nat_less_numeral_power_cancel_iff)
  have "- (2 ^ 31) \<le> (0::int)" by simp
  then have "- (2 ^ 31) \<le> int (unat x)" by (rule order_trans) (rule of_nat_0_le_iff)
  then have "sint (of_int (int (unat x)) :: u32) = int (unat x)"
    using u by (rule sint_of_int_u32)
  then show ?thesis by simp
qed

text \<open>Clearing the low bits rounds down to a multiple, setting them rounds up.\<close>

lemma and_not_mask_diff: "x AND NOT m = x - (x AND m)" for x m :: "'a::len word"
proof -
  have "NOT x AND (x AND m) = 0"
    by (rule bit_word_eqI) (simp add: bit_simps)
  then have "x - (x AND m) = x AND NOT (x AND m)"
    by (rule disjunctive_diff_eq_and_not)
  also have "\<dots> = x AND NOT m"
    by (rule bit_word_eqI) (auto simp: bit_simps)
  finally show ?thesis by simp
qed

lemma unat_and_not_pow2_mask:
  assumes "pow2_word (n :: 'a::len word)"
  shows "unat (x AND NOT (n - 1)) = unat x div unat n * unat n"
proof -
  have m: "unat (x AND (n - 1)) = unat x mod unat n"
    by (rule unat_and_pow2_mask [OF assms])
  then have "x AND (n - 1) \<le> x" by (simp add: word_le_nat_alt)
  then have "unat (x - (x AND (n - 1))) = unat x - unat x mod unat n"
    by (simp add: unat_sub m)
  then show ?thesis by (simp add: and_not_mask_diff minus_mod_eq_div_mult)
qed

text \<open>The C macro \<^verbatim>\<open>round_up(x, y)\<close> of \<^verbatim>\<open>libarena_ds.h\<close>.\<close>

definition round_up :: "'a::len word \<Rightarrow> 'a word \<Rightarrow> 'a word" where
  "round_up x y = ((x - 1) OR (y - 1)) + 1"

lemma round_up_zero: "round_up 0 y = 0"
  by (simp add: round_up_def)

lemma round_up_split: "round_up x y = ((x - 1) AND NOT (y - 1)) + y"
proof -
  have "((x - 1) AND NOT (y - 1)) + (y - 1) = ((x - 1) AND NOT (y - 1)) OR (y - 1)"
    by (rule disjunctive_add_eq_or) (rule bit_word_eqI, simp add: bit_simps)
  also have "\<dots> = (x - 1) OR (y - 1)"
    by (rule bit_word_eqI) (auto simp: bit_simps)
  finally show ?thesis by (simp add: round_up_def algebra_simps)
qed

lemma unat_round_up:
  assumes y: "pow2_word (y :: 'a::len word)" and x: "x \<noteq> 0"
    and fits: "unat x + unat y \<le> 2 ^ LENGTH('a)"
  shows "unat (round_up x y) = (unat x - 1) div unat y * unat y + unat y"
proof -
  have u: "unat ((x - 1) AND NOT (y - 1)) = (unat x - 1) div unat y * unat y"
    using y x by (simp add: unat_and_not_pow2_mask unat_pred)
  have "0 < unat x" using x by (simp add: unat_gt_0)
  moreover have "(unat x - 1) div unat y * unat y \<le> unat x - 1" by simp
  ultimately have "unat ((x - 1) AND NOT (y - 1)) + unat y < 2 ^ LENGTH('a)"
    using fits by (simp only: u)
  then have "unat (((x - 1) AND NOT (y - 1)) + y) = unat ((x - 1) AND NOT (y - 1)) + unat y"
    by (simp add: unat_add_lem [THEN iffD1])
  then show ?thesis by (simp add: round_up_split u)
qed

lemma round_up_bounds:
  assumes y: "pow2_word (y :: 'a::len word)" and x: "x \<noteq> 0"
    and fits: "unat x + unat y \<le> 2 ^ LENGTH('a)"
  shows "unat x \<le> unat (round_up x y)" and "unat (round_up x y) < unat x + unat y"
    and "unat y dvd unat (round_up x y)"
proof -
  have "0 < unat y" using pow2_word_pos [OF y] .
  have x0: "0 < unat x" using x by (simp add: unat_gt_0)
  have "(unat x - 1) div unat y * unat y + (unat x - 1) mod unat y = unat x - 1"
    by (rule div_mult_mod_eq)
  moreover have "(unat x - 1) mod unat y < unat y" using \<open>0 < unat y\<close> by simp
  ultimately show "unat x \<le> unat (round_up x y)" "unat (round_up x y) < unat x + unat y"
    using x0 by (simp_all only: unat_round_up [OF assms])
  show "unat y dvd unat (round_up x y)" by (simp add: unat_round_up [OF assms])
qed

subsection \<open>Circular arrays\<close>

text \<open>
  \<open>ring_list f r n cap\<close> is the list of the \<open>n\<close> slots that start at slot \<open>r\<close> of a
  circular array \<open>f\<close> of \<open>cap\<close> slots.
\<close>

definition ring_list :: "(nat \<Rightarrow> 'a) \<Rightarrow> nat \<Rightarrow> nat \<Rightarrow> nat \<Rightarrow> 'a list" where
  "ring_list f r n cap = map (\<lambda>i. f ((r + i) mod cap)) [0..<n]"

lemma length_ring_list [simp]: "length (ring_list f r n cap) = n"
  by (simp add: ring_list_def)

lemma ring_list_0 [simp]: "ring_list f r 0 cap = []"
  by (simp add: ring_list_def)

lemma ring_list_Suc_front:
  "ring_list f r (Suc n) cap = f (r mod cap) # ring_list f (Suc r) n cap"
  by (simp add: ring_list_def upt_conv_Cons map_Suc_upt [symmetric] del: upt_Suc)

lemma ring_list_mod_start: "ring_list f (r mod cap) n cap = ring_list f r n cap"
  by (simp add: ring_list_def mod_add_left_eq)

lemma mod_add_eq_window:
  assumes "(r + i) mod cap = (r + j) mod cap" "i < cap" "j < cap"
  shows "i = (j::nat)"
proof -
  have *: "a = b" if "(r + a) mod cap = (r + b) mod cap" "a \<le> b" "b < cap" for a b
  proof -
    from that have "cap dvd (r + b) - (r + a)"
      by (metis add_le_cancel_left mod_eq_dvd_iff_nat)
    then have "cap dvd b - a" by simp
    moreover have "b - a < cap" using that by simp
    ultimately show ?thesis using that(2) by (auto dest: dvd_imp_le)
  qed
  show ?thesis
  proof (cases "i \<le> j")
    case True
    with * assms show ?thesis by blast
  next
    case False
    then have "j \<le> i" by simp
    with * [of j i] assms show ?thesis by simp
  qed
qed

lemma ring_list_cong:
  "(\<And>i. i < n \<Longrightarrow> f ((r + i) mod cap) = g ((r + i) mod cap)) \<Longrightarrow>
   ring_list f r n cap = ring_list g r n cap"
  by (simp add: ring_list_def)

lemma ring_list_snoc:
  assumes "n < cap"
    and "\<And>i. i < n \<Longrightarrow> g ((r + i) mod cap) = f ((r + i) mod cap)"
    and "g ((r + n) mod cap) = x"
  shows "ring_list g r (Suc n) cap = ring_list f r n cap @ [x]"
  using assms by (simp add: ring_list_def)

lemma unat_ucast_u64: "unat (ucast (i :: u32) :: u64) = unat i"
  by (simp add: unsigned_ucast_eq take_bit_nat_eq_self_iff less_trans [OF unsigned_less])

text \<open>Differences of numbers below \<open>2 ^ 63\<close>.\<close>

lemma sint_diff_u64:
  fixes a b :: u64
  assumes "unat a < 2 ^ 63" and "unat b < 2 ^ 63"
  shows "sint (a - b) = int (unat a) - int (unat b)"
proof -
  have "a - b = of_int (int (unat a) - int (unat b))" by simp
  moreover have "int (unat a) < 2 ^ 63" "int (unat b) < 2 ^ 63"
    using assms by (simp_all only: of_nat_less_numeral_power_cancel_iff)
  then have "- (2 ^ 63) \<le> int (unat a) - int (unat b)" "int (unat a) - int (unat b) < 2 ^ 63"
    by linarith+
  ultimately show ?thesis by (simp only: sint_of_int_u64)
qed

lemma unat_Suc_u64: "unat (a :: u64) < 2 ^ 63 \<Longrightarrow> unat (a + 1) = Suc (unat a)"
  using unat_plus_u64 [of a 1] by simp

text \<open>Numbers with the same remainder.\<close>

lemma mod_gap:
  fixes a b N :: nat
  assumes "a mod N = b mod N" and "a < b"
  shows "a + N \<le> b"
proof -
  have "N dvd b - a" using assms by (metis mod_eq_dvd_iff_nat less_imp_le)
  then have "N \<le> b - a" using assms(2) by (intro dvd_imp_le) simp_all
  then show ?thesis using assms(2) by simp
qed

lemma same_position:
  fixes a b N :: nat
  assumes "a mod N = b mod N" and "D \<le> a" "a < D + N" and "D \<le> b" "b < D + N"
  shows "a = b"
  using mod_gap [OF assms(1)] mod_gap [OF assms(1) [symmetric]] assms(2-) by (cases a b rule: linorder_cases) auto

end
