(* ===== verification/DsApi.thy ===== *)
theory DsApi
  imports DsPrelude
begin

text \<open>
  The common API of \<^verbatim>\<open>include/ds_api.h\<close>: result codes, operation types, the
  key-value payload, statistics and their printer.  C functions return the codes of
  \<^verbatim>\<open>enum ds_result\<close> as \<^verbatim>\<open>int\<close> (the queue verifier even multiplies them), so
  they are integer constants here.
\<close>

subsection \<open>Result codes\<close>

definition DS_SUCCESS :: int where "DS_SUCCESS = 0"
definition DS_ERROR_NOT_FOUND :: int where "DS_ERROR_NOT_FOUND = - 1"
definition DS_ERROR_EXISTS :: int where "DS_ERROR_EXISTS = - 2"
definition DS_ERROR_NOMEM :: int where "DS_ERROR_NOMEM = - 3"
definition DS_ERROR_INVALID :: int where "DS_ERROR_INVALID = - 4"
definition DS_ERROR_CORRUPT :: int where "DS_ERROR_CORRUPT = - 5"
definition DS_ERROR_BUSY :: int where "DS_ERROR_BUSY = - 6"
definition DS_ERROR_FULL :: int where "DS_ERROR_FULL = - 7"

lemmas ds_codes = DS_SUCCESS_def DS_ERROR_NOT_FOUND_def DS_ERROR_EXISTS_def
  DS_ERROR_NOMEM_def DS_ERROR_INVALID_def DS_ERROR_CORRUPT_def DS_ERROR_BUSY_def
  DS_ERROR_FULL_def

lemma ds_error_not_success [simp]:
  "DS_ERROR_NOT_FOUND \<noteq> DS_SUCCESS" "DS_ERROR_EXISTS \<noteq> DS_SUCCESS"
  "DS_ERROR_NOMEM \<noteq> DS_SUCCESS" "DS_ERROR_INVALID \<noteq> DS_SUCCESS"
  "DS_ERROR_CORRUPT \<noteq> DS_SUCCESS" "DS_ERROR_BUSY \<noteq> DS_SUCCESS"
  "DS_ERROR_FULL \<noteq> DS_SUCCESS"
  by (simp_all add: ds_codes)

subsection \<open>Operation types\<close>

datatype ds_op_type = DS_OP_INIT | DS_OP_INSERT | DS_OP_DELETE | DS_OP_POP
  | DS_OP_SEARCH | DS_OP_VERIFY | DS_OP_ITERATE

text \<open>The value the C enumeration gives each operation, and the sentinel after the last.\<close>

fun ds_op_index :: "ds_op_type \<Rightarrow> nat" where
  "ds_op_index DS_OP_INIT = 0"
| "ds_op_index DS_OP_INSERT = 1"
| "ds_op_index DS_OP_DELETE = 2"
| "ds_op_index DS_OP_POP = 3"
| "ds_op_index DS_OP_SEARCH = 4"
| "ds_op_index DS_OP_VERIFY = 5"
| "ds_op_index DS_OP_ITERATE = 6"

definition DS_OP_MAX :: nat where "DS_OP_MAX = 7"

subsection \<open>Payload, metadata and statistics\<close>

record ds_kv =
  key :: u64
  val :: u64

definition zero_kv :: ds_kv where "zero_kv = \<lparr>key = 0, val = 0\<rparr>"

lemma kv_collapse [simp]: "\<lparr>key = key x, val = val x\<rparr> = (x :: ds_kv)"
  by (cases x) simp

lemma kv_set_both: "(y :: ds_kv)\<lparr>key := a, val := b\<rparr> = \<lparr>key = a, val = b\<rparr>"
  by (cases y) simp

lemma kv_overwrite [simp]: "(y :: ds_kv)\<lparr>key := key x, val := val x\<rparr> = x"
  by (cases x, cases y) simp

record ds_metadata =
  md_name :: string
  md_description :: string
  md_node_size :: u32
  md_requires_locking :: u32

record ds_op_stats =
  op_count :: u64
  op_failures :: u64
  op_total_time_ns :: u64

record ds_stats =
  st_ops :: "ds_op_stats list"
  st_current_elements :: u64
  st_max_elements :: u64
  st_memory_used :: u64

record ds_operation =
  opn_type :: ds_op_type
  opn_kv :: ds_kv
  opn_result :: int

subsection \<open>Timestamps and the statistics printer\<close>

record timespec =
  tv_sec :: u64
  tv_nsec :: u64

definition ds_get_timestamp :: "timespec \<Rightarrow> u64" where
  "ds_get_timestamp ts = tv_sec ts * 1000000000 + tv_nsec ts"

text \<open>
  The printer's local array of names has six entries; \<open>None\<close> is a read past its end.
\<close>

definition op_names :: "string list" where
  "op_names = [''INIT'', ''INSERT'', ''DELETE'', ''SEARCH'', ''VERIFY'', ''ITERATE'']"

definition op_name_at :: "nat \<Rightarrow> string option" where
  "op_name_at i = (if i < length op_names then Some (op_names ! i) else None)"

text \<open>One printed row: the label read, the count, the failures, the average time.\<close>

type_synonym stats_row = "string option \<times> u64 \<times> u64 \<times> u64"

fun print_stats_rows :: "ds_stats \<Rightarrow> nat list \<Rightarrow> stats_row list" where
  "print_stats_rows st [] = []"
| "print_stats_rows st (i # is) =
     (let os = st_ops st ! i in
      if 0 < op_count os
      then (op_name_at i, op_count os, op_failures os, op_total_time_ns os div op_count os)
           # print_stats_rows st is
      else print_stats_rows st is)"

definition ds_print_stats :: "ds_stats \<Rightarrow> u64 \<times> u64 \<times> u64 \<times> stats_row list" where
  "ds_print_stats st =
     (st_current_elements st, st_max_elements st, st_memory_used st,
      print_stats_rows st [0..<DS_OP_MAX])"

lemma print_stats_rows_append:
  "print_stats_rows st (is @ js) = print_stats_rows st is @ print_stats_rows st js"
  by (induction "is") (simp_all add: Let_def)

lemma print_stats_rows_mem:
  "r \<in> set (print_stats_rows st is) \<longleftrightarrow>
   (\<exists>i \<in> set is. 0 < op_count (st_ops st ! i) \<and>
      r = (op_name_at i, op_count (st_ops st ! i), op_failures (st_ops st ! i),
           op_total_time_ns (st_ops st ! i) div op_count (st_ops st ! i)))"
  by (induction "is") (auto simp: Let_def)

subsection \<open>Kernel and userspace variants\<close>

text \<open>
  Most operations exist twice, as \<^verbatim>\<open>_lkmm\<close> (kernel memory model primitives) and
  \<^verbatim>\<open>_c\<close> (C11 atomics), and a router picks one by \<^verbatim>\<open>#ifdef __BPF__\<close>.
\<close>

datatype side = BPF | USERSPACE

text \<open>\<^verbatim>\<open>arena_validate_ptr\<close>: rejects NULL and the two list poison values.\<close>

definition arena_validate_ptr :: "ptr \<Rightarrow> int" where
  "arena_validate_ptr p =
     (if p = NULL then 0 else if p = 0x100 \<or> p = 0x122 then 0 else 1)"

text \<open>An allocator: a byte count and its state give an address (0 on failure) and a state.\<close>

type_synonym 'a allocator = "u32 \<Rightarrow> 'a \<Rightarrow> ptr \<times> 'a"

text \<open>
  \<^verbatim>\<open>arena_atomic_cmpxchg\<close>: compares the cell's value with the expected one,
  stores the new one on equality, and returns the value the cell held before.
\<close>

definition arena_atomic_cmpxchg :: "'v \<Rightarrow> 'v \<Rightarrow> 'v \<Rightarrow> 'v \<times> 'v" where
  "arena_atomic_cmpxchg cur old_val new_val =
     (cur, if cur = old_val then new_val else cur)"

lemma cmpxchg_success [simp]: "arena_atomic_cmpxchg x x y = (x, y)"
  by (simp add: arena_atomic_cmpxchg_def)

lemma cmpxchg_failure: "x \<noteq> e \<Longrightarrow> arena_atomic_cmpxchg x e y = (x, x)"
  by (simp add: arena_atomic_cmpxchg_def)


text \<open>
  The statistics printer's labels are off by one from the fourth operation on: the
  row of the pops is labelled SEARCH, that of the searches VERIFY, that of the
  verifications ITERATE, and the row of the iterations reads past the end of the table of
  names.  The counts in the rows are those of the operation.
\<close>

theorem ds_print_stats_labels:
  assumes "0 < op_count (st_ops st ! ds_op_index t)"
  shows "(case t of DS_OP_INIT \<Rightarrow> Some ''INIT'' | DS_OP_INSERT \<Rightarrow> Some ''INSERT'' | DS_OP_DELETE \<Rightarrow> Some ''DELETE''
      | DS_OP_POP \<Rightarrow> Some ''SEARCH'' | DS_OP_SEARCH \<Rightarrow> Some ''VERIFY'' | DS_OP_VERIFY \<Rightarrow> Some ''ITERATE''
      | DS_OP_ITERATE \<Rightarrow> None,
     op_count (st_ops st ! ds_op_index t), op_failures (st_ops st ! ds_op_index t),
     op_total_time_ns (st_ops st ! ds_op_index t) div op_count (st_ops st ! ds_op_index t))
    \<in> set (snd (snd (snd (ds_print_stats st))))"
proof -
  have "ds_op_index t \<in> set [0..<DS_OP_MAX]" by (cases t) (simp_all add: DS_OP_MAX_def)
  moreover have "op_name_at (ds_op_index t) =
    (case t of DS_OP_INIT \<Rightarrow> Some ''INIT'' | DS_OP_INSERT \<Rightarrow> Some ''INSERT'' | DS_OP_DELETE \<Rightarrow> Some ''DELETE''
      | DS_OP_POP \<Rightarrow> Some ''SEARCH'' | DS_OP_SEARCH \<Rightarrow> Some ''VERIFY'' | DS_OP_VERIFY \<Rightarrow> Some ''ITERATE''
      | DS_OP_ITERATE \<Rightarrow> None)"
    by (cases t) (simp_all add: op_name_at_def op_names_def)
  ultimately show ?thesis
    using assms unfolding ds_print_stats_def snd_conv print_stats_rows_mem by metis
qed

definition stats_demo :: ds_stats where
  "stats_demo =
     \<lparr>st_ops = replicate 7 \<lparr>op_count = 2, op_failures = 1, op_total_time_ns = 10\<rparr>,
      st_current_elements = 0, st_max_elements = 0, st_memory_used = 0\<rparr>"

theorem ds_print_stats_labels_witness:
  "(Some ''SEARCH'', 2, 1, 5) \<in> set (snd (snd (snd (ds_print_stats stats_demo)))) \<and>
   (None, 2, 1, 5) \<in> set (snd (snd (snd (ds_print_stats stats_demo))))"
  using ds_print_stats_labels [of stats_demo DS_OP_POP] ds_print_stats_labels [of stats_demo DS_OP_ITERATE]
  by (simp add: stats_demo_def)

end
