(* ===== verification/LaneContracts.thy ===== *)
theory LaneContracts
  imports DsApi "HOL-Library.Multiset"
begin

text \<open>
  The contracts the data structures offer to the relay programs.  A lane is anything
  with an insert and a pop; its contents are a multiset (\<open>lane\<close>), a queue
  (\<open>fifo_lane\<close>) or a stack (\<open>lifo_lane\<close>).  The facts about arbitrary sequences of
  operations are proved once here; every data structure interprets one of the two
  ordered contracts.
\<close>

subsection \<open>Sequences of operations and what they report\<close>

datatype lane_op = LInsert ds_kv | LPop

datatype lane_event = EvIns ds_kv int | EvPop int "ds_kv option"

fun lane_run :: "(ds_kv \<Rightarrow> 's \<Rightarrow> int \<times> 's) \<Rightarrow> ('s \<Rightarrow> int \<times> ds_kv option \<times> 's) \<Rightarrow>
    lane_op list \<Rightarrow> 's \<Rightarrow> lane_event list \<times> 's" where
  "lane_run ins pop [] s = ([], s)"
| "lane_run ins pop (LInsert x # ops) s =
     (let (r, s1) = ins x s; (evs, s2) = lane_run ins pop ops s1 in (EvIns x r # evs, s2))"
| "lane_run ins pop (LPop # ops) s =
     (let (r, out, s1) = pop s; (evs, s2) = lane_run ins pop ops s1 in (EvPop r out # evs, s2))"

text \<open>The elements whose insertion reported success, and those a successful pop delivered.\<close>

fun accepted :: "lane_event list \<Rightarrow> ds_kv list" where
  "accepted [] = []"
| "accepted (EvIns x r # evs) = (if r = DS_SUCCESS then x # accepted evs else accepted evs)"
| "accepted (EvPop r out # evs) = accepted evs"

fun delivered :: "lane_event list \<Rightarrow> ds_kv list" where
  "delivered [] = []"
| "delivered (EvIns x r # evs) = delivered evs"
| "delivered (EvPop r out # evs) =
     (case out of Some x \<Rightarrow> if r = DS_SUCCESS then x # delivered evs else delivered evs
      | None \<Rightarrow> delivered evs)"

text \<open>All the elements somebody tried to insert.\<close>

fun offered :: "lane_event list \<Rightarrow> ds_kv list" where
  "offered [] = []"
| "offered (EvIns x r # evs) = x # offered evs"
| "offered (EvPop r out # evs) = offered evs"

lemma lane_history_append [simp]:
  "accepted (es @ fs) = accepted es @ accepted fs" "delivered (es @ fs) = delivered es @ delivered fs"
  "offered (es @ fs) = offered es @ offered fs"
proof -
  show "accepted (es @ fs) = accepted es @ accepted fs" by (induction es rule: accepted.induct) auto
  show "delivered (es @ fs) = delivered es @ delivered fs"
    by (induction es rule: delivered.induct) (auto split: option.split)
  show "offered (es @ fs) = offered es @ offered fs" by (induction es rule: offered.induct) auto
qed

text \<open>
  Replaying the events on an abstract stack (top first): \<open>None\<close> when a pop delivered
  something else than the top or failed on a stack that is not empty.
\<close>

fun stack_replay :: "ds_kv list \<Rightarrow> lane_event list \<Rightarrow> ds_kv list option" where
  "stack_replay xs [] = Some xs"
| "stack_replay xs (EvIns x r # evs) =
     stack_replay (if r = DS_SUCCESS then x # xs else xs) evs"
| "stack_replay xs (EvPop r out # evs) =
     (case xs of
        [] \<Rightarrow> if r \<noteq> DS_SUCCESS then stack_replay [] evs else None
      | y # ys \<Rightarrow> if r = DS_SUCCESS \<and> out = Some y then stack_replay ys evs else None)"

text \<open>The same replay on an abstract queue (front first).\<close>

fun queue_replay :: "ds_kv list \<Rightarrow> lane_event list \<Rightarrow> ds_kv list option" where
  "queue_replay xs [] = Some xs"
| "queue_replay xs (EvIns x r # evs) =
     queue_replay (if r = DS_SUCCESS then xs @ [x] else xs) evs"
| "queue_replay xs (EvPop r out # evs) =
     (case xs of
        [] \<Rightarrow> if r \<noteq> DS_SUCCESS then queue_replay [] evs else None
      | y # ys \<Rightarrow> if r = DS_SUCCESS \<and> out = Some y then queue_replay ys evs else None)"

text \<open>Both are instances of one replay, \<open>put\<close> being where an insertion goes.\<close>

fun lane_replay :: "(ds_kv \<Rightarrow> ds_kv list \<Rightarrow> ds_kv list) \<Rightarrow> ds_kv list \<Rightarrow> lane_event list \<Rightarrow> ds_kv list option" where
  "lane_replay put xs [] = Some xs"
| "lane_replay put xs (EvIns x r # evs) =
     lane_replay put (if r = DS_SUCCESS then put x xs else xs) evs"
| "lane_replay put xs (EvPop r out # evs) =
     (case xs of
        [] \<Rightarrow> if r \<noteq> DS_SUCCESS then lane_replay put [] evs else None
      | y # ys \<Rightarrow> if r = DS_SUCCESS \<and> out = Some y then lane_replay put ys evs else None)"

lemma queue_replay_is_lane_replay: "queue_replay xs evs = lane_replay (\<lambda>x xs. xs @ [x]) xs evs"
  by (induction xs evs rule: queue_replay.induct) (auto split: list.split)

lemma stack_replay_is_lane_replay: "stack_replay xs evs = lane_replay (#) xs evs"
  by (induction xs evs rule: stack_replay.induct) (auto split: list.split)

lemma lane_replay_append:
  "lane_replay put xs (es @ fs) =
     (case lane_replay put xs es of None \<Rightarrow> None | Some ys \<Rightarrow> lane_replay put ys fs)"
  by (induction put xs es rule: lane_replay.induct) (auto split: list.split)

lemma lane_replay_mset:
  assumes "\<And>x xs. mset (put x xs) = add_mset x (mset xs)" and "lane_replay put xs evs = Some ys"
  shows "mset xs + mset (accepted evs) = mset (delivered evs) + mset ys"
  using assms
proof (induction put xs evs arbitrary: ys rule: lane_replay.induct)
  case (3 put xs r out evs)
  then show ?case by (cases xs; cases out) (auto split: if_splits)
qed (auto split: if_splits)

lemma queue_replay_fifo:
  "queue_replay xs evs = Some ys \<Longrightarrow> xs @ accepted evs = delivered evs @ ys"
proof (induction xs evs arbitrary: ys rule: queue_replay.induct)
  case (3 xs r out evs)
  then show ?case
    by (cases xs; cases out) (auto split: if_splits)
qed (auto split: if_splits)

subsection \<open>Visiting the elements in order\<close>

text \<open>
  What a callback iteration does on the list of elements: it stops after the first
  element for which the callback returns a non-zero value, and counts those before it.
\<close>

fun iterate_list :: "(u64 \<Rightarrow> u64 \<Rightarrow> 'c \<Rightarrow> int \<times> 'c) \<Rightarrow> ds_kv list \<Rightarrow> u64 \<Rightarrow> 'c \<Rightarrow> u64 \<times> 'c" where
  "iterate_list f [] n c = (n, c)"
| "iterate_list f (x # xs) n c =
     (let (r, c') = f (key x) (val x) c in
      if r \<noteq> 0 then (n, c') else iterate_list f xs (n + 1) c')"

subsection \<open>A lane as a multiset\<close>

locale lane =
  fixes ins :: "ds_kv \<Rightarrow> 's \<Rightarrow> int \<times> 's"
    and pop :: "'s \<Rightarrow> int \<times> ds_kv option \<times> 's"
    and bag :: "'s \<Rightarrow> ds_kv multiset \<Rightarrow> bool"
    and room :: "'s \<Rightarrow> bool"
  assumes bag_ins_room: "bag s M \<Longrightarrow> room s \<Longrightarrow>
      \<exists>s'. ins x s = (DS_SUCCESS, s') \<and> bag s' (add_mset x M)"
    and bag_ins_refused: "bag s M \<Longrightarrow> \<not> room s \<Longrightarrow>
      \<exists>e s'. ins x s = (e, s') \<and> e \<noteq> DS_SUCCESS \<and> bag s' M"
    and bag_pop_empty: "bag s {#} \<Longrightarrow>
      \<exists>out s'. pop s = (DS_ERROR_NOT_FOUND, out, s') \<and> bag s' {#}"
    and bag_pop_some: "bag s M \<Longrightarrow> M \<noteq> {#} \<Longrightarrow>
      \<exists>x s'. pop s = (DS_SUCCESS, Some x, s') \<and> x \<in># M \<and> bag s' (M - {#x#})"
begin

lemma bag_conserved:
  "bag s M \<Longrightarrow> lane_run ins pop ops s = (evs, s') \<Longrightarrow>
   \<exists>M'. bag s' M' \<and> M + mset (accepted evs) = mset (delivered evs) + M'"
proof (induction ops arbitrary: s M evs)
  case Nil
  then show ?case by auto
next
  case (Cons opn ops)
  show ?case
  proof (cases opn)
    case (LInsert x)
    obtain r s1 where i: "ins x s = (r, s1)" by (cases "ins x s")
    obtain evs1 where run: "lane_run ins pop ops s1 = (evs1, s')" and evs: "evs = EvIns x r # evs1"
      using Cons.prems(2) LInsert i by (auto split: prod.splits)
    have "(r = DS_SUCCESS \<and> bag s1 (add_mset x M)) \<or> (r \<noteq> DS_SUCCESS \<and> bag s1 M)"
      using bag_ins_room [OF Cons.prems(1), of x] bag_ins_refused [OF Cons.prems(1), of x] i
      by (cases "room s") auto
    then show ?thesis
      using Cons.IH [OF _ run] evs by fastforce
  next
    case LPop
    obtain r out s1 where p: "pop s = (r, out, s1)" by (cases "pop s")
    obtain evs1 where run: "lane_run ins pop ops s1 = (evs1, s')" and evs: "evs = EvPop r out # evs1"
      using Cons.prems(2) LPop p by (auto split: prod.splits)
    show ?thesis
    proof (cases "M = {#}")
      case True
      with bag_pop_empty [of s] Cons.prems(1) p have "r \<noteq> DS_SUCCESS" "bag s1 {#}" by auto
      with Cons.IH [OF _ run, of "{#}"] evs True show ?thesis by (auto split: option.splits)
    next
      case False
      with bag_pop_some [of s M] Cons.prems(1) p obtain x where
        x: "r = DS_SUCCESS" "out = Some x" "x \<in># M" "bag s1 (M - {#x#})" by auto
      from Cons.IH [OF x(4) run] obtain M' where
        "bag s' M'" "M - {#x#} + mset (accepted evs1) = mset (delivered evs1) + M'" by blast
      with x evs show ?thesis by (auto dest: multi_member_split)
    qed
  qed
qed

end

subsection \<open>First in, first out\<close>

locale fifo_lane =
  fixes ins :: "ds_kv \<Rightarrow> 's \<Rightarrow> int \<times> 's"
    and pop :: "'s \<Rightarrow> int \<times> ds_kv option \<times> 's"
    and queue :: "'s \<Rightarrow> ds_kv list \<Rightarrow> bool"
    and room :: "'s \<Rightarrow> bool"
  assumes q_ins_room: "queue s xs \<Longrightarrow> room s \<Longrightarrow>
      \<exists>s'. ins x s = (DS_SUCCESS, s') \<and> queue s' (xs @ [x])"
    and q_ins_refused: "queue s xs \<Longrightarrow> \<not> room s \<Longrightarrow>
      \<exists>e s'. ins x s = (e, s') \<and> e \<noteq> DS_SUCCESS \<and> queue s' xs"
    and q_pop_empty: "queue s [] \<Longrightarrow>
      \<exists>out s'. pop s = (DS_ERROR_NOT_FOUND, out, s') \<and> queue s' []"
    and q_pop_front: "queue s (x # xs) \<Longrightarrow>
      \<exists>s'. pop s = (DS_SUCCESS, Some x, s') \<and> queue s' xs"
begin

lemma run_queue_replay:
  "queue s xs \<Longrightarrow> lane_run ins pop ops s = (evs, s') \<Longrightarrow>
   \<exists>ys. queue_replay xs evs = Some ys \<and> queue s' ys"
proof (induction ops arbitrary: s xs evs)
  case Nil
  then show ?case by auto
next
  case (Cons opn ops)
  show ?case
  proof (cases opn)
    case (LInsert x)
    obtain r s1 where i: "ins x s = (r, s1)" by (cases "ins x s")
    obtain evs1 where run: "lane_run ins pop ops s1 = (evs1, s')" and evs: "evs = EvIns x r # evs1"
      using Cons.prems(2) LInsert i by (auto split: prod.splits)
    have "queue s1 (if r = DS_SUCCESS then xs @ [x] else xs)"
      using q_ins_room [OF Cons.prems(1), of x] q_ins_refused [OF Cons.prems(1), of x] i
      by (cases "room s") auto
    from Cons.IH [OF this run] evs show ?thesis by simp
  next
    case LPop
    obtain r out s1 where p: "pop s = (r, out, s1)" by (cases "pop s")
    obtain evs1 where run: "lane_run ins pop ops s1 = (evs1, s')" and evs: "evs = EvPop r out # evs1"
      using Cons.prems(2) LPop p by (auto split: prod.splits)
    show ?thesis
    proof (cases xs)
      case Nil
      with q_pop_empty [of s] Cons.prems(1) p have "r \<noteq> DS_SUCCESS" "queue s1 []" by auto
      with Cons.IH [OF _ run] evs Nil show ?thesis by auto
    next
      case (Cons y ys)
      with q_pop_front [of s y ys] Cons.prems(1) p
      have "r = DS_SUCCESS" "out = Some y" "queue s1 ys" by auto
      with Cons.IH [OF _ run] evs Cons show ?thesis by auto
    qed
  qed
qed

text \<open>No element is lost, duplicated or reordered, whatever the sequence of operations.\<close>

lemma run_fifo:
  assumes "queue s xs" "lane_run ins pop ops s = (evs, s')"
  shows "\<exists>ys. queue s' ys \<and> xs @ accepted evs = delivered evs @ ys"
  using run_queue_replay [OF assms] queue_replay_fifo by blast

end

sublocale fifo_lane \<subseteq> bagged: lane ins pop "\<lambda>s M. \<exists>xs. queue s xs \<and> M = mset xs" room
proof unfold_locales
  fix s M x
  assume b: "\<exists>xs. queue s xs \<and> M = mset xs" and "room s"
  then show "\<exists>s'. ins x s = (DS_SUCCESS, s') \<and> (\<exists>xs. queue s' xs \<and> add_mset x M = mset xs)"
    using q_ins_room by fastforce
next
  fix s M x
  assume "\<exists>xs. queue s xs \<and> M = mset xs" and "\<not> room s"
  then show "\<exists>e s'. ins x s = (e, s') \<and> e \<noteq> DS_SUCCESS \<and> (\<exists>xs. queue s' xs \<and> M = mset xs)"
    using q_ins_refused by fastforce
next
  fix s
  assume "\<exists>xs. queue s xs \<and> {#} = mset xs"
  then show "\<exists>out s'. pop s = (DS_ERROR_NOT_FOUND, out, s') \<and> (\<exists>xs. queue s' xs \<and> {#} = mset xs)"
    using q_pop_empty by fastforce
next
  fix s and M :: "ds_kv multiset"
  assume "\<exists>xs. queue s xs \<and> M = mset xs" and "M \<noteq> {#}"
  then obtain x xs where "queue s (x # xs)" "M = mset (x # xs)"
    by (metis list.exhaust mset.simps(1))
  with q_pop_front [of s x xs]
  show "\<exists>x s'. pop s = (DS_SUCCESS, Some x, s') \<and> x \<in># M \<and>
      (\<exists>xs. queue s' xs \<and> M - {#x#} = mset xs)"
    by auto
qed

subsection \<open>Last in, first out\<close>

locale lifo_lane =
  fixes ins :: "ds_kv \<Rightarrow> 's \<Rightarrow> int \<times> 's"
    and pop :: "'s \<Rightarrow> int \<times> ds_kv option \<times> 's"
    and stack :: "'s \<Rightarrow> ds_kv list \<Rightarrow> bool"
    and room :: "'s \<Rightarrow> bool"
  assumes st_ins_room: "stack s xs \<Longrightarrow> room s \<Longrightarrow>
      \<exists>s'. ins x s = (DS_SUCCESS, s') \<and> stack s' (x # xs)"
    and st_ins_refused: "stack s xs \<Longrightarrow> \<not> room s \<Longrightarrow>
      \<exists>e s'. ins x s = (e, s') \<and> e \<noteq> DS_SUCCESS \<and> stack s' xs"
    and st_pop_empty: "stack s [] \<Longrightarrow>
      \<exists>out s'. pop s = (DS_ERROR_NOT_FOUND, out, s') \<and> stack s' []"
    and st_pop_top: "stack s (x # xs) \<Longrightarrow>
      \<exists>s'. pop s = (DS_SUCCESS, Some x, s') \<and> stack s' xs"
begin

lemma run_stack_replay:
  "stack s xs \<Longrightarrow> lane_run ins pop ops s = (evs, s') \<Longrightarrow>
   \<exists>ys. stack_replay xs evs = Some ys \<and> stack s' ys"
proof (induction ops arbitrary: s xs evs)
  case Nil
  then show ?case by auto
next
  case (Cons opn ops)
  show ?case
  proof (cases opn)
    case (LInsert x)
    obtain r s1 where i: "ins x s = (r, s1)" by (cases "ins x s")
    obtain evs1 where run: "lane_run ins pop ops s1 = (evs1, s')" and evs: "evs = EvIns x r # evs1"
      using Cons.prems(2) LInsert i by (auto split: prod.splits)
    have "stack s1 (if r = DS_SUCCESS then x # xs else xs)"
      using st_ins_room [OF Cons.prems(1), of x] st_ins_refused [OF Cons.prems(1), of x] i
      by (cases "room s") auto
    from Cons.IH [OF this run] evs show ?thesis by simp
  next
    case LPop
    obtain r out s1 where p: "pop s = (r, out, s1)" by (cases "pop s")
    obtain evs1 where run: "lane_run ins pop ops s1 = (evs1, s')" and evs: "evs = EvPop r out # evs1"
      using Cons.prems(2) LPop p by (auto split: prod.splits)
    show ?thesis
    proof (cases xs)
      case Nil
      with st_pop_empty [of s] Cons.prems(1) p have "r \<noteq> DS_SUCCESS" "stack s1 []" by auto
      with Cons.IH [OF _ run] evs Nil show ?thesis by auto
    next
      case (Cons y ys)
      with st_pop_top [of s y ys] Cons.prems(1) p
      have "r = DS_SUCCESS" "out = Some y" "stack s1 ys" by auto
      with Cons.IH [OF _ run] evs Cons show ?thesis by auto
    qed
  qed
qed

end

sublocale lifo_lane \<subseteq> bagged: lane ins pop "\<lambda>s M. \<exists>xs. stack s xs \<and> M = mset xs" room
proof unfold_locales
  fix s M x
  assume "\<exists>xs. stack s xs \<and> M = mset xs" and "room s"
  then show "\<exists>s'. ins x s = (DS_SUCCESS, s') \<and> (\<exists>xs. stack s' xs \<and> add_mset x M = mset xs)"
    using st_ins_room by (metis mset.simps(2))
next
  fix s M x
  assume "\<exists>xs. stack s xs \<and> M = mset xs" and "\<not> room s"
  then show "\<exists>e s'. ins x s = (e, s') \<and> e \<noteq> DS_SUCCESS \<and> (\<exists>xs. stack s' xs \<and> M = mset xs)"
    using st_ins_refused by fastforce
next
  fix s
  assume "\<exists>xs. stack s xs \<and> {#} = mset xs"
  then show "\<exists>out s'. pop s = (DS_ERROR_NOT_FOUND, out, s') \<and> (\<exists>xs. stack s' xs \<and> {#} = mset xs)"
    using st_pop_empty by fastforce
next
  fix s and M :: "ds_kv multiset"
  assume "\<exists>xs. stack s xs \<and> M = mset xs" and "M \<noteq> {#}"
  then obtain x xs where "stack s (x # xs)" "M = mset (x # xs)"
    by (metis list.exhaust mset.simps(1))
  with st_pop_top [of s x xs]
  show "\<exists>x s'. pop s = (DS_SUCCESS, Some x, s') \<and> x \<in># M \<and>
      (\<exists>xs. stack s' xs \<and> M - {#x#} = mset xs)"
    by auto
qed

end
