(* ===== verification/ArenaAlloc.thy ===== *)
theory ArenaAlloc
  imports DsApi
begin

unbundle bit_operations_syntax

text \<open>
  The arena allocators of \<^verbatim>\<open>include/libarena_ds.h\<close>: the kernel side page-fragment
  allocator (\<open>bpf_arena_refill_page\<close>, \<open>bpf_arena_alloc_kern\<close>, \<open>bpf_arena_free_kern\<close>)
  and its userspace mirror (\<open>bpf_arena_userspace_set_range\<close>, \<open>bpf_arena_alloc_user\<close>,
  \<open>bpf_arena_free_user\<close>), both of which carve fragments off a page from its top
  downwards and keep an object counter in the last eight bytes of the page.

  The contract \<open>arena_allocator\<close> states what a data structure relies on; the userspace
  allocator satisfies it, and the lemmas about the kernel allocator show when it does not.
\<close>

subsection \<open>Kernel side\<close>

definition PAGE_SIZE :: u32 where "PAGE_SIZE = 4096"

text \<open>
  The per-CPU arrays, the object counters (64-bit words in the arena, by address) and the
  state of the kernel's page allocator, whose two functions \<^verbatim>\<open>bpf_arena_alloc_pages\<close>
  and \<^verbatim>\<open>bpf_arena_free_pages\<close> are parameters.  Offsets are C \<^verbatim>\<open>int\<close>s, kept as
  32-bit words.
\<close>

record 'k kern_alloc =
  page_frag_cur_page :: "u32 \<Rightarrow> ptr"
  page_frag_cur_offset :: "u32 \<Rightarrow> u32"
  kern_obj_cnt :: "ptr \<Rightarrow> u64"
  kern_pages :: 'k

definition obj_cnt_addr :: "ptr \<Rightarrow> ptr" where
  "obj_cnt_addr page = page + ucast PAGE_SIZE - 8"

definition bpf_arena_refill_page ::
  "('k \<Rightarrow> ptr \<times> 'k) \<Rightarrow> u32 \<Rightarrow> 'k kern_alloc \<Rightarrow> ptr \<times> 'k kern_alloc" where
  "bpf_arena_refill_page alloc_pages cpu s =
     (let (page, k) = alloc_pages (kern_pages s);
          s = s\<lparr>kern_pages := k\<rparr> in
      if page = NULL then (NULL, s)
      else (page,
        s\<lparr>page_frag_cur_page := (page_frag_cur_page s)(cpu := page),
          page_frag_cur_offset := (page_frag_cur_offset s)(cpu := PAGE_SIZE - 8),
          kern_obj_cnt := (kern_obj_cnt s)(obj_cnt_addr page := 0)\<rparr>))"

definition kern_take_fragment ::
  "u32 \<Rightarrow> ptr \<Rightarrow> u32 \<Rightarrow> 'k kern_alloc \<Rightarrow> ptr \<times> 'k kern_alloc" where
  "kern_take_fragment cpu page sz s =
     (let offset = page_frag_cur_offset s cpu - sz;
          obj_cnt = obj_cnt_addr page in
      (page + scast offset,
       s\<lparr>kern_obj_cnt := (kern_obj_cnt s)(obj_cnt := kern_obj_cnt s obj_cnt + 1),
         page_frag_cur_offset := (page_frag_cur_offset s)(cpu := offset)\<rparr>))"

text \<open>
  The refill test compares \<^verbatim>\<open>*cur_offset - size\<close> with 0; \<^verbatim>\<open>size\<close> is
  unsigned, so C computes and compares the difference as an unsigned value, as the
  order on words does here.
\<close>

definition bpf_arena_alloc_kern ::
  "('k \<Rightarrow> ptr \<times> 'k) \<Rightarrow> u32 \<Rightarrow> u32 \<Rightarrow> 'k kern_alloc \<Rightarrow> ptr \<times> 'k kern_alloc" where
  "bpf_arena_alloc_kern alloc_pages cpu sz s =
     (let page = page_frag_cur_page s cpu;
          sz = round_up sz 8 in
      if sz \<ge> PAGE_SIZE - 8 then (NULL, s)
      else if page = NULL \<or> page_frag_cur_offset s cpu - sz < 0 then
        (let (page, s) = bpf_arena_refill_page alloc_pages cpu s in
         if page = NULL then (NULL, s) else kern_take_fragment cpu page sz s)
      else kern_take_fragment cpu page sz s)"

definition bpf_arena_free_kern ::
  "(ptr \<Rightarrow> 'k \<Rightarrow> 'k) \<Rightarrow> ptr \<Rightarrow> 'k kern_alloc \<Rightarrow> 'k kern_alloc" where
  "bpf_arena_free_kern free_pages addr s =
     (let page = addr AND NOT (ucast PAGE_SIZE - 1);
          obj_cnt = obj_cnt_addr page;
          c = kern_obj_cnt s obj_cnt - 1;
          s = s\<lparr>kern_obj_cnt := (kern_obj_cnt s)(obj_cnt := c)\<rparr> in
      if c = 0 then s\<lparr>kern_pages := free_pages page (kern_pages s)\<rparr> else s)"

subsection \<open>Userspace side\<close>

record user_alloc =
  u_base :: ptr
  u_size :: u64
  u_page_size :: u64
  u_next_page_off :: u64
  u_cur_page :: ptr
  u_cur_offset :: u64
  u_lock :: bool
  u_obj_cnt :: "ptr \<Rightarrow> u64"

text \<open>\<open>page_sz\<close> is what \<^verbatim>\<open>sysconf(_SC_PAGESIZE)\<close> returns, a signed 64-bit value.\<close>

definition bpf_arena_userspace_set_range ::
  "u64 \<Rightarrow> ptr \<Rightarrow> u64 \<Rightarrow> user_alloc \<Rightarrow> user_alloc" where
  "bpf_arena_userspace_set_range page_sz base sz s =
     (let page_sz = (if sint page_sz \<le> 0 then 4096 else page_sz);
          s = s\<lparr>u_page_size := page_sz\<rparr>;
          start = base;
          aligned_start = (start + page_sz - 1) AND NOT (page_sz - 1) in
      if base = NULL \<or> sz = 0 \<or> aligned_start \<ge> start + sz then
        s\<lparr>u_base := NULL, u_size := 0, u_next_page_off := 0, u_cur_page := NULL,
          u_cur_offset := 0\<rparr>
      else
        (let aligned_size = (sz - (aligned_start - start)) AND NOT (page_sz - 1) in
         s\<lparr>u_base := aligned_start, u_size := aligned_size, u_next_page_off := 0,
           u_cur_page := NULL, u_cur_offset := 0\<rparr>))"

text \<open>
  The test-and-set loop: it is left only by the iteration that finds the flag clear, and
  then the flag is set.  With nobody else to clear the flag it does not end: \<open>None\<close>.
\<close>

partial_function (option) spin_acquire :: "user_alloc \<Rightarrow> user_alloc option" where
  "spin_acquire s =
     (if u_lock s then spin_acquire (s\<lparr>u_lock := True\<rparr>) else Some (s\<lparr>u_lock := True\<rparr>))"

declare spin_acquire.simps [code]

definition user_obj_cnt_addr :: "user_alloc \<Rightarrow> ptr \<Rightarrow> ptr" where
  "user_obj_cnt_addr s page = page + u_page_size s - 8"

definition user_open_page :: "user_alloc \<Rightarrow> user_alloc" where
  "user_open_page s =
     (let page = u_base s + u_next_page_off s in
      s\<lparr>u_next_page_off := u_next_page_off s + u_page_size s,
        u_cur_page := page,
        u_cur_offset := u_page_size s - 8,
        u_obj_cnt := (u_obj_cnt s)(user_obj_cnt_addr s page := 0)\<rparr>)"

definition user_take_fragment :: "u64 \<Rightarrow> user_alloc \<Rightarrow> ptr \<times> user_alloc" where
  "user_take_fragment aligned s =
     (let page = u_cur_page s;
          offset = u_cur_offset s - aligned;
          obj_cnt = user_obj_cnt_addr s page in
      (page + offset,
       s\<lparr>u_obj_cnt := (u_obj_cnt s)(obj_cnt := u_obj_cnt s obj_cnt + 1),
         u_cur_offset := offset, u_lock := False\<rparr>))"

definition bpf_arena_alloc_user :: "u32 \<Rightarrow> user_alloc \<Rightarrow> (ptr \<times> user_alloc) option" where
  "bpf_arena_alloc_user sz s =
     (if u_base s = NULL \<or> u_size s = 0 \<or> u_page_size s = 0 then Some (NULL, s)
      else
        let aligned = round_up (ucast sz :: u64) 8 in
        if aligned = 0 \<or> aligned \<ge> u_page_size s - 8 then Some (NULL, s)
        else
          (case spin_acquire s of
             None \<Rightarrow> None
           | Some s \<Rightarrow>
               if u_cur_page s = NULL \<or> u_cur_offset s < aligned then
                 if u_next_page_off s > u_size s \<or>
                    u_page_size s > u_size s - u_next_page_off s
                 then Some (NULL, s\<lparr>u_lock := False\<rparr>)
                 else Some (user_take_fragment aligned (user_open_page s))
               else Some (user_take_fragment aligned s)))"

definition bpf_arena_free_user :: "ptr \<Rightarrow> user_alloc \<Rightarrow> user_alloc" where
  "bpf_arena_free_user addr s =
     (if addr = NULL \<or> u_page_size s = 0 then s
      else
        let page = addr AND NOT (u_page_size s - 1);
            obj_cnt = user_obj_cnt_addr s page in
        if u_obj_cnt s obj_cnt > 0
        then s\<lparr>u_obj_cnt := (u_obj_cnt s)(obj_cnt := u_obj_cnt s obj_cnt - 1)\<rparr>
        else s)"

subsection \<open>What a data structure relies on\<close>

text \<open>The bytes of a block, as natural numbers (no wrap-around).\<close>

definition block :: "ptr \<Rightarrow> u32 \<Rightarrow> nat set" where
  "block p n = {unat p ..< unat p + unat n}"

fun alloc_seq :: "'a allocator \<Rightarrow> u32 list \<Rightarrow> 'a \<Rightarrow> (ptr \<times> u32) list \<times> 'a" where
  "alloc_seq alloc [] s = ([], s)"
| "alloc_seq alloc (n # ns) s =
     (let (p, s1) = alloc n s; (bs, s2) = alloc_seq alloc ns s1 in
      (if p = NULL then bs else (p, n) # bs, s2))"

locale arena_allocator =
  fixes alloc :: "'a allocator"
    and ok :: "'a \<Rightarrow> bool"
    and used :: "'a \<Rightarrow> nat set"
  assumes alloc_ok: "ok s \<Longrightarrow> alloc n s = (p, s') \<Longrightarrow> ok s'"
    and alloc_used: "ok s \<Longrightarrow> alloc n s = (p, s') \<Longrightarrow> used s \<subseteq> used s'"
    and alloc_fresh: "ok s \<Longrightarrow> alloc n s = (p, s') \<Longrightarrow> p \<noteq> NULL \<Longrightarrow>
      block p n \<inter> used s = {} \<and> block p n \<subseteq> used s'"
    and alloc_bounded: "ok s \<Longrightarrow> alloc n s = (p, s') \<Longrightarrow> p \<noteq> NULL \<Longrightarrow>
      unat p + unat n \<le> 2 ^ 64"
begin

lemma alloc_seq_blocks:
  "ok s \<Longrightarrow> alloc_seq alloc ns s = (bs, s') \<Longrightarrow>
   ok s' \<and> used s \<subseteq> used s' \<and>
   (\<forall>(p, n) \<in> set bs. block p n \<inter> used s = {} \<and> block p n \<subseteq> used s') \<and>
   sorted_wrt (\<lambda>(p, n) (q, m). block p n \<inter> block q m = {}) bs"
proof (induction ns arbitrary: s bs)
  case Nil
  then show ?case by simp
next
  case (Cons n ns)
  obtain p s1 where a: "alloc n s = (p, s1)" by (cases "alloc n s")
  obtain bs1 where r: "alloc_seq alloc ns s1 = (bs1, s')"
    and bs: "bs = (if p = NULL then bs1 else (p, n) # bs1)"
    using Cons.prems(2) a by (auto split: prod.splits)
  have s1: "ok s1" "used s \<subseteq> used s1"
    using alloc_ok [OF Cons.prems(1) a] alloc_used [OF Cons.prems(1) a] by simp_all
  note IH = Cons.IH [OF s1(1) r]
  show ?case
  proof (cases "p = NULL")
    case True
    with IH s1 bs show ?thesis by fastforce
  next
    case False
    from alloc_fresh [OF Cons.prems(1) a False]
    have p: "block p n \<inter> used s = {}" "block p n \<subseteq> used s1" by simp_all
    have "\<forall>(q, m) \<in> set bs1. block p n \<inter> block q m = {}" using IH p by fastforce
    moreover have "\<forall>(q, m) \<in> set bs1. block q m \<inter> used s = {}" using IH s1 by fastforce
    moreover have "block p n \<subseteq> used s'" using IH p by blast
    ultimately show ?thesis using IH s1 p False bs by auto
  qed
qed

end

subsection \<open>The userspace allocator meets the contract\<close>

lemma spin_acquire_free: "\<not> u_lock s \<Longrightarrow> spin_acquire s = Some (s\<lparr>u_lock := True\<rparr>)"
  by (subst spin_acquire.simps) simp

lemma spin_acquire_held: "u_lock s \<Longrightarrow> spin_acquire s = None"
proof (rule ccontr)
  assume l: "u_lock s" and "spin_acquire s \<noteq> None"
  then obtain r where "spin_acquire s = Some r" by blast
  then have "\<not> u_lock s"
    by (rule spin_acquire.raw_induct [rotated, where P = "\<lambda>s r. \<not> u_lock s"])
       (metis user_alloc.select_convs(7) user_alloc.surjective
         user_alloc.update_convs(7))
  with l show False by simp
qed

text \<open>
  The state between calls: the flag is clear, the range does not wrap, and the current
  page is the last one opened, with its free bytes below \<open>u_cur_offset\<close>.
\<close>

definition user_ok :: "user_alloc \<Rightarrow> bool" where
  "user_ok s \<longleftrightarrow>
     \<not> u_lock s \<and>
     (u_base s \<noteq> NULL \<longrightarrow>
        unat (u_base s) + unat (u_size s) < 2 ^ 64 \<and>
        16 \<le> unat (u_page_size s) \<and>
        unat (u_next_page_off s) \<le> unat (u_size s) \<and>
        (u_cur_page s \<noteq> NULL \<longrightarrow>
           unat (u_page_size s) \<le> unat (u_next_page_off s) \<and>
           unat (u_cur_page s) + unat (u_page_size s) =
             unat (u_base s) + unat (u_next_page_off s) \<and>
           unat (u_cur_offset s) \<le> unat (u_page_size s) - 8))"

text \<open>Everything in the pages opened so far except the free part of the current page.\<close>

definition user_used :: "user_alloc \<Rightarrow> nat set" where
  "user_used s =
     (if u_base s = NULL then {}
      else {unat (u_base s) ..< unat (u_base s) + unat (u_next_page_off s)} -
           (if u_cur_page s = NULL then {}
            else {unat (u_cur_page s) ..< unat (u_cur_page s) + unat (u_cur_offset s)}))"

lemma pow2_word_8: "pow2_word (8 :: u64)"
  by (simp add: pow2_word_def)

lemma aligned_size_bound:
  assumes "round_up (ucast (sz :: u32) :: u64) 8 \<noteq> 0"
  shows "unat sz \<le> unat (round_up (ucast sz :: u64) 8)"
proof -
  have "(ucast sz :: u64) \<noteq> 0" using assms by (auto simp: round_up_zero)
  moreover have "unat (ucast sz :: u64) = unat sz" by (simp add: unsigned_ucast_eq take_bit_nat_eq_self_iff less_trans [OF unsigned_less])
  moreover have "unat sz < 2 ^ 32" using unsigned_less [of sz, where 'a = nat] by simp
  ultimately show ?thesis
    using round_up_bounds(1) [OF pow2_word_8, of "ucast sz :: u64"] by simp
qed

lemma user_take_fragment_spec:
  assumes c: "u_base s \<noteq> NULL" "u_cur_page s \<noteq> NULL"
    "unat (u_base s) + unat (u_size s) < 2 ^ 64" "16 \<le> unat (u_page_size s)"
    "unat (u_next_page_off s) \<le> unat (u_size s)"
    "unat (u_page_size s) \<le> unat (u_next_page_off s)"
    "unat (u_cur_page s) + unat (u_page_size s) = unat (u_base s) + unat (u_next_page_off s)"
    "unat (u_cur_offset s) \<le> unat (u_page_size s) - 8"
    and a: "unat aligned \<le> unat (u_cur_offset s)"
    and f: "user_take_fragment aligned s = (p, s')"
  shows "user_ok s' \<and> user_used s \<subseteq> user_used s' \<and> p \<noteq> NULL \<and>
    {unat p ..< unat p + unat aligned} \<inter> user_used s = {} \<and>
    {unat p ..< unat p + unat aligned} \<subseteq> user_used s'"
proof -
  have p: "p = u_cur_page s + (u_cur_offset s - aligned)"
    and s': "u_base s' = u_base s" "u_size s' = u_size s" "u_page_size s' = u_page_size s"
      "u_next_page_off s' = u_next_page_off s" "u_cur_page s' = u_cur_page s"
      "u_cur_offset s' = u_cur_offset s - aligned" "\<not> u_lock s'"
    using f by (auto simp: user_take_fragment_def Let_def)
  have o: "unat (u_cur_offset s - aligned) = unat (u_cur_offset s) - unat aligned"
    using a by (simp add: unat_sub word_le_nat_alt)
  have "unat (u_cur_page s) + unat (u_cur_offset s - aligned) < 2 ^ 64"
    using c o by linarith
  then have up: "unat p = unat (u_cur_page s) + (unat (u_cur_offset s) - unat aligned)"
    by (simp add: p unat_add_lem [THEN iffD1] o)
  have "0 < unat (u_cur_page s)" using c by (simp add: unat_gt_0)
  then have "p \<noteq> NULL" using up by auto
  moreover have "user_ok s'" using c a o by (simp add: user_ok_def s')
  moreover have "user_used s \<subseteq> user_used s'" using c o by (auto simp: user_used_def s')
  moreover have "{unat p ..< unat p + unat aligned} \<inter> user_used s = {}"
    using c a by (auto simp: user_used_def up)
  moreover have "{unat p ..< unat p + unat aligned} \<subseteq> user_used s'"
    using c a by (auto simp: user_used_def up s' o)
  ultimately show ?thesis by blast
qed

text \<open>Opening the next page: the old page's remainder is abandoned, the new page is free.\<close>

lemma user_open_page_spec:
  assumes ok: "user_ok s" and b: "u_base s \<noteq> NULL"
    and fits: "\<not> u_next_page_off s > u_size s"
      "\<not> u_page_size s > u_size s - u_next_page_off s"
  defines "t \<equiv> user_open_page (s\<lparr>u_lock := True\<rparr>)"
  shows "u_base t = u_base s" "u_size t = u_size s" "u_page_size t = u_page_size s"
    "u_cur_page t \<noteq> NULL"
    "unat (u_next_page_off t) = unat (u_next_page_off s) + unat (u_page_size s)"
    "unat (u_next_page_off t) \<le> unat (u_size s)"
    "unat (u_cur_page t) = unat (u_base s) + unat (u_next_page_off s)"
    "unat (u_cur_offset t) = unat (u_page_size s) - 8"
    "user_used s \<subseteq> user_used t"
proof -
  have r: "unat (u_base s) + unat (u_size s) < 2 ^ 64" "16 \<le> unat (u_page_size s)"
    using ok b by (simp_all add: user_ok_def)
  have "unat (u_size s - u_next_page_off s) = unat (u_size s) - unat (u_next_page_off s)"
    using fits(1) by (simp add: unat_sub not_less)
  then have n: "unat (u_next_page_off s) + unat (u_page_size s) \<le> unat (u_size s)"
    using fits by (simp add: not_less word_le_nat_alt)
  have t: "u_next_page_off t = u_next_page_off s + u_page_size s"
    "u_cur_page t = u_base s + u_next_page_off s" "u_cur_offset t = u_page_size s - 8"
    by (simp_all add: t_def user_open_page_def Let_def)
  show e: "u_base t = u_base s" "u_size t = u_size s" "u_page_size t = u_page_size s"
    by (simp_all add: t_def user_open_page_def Let_def)
  have "unat (u_next_page_off s) + unat (u_page_size s) < 2 ^ 64" using n r by linarith
  then show off: "unat (u_next_page_off t) = unat (u_next_page_off s) + unat (u_page_size s)"
    by (simp add: t unat_add_lem [THEN iffD1])
  with n show "unat (u_next_page_off t) \<le> unat (u_size s)" by simp
  have "unat (u_base s) + unat (u_next_page_off s) < 2 ^ 64" using n r by linarith
  then show pg: "unat (u_cur_page t) = unat (u_base s) + unat (u_next_page_off s)"
    by (simp add: t unat_add_lem [THEN iffD1])
  have "0 < unat (u_base s)" using b by (simp add: unat_gt_0)
  with pg show nn: "u_cur_page t \<noteq> NULL" by auto
  show o8: "unat (u_cur_offset t) = unat (u_page_size s) - 8"
    using r by (simp add: t unat_sub word_le_nat_alt)
  show "user_used s \<subseteq> user_used t"
    using b nn by (auto simp: user_used_def e off pg o8)
qed

text \<open>The allocator as a total function, for states in which the flag is clear.\<close>

definition user_allocator :: "user_alloc allocator" where
  "user_allocator n s = the (bpf_arena_alloc_user n s)"

lemma user_ok_lock: "user_ok s \<Longrightarrow> spin_acquire s = Some (s\<lparr>u_lock := True\<rparr>)"
  by (simp add: user_ok_def spin_acquire_free)

lemma user_alloc_returns:
  "user_ok s \<Longrightarrow> bpf_arena_alloc_user n s = Some (user_allocator n s)"
  by (simp add: user_allocator_def bpf_arena_alloc_user_def Let_def user_ok_lock)

lemma user_alloc_step:
  assumes ok: "user_ok s" and a: "bpf_arena_alloc_user n s = Some (p, s')"
  shows "user_ok s' \<and> user_used s \<subseteq> user_used s' \<and>
    (p \<noteq> NULL \<longrightarrow> block p n \<inter> user_used s = {} \<and> block p n \<subseteq> user_used s')"
proof -
  define aligned where "aligned = round_up (ucast n :: u64) 8"
  let ?l = "s\<lparr>u_lock := True\<rparr>"
  have fr: "user_used ?l = user_used s" by (simp add: user_used_def)
  have r: "user_ok (s\<lparr>u_lock := False\<rparr>)" using ok by (simp add: user_ok_def)
  consider (null) "p = NULL" "s' = s" | (full) "p = NULL" "s' = s\<lparr>u_lock := False\<rparr>"
    | (page) "u_base s \<noteq> NULL" "aligned \<noteq> 0" "aligned < u_page_size s - 8"
        "\<not> u_next_page_off s > u_size s" "\<not> u_page_size s > u_size s - u_next_page_off s"
        "user_take_fragment aligned (user_open_page ?l) = (p, s')"
    | (frag) "u_base s \<noteq> NULL" "aligned \<noteq> 0" "u_cur_page s \<noteq> NULL"
        "\<not> u_cur_offset s < aligned" "user_take_fragment aligned ?l = (p, s')"
    using a unfolding bpf_arena_alloc_user_def user_ok_lock [OF ok] aligned_def [symmetric] Let_def
    by (auto simp: not_le split: if_splits)
  then show ?thesis
  proof cases
    case null
    then show ?thesis using ok by simp
  next
    case full
    then show ?thesis using r by (simp add: user_used_def)
  next
    case page
    note sp = user_open_page_spec [OF ok page(1,4,5)]
    have u: "unat (u_base s) + unat (u_size s) < 2 ^ 64" "16 \<le> unat (u_page_size s)"
      using ok page(1) by (simp_all add: user_ok_def)
    have "unat (u_page_size s - 8) = unat (u_page_size s) - 8"
      using u by (simp add: unat_sub word_le_nat_alt)
    then have "unat aligned \<le> unat (u_page_size s) - 8" using page(3) by (simp add: word_less_nat_alt)
    with user_take_fragment_spec [OF _ _ _ _ _ _ _ _ _ page(6)] sp u page(1)
    have "user_ok s' \<and> user_used (user_open_page ?l) \<subseteq> user_used s' \<and>
      {unat p ..< unat p + unat aligned} \<inter> user_used (user_open_page ?l) = {} \<and>
      {unat p ..< unat p + unat aligned} \<subseteq> user_used s'" by simp
    moreover have "block p n \<subseteq> {unat p ..< unat p + unat aligned}"
      using aligned_size_bound [of n] page(2) by (auto simp: block_def aligned_def)
    ultimately show ?thesis using sp(9) by blast
  next
    case frag
    have "unat aligned \<le> unat (u_cur_offset s)" using frag(4) by (simp add: word_le_nat_alt not_less)
    with user_take_fragment_spec [OF _ _ _ _ _ _ _ _ _ frag(5)] ok frag(1,3)
    have "user_ok s' \<and> user_used s \<subseteq> user_used s' \<and>
      {unat p ..< unat p + unat aligned} \<inter> user_used s = {} \<and>
      {unat p ..< unat p + unat aligned} \<subseteq> user_used s'" by (simp add: user_ok_def fr)
    moreover have "block p n \<subseteq> {unat p ..< unat p + unat aligned}"
      using aligned_size_bound [of n] frag(2) by (auto simp: block_def aligned_def)
    ultimately show ?thesis by blast
  qed
qed

lemma user_used_bounded: "user_ok s \<Longrightarrow> user_used s \<subseteq> {..<2 ^ 64}"
  by (auto simp: user_ok_def user_used_def)

lemma block_bounded: "block p n \<subseteq> {..<2 ^ 64} \<Longrightarrow> unat p + unat n \<le> 2 ^ 64"
proof (cases "unat n = 0")
  case True
  then show ?thesis using unsigned_less [of p, where 'a = nat] by simp
next
  case False
  assume "block p n \<subseteq> {..<2 ^ 64}"
  moreover have "unat p + unat n - 1 \<in> block p n" using False by (simp add: block_def)
  ultimately have "unat p + unat n - 1 < 2 ^ 64" by blast
  then show ?thesis by linarith
qed

interpretation ua: arena_allocator user_allocator user_ok user_used
proof unfold_locales
  fix s n p s'
  assume ok: "user_ok s" and "user_allocator n s = (p, s')"
  then have a: "bpf_arena_alloc_user n s = Some (p, s')" by (simp add: user_alloc_returns)
  note st = user_alloc_step [OF ok a]
  then show "user_ok s'" "user_used s \<subseteq> user_used s'"
    "p \<noteq> NULL \<Longrightarrow> block p n \<inter> user_used s = {} \<and> block p n \<subseteq> user_used s'"
    by simp_all
  show "p \<noteq> NULL \<Longrightarrow> unat p + unat n \<le> 2 ^ 64"
    using st user_used_bounded [of s'] by (intro block_bounded) blast
qed

text \<open>
  C31.  Userspace allocation never hands out overlapping memory: from a state between
  calls, any sequence of requests returns (no spin on the lock), leaves the lock free,
  and the blocks of the successful requests are pairwise disjoint and disjoint from
  everything handed out before.
\<close>

theorem user_alloc_blocks_disjoint:
  assumes "user_ok s" and "alloc_seq user_allocator ns s = (bs, s')"
  shows "user_ok s' \<and> \<not> u_lock s' \<and>
    (\<forall>(p, n) \<in> set bs. block p n \<inter> user_used s = {}) \<and>
    sorted_wrt (\<lambda>(p, n) (q, m). block p n \<inter> block q m = {}) bs"
  using ua.alloc_seq_blocks [OF assms] by (auto simp: user_ok_def)

text \<open>A range of four pages, the first one as a witness of the states the theorem is about.\<close>

definition demo_user_alloc :: user_alloc where
  "demo_user_alloc =
     bpf_arena_userspace_set_range 4096 0x100000000010 0x5000
       \<lparr>u_base = 0, u_size = 0, u_page_size = 0, u_next_page_off = 0, u_cur_page = 0,
        u_cur_offset = 0, u_lock = False, u_obj_cnt = (\<lambda>_. 0)\<rparr>"

lemma demo_user_alloc_eq:
  "demo_user_alloc =
     \<lparr>u_base = 0x100000001000, u_size = 0x4000, u_page_size = 4096, u_next_page_off = 0,
      u_cur_page = 0, u_cur_offset = 0, u_lock = False, u_obj_cnt = (\<lambda>_. 0)\<rparr>"
  by (simp add: demo_user_alloc_def bpf_arena_userspace_set_range_def Let_def)

lemma demo_user_alloc_ok: "user_ok demo_user_alloc"
  by (simp add: demo_user_alloc_eq user_ok_def)

lemma demo_alloc_pair:
  "fst (alloc_seq user_allocator [24, 3000] demo_user_alloc) =
     [(0x100000001FE0, 24), (0x100000001428, 3000)]"
  by (simp add: demo_user_alloc_eq user_allocator_def bpf_arena_alloc_user_def round_up_def
      spin_acquire_free user_open_page_def user_take_fragment_def Let_def)

theorem user_alloc_blocks_disjoint_witness:
  "user_ok demo_user_alloc \<and>
   block 0x100000001FE0 24 \<inter> block 0x100000001428 3000 = {}"
proof -
  obtain bs s' where r: "alloc_seq user_allocator [24, 3000] demo_user_alloc = (bs, s')"
    by (cases "alloc_seq user_allocator [24, 3000] demo_user_alloc")
  with demo_alloc_pair have "bs = [(0x100000001FE0, 24), (0x100000001428, 3000)]" by simp
  with user_alloc_blocks_disjoint [OF demo_user_alloc_ok r] demo_user_alloc_ok
  show ?thesis by simp
qed

text \<open>Aligning the start of the range up to a page and its length down to whole pages.\<close>

lemma unat_align_up:
  fixes P x :: u64
  assumes P: "pow2_word P" and f: "unat x + unat P \<le> 2 ^ 64"
  shows "unat ((x + P - 1) AND NOT (P - 1)) = (unat x + unat P - 1) div unat P * unat P"
proof -
  have p0: "0 < unat P" using pow2_word_pos [OF P] .
  have pred: "unat (P - 1) = unat P - 1" using P by (simp add: unat_pred pow2_word_def)
  have "unat x + unat (P - 1) < 2 ^ 64" using f p0 by (simp only: pred)
  then have "unat (x + (P - 1)) = unat x + unat (P - 1)"
    by (simp add: unat_add_lem [THEN iffD1])
  then have "unat (x + P - 1) = unat x + unat P - 1"
    using p0 by (simp add: pred add_diff_eq)
  then show ?thesis by (simp add: unat_and_not_pow2_mask [OF P])
qed

lemma align_up_nat:
  fixes x P :: nat
  assumes "0 < P"
  shows "x \<le> (x + P - 1) div P * P" and "(x + P - 1) div P * P < x + P"
proof -
  have "(x + P - 1) div P * P + (x + P - 1) mod P = x + P - 1" by (rule div_mult_mod_eq)
  moreover have "(x + P - 1) mod P < P" using assms by simp
  ultimately show "x \<le> (x + P - 1) div P * P" "(x + P - 1) div P * P < x + P"
    using assms by linarith+
qed

lemma set_range_fields:
  fixes P :: u64 and s :: user_alloc
  assumes P: "pow2_word P" and sg: "0 < sint P"
    and f: "unat base + unat sz + unat P \<le> 2 ^ 64"
  defines "t \<equiv> bpf_arena_userspace_set_range P base sz s"
  shows "u_base t \<noteq> NULL \<Longrightarrow>
      u_page_size t = P \<and> unat P dvd unat (u_base t) \<and> unat P dvd unat (u_size t) \<and>
      unat base \<le> unat (u_base t) \<and>
      unat (u_base t) + unat (u_size t) \<le> unat base + unat sz"
    and "u_next_page_off t = 0" and "u_cur_page t = NULL" and "u_lock t = u_lock s"
proof -
  show "u_next_page_off t = 0" "u_cur_page t = NULL" "u_lock t = u_lock s"
    by (simp_all add: t_def bpf_arena_userspace_set_range_def Let_def)
  let ?a = "(base + P - 1) AND NOT (P - 1)"
  let ?m = "unat P"
  assume b: "u_base t \<noteq> NULL"
  have p0: "0 < ?m" using pow2_word_pos [OF P] .
  have ua: "unat ?a = (unat base + ?m - 1) div ?m * ?m" using f by (intro unat_align_up [OF P]) simp
  note al = align_up_nat [OF p0, of "unat base"]
  have c: "\<not> ?a \<ge> base + sz" and t: "u_base t = ?a" "u_page_size t = P"
      "u_size t = (sz - (?a - base)) AND NOT (P - 1)"
    using b sg unfolding t_def bpf_arena_userspace_set_range_def Let_def
    by (auto split: if_splits)
  have "unat (base + sz) = unat base + unat sz"
    using f p0 by (simp add: unat_add_lem [THEN iffD1])
  with c have lt: "unat ?a < unat base + unat sz" by (simp add: word_le_nat_alt)
  have d: "unat (?a - base) = unat ?a - unat base"
    using al ua by (simp add: unat_sub word_le_nat_alt)
  have "unat (?a - base) \<le> unat sz" using d lt by linarith
  then have e: "unat (sz - (?a - base)) = unat sz - (unat ?a - unat base)"
    by (simp add: unat_sub word_le_nat_alt d)
  have us: "unat (u_size t) = (unat sz - (unat ?a - unat base)) div ?m * ?m"
    by (simp add: t unat_and_not_pow2_mask [OF P] e)
  have le: "unat (u_size t) \<le> unat sz - (unat ?a - unat base)"
    by (simp add: us)
  have "unat base \<le> unat ?a" using al(1) by (simp only: ua)
  then have "unat ?a + unat (u_size t) \<le> unat base + unat sz" using le lt by linarith
  moreover have "?m dvd unat ?a" "?m dvd unat (u_size t)" by (simp_all only: ua us dvd_triv_right)
  ultimately show "u_page_size t = P \<and> ?m dvd unat (u_base t) \<and> ?m dvd unat (u_size t) \<and>
      unat base \<le> unat (u_base t) \<and> unat (u_base t) + unat (u_size t) \<le> unat base + unat sz"
    using \<open>unat base \<le> unat ?a\<close> by (simp only: t)
qed

text \<open>
  \<^verbatim>\<open>bpf_arena_userspace_set_range\<close> puts the allocator into a state the
  allocation theorem starts from, and the range it installs consists of whole pages,
  starts on a page boundary and lies inside the caller's range (for the power-of-two
  page sizes that \<^verbatim>\<open>sysconf\<close> returns and a range that does not reach the top of
  the address space).
\<close>

theorem set_range_establishes_user_ok:
  assumes "pow2_word P" and "16 \<le> unat P" and "0 < sint P"
    and "unat base + unat sz + unat P \<le> 2 ^ 64" and "\<not> u_lock s"
  shows "user_ok (bpf_arena_userspace_set_range P base sz s) \<and>
    (let t = bpf_arena_userspace_set_range P base sz s in
     u_base t \<noteq> NULL \<longrightarrow>
       unat P dvd unat (u_base t) \<and> unat P dvd unat (u_size t) \<and>
       {unat (u_base t) ..< unat (u_base t) + unat (u_size t)} \<subseteq>
         {unat base ..< unat base + unat sz})"
proof -
  note sr = set_range_fields [OF assms(1,3,4), where s = s]
  have "unat base + unat sz < 2 ^ 64" using assms(2,4) by linarith
  then show ?thesis
    using sr assms(2,5) by (auto simp: user_ok_def Let_def)
qed

theorem set_range_establishes_user_ok_witness:
  "user_ok (bpf_arena_userspace_set_range 4096 0x100000000010 0x5000 (demo_user_alloc\<lparr>u_size := 7\<rparr>))"
  using set_range_establishes_user_ok
    [of 4096 "0x100000000010" "0x5000" "demo_user_alloc\<lparr>u_size := 7\<rparr>"]
  by (simp add: pow2_word_def demo_user_alloc_eq)

subsection \<open>The kernel allocator\<close>

text \<open>
  The refill test is an unsigned comparison with 0 and so never true: once a CPU has a
  page, the request is carved off that page whether it fits or not.
\<close>

lemma kern_alloc_current_page:
  assumes "page_frag_cur_page s cpu \<noteq> NULL" and "round_up sz 8 < PAGE_SIZE - 8"
  shows "bpf_arena_alloc_kern alloc_pages cpu sz s =
    kern_take_fragment cpu (page_frag_cur_page s cpu) (round_up sz 8) s"
  using assms by (auto simp: bpf_arena_alloc_kern_def Let_def)

lemma unat_page_size [simp]: "unat PAGE_SIZE = 4096" "unat (PAGE_SIZE - 8) = 4088"
  by (simp_all add: PAGE_SIZE_def)

lemma kern_fragment_fits:
  assumes fit: "unat sz \<le> unat (page_frag_cur_offset s cpu)"
    and off: "unat (page_frag_cur_offset s cpu) \<le> 4088"
    and page: "unat page + 4096 \<le> 2 ^ 64"
    and k: "kern_take_fragment cpu page sz s = (p, s')"
  shows "unat p = unat page + (unat (page_frag_cur_offset s cpu) - unat sz)"
    and "unat (page_frag_cur_offset s' cpu) = unat (page_frag_cur_offset s cpu) - unat sz"
proof -
  let ?o = "page_frag_cur_offset s cpu - sz"
  have o: "unat ?o = unat (page_frag_cur_offset s cpu) - unat sz"
    using fit by (simp add: unat_sub word_le_nat_alt)
  then have "sint ?o = int (unat ?o)" using off by (intro sint_small_u32) simp
  then have "(scast ?o :: u64) = of_nat (unat ?o)"
    by (metis of_int_of_nat_eq of_int_sint)
  then have p: "p = page + of_nat (unat ?o)"
    and s': "page_frag_cur_offset s' cpu = ?o"
    using k by (auto simp: kern_take_fragment_def Let_def)
  show "unat (page_frag_cur_offset s' cpu) = unat (page_frag_cur_offset s cpu) - unat sz"
    by (simp add: s' o)
  have u: "unat (of_nat (unat ?o) :: u64) = unat ?o"
    using off o by (simp add: unat_of_nat)
  have "unat page + unat (of_nat (unat ?o) :: u64) < 2 ^ 64"
    using page off o u by linarith
  then have "unat p = unat page + unat (of_nat (unat ?o) :: u64)"
    unfolding p by (rule unat_plus_u64)
  then show "unat p = unat page + (unat (page_frag_cur_offset s cpu) - unat sz)"
    using u o by simp
qed

text \<open>Kernel fragments while the page has room: inside the page, below everything taken.\<close>

text \<open>
  While the rounded request fits in what is left of the CPU's page, the kernel
  allocator returns a block that lies inside the page, below every fragment already
  taken from it (the bytes from the current offset up to the counter) and below the
  object counter, and the counter and offset account for it.
\<close>

theorem kern_alloc_fits:
  assumes page: "page_frag_cur_page s cpu = page" "page \<noteq> NULL" "unat page + 4096 \<le> 2 ^ 64"
    and off: "unat (page_frag_cur_offset s cpu) \<le> 4088"
    and sz: "sz \<noteq> 0" "unat sz + 8 \<le> unat (page_frag_cur_offset s cpu)"
    and a: "bpf_arena_alloc_kern alloc_pages cpu sz s = (p, s')"
  shows "p \<noteq> NULL \<and>
    block p sz \<subseteq> {unat page ..< unat page + unat (page_frag_cur_offset s cpu)} \<and>
    unat p = unat page + unat (page_frag_cur_offset s' cpu) \<and>
    kern_obj_cnt s' (obj_cnt_addr page) = kern_obj_cnt s (obj_cnt_addr page) + 1 \<and>
    kern_pages s' = kern_pages s"
proof -
  have fits: "unat sz + unat (8 :: u32) \<le> 2 ^ 32" using sz(2) off by simp
  have p8: "pow2_word (8 :: u32)" by (simp add: pow2_word_def)
  have le: "unat sz \<le> unat (round_up sz 8)" and lt: "unat (round_up sz 8) < unat sz + 8"
    using round_up_bounds [OF p8 sz(1)] fits by simp_all
  have r: "round_up sz 8 < PAGE_SIZE - 8" using lt sz(2) off by (simp add: word_less_nat_alt)
  have k: "kern_take_fragment cpu page (round_up sz 8) s = (p, s')"
    using kern_alloc_current_page [of s cpu sz alloc_pages] page r a by simp
  have up: "unat p = unat page + (unat (page_frag_cur_offset s cpu) - unat (round_up sz 8))"
    and uo: "unat (page_frag_cur_offset s' cpu) =
      unat (page_frag_cur_offset s cpu) - unat (round_up sz 8)"
    using kern_fragment_fits [OF _ off page(3) k] lt sz(2) by simp_all
  have "0 < unat page" using page(2) by (simp add: unat_gt_0)
  then have "p \<noteq> NULL" using up by auto
  moreover have "block p sz \<subseteq> {unat page ..< unat page + unat (page_frag_cur_offset s cpu)}"
    using up le lt sz(2) by (auto simp: block_def)
  moreover have "unat p = unat page + unat (page_frag_cur_offset s' cpu)" using up uo by simp
  moreover have "kern_obj_cnt s' (obj_cnt_addr page) = kern_obj_cnt s (obj_cnt_addr page) + 1"
    "kern_pages s' = kern_pages s"
    using k by (auto simp: kern_take_fragment_def Let_def)
  ultimately show ?thesis by blast
qed

text \<open>A CPU that owns the page at 0x10000 with \<open>n\<close> bytes left in it.\<close>

definition demo_kern_alloc :: "u32 \<Rightarrow> nat kern_alloc" where
  "demo_kern_alloc n =
     \<lparr>page_frag_cur_page = (\<lambda>_. NULL)(0 := 0x10000), page_frag_cur_offset = (\<lambda>_. 0)(0 := n),
      kern_obj_cnt = (\<lambda>_. 0), kern_pages = 0\<rparr>"

theorem kern_alloc_fits_witness:
  "block 0x10FE0 24 \<subseteq> {0x10000 ..< 0x10FF8}"
proof -
  have "bpf_arena_alloc_kern (\<lambda>k. (0x20000, Suc k)) 0 24 (demo_kern_alloc 4088) =
    (0x10FE0, (demo_kern_alloc 4088)\<lparr>page_frag_cur_offset := (\<lambda>_. 0)(0 := 4064),
      kern_obj_cnt := (\<lambda>_. 0)(0x10FF8 := 1)\<rparr>)"
    by (simp add: bpf_arena_alloc_kern_def kern_take_fragment_def demo_kern_alloc_def
        obj_cnt_addr_def PAGE_SIZE_def round_up_def Let_def)
  from kern_alloc_fits [OF _ _ _ _ _ _ this, of "0x10000"]
  show ?thesis by (simp add: demo_kern_alloc_def)
qed

text \<open>
  C35.  When the rounded request does not fit in what is left of the CPU's page, the
  kernel allocator neither takes a new page nor fails: it returns an address below the
  page, so that the block starts outside the page the allocator owns, and leaves a
  negative offset behind.
\<close>

theorem kern_alloc_escapes_page:
  assumes page: "page_frag_cur_page s cpu = page" "4096 \<le> unat page"
    and r: "round_up sz 8 < PAGE_SIZE - 8"
    and short: "unat (page_frag_cur_offset s cpu) < unat (round_up sz 8)"
    and a: "bpf_arena_alloc_kern alloc_pages cpu sz s = (p, s')"
  shows "unat p + (unat (round_up sz 8) - unat (page_frag_cur_offset s cpu)) = unat page \<and>
    p \<noteq> NULL \<and> sint (page_frag_cur_offset s' cpu) < 0 \<and> kern_pages s' = kern_pages s"
proof -
  let ?o = "page_frag_cur_offset s cpu - round_up sz 8"
  let ?d = "unat (round_up sz 8) - unat (page_frag_cur_offset s cpu)"
  have ne: "page \<noteq> NULL" using page(2) by auto
  have rs: "unat (round_up sz 8) < 4088" using r by (simp add: word_less_nat_alt)
  have k: "kern_take_fragment cpu page (round_up sz 8) s = (p, s')"
    using kern_alloc_current_page [of s cpu sz alloc_pages] page ne r a by simp
  then have p: "p = page + scast ?o" and s': "page_frag_cur_offset s' cpu = ?o"
      "kern_pages s' = kern_pages s"
    by (auto simp: kern_take_fragment_def Let_def)
  have neg: "?o = - of_nat ?d" using short by simp
  have "sint (of_int (- int ?d) :: u32) = - int ?d"
    using rs by (intro sint_of_int_u32) simp_all
  then have sn: "sint ?o = - int ?d" by (simp only: neg of_int_minus of_int_of_nat_eq)
  then have "(scast ?o :: u64) = - of_nat ?d"
    by (metis of_int_minus of_int_of_nat_eq of_int_sint)
  then have "p = page - of_nat ?d" by (simp add: p)
  moreover have "unat (of_nat ?d :: u64) = ?d" using rs by (simp add: unat_of_nat)
  ultimately have up: "unat p = unat page - ?d"
    using page(2) rs by (simp add: unat_sub word_le_nat_alt)
  have d: "0 < ?d" "?d < 4096" using short rs by simp_all
  then have "sint (page_frag_cur_offset s' cpu) < 0" by (simp only: s' sn)
  moreover have "unat p + ?d = unat page" "p \<noteq> NULL" using up page(2) d by auto
  ultimately show ?thesis using s' by blast
qed

theorem kern_alloc_escapes_page_witness:
  "fst (bpf_arena_alloc_kern (\<lambda>k. (0x20000, Suc k)) 0 24 (demo_kern_alloc 16)) = 0xFFF8"
proof -
  obtain p s' where a:
    "bpf_arena_alloc_kern (\<lambda>k. (0x20000, Suc k)) 0 24 (demo_kern_alloc 16) = (p, s')"
    by (cases "bpf_arena_alloc_kern (\<lambda>k. (0x20000, Suc k)) 0 24 (demo_kern_alloc 16)")
  have "unat p + 8 = 0x10000"
    using kern_alloc_escapes_page [OF _ _ _ _ a, of "0x10000"]
    by (simp add: demo_kern_alloc_def round_up_def PAGE_SIZE_def)
  then have "unat p = unat (0xFFF8 :: ptr)" by simp
  then show ?thesis using a by (simp only: fst_conv unsigned_word_eqI)
qed

text \<open>
  C36.  Freeing the last fragment of the CPU's current page gives the page back to the
  kernel but does not forget it: the next small allocation on that CPU still carves its
  block out of the released page, without asking for a page.
\<close>

theorem kern_free_leaves_dangling_page:
  assumes page: "page_frag_cur_page s cpu = page" "page \<noteq> NULL"
    and addr: "addr AND NOT (ucast PAGE_SIZE - 1) = page"
    and last: "kern_obj_cnt s (obj_cnt_addr page) = 1"
    and sz: "round_up sz 8 < PAGE_SIZE - 8"
    and free: "s1 = bpf_arena_free_kern free_pages addr s"
  shows "kern_pages s1 = free_pages page (kern_pages s) \<and>
    page_frag_cur_page s1 cpu = page \<and>
    fst (bpf_arena_alloc_kern alloc_pages cpu sz s1) =
      page + scast (page_frag_cur_offset s cpu - round_up sz 8) \<and>
    kern_pages (snd (bpf_arena_alloc_kern alloc_pages cpu sz s1)) = kern_pages s1"
proof -
  have s1: "kern_pages s1 = free_pages page (kern_pages s)"
    "page_frag_cur_page s1 = page_frag_cur_page s"
    "page_frag_cur_offset s1 = page_frag_cur_offset s"
    using addr last by (simp_all add: free bpf_arena_free_kern_def Let_def)
  then have "bpf_arena_alloc_kern alloc_pages cpu sz s1 =
      kern_take_fragment cpu page (round_up sz 8) s1"
    using kern_alloc_current_page [of s1 cpu sz alloc_pages] page sz by simp
  then show ?thesis using s1 page by (simp add: kern_take_fragment_def Let_def)
qed

theorem kern_free_leaves_dangling_page_witness:
  "fst (bpf_arena_alloc_kern (\<lambda>k. (0x20000, k)) 0 24
     (bpf_arena_free_kern (\<lambda>p k. k + unat p) 0x10FE0
       ((demo_kern_alloc 4064)\<lparr>kern_obj_cnt := (\<lambda>_. 1)\<rparr>))) = 0x10FC8"
  using kern_free_leaves_dangling_page
    [of "(demo_kern_alloc 4064)\<lparr>kern_obj_cnt := (\<lambda>_. 1)\<rparr>" 0 "0x10000" "0x10FE0" 24
      _ "\<lambda>p k. k + unat p" "\<lambda>k. (0x20000, k)"]
  by (simp add: demo_kern_alloc_def round_up_def PAGE_SIZE_def)

subsection \<open>Releasing memory\<close>

text \<open>
  What a structure that also releases nodes relies on: releasing keeps the allocator
  usable and makes no released byte available again.
\<close>

locale freeing_allocator = arena_allocator +
  fixes free :: "ptr \<Rightarrow> 'a \<Rightarrow> 'a"
  assumes free_ok: "ok s \<Longrightarrow> ok (free p s)"
    and free_used: "ok s \<Longrightarrow> used (free p s) = used s"

interpretation uf: freeing_allocator user_allocator user_ok user_used bpf_arena_free_user
proof unfold_locales
  fix s p
  have "u_base (bpf_arena_free_user p s) = u_base s" "u_size (bpf_arena_free_user p s) = u_size s"
    "u_page_size (bpf_arena_free_user p s) = u_page_size s" "u_lock (bpf_arena_free_user p s) = u_lock s"
    "u_next_page_off (bpf_arena_free_user p s) = u_next_page_off s"
    "u_cur_page (bpf_arena_free_user p s) = u_cur_page s"
    "u_cur_offset (bpf_arena_free_user p s) = u_cur_offset s"
    by (simp_all add: bpf_arena_free_user_def Let_def)
  then show "user_ok s \<Longrightarrow> user_ok (bpf_arena_free_user p s)"
    "user_ok s \<Longrightarrow> user_used (bpf_arena_free_user p s) = user_used s"
    by (simp_all add: user_ok_def user_used_def)
qed

end
