(* ===== verification/KvRing.thy ===== *)
theory KvRing
  imports LaneContracts ArenaAlloc
begin

text \<open>
  Circular arrays of \<^verbatim>\<open>struct ds_kv\<close> in arena memory, shared by the three
  single-producer single-consumer rings: the address of a slot, the number of occupied
  slots between two indices, and the effect of writing or releasing one slot on the list
  the array represents.
\<close>

subsection \<open>Slot addresses\<close>

text \<open>\<^verbatim>\<open>&records[i]\<close> for an array of 16-byte \<^verbatim>\<open>struct ds_kv\<close>.\<close>

definition kv_slot :: "ptr \<Rightarrow> u32 \<Rightarrow> ptr" where
  "kv_slot base i = base + 16 * ucast i"

lemma unat_16_ucast: "unat (16 * ucast (i :: u32) :: u64) = 16 * unat i"
proof -
  have "unat i < 2 ^ 32" using unsigned_less [of i, where 'a = nat] by simp
  then show ?thesis by (simp add: unat_word_ariths unat_ucast_u64)
qed

lemma kv_slot_inject [simp]: "kv_slot base i = kv_slot base j \<longleftrightarrow> i = j"
proof
  assume "kv_slot base i = kv_slot base j"
  then have "unat (16 * ucast i :: u64) = unat (16 * ucast j :: u64)" by (simp add: kv_slot_def)
  then have "unat i = unat j" by (simp add: unat_16_ucast)
  then show "i = j" by (rule unsigned_word_eqI)
qed simp

text \<open>The request \<^verbatim>\<open>n * sizeof(struct ds_kv)\<close>, truncated to the parameter's 32 bits.\<close>

definition kv_bytes :: "u32 \<Rightarrow> u32" where
  "kv_bytes n = ucast (ucast n * 16 :: u64)"

lemma unat_kv_bytes: "unat (kv_bytes n) = (16 * unat n) mod 2 ^ 32"
  by (simp add: kv_bytes_def unsigned_ucast_eq take_bit_nat_def mult.commute [of _ 16] unat_16_ucast)

text \<open>When the byte count does not overflow, every slot lies inside the block.\<close>

lemma kv_slot_in_block:
  assumes "unat n < 2 ^ 28" and "unat i < unat n" and "unat base + 16 * unat n \<le> 2 ^ 64"
  shows "{unat (kv_slot base i) ..< unat (kv_slot base i) + 16} \<subseteq> block base (kv_bytes n)"
proof -
  have b: "unat (kv_bytes n) = 16 * unat n" using assms(1) by (simp add: unat_kv_bytes)
  have "unat base + unat (16 * ucast i :: u64) < 2 ^ 64"
    using assms(2,3) by (simp only: unat_16_ucast)
  then have "unat (kv_slot base i) = unat base + 16 * unat i"
    by (simp add: kv_slot_def unat_plus_u64 unat_16_ucast)
  then show ?thesis using assms(2) by (auto simp: block_def b)
qed

text \<open>
  With any allocator that keeps the contract, the slots of an array of fewer than
  \<open>2 ^ 28\<close> elements overlap nothing handed out before.
\<close>

context arena_allocator
begin

lemma kv_array_fresh:
  assumes "ok s" and "alloc (kv_bytes n) s = (p, s')" and "p \<noteq> NULL"
    and "unat n < 2 ^ 28" and "unat i < unat n"
  shows "{unat (kv_slot p i) ..< unat (kv_slot p i) + 16} \<inter> used s = {} \<and>
    {unat (kv_slot p i) ..< unat (kv_slot p i) + 16} \<subseteq> used s'"
proof -
  have "unat (kv_bytes n) = 16 * unat n" using assms(4) by (simp add: unat_kv_bytes)
  then have "unat p + 16 * unat n \<le> 2 ^ 64" using alloc_bounded [OF assms(1-3)] by simp
  from kv_slot_in_block [OF assms(4,5) this] alloc_fresh [OF assms(1-3)] show ?thesis by blast
qed

end

subsection \<open>The arena of a ring\<close>

text \<open>
  The arena as a ring header sees it: heads of type \<open>'h\<close> and \<^verbatim>\<open>struct ds_kv\<close>
  slots by address, and the state of the allocator.
\<close>

record ('h, 'a) kv_arena =
  kv_heads :: "ptr \<Rightarrow> 'h"
  kv_mem :: "ptr \<Rightarrow> ds_kv"
  kv_alloc :: 'a

definition kv_set_head :: "ptr \<Rightarrow> 'h \<Rightarrow> ('h, 'a) kv_arena \<Rightarrow> ('h, 'a) kv_arena" where
  "kv_set_head hp h A = A\<lparr>kv_heads := (kv_heads A)(hp := h)\<rparr>"

definition kv_set_slot :: "ptr \<Rightarrow> u64 \<Rightarrow> u64 \<Rightarrow> ('h, 'a) kv_arena \<Rightarrow> ('h, 'a) kv_arena" where
  "kv_set_slot a k v A =
     A\<lparr>kv_mem := (kv_mem A)(a := (kv_mem A a)\<lparr>key := k, val := v\<rparr>)\<rparr>"

lemma kv_set_head_acc [simp]:
  "kv_heads (kv_set_head hp h A) = (kv_heads A)(hp := h)" "kv_mem (kv_set_head hp h A) = kv_mem A"
  "kv_alloc (kv_set_head hp h A) = kv_alloc A"
  by (simp_all add: kv_set_head_def)

lemma kv_set_slot_acc [simp]:
  "kv_heads (kv_set_slot a k v A) = kv_heads A" "kv_alloc (kv_set_slot a k v A) = kv_alloc A"
  "kv_mem (kv_set_slot a (key x) (val x) A) = (kv_mem A)(a := x)"
  by (simp_all add: kv_set_slot_def)

subsection \<open>Occupied slots\<close>

definition ring_count :: "nat \<Rightarrow> nat \<Rightarrow> nat \<Rightarrow> nat" where
  "ring_count w r cap = (w + cap - r) mod cap"

lemma ring_count_if:
  "w < cap \<Longrightarrow> r < cap \<Longrightarrow> ring_count w r cap = (if r \<le> w then w - r else w + cap - r)"
  by (auto simp: ring_count_def mod_if)

lemma succ_mod_if: "w < cap \<Longrightarrow> Suc w mod cap = (if Suc w = cap then 0 else Suc w)"
  by (auto simp: mod_if)

lemma ring_count_less: "0 < cap \<Longrightarrow> ring_count w r cap < cap"
  by (simp add: ring_count_def)

lemma ring_count_reaches: "w < cap \<Longrightarrow> r < cap \<Longrightarrow> (r + ring_count w r cap) mod cap = w"
  by (auto simp: ring_count_if mod_if)

lemma ring_count_zero_iff: "w < cap \<Longrightarrow> r < cap \<Longrightarrow> ring_count w r cap = 0 \<longleftrightarrow> w = r"
  by (auto simp: ring_count_if)

lemma ring_count_full_iff:
  "w < cap \<Longrightarrow> r < cap \<Longrightarrow> Suc w mod cap = r \<longleftrightarrow> ring_count w r cap = cap - 1"
  by (auto simp: ring_count_if succ_mod_if)

lemma ring_count_push:
  "w < cap \<Longrightarrow> r < cap \<Longrightarrow> Suc w mod cap \<noteq> r \<Longrightarrow>
   ring_count (Suc w mod cap) r cap = Suc (ring_count w r cap)"
  by (auto simp: ring_count_if succ_mod_if split: if_splits)

lemma ring_count_pop:
  "w < cap \<Longrightarrow> r < cap \<Longrightarrow> w \<noteq> r \<Longrightarrow>
   ring_count w r cap = Suc (ring_count w (Suc r mod cap) cap)"
  by (auto simp: ring_count_if succ_mod_if split: if_splits)

subsection \<open>The list in the array\<close>

definition kv_ring :: "(ptr \<Rightarrow> ds_kv) \<Rightarrow> ptr \<Rightarrow> nat \<Rightarrow> nat \<Rightarrow> nat \<Rightarrow> ds_kv list" where
  "kv_ring mem base r n cap = ring_list (\<lambda>i. mem (kv_slot base (of_nat i))) r n cap"

lemma length_kv_ring [simp]: "length (kv_ring mem base r n cap) = n"
  by (simp add: kv_ring_def)

lemma kv_ring_0 [simp]: "kv_ring mem base r 0 cap = []"
  by (simp add: kv_ring_def)

lemma of_nat_u32_inject: "i < 2 ^ 32 \<Longrightarrow> j < 2 ^ 32 \<Longrightarrow> (of_nat i :: u32) = of_nat j \<longleftrightarrow> i = j"
  by (simp add: word_of_nat_eq_iff take_bit_nat_eq_self)

lemma kv_ring_push:
  assumes "n < cap" and "cap \<le> 2 ^ 32" and "a = kv_slot base (of_nat ((r + n) mod cap))"
  shows "kv_ring (mem(a := x)) base r (Suc n) cap = kv_ring mem base r n cap @ [x]"
  unfolding kv_ring_def
proof (rule ring_list_snoc)
  fix i
  assume "i < n"
  then have "(r + i) mod cap \<noteq> (r + n) mod cap"
    using mod_add_eq_window [of r i cap n] assms(1) by auto
  moreover have "(r + i) mod cap < 2 ^ 32" "(r + n) mod cap < 2 ^ 32"
    using assms(1,2) by (auto intro: less_le_trans [OF mod_less_divisor])
  ultimately have "(of_nat ((r + i) mod cap) :: u32) \<noteq> of_nat ((r + n) mod cap)"
    by (simp add: of_nat_u32_inject)
  then show "(mem(a := x)) (kv_slot base (of_nat ((r + i) mod cap))) =
      mem (kv_slot base (of_nat ((r + i) mod cap)))"
    by (simp add: assms(3))
qed (use assms in simp_all)

text \<open>Storing into the slot behind the last occupied one changes nothing yet.\<close>

lemma kv_ring_write:
  assumes "n < cap" and "cap \<le> 2 ^ 32" and "a = kv_slot base (of_nat ((r + n) mod cap))"
  shows "kv_ring (mem(a := x)) base r n cap = kv_ring mem base r n cap"
  using kv_ring_push [OF assms, of mem x] by (simp add: kv_ring_def ring_list_def)

lemma kv_ring_front:
  "kv_ring mem base r (Suc n) cap =
     mem (kv_slot base (of_nat (r mod cap))) # kv_ring mem base (Suc r mod cap) n cap"
  by (simp add: kv_ring_def ring_list_Suc_front ring_list_mod_start)

lemma kv_ring_other:
  assumes "\<And>i. i < cap \<Longrightarrow> mem' (kv_slot base (of_nat i)) = mem (kv_slot base (of_nat i))"
    and "0 < cap"
  shows "kv_ring mem' base r n cap = kv_ring mem base r n cap"
  using assms unfolding kv_ring_def by (intro ring_list_cong) simp

subsection \<open>Rings between a write and a read index\<close>

text \<open>
  \<open>ring_rel mem base w r cap xs\<close>: the slots from read index \<open>r\<close> up to write index \<open>w\<close>
  of the array at \<open>base\<close> hold \<open>xs\<close>; one of the \<open>cap\<close> slots stays empty.
\<close>

definition ring_rel :: "(ptr \<Rightarrow> ds_kv) \<Rightarrow> ptr \<Rightarrow> nat \<Rightarrow> nat \<Rightarrow> nat \<Rightarrow> ds_kv list \<Rightarrow> bool" where
  "ring_rel mem base w r cap xs \<longleftrightarrow> w < cap \<and> r < cap \<and> 2 \<le> cap \<and> cap \<le> 2 ^ 32 \<and>
     xs = kv_ring mem base r (ring_count w r cap) cap"

lemma ring_rel_length: "ring_rel mem base w r cap xs \<Longrightarrow> length xs = ring_count w r cap"
  by (simp add: ring_rel_def)

lemma ring_rel_length_less: "ring_rel mem base w r cap xs \<Longrightarrow> length xs < cap"
  by (auto simp: ring_rel_def intro: ring_count_less)

lemma ring_rel_empty_iff: "ring_rel mem base w r cap xs \<Longrightarrow> xs = [] \<longleftrightarrow> r = w"
  using ring_count_zero_iff [of w cap r] by (auto simp: ring_rel_def simp flip: length_0_conv)

lemma ring_rel_full_iff:
  "ring_rel mem base w r cap xs \<Longrightarrow> Suc w mod cap = r \<longleftrightarrow> \<not> length xs + 1 < cap"
  using ring_rel_length_less [of mem base w r cap xs]
  by (auto simp: ring_rel_def ring_count_full_iff)

lemma ring_rel_push:
  assumes q: "ring_rel mem base w r cap xs" and nf: "Suc w mod cap \<noteq> r"
  shows "ring_rel (mem(kv_slot base (of_nat w) := x)) base (Suc w mod cap) r cap (xs @ [x])"
proof -
  have b: "w < cap" "r < cap" "cap \<le> 2 ^ 32" using q by (simp_all add: ring_rel_def)
  have "ring_count (Suc w mod cap) r cap = Suc (ring_count w r cap)"
    using b nf by (simp add: ring_count_push)
  moreover have "w = (r + ring_count w r cap) mod cap" using b by (simp add: ring_count_reaches)
  moreover have "ring_count w r cap < cap" using b by (intro ring_count_less) simp
  ultimately show ?thesis
    using q kv_ring_push [of "ring_count w r cap" cap "kv_slot base (of_nat w)" base r mem x] b(3)
    by (simp add: ring_rel_def)
qed

text \<open>The two halves of a push: the store into the free slot, and the new write index.\<close>

lemma ring_rel_write:
  assumes q: "ring_rel mem base w r cap xs" and nf: "Suc w mod cap \<noteq> r"
  shows "ring_rel (mem(kv_slot base (of_nat w) := y)) base w r cap xs"
  using q kv_ring_write [of "ring_count w r cap" cap "kv_slot base (of_nat w)" base r mem y]
  by (simp add: ring_rel_def ring_count_reaches ring_count_less)

lemma ring_rel_publish:
  assumes "ring_rel mem base w r cap xs" and "Suc w mod cap \<noteq> r" and "mem (kv_slot base (of_nat w)) = x"
  shows "ring_rel mem base (Suc w mod cap) r cap (xs @ [x])"
  using ring_rel_push [OF assms(1,2), of x] assms(3) by (simp add: fun_upd_idem)

lemma ring_rel_pop:
  assumes q: "ring_rel mem base w r cap (x # xs)"
  shows "r \<noteq> w" and "mem (kv_slot base (of_nat r)) = x"
    and "ring_rel mem base w (Suc r mod cap) cap xs"
proof -
  have b: "w < cap" "r < cap" using q by (simp_all add: ring_rel_def)
  show ne: "r \<noteq> w" using ring_rel_empty_iff [OF q] by simp
  then have "x # xs = mem (kv_slot base (of_nat r)) # kv_ring mem base (Suc r mod cap)
      (ring_count w (Suc r mod cap) cap) cap"
    using q b ring_count_pop [of w cap r] by (simp add: ring_rel_def kv_ring_front)
  then show "mem (kv_slot base (of_nat r)) = x" "ring_rel mem base w (Suc r mod cap) cap xs"
    using q b by (simp_all add: ring_rel_def)
qed

lemma ring_rel_pop_room:
  "ring_rel mem base w r cap (x # xs) \<Longrightarrow> Suc w mod cap \<noteq> Suc r mod cap"
  using ring_rel_pop(1) [of mem base w r cap x xs]
  by (auto simp: ring_rel_def succ_mod_if split: if_splits)

lemma ring_rel_init: "2 \<le> cap \<Longrightarrow> cap \<le> 2 ^ 32 \<Longrightarrow> ring_rel mem base 0 0 cap []"
  by (simp add: ring_rel_def ring_count_def)

end
