(* ===== verification/FollySpsc.thy ===== *)
theory FollySpsc
  imports KvRing
begin

text \<open>
  The Folly-style single-producer single-consumer ring of
  \<^verbatim>\<open>include/ds_folly_spsc.h\<close>.  One definition per function and variant; loads and
  stores are sequential here (the interleaving of the two sides is the subject of a
  theory of its own).  Indices are 32-bit, the slot array has \<open>spsc_size\<close> entries of
  which one stays empty.
\<close>

subsection \<open>State\<close>

record ds_spsc_queue_head =
  spsc_write_idx :: u32
  spsc_read_idx :: u32
  spsc_size :: u32
  spsc_records :: ptr

type_synonym 'a spsc_arena = "(ds_spsc_queue_head, 'a) kv_arena"

subsection \<open>Initialisation\<close>

definition ds_spsc_init_lkmm ::
  "'a allocator \<Rightarrow> ptr \<Rightarrow> u32 \<Rightarrow> 'a spsc_arena \<Rightarrow> int \<times> 'a spsc_arena" where
  "ds_spsc_init_lkmm bpf_arena_alloc hp sz A =
     (if sz < 2 then (DS_ERROR_INVALID, A)
      else
        let (records, al) = bpf_arena_alloc (kv_bytes sz) (kv_alloc A);
            A = A\<lparr>kv_alloc := al\<rparr> in
        if records = NULL then (DS_ERROR_NOMEM, A)
        else
          let h = (kv_heads A hp)\<lparr>spsc_size := sz\<rparr>;
              h = h\<lparr>spsc_read_idx := 0\<rparr>;
              h = h\<lparr>spsc_write_idx := 0\<rparr>;
              h = h\<lparr>spsc_records := records\<rparr> in
          (DS_SUCCESS, kv_set_head hp h A))"

definition ds_spsc_init_c ::
  "'a allocator \<Rightarrow> ptr \<Rightarrow> u32 \<Rightarrow> 'a spsc_arena \<Rightarrow> int \<times> 'a spsc_arena" where
  "ds_spsc_init_c bpf_arena_alloc hp sz A =
     (if sz < 2 then (DS_ERROR_INVALID, A)
      else
        let (records, al) = bpf_arena_alloc (kv_bytes sz) (kv_alloc A);
            A = A\<lparr>kv_alloc := al\<rparr> in
        if records = NULL then (DS_ERROR_NOMEM, A)
        else
          (DS_SUCCESS,
           kv_set_head hp
             ((kv_heads A hp)\<lparr>spsc_size := sz, spsc_read_idx := 0, spsc_write_idx := 0,
                spsc_records := records\<rparr>) A))"

definition ds_spsc_init ::
  "side \<Rightarrow> 'a allocator \<Rightarrow> ptr \<Rightarrow> u32 \<Rightarrow> 'a spsc_arena \<Rightarrow> int \<times> 'a spsc_arena" where
  "ds_spsc_init sd alloc hp sz A =
     (case sd of BPF \<Rightarrow> ds_spsc_init_lkmm alloc hp sz A
      | USERSPACE \<Rightarrow> ds_spsc_init_c alloc hp sz A)"

subsection \<open>Insertion (producer)\<close>

definition ds_spsc_insert_lkmm ::
  "ptr \<Rightarrow> u64 \<Rightarrow> u64 \<Rightarrow> 'a spsc_arena \<Rightarrow> int \<times> 'a spsc_arena" where
  "ds_spsc_insert_lkmm hp k v A =
     (let h = kv_heads A hp;
          current_write = spsc_write_idx h;
          next_record = current_write + 1;
          next_record = (if next_record \<ge> spsc_size h then 0 else next_record);
          current_read = spsc_read_idx h in
      if next_record \<noteq> current_read then
        let node = kv_slot (spsc_records h) current_write;
            A = kv_set_slot node k v A;
            A = kv_set_head hp ((kv_heads A hp)\<lparr>spsc_write_idx := next_record\<rparr>) A in
        (DS_SUCCESS, A)
      else (DS_ERROR_FULL, A))"

definition ds_spsc_insert_c ::
  "ptr \<Rightarrow> u64 \<Rightarrow> u64 \<Rightarrow> 'a spsc_arena \<Rightarrow> int \<times> 'a spsc_arena" where
  "ds_spsc_insert_c hp k v A =
     (let h = kv_heads A hp;
          current_write = spsc_write_idx h;
          next_record = (if current_write + 1 \<ge> spsc_size h then 0 else current_write + 1);
          current_read = spsc_read_idx h in
      if next_record \<noteq> current_read then
        let node = kv_slot (spsc_records h) current_write;
            A = A\<lparr>kv_mem := (kv_mem A)(node := (kv_mem A node)\<lparr>key := k\<rparr>)\<rparr>;
            A = A\<lparr>kv_mem := (kv_mem A)(node := (kv_mem A node)\<lparr>val := v\<rparr>)\<rparr>;
            A = kv_set_head hp ((kv_heads A hp)\<lparr>spsc_write_idx := next_record\<rparr>) A in
        (DS_SUCCESS, A)
      else (DS_ERROR_FULL, A))"

definition ds_spsc_insert ::
  "side \<Rightarrow> ptr \<Rightarrow> u64 \<Rightarrow> u64 \<Rightarrow> 'a spsc_arena \<Rightarrow> int \<times> 'a spsc_arena" where
  "ds_spsc_insert sd hp k v A =
     (case sd of BPF \<Rightarrow> ds_spsc_insert_lkmm hp k v A
      | USERSPACE \<Rightarrow> ds_spsc_insert_c hp k v A)"

subsection \<open>Removal (consumer)\<close>

text \<open>\<open>data\<close> is the output buffer, \<open>None\<close> for a NULL pointer.\<close>

definition ds_spsc_delete_lkmm ::
  "ptr \<Rightarrow> ds_kv option \<Rightarrow> 'a spsc_arena \<Rightarrow> int \<times> ds_kv option \<times> 'a spsc_arena" where
  "ds_spsc_delete_lkmm hp data A =
     (let h = kv_heads A hp;
          current_read = spsc_read_idx h;
          current_write = spsc_write_idx h in
      if current_read = current_write then (DS_ERROR_NOT_FOUND, data, A)
      else
        let node = kv_slot (spsc_records h) current_read;
            data = (case data of None \<Rightarrow> None
                    | Some d \<Rightarrow> Some (d\<lparr>key := key (kv_mem A node), val := val (kv_mem A node)\<rparr>));
            next_record = current_read + 1;
            next_record = (if next_record \<ge> spsc_size h then 0 else next_record);
            A = kv_set_head hp (h\<lparr>spsc_read_idx := next_record\<rparr>) A in
        (DS_SUCCESS, data, A))"

definition ds_spsc_delete_c ::
  "ptr \<Rightarrow> ds_kv option \<Rightarrow> 'a spsc_arena \<Rightarrow> int \<times> ds_kv option \<times> 'a spsc_arena" where
  "ds_spsc_delete_c hp data A =
     (let h = kv_heads A hp;
          current_read = spsc_read_idx h;
          current_write = spsc_write_idx h in
      if current_read = current_write then (DS_ERROR_NOT_FOUND, data, A)
      else
        let node = kv_slot (spsc_records h) current_read;
            data = map_option (\<lambda>d. d\<lparr>key := key (kv_mem A node)\<rparr>) data;
            data = map_option (\<lambda>d. d\<lparr>val := val (kv_mem A node)\<rparr>) data;
            next_record = (if current_read + 1 \<ge> spsc_size h then 0 else current_read + 1) in
        (DS_SUCCESS, data, kv_set_head hp (h\<lparr>spsc_read_idx := next_record\<rparr>) A))"

definition ds_spsc_delete ::
  "side \<Rightarrow> ptr \<Rightarrow> ds_kv option \<Rightarrow> 'a spsc_arena \<Rightarrow> int \<times> ds_kv option \<times> 'a spsc_arena" where
  "ds_spsc_delete sd hp data A =
     (case sd of BPF \<Rightarrow> ds_spsc_delete_lkmm hp data A
      | USERSPACE \<Rightarrow> ds_spsc_delete_c hp data A)"

definition ds_spsc_pop_lkmm ::
  "ptr \<Rightarrow> ds_kv option \<Rightarrow> 'a spsc_arena \<Rightarrow> int \<times> ds_kv option \<times> 'a spsc_arena" where
  "ds_spsc_pop_lkmm hp data A = ds_spsc_delete_lkmm hp data A"

definition ds_spsc_pop_c ::
  "ptr \<Rightarrow> ds_kv option \<Rightarrow> 'a spsc_arena \<Rightarrow> int \<times> ds_kv option \<times> 'a spsc_arena" where
  "ds_spsc_pop_c hp data A = ds_spsc_delete_c hp data A"

definition ds_spsc_pop ::
  "side \<Rightarrow> ptr \<Rightarrow> ds_kv option \<Rightarrow> 'a spsc_arena \<Rightarrow> int \<times> ds_kv option \<times> 'a spsc_arena" where
  "ds_spsc_pop sd hp data A =
     (case sd of BPF \<Rightarrow> ds_spsc_pop_lkmm hp data A | USERSPACE \<Rightarrow> ds_spsc_pop_c hp data A)"

subsection \<open>Search, verification and observers\<close>

definition ds_spsc_search_lkmm :: "ptr \<Rightarrow> u64 \<Rightarrow> 'a spsc_arena \<Rightarrow> int" where
  "ds_spsc_search_lkmm hp k A = DS_ERROR_INVALID"

definition ds_spsc_search_c :: "ptr \<Rightarrow> u64 \<Rightarrow> 'a spsc_arena \<Rightarrow> int" where
  "ds_spsc_search_c hp k A = DS_ERROR_INVALID"

definition ds_spsc_search :: "side \<Rightarrow> ptr \<Rightarrow> u64 \<Rightarrow> 'a spsc_arena \<Rightarrow> int" where
  "ds_spsc_search sd hp k A =
     (case sd of BPF \<Rightarrow> ds_spsc_search_lkmm hp k A | USERSPACE \<Rightarrow> ds_spsc_search_c hp k A)"

text \<open>
  \<^verbatim>\<open>int size = (int)w - (int)r; if (size < 0) size += s;\<close> in 32-bit two's complement.
\<close>

definition spsc_size_guess :: "u32 \<Rightarrow> u32 \<Rightarrow> u32 \<Rightarrow> u32" where
  "spsc_size_guess w r s = (let g = w - r in if sint g < 0 then g + s else g)"

definition ds_spsc_verify_lkmm :: "ptr \<Rightarrow> 'a spsc_arena \<Rightarrow> int" where
  "ds_spsc_verify_lkmm hp A =
     (let h = kv_heads A hp; r = spsc_read_idx h; w = spsc_write_idx h; s = spsc_size h in
      if r \<ge> s \<or> w \<ge> s then DS_ERROR_CORRUPT
      else if sint (spsc_size_guess w r s) > sint (s - 1) then DS_ERROR_CORRUPT
      else DS_SUCCESS)"

definition ds_spsc_verify_c :: "ptr \<Rightarrow> 'a spsc_arena \<Rightarrow> int" where
  "ds_spsc_verify_c hp A =
     (let h = kv_heads A hp; r = spsc_read_idx h; w = spsc_write_idx h; s = spsc_size h in
      if r \<ge> s \<or> w \<ge> s then DS_ERROR_CORRUPT
      else if sint (spsc_size_guess w r s) > sint (s - 1) then DS_ERROR_CORRUPT
      else DS_SUCCESS)"

definition ds_spsc_verify :: "side \<Rightarrow> ptr \<Rightarrow> 'a spsc_arena \<Rightarrow> int" where
  "ds_spsc_verify sd hp A =
     (case sd of BPF \<Rightarrow> ds_spsc_verify_lkmm hp A | USERSPACE \<Rightarrow> ds_spsc_verify_c hp A)"

definition ds_spsc_size_lkmm :: "ptr \<Rightarrow> 'a spsc_arena \<Rightarrow> u32" where
  "ds_spsc_size_lkmm hp A =
     (let h = kv_heads A hp in
      spsc_size_guess (spsc_write_idx h) (spsc_read_idx h) (spsc_size h))"

definition ds_spsc_size_c :: "ptr \<Rightarrow> 'a spsc_arena \<Rightarrow> u32" where
  "ds_spsc_size_c hp A =
     (let h = kv_heads A hp in
      spsc_size_guess (spsc_write_idx h) (spsc_read_idx h) (spsc_size h))"

definition ds_spsc_size :: "side \<Rightarrow> ptr \<Rightarrow> 'a spsc_arena \<Rightarrow> u32" where
  "ds_spsc_size sd hp A =
     (case sd of BPF \<Rightarrow> ds_spsc_size_lkmm hp A | USERSPACE \<Rightarrow> ds_spsc_size_c hp A)"

definition ds_spsc_is_empty_lkmm :: "ptr \<Rightarrow> 'a spsc_arena \<Rightarrow> bool" where
  "ds_spsc_is_empty_lkmm hp A \<longleftrightarrow>
     (let h = kv_heads A hp; r = spsc_read_idx h; w = spsc_write_idx h in r = w)"

definition ds_spsc_is_empty_c :: "ptr \<Rightarrow> 'a spsc_arena \<Rightarrow> bool" where
  "ds_spsc_is_empty_c hp A \<longleftrightarrow>
     (let h = kv_heads A hp; r = spsc_read_idx h; w = spsc_write_idx h in r = w)"

definition ds_spsc_is_empty :: "side \<Rightarrow> ptr \<Rightarrow> 'a spsc_arena \<Rightarrow> bool" where
  "ds_spsc_is_empty sd hp A =
     (case sd of BPF \<Rightarrow> ds_spsc_is_empty_lkmm hp A | USERSPACE \<Rightarrow> ds_spsc_is_empty_c hp A)"

definition ds_spsc_is_full_lkmm :: "ptr \<Rightarrow> 'a spsc_arena \<Rightarrow> bool" where
  "ds_spsc_is_full_lkmm hp A \<longleftrightarrow>
     (let h = kv_heads A hp; r = spsc_read_idx h; w = spsc_write_idx h; s = spsc_size h;
          next_write = w + 1;
          next_write = (if next_write \<ge> s then 0 else next_write) in
      next_write = r)"

definition ds_spsc_is_full_c :: "ptr \<Rightarrow> 'a spsc_arena \<Rightarrow> bool" where
  "ds_spsc_is_full_c hp A \<longleftrightarrow>
     (let h = kv_heads A hp; r = spsc_read_idx h; w = spsc_write_idx h; s = spsc_size h;
          next_write = (if w + 1 \<ge> s then 0 else w + 1) in
      next_write = r)"

definition ds_spsc_is_full :: "side \<Rightarrow> ptr \<Rightarrow> 'a spsc_arena \<Rightarrow> bool" where
  "ds_spsc_is_full sd hp A =
     (case sd of BPF \<Rightarrow> ds_spsc_is_full_lkmm hp A | USERSPACE \<Rightarrow> ds_spsc_is_full_c hp A)"

subsection \<open>The two variants agree\<close>

lemma spsc_init_variants [ds_variant]: "ds_spsc_init_c = ds_spsc_init_lkmm"
  by (intro ext) (simp add: ds_spsc_init_c_def ds_spsc_init_lkmm_def Let_def split_def)

lemma spsc_insert_variants [ds_variant]: "ds_spsc_insert_c = ds_spsc_insert_lkmm"
  by (intro ext)
     (simp add: ds_spsc_insert_c_def ds_spsc_insert_lkmm_def kv_set_slot_def Let_def)

lemma spsc_delete_variants [ds_variant]: "ds_spsc_delete_c = ds_spsc_delete_lkmm"
  by (intro ext)
     (simp add: ds_spsc_delete_c_def ds_spsc_delete_lkmm_def Let_def split: option.split)

lemma spsc_observer_variants [ds_variant]:
  "ds_spsc_verify_c = ds_spsc_verify_lkmm" "ds_spsc_size_c = ds_spsc_size_lkmm"
  "ds_spsc_is_empty_c = ds_spsc_is_empty_lkmm" "ds_spsc_is_full_c = ds_spsc_is_full_lkmm"
  by (intro ext, simp add: ds_spsc_verify_c_def ds_spsc_verify_lkmm_def ds_spsc_size_c_def
      ds_spsc_size_lkmm_def ds_spsc_is_empty_c_def ds_spsc_is_empty_lkmm_def
      ds_spsc_is_full_c_def ds_spsc_is_full_lkmm_def Let_def)+

lemma spsc_insert_side [ds_variant]: "ds_spsc_insert sd = ds_spsc_insert_lkmm"
  by (intro ext) (cases sd, simp_all add: ds_spsc_insert_def spsc_insert_variants)

lemma spsc_delete_side [ds_variant]: "ds_spsc_delete sd = ds_spsc_delete_lkmm"
  by (intro ext) (cases sd, simp_all add: ds_spsc_delete_def spsc_delete_variants)

lemma spsc_pop_side [ds_variant]: "ds_spsc_pop sd = ds_spsc_delete_lkmm"
  by (intro ext) (cases sd, simp_all add: ds_spsc_pop_def ds_spsc_pop_lkmm_def ds_spsc_pop_c_def
      spsc_delete_variants)

lemma spsc_init_side [ds_variant]: "ds_spsc_init sd = ds_spsc_init_lkmm"
  by (intro ext) (cases sd, simp_all add: ds_spsc_init_def spsc_init_variants)

subsection \<open>What a queue head represents\<close>

definition spsc_next :: "u32 \<Rightarrow> u32 \<Rightarrow> u32" where
  "spsc_next i s = (if i + 1 \<ge> s then 0 else i + 1)"

definition spsc_queue :: "ptr \<Rightarrow> 'a spsc_arena \<Rightarrow> ds_kv list \<Rightarrow> bool" where
  "spsc_queue hp A xs \<longleftrightarrow>
     (let h = kv_heads A hp in
      ring_rel (kv_mem A) (spsc_records h) (unat (spsc_write_idx h)) (unat (spsc_read_idx h))
        (unat (spsc_size h)) xs)"

definition spsc_room :: "ptr \<Rightarrow> 'a spsc_arena \<Rightarrow> bool" where
  "spsc_room hp A \<longleftrightarrow>
     (let h = kv_heads A hp in
      ring_count (unat (spsc_write_idx h)) (unat (spsc_read_idx h)) (unat (spsc_size h)) + 1
        < unat (spsc_size h))"

lemma unat_spsc_next:
  assumes "unat i < unat s"
  shows "unat (spsc_next i s) = Suc (unat i) mod unat s"
proof -
  have "unat s < 2 ^ 32" using unsigned_less [of s, where 'a = nat] by simp
  then have "unat (i + 1) = Suc (unat i)" using assms by (simp add: unat_plus_u32)
  then show ?thesis
    using assms by (auto simp: spsc_next_def succ_mod_if word_le_nat_alt)
qed

lemma spsc_queue_bounds:
  assumes "spsc_queue hp A xs"
  shows "unat (spsc_write_idx (kv_heads A hp)) < unat (spsc_size (kv_heads A hp))"
    and "unat (spsc_read_idx (kv_heads A hp)) < unat (spsc_size (kv_heads A hp))"
    and "2 \<le> unat (spsc_size (kv_heads A hp))"
  using assms by (simp_all add: spsc_queue_def ring_rel_def Let_def)

lemma spsc_room_iff: "spsc_queue hp A xs \<Longrightarrow>
    spsc_room hp A \<longleftrightarrow> length xs + 1 < unat (spsc_size (kv_heads A hp))"
  using ring_rel_length by (fastforce simp: spsc_queue_def spsc_room_def Let_def)

lemma spsc_full_iff:
  assumes "spsc_queue hp A xs"
  shows "spsc_next (spsc_write_idx (kv_heads A hp)) (spsc_size (kv_heads A hp)) =
      spsc_read_idx (kv_heads A hp) \<longleftrightarrow> \<not> spsc_room hp A"
  using assms ring_rel_full_iff
  by (fastforce simp: spsc_room_iff [OF assms] spsc_queue_def Let_def word_unat_eq_iff
      unat_spsc_next spsc_queue_bounds)

lemma spsc_empty_iff:
  "spsc_queue hp A xs \<Longrightarrow>
   spsc_read_idx (kv_heads A hp) = spsc_write_idx (kv_heads A hp) \<longleftrightarrow> xs = []"
  by (auto simp: spsc_queue_def Let_def ring_rel_empty_iff word_unat_eq_iff)

subsection \<open>Each operation on the represented queue\<close>

lemma spsc_insert_room:
  assumes q: "spsc_queue hp A xs" and r: "spsc_room hp A"
  shows "\<exists>A'. ds_spsc_insert_lkmm hp (key x) (val x) A = (DS_SUCCESS, A') \<and> spsc_queue hp A' (xs @ [x])"
proof -
  let ?h = "kv_heads A hp"
  let ?n = "spsc_next (spsc_write_idx ?h) (spsc_size ?h)"
  let ?A = "kv_set_head hp (?h\<lparr>spsc_write_idx := ?n\<rparr>)
    (kv_set_slot (kv_slot (spsc_records ?h) (spsc_write_idx ?h)) (key x) (val x) A)"
  have nf: "?n \<noteq> spsc_read_idx ?h" using spsc_full_iff [OF q] r by simp
  then have "ds_spsc_insert_lkmm hp (key x) (val x) A = (DS_SUCCESS, ?A)"
    by (simp add: ds_spsc_insert_lkmm_def Let_def spsc_next_def)
  moreover have un: "unat ?n = Suc (unat (spsc_write_idx ?h)) mod unat (spsc_size ?h)"
    using spsc_queue_bounds [OF q] by (simp add: unat_spsc_next)
  moreover have "Suc (unat (spsc_write_idx ?h)) mod unat (spsc_size ?h) \<noteq> unat (spsc_read_idx ?h)"
    using nf un by (auto intro: unsigned_word_eqI)
  ultimately show ?thesis
    using q ring_rel_push by (fastforce simp: spsc_queue_def Let_def)
qed

lemma spsc_insert_full:
  "spsc_queue hp A xs \<Longrightarrow> \<not> spsc_room hp A \<Longrightarrow> ds_spsc_insert_lkmm hp k v A = (DS_ERROR_FULL, A)"
  using spsc_full_iff [of hp A xs] by (simp add: ds_spsc_insert_lkmm_def Let_def spsc_next_def)

lemma spsc_delete_empty:
  "spsc_queue hp A [] \<Longrightarrow> ds_spsc_delete_lkmm hp d A = (DS_ERROR_NOT_FOUND, d, A)"
  using spsc_empty_iff [of hp A "[]"] by (simp add: ds_spsc_delete_lkmm_def Let_def)

lemma spsc_delete_front:
  assumes q: "spsc_queue hp A (x # xs)"
  shows "\<exists>A'. ds_spsc_delete_lkmm hp d A = (DS_SUCCESS, map_option (\<lambda>_. x) d, A') \<and> spsc_queue hp A' xs"
proof -
  let ?h = "kv_heads A hp"
  let ?n = "spsc_next (spsc_read_idx ?h) (spsc_size ?h)"
  have "spsc_read_idx ?h \<noteq> spsc_write_idx ?h" using spsc_empty_iff [OF q] by simp
  moreover have "kv_mem A (kv_slot (spsc_records ?h) (spsc_read_idx ?h)) = x"
    using q ring_rel_pop(2) by (fastforce simp: spsc_queue_def Let_def)
  ultimately have "ds_spsc_delete_lkmm hp d A =
      (DS_SUCCESS, map_option (\<lambda>_. x) d, kv_set_head hp (?h\<lparr>spsc_read_idx := ?n\<rparr>) A)"
    by (simp add: ds_spsc_delete_lkmm_def Let_def spsc_next_def split: option.split)
  moreover have "unat ?n = Suc (unat (spsc_read_idx ?h)) mod unat (spsc_size ?h)"
    using spsc_queue_bounds [OF q] by (simp add: unat_spsc_next)
  ultimately show ?thesis using q ring_rel_pop(3) by (fastforce simp: spsc_queue_def Let_def)
qed

interpretation fs: fifo_lane
  "\<lambda>x. ds_spsc_insert pr hp (key x) (val x)" "ds_spsc_pop co hp (Some d)" "spsc_queue hp"
  "spsc_room hp" for pr co :: side and hp :: ptr and d :: ds_kv
proof unfold_locales
  fix A :: "'a spsc_arena" and xs and x :: ds_kv
  assume "spsc_queue hp A xs" "spsc_room hp A"
  then show "\<exists>A'. ds_spsc_insert pr hp (key x) (val x) A = (DS_SUCCESS, A') \<and> spsc_queue hp A' (xs @ [x])"
    unfolding ds_variant by (rule spsc_insert_room)
next
  fix A :: "'a spsc_arena" and xs and x :: ds_kv
  assume "spsc_queue hp A xs" "\<not> spsc_room hp A"
  then show "\<exists>e A'. ds_spsc_insert pr hp (key x) (val x) A = (e, A') \<and> e \<noteq> DS_SUCCESS \<and> spsc_queue hp A' xs"
    by (simp add: ds_variant spsc_insert_full)
next
  fix A :: "'a spsc_arena"
  assume "spsc_queue hp A []"
  then show "\<exists>out A'. ds_spsc_pop co hp (Some d) A = (DS_ERROR_NOT_FOUND, out, A') \<and> spsc_queue hp A' []"
    by (simp add: ds_variant spsc_delete_empty)
next
  fix A :: "'a spsc_arena" and x xs
  assume "spsc_queue hp A (x # xs)"
  from spsc_delete_front [OF this, of "Some d"]
  show "\<exists>A'. ds_spsc_pop co hp (Some d) A = (DS_SUCCESS, Some x, A') \<and> spsc_queue hp A' xs"
    by (simp add: ds_variant)
qed

text \<open>
  The Folly ring is a FIFO: from any well-formed head, every sequence of
  inserts and pops, each issued by the kernel or by userspace, keeps the head well formed, and the elements accepted
  (after those already there) are exactly the elements delivered followed by those
  still queued, in order: nothing is lost, duplicated or reordered.
\<close>

theorem spsc_run_fifo:
  assumes "spsc_queue hp A xs"
    and "lane_run (\<lambda>x. ds_spsc_insert pr hp (key x) (val x)) (ds_spsc_pop co hp (Some d)) ops A = (evs, A')"
  shows "\<exists>ys. spsc_queue hp A' ys \<and> xs @ accepted evs = delivered evs @ ys"
  using assms by (rule fs.run_fifo)

text \<open>A ring of three slots at 0x2000, empty, with its head at 0x1000.\<close>

definition spsc_demo :: "'a \<Rightarrow> 'a spsc_arena" where
  "spsc_demo al =
     \<lparr>kv_heads = (\<lambda>_. \<lparr>spsc_write_idx = 0, spsc_read_idx = 0, spsc_size = 3, spsc_records = 0x2000\<rparr>),
      kv_mem = (\<lambda>_. zero_kv), kv_alloc = al\<rparr>"

lemma spsc_demo_queue: "spsc_queue 0x1000 (spsc_demo al) []"
  by (simp add: spsc_queue_def spsc_demo_def ring_rel_init)

theorem spsc_run_fifo_witness:
  "\<exists>evs A' ys. lane_run (\<lambda>x. ds_spsc_insert BPF 0x1000 (key x) (val x))
       (ds_spsc_pop USERSPACE 0x1000 (Some zero_kv))
       [LInsert \<lparr>key = 1, val = 10\<rparr>, LInsert \<lparr>key = 2, val = 20\<rparr>, LInsert \<lparr>key = 3, val = 30\<rparr>, LPop]
       (spsc_demo ()) = (evs, A') \<and>
     spsc_queue 0x1000 A' ys \<and> accepted evs = delivered evs @ ys \<and>
     accepted evs = [\<lparr>key = 1, val = 10\<rparr>, \<lparr>key = 2, val = 20\<rparr>] \<and>
     ys = [\<lparr>key = 2, val = 20\<rparr>]"
proof -
  let ?ops = "[LInsert \<lparr>key = 1, val = 10\<rparr>, LInsert \<lparr>key = 2, val = 20\<rparr>,
    LInsert \<lparr>key = 3, val = 30\<rparr>, LPop]"
  let ?run = "lane_run (\<lambda>x. ds_spsc_insert BPF 0x1000 (key x) (val x))
       (ds_spsc_pop USERSPACE 0x1000 (Some zero_kv)) ?ops (spsc_demo ())"
  obtain evs A' where run: "?run = (evs, A')" by fastforce
  have "accepted (fst ?run) = [\<lparr>key = 1, val = 10\<rparr>, \<lparr>key = 2, val = 20\<rparr>] \<and>
    delivered (fst ?run) = [\<lparr>key = 1, val = 10\<rparr>]"
    by code_simp
  then have "accepted evs = [\<lparr>key = 1, val = 10\<rparr>, \<lparr>key = 2, val = 20\<rparr>]"
    "delivered evs = [\<lparr>key = 1, val = 10\<rparr>]" by (simp_all only: run fst_conv)
  with spsc_run_fifo [OF spsc_demo_queue run] run show ?thesis by fastforce
qed

subsection \<open>Initialisation and capacity\<close>

lemma spsc_init_success:
  assumes "2 \<le> sz" and "alloc (kv_bytes sz) (kv_alloc A) = (p, al)" and "p \<noteq> NULL"
  shows "ds_spsc_init_lkmm alloc hp sz A =
    (DS_SUCCESS, kv_set_head hp
       \<lparr>spsc_write_idx = 0, spsc_read_idx = 0, spsc_size = sz, spsc_records = p\<rparr> (A\<lparr>kv_alloc := al\<rparr>))"
  using assms by (cases "kv_heads A hp") (auto simp: ds_spsc_init_lkmm_def Let_def kv_set_head_def)

lemma spsc_empty_head:
  "2 \<le> sz \<Longrightarrow> spsc_queue hp (kv_set_head hp
     \<lparr>spsc_write_idx = 0, spsc_read_idx = 0, spsc_size = sz, spsc_records = p\<rparr> A) []"
  using unsigned_less [of sz, where 'a = nat]
  by (simp add: spsc_queue_def Let_def word_le_nat_alt ring_rel_init)

text \<open>
  Initialisation on every branch: a size below 2 is refused and nothing changes; an
  allocation failure is reported and no head or slot changes; otherwise the head is an
  empty, well-formed ring of that size over the allocated array.
\<close>

theorem spsc_init_branches:
  assumes "ds_spsc_init sd alloc hp sz A = (r, A')"
    and "alloc (kv_bytes sz) (kv_alloc A) = (p, al)"
  shows "(sz < 2 \<longrightarrow> r = DS_ERROR_INVALID \<and> A' = A) \<and>
    (2 \<le> sz \<and> p = NULL \<longrightarrow> r = DS_ERROR_NOMEM \<and> A' = A\<lparr>kv_alloc := al\<rparr>) \<and>
    (2 \<le> sz \<and> p \<noteq> NULL \<longrightarrow> r = DS_SUCCESS \<and> spsc_queue hp A' [] \<and>
       spsc_size (kv_heads A' hp) = sz \<and> spsc_records (kv_heads A' hp) = p)"
proof -
  have "sz < 2 \<Longrightarrow> r = DS_ERROR_INVALID \<and> A' = A"
    using assms(1) by (simp add: ds_variant ds_spsc_init_lkmm_def)
  moreover have "r = DS_ERROR_NOMEM \<and> A' = A\<lparr>kv_alloc := al\<rparr>" if "2 \<le> sz" "p = NULL"
    using assms leD [OF that(1)] that(2) by (auto simp: ds_variant ds_spsc_init_lkmm_def Let_def)
  moreover have "r = DS_SUCCESS \<and> spsc_queue hp A' [] \<and>
       spsc_size (kv_heads A' hp) = sz \<and> spsc_records (kv_heads A' hp) = p"
    if "2 \<le> sz" "p \<noteq> NULL"
    using spsc_init_success [of sz alloc A p al hp, OF that(1) assms(2) that(2)] assms(1) that(1)
    by (auto simp: ds_variant spsc_empty_head)
  ultimately show ?thesis by blast
qed

theorem spsc_init_branches_witness:
  "\<exists>A'. ds_spsc_init BPF (\<lambda>n k. (0x2000, k + n)) 0x1000 5 (spsc_demo 0) = (DS_SUCCESS, A') \<and>
     spsc_queue 0x1000 A' [] \<and> spsc_size (kv_heads A' 0x1000) = 5"
proof -
  obtain r A' where i: "ds_spsc_init BPF (\<lambda>n k. (0x2000, k + n)) 0x1000 5 (spsc_demo 0) = (r, A')"
    by fastforce
  from spsc_init_branches [OF i refl] i show ?thesis by simp
qed

text \<open>
  With the userspace allocator, the ring that initialisation sets up owns its
  memory (sizes below \<open>2 ^ 28\<close>, for which the byte count does not overflow): the
  sixteen bytes of every slot overlap nothing handed out before, and the allocator
  accounts for them.
\<close>

theorem spsc_init_owns_slots:
  assumes "user_ok (kv_alloc A)" and "unat sz < 2 ^ 28" and "unat i < unat sz"
    and "ds_spsc_init sd user_allocator hp sz A = (DS_SUCCESS, A')"
  shows "{unat (kv_slot (spsc_records (kv_heads A' hp)) i) ..<
      unat (kv_slot (spsc_records (kv_heads A' hp)) i) + 16} \<inter> user_used (kv_alloc A) = {} \<and>
    {unat (kv_slot (spsc_records (kv_heads A' hp)) i) ..<
      unat (kv_slot (spsc_records (kv_heads A' hp)) i) + 16} \<subseteq> user_used (kv_alloc A') \<and>
    user_ok (kv_alloc A')"
proof -
  obtain p al where a: "user_allocator (kv_bytes sz) (kv_alloc A) = (p, al)" by fastforce
  have p: "p \<noteq> NULL" "\<not> sz < 2" using assms(4) a
    by (auto simp: ds_variant ds_spsc_init_lkmm_def Let_def split: if_splits)
  then have A': "spsc_records (kv_heads A' hp) = p" "kv_alloc A' = al"
    using assms(4) a by (auto simp: ds_variant ds_spsc_init_lkmm_def Let_def kv_set_head_def)
  show ?thesis
    using ua.kv_array_fresh [OF assms(1) a p(1) assms(2,3)] ua.alloc_ok [OF assms(1) a]
    by (simp only: A')
qed

theorem spsc_init_owns_slots_witness:
  "\<exists>A'. ds_spsc_init USERSPACE user_allocator 0x1000 4 (spsc_demo demo_user_alloc) = (DS_SUCCESS, A') \<and>
     user_ok (kv_alloc A')"
proof -
  obtain r A' where i:
    "ds_spsc_init USERSPACE user_allocator 0x1000 4 (spsc_demo demo_user_alloc) = (r, A')"
    by fastforce
  moreover from i have "r = DS_SUCCESS"
    by (auto simp: ds_variant ds_spsc_init_lkmm_def kv_bytes_def spsc_demo_def demo_user_alloc_eq
        user_allocator_def bpf_arena_alloc_user_def round_up_def spin_acquire_free
        user_open_page_def user_take_fragment_def Let_def)
  ultimately show ?thesis
    using spsc_init_owns_slots [of "spsc_demo demo_user_alloc" 4 0 USERSPACE "0x1000" A']
    by (simp add: spsc_demo_def demo_user_alloc_ok)
qed

text \<open>
  C40.  The byte count \<^verbatim>\<open>size * sizeof(struct ds_kv)\<close> is truncated to the 32-bit
  parameter of the allocator: for \<open>0x10000001\<close> slots the request is for sixteen bytes,
  initialisation reports success on a ring of that size, and the second slot already
  lies outside the block.
\<close>

theorem spsc_init_truncated_request:
  assumes "alloc 16 (kv_alloc A) = (p, al)" and "p \<noteq> NULL" and "unat p + 32 \<le> 2 ^ 64"
    and "ds_spsc_init sd alloc hp 0x10000001 A = (r, A')"
  shows "r = DS_SUCCESS \<and> spsc_size (kv_heads A' hp) = 0x10000001 \<and> kv_alloc A' = al \<and>
    unat (kv_slot (spsc_records (kv_heads A' hp)) 1) \<notin> block p 16"
proof -
  have k: "kv_bytes 0x10000001 = 16" by (simp add: kv_bytes_def)
  have "unat (p + 16) = unat p + 16" using assms(3) by (simp add: unat_plus_u64)
  then have "unat (kv_slot p 1) \<notin> block p 16" by (simp add: kv_slot_def block_def)
  moreover have "r = DS_SUCCESS" "A' = kv_set_head hp
      \<lparr>spsc_write_idx = 0, spsc_read_idx = 0, spsc_size = 0x10000001, spsc_records = p\<rparr>
      (A\<lparr>kv_alloc := al\<rparr>)"
    using assms(4) spsc_init_success [of "0x10000001" alloc A p al hp] assms(1,2)
    by (simp_all add: ds_variant k)
  ultimately show ?thesis by (simp add: kv_set_head_def)
qed

theorem spsc_init_truncated_request_witness:
  "\<exists>A'. ds_spsc_init BPF (\<lambda>n k. (0x2000, k + n)) 0x1000 0x10000001 (spsc_demo 0) = (DS_SUCCESS, A') \<and>
     kv_alloc A' = 16"
proof -
  obtain r A' where i:
    "ds_spsc_init BPF (\<lambda>n k. (0x2000, k + n)) 0x1000 0x10000001 (spsc_demo 0) = (r, A')"
    by fastforce
  from spsc_init_truncated_request [OF _ _ _ i] i show ?thesis by (simp add: spsc_demo_def)
qed

lemma unat_size_guess:
  assumes "unat w < unat s" "unat r < unat s" "unat s \<le> 2 ^ 31"
  shows "unat (spsc_size_guess w r s) = ring_count (unat w) (unat r) (unat s)"
proof (cases "unat r \<le> unat w")
  case True
  then have g: "unat (w - r) = unat w - unat r" by (simp add: unat_sub word_le_nat_alt)
  then have "sint (w - r) = int (unat (w - r))"
    using assms by (intro sint_small_u32) simp
  then have "\<not> sint (w - r) < 0" by simp
  then show ?thesis using True g assms by (simp add: spsc_size_guess_def Let_def ring_count_if)
next
  case False
  let ?k = "int (unat w) - int (unat r)"
  have wr: "w - r = of_int ?k" by simp
  have "unat w < 2147483648" "unat r < 2147483648" using assms by simp_all
  then have "- (2 ^ 31) \<le> ?k" "?k < 2 ^ 31" by (simp_all del: of_nat_unat)
  then have "sint (w - r) = ?k" unfolding wr by (rule sint_of_int_u32)
  then have "sint (w - r) < 0" using False by linarith
  moreover have wrs: "w - r + s = of_nat (unat w + unat s - unat r)"
    using assms False by (simp add: of_nat_diff)
  have "unat w + unat s - unat r < 2 ^ 32" using assms False by simp
  then have "unat (w - r + s) = unat w + unat s - unat r"
    unfolding wrs by (simp add: unat_of_nat)
  ultimately show ?thesis using False assms by (simp add: spsc_size_guess_def Let_def ring_count_if)
qed

lemma spsc_size_length:
  assumes q: "spsc_queue hp A xs" and s: "unat (spsc_size (kv_heads A hp)) \<le> 2 ^ 31"
  shows "unat (ds_spsc_size_lkmm hp A) = length xs"
  using unat_size_guess [of "spsc_write_idx (kv_heads A hp)" "spsc_size (kv_heads A hp)" "spsc_read_idx (kv_heads A hp)"]
    spsc_queue_bounds [OF q] s ring_rel_length [OF q [unfolded spsc_queue_def Let_def]]
  by (simp add: ds_spsc_size_lkmm_def Let_def)

lemma spsc_verify_accepts:
  assumes q: "spsc_queue hp A xs" and s: "unat (spsc_size (kv_heads A hp)) \<le> 2 ^ 31"
  shows "ds_spsc_verify_lkmm hp A = DS_SUCCESS"
proof -
  let ?h = "kv_heads A hp"
  let ?g = "spsc_size_guess (spsc_write_idx ?h) (spsc_read_idx ?h) (spsc_size ?h)"
  note w = spsc_queue_bounds [OF q]
  have lt: "length xs < unat (spsc_size ?h)"
    using ring_rel_length_less [OF q [unfolded spsc_queue_def Let_def]] .
  have g: "unat ?g = length xs" using spsc_size_length [OF q s] by (simp add: ds_spsc_size_lkmm_def Let_def)
  have p: "unat (spsc_size ?h - 1) = unat (spsc_size ?h) - 1" using w by (intro unat_pred) auto
  have "unat ?g < 2 ^ 31" "unat (spsc_size ?h - 1) < 2 ^ 31" using g lt s p by simp_all
  then have "sint ?g = int (unat ?g)" "sint (spsc_size ?h - 1) = int (unat (spsc_size ?h - 1))"
    by (simp_all only: sint_small_u32)
  then have "\<not> sint ?g > sint (spsc_size ?h - 1)" using g lt p by (simp del: of_nat_unat)
  then show ?thesis using w by (simp add: ds_spsc_verify_lkmm_def Let_def word_le_nat_alt)
qed

text \<open>
  The observers agree with the represented queue (rings of at most \<open>2 ^ 31\<close> slots):
  \<^verbatim>\<open>ds_spsc_size\<close> is its length, \<^verbatim>\<open>is_empty\<close> and \<^verbatim>\<open>is_full\<close> say
  whether it is empty or holds size minus one elements, \<^verbatim>\<open>ds_spsc_verify\<close>
  accepts it, and an insert is refused exactly when \<^verbatim>\<open>is_full\<close> says so.
\<close>

theorem spsc_observers:
  assumes q: "spsc_queue hp A xs" and s: "unat (spsc_size (kv_heads A hp)) \<le> 2 ^ 31"
  shows "unat (ds_spsc_size sd hp A) = length xs \<and>
    (ds_spsc_is_empty sd hp A \<longleftrightarrow> xs = []) \<and>
    (ds_spsc_is_full sd hp A \<longleftrightarrow> length xs = unat (spsc_size (kv_heads A hp)) - 1) \<and>
    ds_spsc_verify sd hp A = DS_SUCCESS \<and>
    (fst (ds_spsc_insert sd hp k v A) = DS_ERROR_FULL \<longleftrightarrow> ds_spsc_is_full sd hp A)"
proof -
  have lt: "length xs < unat (spsc_size (kv_heads A hp))"
    using ring_rel_length_less [OF q [unfolded spsc_queue_def Let_def]] .
  have full: "ds_spsc_is_full sd hp A \<longleftrightarrow> length xs = unat (spsc_size (kv_heads A hp)) - 1"
    using spsc_full_iff [OF q] lt
    by (cases sd) (auto simp: ds_spsc_is_full_def ds_variant ds_spsc_is_full_lkmm_def Let_def
        spsc_next_def spsc_room_iff [OF q])
  have "ds_spsc_is_empty sd hp A \<longleftrightarrow> xs = []"
    using spsc_empty_iff [OF q] by (cases sd)
      (simp_all add: ds_spsc_is_empty_def ds_variant ds_spsc_is_empty_lkmm_def Let_def)
  moreover have "ds_spsc_verify sd hp A = DS_SUCCESS"
    using spsc_verify_accepts [OF q s] by (cases sd) (simp_all add: ds_spsc_verify_def ds_variant)
  moreover have "fst (ds_spsc_insert sd hp k v A) = DS_ERROR_FULL \<longleftrightarrow> ds_spsc_is_full sd hp A"
    by (cases sd) (simp_all add: ds_spsc_insert_def ds_spsc_is_full_def ds_variant
        ds_spsc_insert_lkmm_def ds_spsc_is_full_lkmm_def Let_def ds_codes)
  moreover have "unat (ds_spsc_size sd hp A) = length xs"
    using spsc_size_length [OF q s] by (cases sd) (simp_all add: ds_spsc_size_def ds_variant)
  ultimately show ?thesis using full by blast
qed

theorem spsc_observers_witness:
  "ds_spsc_is_empty BPF 0x1000 (spsc_demo ()) \<and> ds_spsc_verify USERSPACE 0x1000 (spsc_demo ()) = DS_SUCCESS"
  using spsc_observers [OF spsc_demo_queue, of "()" BPF] spsc_observers [OF spsc_demo_queue, of "()" USERSPACE]
  by (simp add: spsc_demo_def)

end
