(* ===== verification/CkRingSpsc.thy ===== *)
theory CkRingSpsc
  imports KvRing
begin

unbundle bit_operations_syntax

text \<open>
  The single-producer single-consumer ring of \<^verbatim>\<open>include/ds_ck_ring_spsc.h\<close>
  (after Concurrency Kit): power-of-two capacity, indices kept masked, one slot empty.
\<close>

subsection \<open>State and initialisation\<close>

record ds_ck_ring_spsc_head =
  ckr_capacity :: u32
  ckr_mask :: u32
  ckr_c_head :: u32
  ckr_p_tail :: u32
  ckr_slots :: ptr

type_synonym 'a ckr_arena = "(ds_ck_ring_spsc_head, 'a) kv_arena"

definition ds_ck_ring_spsc_is_power_of_two :: "u32 \<Rightarrow> bool" where
  "ds_ck_ring_spsc_is_power_of_two v \<longleftrightarrow> v \<ge> 2 \<and> v AND (v - 1) = 0"

definition ds_ck_ring_spsc_init_lkmm ::
  "'a allocator \<Rightarrow> ptr \<Rightarrow> u32 \<Rightarrow> 'a ckr_arena \<Rightarrow> int \<times> 'a ckr_arena" where
  "ds_ck_ring_spsc_init_lkmm bpf_arena_alloc hp capacity A =
     (if hp = NULL then (DS_ERROR_INVALID, A)
      else if \<not> ds_ck_ring_spsc_is_power_of_two capacity then (DS_ERROR_INVALID, A)
      else
        let (slots, al) = bpf_arena_alloc (kv_bytes capacity) (kv_alloc A);
            A = A\<lparr>kv_alloc := al\<rparr> in
        if slots = NULL then (DS_ERROR_NOMEM, A)
        else
          let h = (kv_heads A hp)\<lparr>ckr_capacity := capacity, ckr_mask := capacity - 1,
                     ckr_c_head := 0, ckr_p_tail := 0\<rparr>;
              h = h\<lparr>ckr_slots := slots\<rparr> in
          (DS_SUCCESS, kv_set_head hp h A))"

definition ds_ck_ring_spsc_init_c ::
  "'a allocator \<Rightarrow> ptr \<Rightarrow> u32 \<Rightarrow> 'a ckr_arena \<Rightarrow> int \<times> 'a ckr_arena" where
  "ds_ck_ring_spsc_init_c bpf_arena_alloc hp capacity A =
     (if hp = NULL then (DS_ERROR_INVALID, A)
      else if \<not> ds_ck_ring_spsc_is_power_of_two capacity then (DS_ERROR_INVALID, A)
      else
        let (slots, al) = bpf_arena_alloc (kv_bytes capacity) (kv_alloc A);
            A = A\<lparr>kv_alloc := al\<rparr> in
        if slots = NULL then (DS_ERROR_NOMEM, A)
        else
          let h = (kv_heads A hp)\<lparr>ckr_capacity := capacity, ckr_mask := capacity - 1,
                     ckr_c_head := 0, ckr_p_tail := 0\<rparr>;
              h = h\<lparr>ckr_slots := slots\<rparr> in
          (DS_SUCCESS, kv_set_head hp h A))"

definition ds_ck_ring_spsc_init ::
  "side \<Rightarrow> 'a allocator \<Rightarrow> ptr \<Rightarrow> u32 \<Rightarrow> 'a ckr_arena \<Rightarrow> int \<times> 'a ckr_arena" where
  "ds_ck_ring_spsc_init sd alloc hp capacity A =
     (case sd of BPF \<Rightarrow> ds_ck_ring_spsc_init_lkmm alloc hp capacity A
      | USERSPACE \<Rightarrow> ds_ck_ring_spsc_init_c alloc hp capacity A)"

subsection \<open>Insertion and removal\<close>

definition ds_ck_ring_spsc_insert_lkmm ::
  "ptr \<Rightarrow> u64 \<Rightarrow> u64 \<Rightarrow> 'a ckr_arena \<Rightarrow> int \<times> 'a ckr_arena" where
  "ds_ck_ring_spsc_insert_lkmm hp k v A =
     (if hp = NULL then (DS_ERROR_INVALID, A)
      else if ckr_slots (kv_heads A hp) = NULL then (DS_ERROR_INVALID, A)
      else
        let h = kv_heads A hp;
            consumer = ckr_c_head h;
            producer = ckr_p_tail h;
            next = (producer + 1) AND ckr_mask h in
        if next = consumer then (DS_ERROR_FULL, A)
        else
          let slot = kv_slot (ckr_slots h) producer;
              A = kv_set_slot slot k v A;
              A = kv_set_head hp ((kv_heads A hp)\<lparr>ckr_p_tail := next\<rparr>) A in
          (DS_SUCCESS, A))"

definition ds_ck_ring_spsc_insert_c ::
  "ptr \<Rightarrow> u64 \<Rightarrow> u64 \<Rightarrow> 'a ckr_arena \<Rightarrow> int \<times> 'a ckr_arena" where
  "ds_ck_ring_spsc_insert_c hp k v A =
     (if hp = NULL then (DS_ERROR_INVALID, A)
      else if ckr_slots (kv_heads A hp) = NULL then (DS_ERROR_INVALID, A)
      else
        let h = kv_heads A hp;
            consumer = ckr_c_head h;
            producer = ckr_p_tail h;
            next = (producer + 1) AND ckr_mask h in
        if next = consumer then (DS_ERROR_FULL, A)
        else
          let slot = kv_slot (ckr_slots h) producer;
              A = kv_set_slot slot k v A;
              A = kv_set_head hp ((kv_heads A hp)\<lparr>ckr_p_tail := next\<rparr>) A in
          (DS_SUCCESS, A))"

definition ds_ck_ring_spsc_insert ::
  "side \<Rightarrow> ptr \<Rightarrow> u64 \<Rightarrow> u64 \<Rightarrow> 'a ckr_arena \<Rightarrow> int \<times> 'a ckr_arena" where
  "ds_ck_ring_spsc_insert sd hp k v A =
     (case sd of BPF \<Rightarrow> ds_ck_ring_spsc_insert_lkmm hp k v A
      | USERSPACE \<Rightarrow> ds_ck_ring_spsc_insert_c hp k v A)"

text \<open>\<open>out\<close> is the output buffer, \<open>None\<close> for a NULL pointer.\<close>

definition ds_ck_ring_spsc_delete_lkmm ::
  "ptr \<Rightarrow> ds_kv option \<Rightarrow> 'a ckr_arena \<Rightarrow> int \<times> ds_kv option \<times> 'a ckr_arena" where
  "ds_ck_ring_spsc_delete_lkmm hp out A =
     (if hp = NULL then (DS_ERROR_INVALID, out, A)
      else if ckr_slots (kv_heads A hp) = NULL then (DS_ERROR_INVALID, out, A)
      else
        let h = kv_heads A hp;
            consumer = ckr_c_head h;
            producer = ckr_p_tail h in
        if consumer = producer then (DS_ERROR_NOT_FOUND, out, A)
        else
          let slot = kv_slot (ckr_slots h) consumer;
              out = map_option (\<lambda>d. d\<lparr>key := key (kv_mem A slot), val := val (kv_mem A slot)\<rparr>) out;
              next = (consumer + 1) AND ckr_mask h in
          (DS_SUCCESS, out, kv_set_head hp (h\<lparr>ckr_c_head := next\<rparr>) A))"

definition ds_ck_ring_spsc_delete_c ::
  "ptr \<Rightarrow> ds_kv option \<Rightarrow> 'a ckr_arena \<Rightarrow> int \<times> ds_kv option \<times> 'a ckr_arena" where
  "ds_ck_ring_spsc_delete_c hp out A =
     (if hp = NULL then (DS_ERROR_INVALID, out, A)
      else if ckr_slots (kv_heads A hp) = NULL then (DS_ERROR_INVALID, out, A)
      else
        let h = kv_heads A hp;
            consumer = ckr_c_head h;
            producer = ckr_p_tail h in
        if consumer = producer then (DS_ERROR_NOT_FOUND, out, A)
        else
          let slot = kv_slot (ckr_slots h) consumer;
              out = map_option (\<lambda>d. d\<lparr>key := key (kv_mem A slot), val := val (kv_mem A slot)\<rparr>) out;
              next = (consumer + 1) AND ckr_mask h in
          (DS_SUCCESS, out, kv_set_head hp (h\<lparr>ckr_c_head := next\<rparr>) A))"

definition ds_ck_ring_spsc_delete ::
  "side \<Rightarrow> ptr \<Rightarrow> ds_kv option \<Rightarrow> 'a ckr_arena \<Rightarrow> int \<times> ds_kv option \<times> 'a ckr_arena" where
  "ds_ck_ring_spsc_delete sd hp out A =
     (case sd of BPF \<Rightarrow> ds_ck_ring_spsc_delete_lkmm hp out A
      | USERSPACE \<Rightarrow> ds_ck_ring_spsc_delete_c hp out A)"

definition ds_ck_ring_spsc_pop ::
  "side \<Rightarrow> ptr \<Rightarrow> ds_kv option \<Rightarrow> 'a ckr_arena \<Rightarrow> int \<times> ds_kv option \<times> 'a ckr_arena" where
  "ds_ck_ring_spsc_pop sd hp out A = ds_ck_ring_spsc_delete sd hp out A"

definition ds_ck_ring_spsc_search :: "ptr \<Rightarrow> u64 \<Rightarrow> 'a ckr_arena \<Rightarrow> int" where
  "ds_ck_ring_spsc_search hp k A = DS_ERROR_INVALID"

subsection \<open>Observers and the verifier\<close>

definition ds_ck_ring_spsc_size_lkmm :: "ptr \<Rightarrow> 'a ckr_arena \<Rightarrow> u32" where
  "ds_ck_ring_spsc_size_lkmm hp A =
     (let h = kv_heads A hp; consumer = ckr_c_head h; producer = ckr_p_tail h in
      (producer - consumer) AND ckr_mask h)"

definition ds_ck_ring_spsc_size_c :: "ptr \<Rightarrow> 'a ckr_arena \<Rightarrow> u32" where
  "ds_ck_ring_spsc_size_c hp A =
     (let h = kv_heads A hp; consumer = ckr_c_head h; producer = ckr_p_tail h in
      (producer - consumer) AND ckr_mask h)"

definition ds_ck_ring_spsc_is_empty_lkmm :: "ptr \<Rightarrow> 'a ckr_arena \<Rightarrow> bool" where
  "ds_ck_ring_spsc_is_empty_lkmm hp A \<longleftrightarrow>
     (let h = kv_heads A hp; consumer = ckr_c_head h; producer = ckr_p_tail h in consumer = producer)"

definition ds_ck_ring_spsc_is_empty_c :: "ptr \<Rightarrow> 'a ckr_arena \<Rightarrow> bool" where
  "ds_ck_ring_spsc_is_empty_c hp A \<longleftrightarrow>
     (let h = kv_heads A hp; consumer = ckr_c_head h; producer = ckr_p_tail h in consumer = producer)"

definition ds_ck_ring_spsc_is_full_lkmm :: "ptr \<Rightarrow> 'a ckr_arena \<Rightarrow> bool" where
  "ds_ck_ring_spsc_is_full_lkmm hp A \<longleftrightarrow>
     (let h = kv_heads A hp; consumer = ckr_c_head h; producer = ckr_p_tail h;
          next = (producer + 1) AND ckr_mask h in
      next = consumer)"

definition ds_ck_ring_spsc_is_full_c :: "ptr \<Rightarrow> 'a ckr_arena \<Rightarrow> bool" where
  "ds_ck_ring_spsc_is_full_c hp A \<longleftrightarrow>
     (let h = kv_heads A hp; consumer = ckr_c_head h; producer = ckr_p_tail h;
          next = (producer + 1) AND ckr_mask h in
      next = consumer)"

definition ds_ck_ring_spsc_verify_lkmm :: "ptr \<Rightarrow> 'a ckr_arena \<Rightarrow> int" where
  "ds_ck_ring_spsc_verify_lkmm hp A =
     (if hp = NULL then DS_ERROR_INVALID
      else
        let h = kv_heads A hp in
        if ckr_slots h = NULL then DS_ERROR_CORRUPT
        else
          let capacity = ckr_capacity h; mask = ckr_mask h in
          if \<not> ds_ck_ring_spsc_is_power_of_two capacity then DS_ERROR_CORRUPT
          else if mask \<noteq> capacity - 1 then DS_ERROR_CORRUPT
          else
            let consumer = ckr_c_head h; producer = ckr_p_tail h in
            if consumer AND mask \<noteq> consumer then DS_ERROR_CORRUPT
            else if producer AND mask \<noteq> producer then DS_ERROR_CORRUPT
            else
              let sz = (producer - consumer) AND mask in
              if sz > mask then DS_ERROR_CORRUPT else DS_SUCCESS)"

definition ds_ck_ring_spsc_verify_c :: "ptr \<Rightarrow> 'a ckr_arena \<Rightarrow> int" where
  "ds_ck_ring_spsc_verify_c hp A =
     (if hp = NULL then DS_ERROR_INVALID
      else
        let h = kv_heads A hp in
        if ckr_slots h = NULL then DS_ERROR_CORRUPT
        else
          let capacity = ckr_capacity h; mask = ckr_mask h in
          if \<not> ds_ck_ring_spsc_is_power_of_two capacity then DS_ERROR_CORRUPT
          else if mask \<noteq> capacity - 1 then DS_ERROR_CORRUPT
          else
            let consumer = ckr_c_head h; producer = ckr_p_tail h in
            if consumer AND mask \<noteq> consumer then DS_ERROR_CORRUPT
            else if producer AND mask \<noteq> producer then DS_ERROR_CORRUPT
            else
              let sz = (producer - consumer) AND mask in
              if sz > mask then DS_ERROR_CORRUPT else DS_SUCCESS)"

definition ds_ck_ring_spsc_size :: "side \<Rightarrow> ptr \<Rightarrow> 'a ckr_arena \<Rightarrow> u32" where
  "ds_ck_ring_spsc_size sd hp A =
     (case sd of BPF \<Rightarrow> ds_ck_ring_spsc_size_lkmm hp A | USERSPACE \<Rightarrow> ds_ck_ring_spsc_size_c hp A)"

definition ds_ck_ring_spsc_is_empty :: "side \<Rightarrow> ptr \<Rightarrow> 'a ckr_arena \<Rightarrow> bool" where
  "ds_ck_ring_spsc_is_empty sd hp A =
     (case sd of BPF \<Rightarrow> ds_ck_ring_spsc_is_empty_lkmm hp A | USERSPACE \<Rightarrow> ds_ck_ring_spsc_is_empty_c hp A)"

definition ds_ck_ring_spsc_is_full :: "side \<Rightarrow> ptr \<Rightarrow> 'a ckr_arena \<Rightarrow> bool" where
  "ds_ck_ring_spsc_is_full sd hp A =
     (case sd of BPF \<Rightarrow> ds_ck_ring_spsc_is_full_lkmm hp A | USERSPACE \<Rightarrow> ds_ck_ring_spsc_is_full_c hp A)"

definition ds_ck_ring_spsc_verify :: "side \<Rightarrow> ptr \<Rightarrow> 'a ckr_arena \<Rightarrow> int" where
  "ds_ck_ring_spsc_verify sd hp A =
     (case sd of BPF \<Rightarrow> ds_ck_ring_spsc_verify_lkmm hp A | USERSPACE \<Rightarrow> ds_ck_ring_spsc_verify_c hp A)"

subsection \<open>The variants agree\<close>

lemma ckr_init_side [ds_variant]: "ds_ck_ring_spsc_init sd = ds_ck_ring_spsc_init_lkmm"
  by (intro ext) (cases sd, simp_all add: ds_ck_ring_spsc_init_def ds_ck_ring_spsc_init_lkmm_def
      ds_ck_ring_spsc_init_c_def)

lemma ckr_insert_side [ds_variant]: "ds_ck_ring_spsc_insert sd = ds_ck_ring_spsc_insert_lkmm"
  by (intro ext) (cases sd, simp_all add: ds_ck_ring_spsc_insert_def ds_ck_ring_spsc_insert_lkmm_def
      ds_ck_ring_spsc_insert_c_def)

lemma ckr_pop_side [ds_variant]: "ds_ck_ring_spsc_pop sd = ds_ck_ring_spsc_delete_lkmm"
  by (intro ext) (cases sd, simp_all add: ds_ck_ring_spsc_pop_def ds_ck_ring_spsc_delete_def
      ds_ck_ring_spsc_delete_lkmm_def ds_ck_ring_spsc_delete_c_def)

lemma ckr_observer_sides [ds_variant]:
  "ds_ck_ring_spsc_size sd = ds_ck_ring_spsc_size_lkmm"
  "ds_ck_ring_spsc_is_empty sd = ds_ck_ring_spsc_is_empty_lkmm"
  "ds_ck_ring_spsc_is_full sd = ds_ck_ring_spsc_is_full_lkmm"
  "ds_ck_ring_spsc_verify sd = ds_ck_ring_spsc_verify_lkmm"
  by (intro ext, cases sd, simp_all add: ds_ck_ring_spsc_size_def ds_ck_ring_spsc_size_lkmm_def
      ds_ck_ring_spsc_size_c_def ds_ck_ring_spsc_is_empty_def ds_ck_ring_spsc_is_empty_lkmm_def
      ds_ck_ring_spsc_is_empty_c_def ds_ck_ring_spsc_is_full_def ds_ck_ring_spsc_is_full_lkmm_def
      ds_ck_ring_spsc_is_full_c_def ds_ck_ring_spsc_verify_def ds_ck_ring_spsc_verify_lkmm_def
      ds_ck_ring_spsc_verify_c_def)+

subsection \<open>What a head represents\<close>

definition ckr_wf :: "ds_ck_ring_spsc_head \<Rightarrow> bool" where
  "ckr_wf h \<longleftrightarrow> ckr_slots h \<noteq> NULL \<and> ds_ck_ring_spsc_is_power_of_two (ckr_capacity h) \<and>
     ckr_mask h = ckr_capacity h - 1"

definition ckr_queue :: "ptr \<Rightarrow> 'a ckr_arena \<Rightarrow> ds_kv list \<Rightarrow> bool" where
  "ckr_queue hp A xs \<longleftrightarrow> hp \<noteq> NULL \<and>
     (let h = kv_heads A hp in
      ckr_wf h \<and>
      ring_rel (kv_mem A) (ckr_slots h) (unat (ckr_p_tail h)) (unat (ckr_c_head h))
        (unat (ckr_capacity h)) xs)"

definition ckr_room :: "ptr \<Rightarrow> 'a ckr_arena \<Rightarrow> bool" where
  "ckr_room hp A \<longleftrightarrow>
     (let h = kv_heads A hp in
      ring_count (unat (ckr_p_tail h)) (unat (ckr_c_head h)) (unat (ckr_capacity h)) + 1
        < unat (ckr_capacity h))"

lemma is_power_of_two_pow2_word: "ds_ck_ring_spsc_is_power_of_two c \<Longrightarrow> pow2_word c"
  by (auto simp: ds_ck_ring_spsc_is_power_of_two_def pow2_word_def)

lemma ckr_mask_mod:
  "ckr_wf h \<Longrightarrow> unat (x AND ckr_mask h) = unat x mod unat (ckr_capacity h)"
  by (simp add: ckr_wf_def unat_and_pow2_mask is_power_of_two_pow2_word)

lemma ckr_mask_succ:
  assumes "ckr_wf h"
  shows "unat ((x + 1) AND ckr_mask h) = Suc (unat x) mod unat (ckr_capacity h)"
  using assms unat_plus_mod_pow2 [OF is_power_of_two_pow2_word, of "ckr_capacity h" x 1]
  by (simp add: ckr_mask_mod) (simp add: ckr_wf_def)

lemma ckr_queueD:
  assumes "ckr_queue hp A xs"
  shows "hp \<noteq> NULL" and "ckr_wf (kv_heads A hp)" and "ckr_slots (kv_heads A hp) \<noteq> NULL"
    and "ring_rel (kv_mem A) (ckr_slots (kv_heads A hp)) (unat (ckr_p_tail (kv_heads A hp)))
      (unat (ckr_c_head (kv_heads A hp))) (unat (ckr_capacity (kv_heads A hp))) xs"
  using assms by (simp_all add: ckr_queue_def Let_def ckr_wf_def)

lemma ckr_full_iff:
  assumes "ckr_queue hp A xs"
  shows "(ckr_p_tail (kv_heads A hp) + 1) AND ckr_mask (kv_heads A hp) = ckr_c_head (kv_heads A hp)
    \<longleftrightarrow> \<not> length xs + 1 < unat (ckr_capacity (kv_heads A hp))"
  using ring_rel_full_iff [OF ckr_queueD(4) [OF assms]]
  by (simp add: word_unat_eq_iff ckr_mask_succ [OF ckr_queueD(2) [OF assms]])

lemma ckr_room_iff: "ckr_queue hp A xs \<Longrightarrow>
    ckr_room hp A \<longleftrightarrow> length xs + 1 < unat (ckr_capacity (kv_heads A hp))"
  using ring_rel_length [OF ckr_queueD(4)] by (fastforce simp: ckr_room_def Let_def)

lemma ckr_empty_iff:
  "ckr_queue hp A xs \<Longrightarrow> ckr_c_head (kv_heads A hp) = ckr_p_tail (kv_heads A hp) \<longleftrightarrow> xs = []"
  using ring_rel_empty_iff [OF ckr_queueD(4)] by (auto simp: word_unat_eq_iff)

subsection \<open>Each operation on the represented queue\<close>

lemma ckr_insert_room:
  assumes q: "ckr_queue hp A xs" and r: "ckr_room hp A"
  shows "\<exists>A'. ds_ck_ring_spsc_insert_lkmm hp (key x) (val x) A = (DS_SUCCESS, A') \<and> ckr_queue hp A' (xs @ [x])"
proof -
  let ?h = "kv_heads A hp"
  let ?n = "(ckr_p_tail ?h + 1) AND ckr_mask ?h"
  have nf: "?n \<noteq> ckr_c_head ?h" using ckr_full_iff [OF q] r by (simp add: ckr_room_iff [OF q])
  have "ds_ck_ring_spsc_insert_lkmm hp (key x) (val x) A =
      (DS_SUCCESS, kv_set_head hp (?h\<lparr>ckr_p_tail := ?n\<rparr>)
         (kv_set_slot (kv_slot (ckr_slots ?h) (ckr_p_tail ?h)) (key x) (val x) A))"
    using nf ckr_queueD(1,3) [OF q] by (simp add: ds_ck_ring_spsc_insert_lkmm_def Let_def)
  moreover have un: "unat ?n = Suc (unat (ckr_p_tail ?h)) mod unat (ckr_capacity ?h)"
    by (rule ckr_mask_succ [OF ckr_queueD(2) [OF q]])
  moreover have "Suc (unat (ckr_p_tail ?h)) mod unat (ckr_capacity ?h) \<noteq> unat (ckr_c_head ?h)"
    using nf un by (auto intro: unsigned_word_eqI)
  ultimately show ?thesis
    using q ring_rel_push [OF ckr_queueD(4) [OF q]] by (fastforce simp: ckr_queue_def Let_def ckr_wf_def)
qed

lemma ckr_insert_full:
  "ckr_queue hp A xs \<Longrightarrow> \<not> ckr_room hp A \<Longrightarrow>
   ds_ck_ring_spsc_insert_lkmm hp k v A = (DS_ERROR_FULL, A)"
  using ckr_full_iff [of hp A xs] ckr_room_iff [of hp A xs] ckr_queueD(1,3) [of hp A xs]
  by (simp add: ds_ck_ring_spsc_insert_lkmm_def Let_def)

lemma ckr_delete_empty:
  "ckr_queue hp A [] \<Longrightarrow> ds_ck_ring_spsc_delete_lkmm hp d A = (DS_ERROR_NOT_FOUND, d, A)"
  using ckr_empty_iff [of hp A "[]"] ckr_queueD(1,3) [of hp A "[]"]
  by (simp add: ds_ck_ring_spsc_delete_lkmm_def Let_def)

lemma ckr_delete_front:
  assumes q: "ckr_queue hp A (x # xs)"
  shows "\<exists>A'. ds_ck_ring_spsc_delete_lkmm hp d A = (DS_SUCCESS, map_option (\<lambda>_. x) d, A') \<and> ckr_queue hp A' xs"
proof -
  let ?h = "kv_heads A hp"
  let ?n = "(ckr_c_head ?h + 1) AND ckr_mask ?h"
  note p = ring_rel_pop [OF ckr_queueD(4) [OF q]]
  have "ckr_c_head ?h \<noteq> ckr_p_tail ?h" using ckr_empty_iff [OF q] by simp
  moreover have "kv_mem A (kv_slot (ckr_slots ?h) (ckr_c_head ?h)) = x" using p(2) by simp
  ultimately have "ds_ck_ring_spsc_delete_lkmm hp d A =
      (DS_SUCCESS, map_option (\<lambda>_. x) d, kv_set_head hp (?h\<lparr>ckr_c_head := ?n\<rparr>) A)"
    using ckr_queueD(1,3) [OF q] by (simp add: ds_ck_ring_spsc_delete_lkmm_def Let_def)
  moreover have "unat ?n = Suc (unat (ckr_c_head ?h)) mod unat (ckr_capacity ?h)"
    by (rule ckr_mask_succ [OF ckr_queueD(2) [OF q]])
  ultimately show ?thesis using q p(3) by (fastforce simp: ckr_queue_def Let_def ckr_wf_def)
qed

interpretation ckr: fifo_lane
  "\<lambda>x. ds_ck_ring_spsc_insert pr hp (key x) (val x)" "ds_ck_ring_spsc_pop co hp (Some d)"
  "ckr_queue hp" "ckr_room hp" for pr co :: side and hp :: ptr and d :: ds_kv
proof unfold_locales
  fix A :: "'a ckr_arena" and xs and x :: ds_kv
  assume "ckr_queue hp A xs" "ckr_room hp A"
  then show "\<exists>A'. ds_ck_ring_spsc_insert pr hp (key x) (val x) A = (DS_SUCCESS, A') \<and> ckr_queue hp A' (xs @ [x])"
    unfolding ds_variant by (rule ckr_insert_room)
next
  fix A :: "'a ckr_arena" and xs and x :: ds_kv
  assume "ckr_queue hp A xs" "\<not> ckr_room hp A"
  then show "\<exists>e A'. ds_ck_ring_spsc_insert pr hp (key x) (val x) A = (e, A') \<and> e \<noteq> DS_SUCCESS \<and> ckr_queue hp A' xs"
    by (simp add: ds_variant ckr_insert_full)
next
  fix A :: "'a ckr_arena"
  assume "ckr_queue hp A []"
  then show "\<exists>out A'. ds_ck_ring_spsc_pop co hp (Some d) A = (DS_ERROR_NOT_FOUND, out, A') \<and> ckr_queue hp A' []"
    by (simp add: ds_variant ckr_delete_empty)
next
  fix A :: "'a ckr_arena" and x xs
  assume "ckr_queue hp A (x # xs)"
  from ckr_delete_front [OF this, of "Some d"]
  show "\<exists>A'. ds_ck_ring_spsc_pop co hp (Some d) A = (DS_SUCCESS, Some x, A') \<and> ckr_queue hp A' xs"
    by (simp add: ds_variant)
qed

text \<open>
  The Concurrency Kit ring is a FIFO: every sequence of inserts and pops, each
  issued by the kernel or by userspace, keeps the head well formed, and the elements
  accepted (after those already there) are the elements delivered followed by those
  still queued, in order.
\<close>

theorem ckr_run_fifo:
  assumes "ckr_queue hp A xs"
    and "lane_run (\<lambda>x. ds_ck_ring_spsc_insert pr hp (key x) (val x)) (ds_ck_ring_spsc_pop co hp (Some d))
      ops A = (evs, A')"
  shows "\<exists>ys. ckr_queue hp A' ys \<and> xs @ accepted evs = delivered evs @ ys"
  using assms by (rule ckr.run_fifo)

text \<open>A ring of two slots at 0x2000, empty, with its head at 0x1000.\<close>

definition ckr_demo :: "'a \<Rightarrow> 'a ckr_arena" where
  "ckr_demo al =
     \<lparr>kv_heads = (\<lambda>_. \<lparr>ckr_capacity = 2, ckr_mask = 1, ckr_c_head = 0, ckr_p_tail = 0,
        ckr_slots = 0x2000\<rparr>),
      kv_mem = (\<lambda>_. zero_kv), kv_alloc = al\<rparr>"

lemma ckr_demo_queue: "ckr_queue 0x1000 (ckr_demo al) []"
  by (simp add: ckr_queue_def ckr_wf_def ckr_demo_def ring_rel_init
      ds_ck_ring_spsc_is_power_of_two_def)

theorem ckr_run_fifo_witness:
  "\<exists>evs A' ys. lane_run (\<lambda>x. ds_ck_ring_spsc_insert USERSPACE 0x1000 (key x) (val x))
       (ds_ck_ring_spsc_pop BPF 0x1000 (Some zero_kv))
       [LInsert \<lparr>key = 1, val = 10\<rparr>, LInsert \<lparr>key = 2, val = 20\<rparr>, LPop, LInsert \<lparr>key = 3, val = 30\<rparr>]
       (ckr_demo ()) = (evs, A') \<and>
     ckr_queue 0x1000 A' ys \<and> accepted evs = delivered evs @ ys \<and>
     delivered evs = [\<lparr>key = 1, val = 10\<rparr>] \<and> ys = [\<lparr>key = 3, val = 30\<rparr>]"
proof -
  let ?run = "lane_run (\<lambda>x. ds_ck_ring_spsc_insert USERSPACE 0x1000 (key x) (val x))
       (ds_ck_ring_spsc_pop BPF 0x1000 (Some zero_kv))
       [LInsert \<lparr>key = 1, val = 10\<rparr>, LInsert \<lparr>key = 2, val = 20\<rparr>, LPop, LInsert \<lparr>key = 3, val = 30\<rparr>]
       (ckr_demo ())"
  obtain evs A' where run: "?run = (evs, A')" by fastforce
  have "accepted (fst ?run) = [\<lparr>key = 1, val = 10\<rparr>, \<lparr>key = 3, val = 30\<rparr>] \<and>
    delivered (fst ?run) = [\<lparr>key = 1, val = 10\<rparr>]"
    by code_simp
  then have "accepted evs = [\<lparr>key = 1, val = 10\<rparr>, \<lparr>key = 3, val = 30\<rparr>]"
    "delivered evs = [\<lparr>key = 1, val = 10\<rparr>]" by (simp_all only: run fst_conv)
  with ckr_run_fifo [OF ckr_demo_queue run] run show ?thesis by fastforce
qed

subsection \<open>Initialisation, observers and the verifier\<close>

lemma ckr_init_success:
  assumes "hp \<noteq> NULL" "ds_ck_ring_spsc_is_power_of_two c"
    and "alloc (kv_bytes c) (kv_alloc A) = (p, al)" "p \<noteq> NULL"
  shows "ds_ck_ring_spsc_init_lkmm alloc hp c A =
    (DS_SUCCESS, kv_set_head hp \<lparr>ckr_capacity = c, ckr_mask = c - 1, ckr_c_head = 0, ckr_p_tail = 0,
       ckr_slots = p\<rparr> (A\<lparr>kv_alloc := al\<rparr>))"
  using assms by (cases "kv_heads A hp") (simp add: ds_ck_ring_spsc_init_lkmm_def Let_def)

text \<open>
  Initialisation succeeds exactly for a head, a power-of-two capacity of at least
  two and a successful allocation; it then leaves an empty ring over the allocated
  array.  On every other branch the code of the failed check is returned and no head or
  slot changes.
\<close>

theorem ckr_init_branches:
  assumes i: "ds_ck_ring_spsc_init sd alloc hp c A = (r, A')"
    and a: "alloc (kv_bytes c) (kv_alloc A) = (p, al)"
  shows "(if hp = NULL \<or> \<not> ds_ck_ring_spsc_is_power_of_two c then r = DS_ERROR_INVALID \<and> A' = A
     else if p = NULL then r = DS_ERROR_NOMEM \<and> A' = A\<lparr>kv_alloc := al\<rparr>
     else r = DS_SUCCESS \<and> ckr_queue hp A' [] \<and> ckr_capacity (kv_heads A' hp) = c \<and>
       ckr_slots (kv_heads A' hp) = p \<and> kv_mem A' = kv_mem A)"
proof (cases "hp = NULL \<or> \<not> ds_ck_ring_spsc_is_power_of_two c \<or> p = NULL")
  case True
  then show ?thesis using i a by (auto simp: ds_variant ds_ck_ring_spsc_init_lkmm_def Let_def split: if_splits)
next
  case False
  then have "2 \<le> unat c" by (simp add: ds_ck_ring_spsc_is_power_of_two_def word_le_nat_alt)
  moreover have "unat c \<le> 2 ^ 32" using unsigned_less [of c, where 'a = nat] by simp
  ultimately show ?thesis
    using False i ckr_init_success [of hp c alloc A p al] a
    by (auto simp: ds_variant ckr_queue_def ckr_wf_def ring_rel_init)
qed

theorem ckr_init_branches_witness:
  "\<exists>A'. ds_ck_ring_spsc_init BPF (\<lambda>n k. (0x2000, k + n)) 0x1000 8 (ckr_demo 0) = (DS_SUCCESS, A') \<and>
     ckr_queue 0x1000 A' [] \<and> ckr_capacity (kv_heads A' 0x1000) = 8"
proof -
  obtain r A' where i: "ds_ck_ring_spsc_init BPF (\<lambda>n k. (0x2000, k + n)) 0x1000 8 (ckr_demo 0) = (r, A')"
    by fastforce
  from ckr_init_branches [OF i refl] i show ?thesis by (simp add: ds_ck_ring_spsc_is_power_of_two_def)
qed

lemma word_and_mask_eq_iff:
  "ckr_wf h \<Longrightarrow> x AND ckr_mask h = x \<longleftrightarrow> unat x < unat (ckr_capacity h)"
  using pow2_word_pos [OF is_power_of_two_pow2_word, of "ckr_capacity h"]
  by (auto simp: word_unat_eq_iff ckr_mask_mod) (auto simp: ckr_wf_def intro: mod_less_divisor elim: subst)

text \<open>
  The verifier is exact: it reports success on a head that is not NULL precisely
  when the head represents some queue, that is when the slots exist, the capacity is a
  power of two of at least two, the mask fits it and both indices lie inside the array.
\<close>

theorem ckr_verify_exact:
  "ds_ck_ring_spsc_verify sd hp A = DS_SUCCESS \<longleftrightarrow> (\<exists>xs. ckr_queue hp A xs)"
proof (cases "hp \<noteq> NULL \<and> ckr_wf (kv_heads A hp)")
  case True
  let ?h = "kv_heads A hp"
  have c: "2 \<le> unat (ckr_capacity ?h)" "unat (ckr_capacity ?h) \<le> 2 ^ 32"
    using True unsigned_less [of "ckr_capacity ?h", where 'a = nat]
    by (simp_all add: ckr_wf_def ds_ck_ring_spsc_is_power_of_two_def word_le_nat_alt)
  have le: "\<not> (ckr_p_tail ?h - ckr_c_head ?h) AND ckr_mask ?h > ckr_mask ?h"
    by (simp add: not_less word_and_le1)
  have "ds_ck_ring_spsc_verify sd hp A = DS_SUCCESS \<longleftrightarrow>
      unat (ckr_c_head ?h) < unat (ckr_capacity ?h) \<and> unat (ckr_p_tail ?h) < unat (ckr_capacity ?h)"
    using True le word_and_mask_eq_iff [of ?h "ckr_c_head ?h"] word_and_mask_eq_iff [of ?h "ckr_p_tail ?h"]
    by (simp add: ds_variant ds_ck_ring_spsc_verify_lkmm_def ckr_wf_def Let_def)
  with True c show ?thesis by (auto simp: ckr_queue_def ring_rel_def Let_def)
next
  case False
  then show ?thesis
    by (auto simp: ds_variant ds_ck_ring_spsc_verify_lkmm_def ckr_wf_def ckr_queue_def Let_def)
qed

text \<open>
  The observers agree with the represented queue: size is its length, emptiness
  and fullness say whether it holds nothing or capacity minus one elements.
\<close>

theorem ckr_observers:
  assumes q: "ckr_queue hp A xs"
  shows "unat (ds_ck_ring_spsc_size sd hp A) = length xs \<and>
    (ds_ck_ring_spsc_is_empty sd hp A \<longleftrightarrow> xs = []) \<and>
    (ds_ck_ring_spsc_is_full sd hp A \<longleftrightarrow> length xs = unat (ckr_capacity (kv_heads A hp)) - 1)"
proof -
  let ?h = "kv_heads A hp"
  note rel = ckr_queueD(4) [OF q]
  have lt: "length xs < unat (ckr_capacity ?h)" by (rule ring_rel_length_less [OF rel])
  have "unat (ckr_p_tail ?h) < unat (ckr_capacity ?h)" "unat (ckr_c_head ?h) < unat (ckr_capacity ?h)"
    using rel by (simp_all add: ring_rel_def)
  moreover have p2: "pow2_word (ckr_capacity ?h)"
    using ckr_queueD(2) [OF q] by (simp add: ckr_wf_def is_power_of_two_pow2_word)
  ultimately have "unat (ckr_p_tail ?h - ckr_c_head ?h) mod unat (ckr_capacity ?h) = length xs"
    using unat_minus_mod_pow2 [OF p2] by (simp add: ring_rel_length [OF rel] ring_count_def)
  then have "unat (ds_ck_ring_spsc_size sd hp A) = length xs"
    using ckr_mask_mod [OF ckr_queueD(2) [OF q]]
    by (simp add: ds_variant ds_ck_ring_spsc_size_lkmm_def Let_def)
  moreover have "ds_ck_ring_spsc_is_empty sd hp A \<longleftrightarrow> xs = []"
    using ckr_empty_iff [OF q] by (simp add: ds_variant ds_ck_ring_spsc_is_empty_lkmm_def Let_def)
  moreover have "ds_ck_ring_spsc_is_full sd hp A \<longleftrightarrow> length xs = unat (ckr_capacity ?h) - 1"
    using ckr_full_iff [OF q] lt by (auto simp: ds_variant ds_ck_ring_spsc_is_full_lkmm_def Let_def)
  ultimately show ?thesis by blast
qed

theorem ckr_observers_witness:
  "ds_ck_ring_spsc_size BPF 0x1000 (ckr_demo ()) = 0"
  using ckr_observers [OF ckr_demo_queue, of BPF "()"] by (simp add: unat_eq_0)

end
