(* ===== verification/IoUring.thy ===== *)
theory IoUring
  imports KvRing
begin

unbundle bit_operations_syntax

text \<open>
  The io_uring-style ring of \<^verbatim>\<open>include/ds_io_uring.h\<close>: free-running 32-bit producer
  and consumer indices that wrap at \<open>2 ^ 32\<close>, masked on access, all slots usable, and an
  advisory status word whose bit 0 says that the last insert found the ring full.
\<close>

subsection \<open>State and initialisation\<close>

definition DS_IO_URING_SQ_FLAG_FULL :: u32 where "DS_IO_URING_SQ_FLAG_FULL = 1"

record ds_io_uring_ring_head =
  iou_tail :: u32
  iou_head :: u32
  iou_ring_entries :: u32
  iou_ring_mask :: u32
  iou_sq_flags :: u32
  iou_entries :: ptr

type_synonym 'a iou_arena = "(ds_io_uring_ring_head, 'a) kv_arena"

definition ds_io_uring_init_lkmm ::
  "'a allocator \<Rightarrow> ptr \<Rightarrow> u32 \<Rightarrow> 'a iou_arena \<Rightarrow> int \<times> 'a iou_arena" where
  "ds_io_uring_init_lkmm bpf_arena_alloc hp ring_entries A =
     (if ring_entries = 0 \<or> ring_entries AND (ring_entries - 1) \<noteq> 0 then (DS_ERROR_INVALID, A)
      else
        let (entries, al) = bpf_arena_alloc (kv_bytes ring_entries) (kv_alloc A);
            A = A\<lparr>kv_alloc := al\<rparr> in
        if entries = NULL then (DS_ERROR_NOMEM, A)
        else
          let h = (kv_heads A hp)\<lparr>iou_ring_entries := ring_entries, iou_ring_mask := ring_entries - 1\<rparr>;
              h = h\<lparr>iou_tail := 0\<rparr>;
              h = h\<lparr>iou_head := 0\<rparr>;
              h = h\<lparr>iou_sq_flags := 0\<rparr>;
              h = h\<lparr>iou_entries := entries\<rparr> in
          (DS_SUCCESS, kv_set_head hp h A))"

definition ds_io_uring_init_c ::
  "'a allocator \<Rightarrow> ptr \<Rightarrow> u32 \<Rightarrow> 'a iou_arena \<Rightarrow> int \<times> 'a iou_arena" where
  "ds_io_uring_init_c bpf_arena_alloc hp ring_entries A =
     (if ring_entries = 0 \<or> ring_entries AND (ring_entries - 1) \<noteq> 0 then (DS_ERROR_INVALID, A)
      else
        let (entries, al) = bpf_arena_alloc (kv_bytes ring_entries) (kv_alloc A);
            A = A\<lparr>kv_alloc := al\<rparr> in
        if entries = NULL then (DS_ERROR_NOMEM, A)
        else
          let h = (kv_heads A hp)\<lparr>iou_ring_entries := ring_entries, iou_ring_mask := ring_entries - 1\<rparr>;
              h = h\<lparr>iou_tail := 0\<rparr>;
              h = h\<lparr>iou_head := 0\<rparr>;
              h = h\<lparr>iou_sq_flags := 0\<rparr>;
              h = h\<lparr>iou_entries := entries\<rparr> in
          (DS_SUCCESS, kv_set_head hp h A))"

definition ds_io_uring_init :: "side \<Rightarrow> 'a allocator \<Rightarrow> ptr \<Rightarrow> u32 \<Rightarrow> 'a iou_arena \<Rightarrow> int \<times> 'a iou_arena" where
  "ds_io_uring_init sd bpf_arena_alloc hp ring_entries A =
     (case sd of BPF \<Rightarrow> ds_io_uring_init_lkmm bpf_arena_alloc hp ring_entries A | USERSPACE \<Rightarrow> ds_io_uring_init_c bpf_arena_alloc hp ring_entries A)"

subsection \<open>Insertion (producer)\<close>

definition ds_io_uring_insert_lkmm ::
  "ptr \<Rightarrow> u64 \<Rightarrow> u64 \<Rightarrow> 'a iou_arena \<Rightarrow> int \<times> 'a iou_arena" where
  "ds_io_uring_insert_lkmm hp k v A =
     (let rh = kv_heads A hp;
          tail = iou_tail rh;
          h = iou_head rh in
      if tail - h \<ge> iou_ring_entries rh then
        (DS_ERROR_FULL,
         kv_set_head hp (rh\<lparr>iou_sq_flags := iou_sq_flags rh OR DS_IO_URING_SQ_FLAG_FULL\<rparr>) A)
      else
        let slot = kv_slot (iou_entries rh) (tail AND iou_ring_mask rh);
            A = kv_set_slot slot k v A;
            A = kv_set_head hp ((kv_heads A hp)\<lparr>iou_tail := tail + 1\<rparr>) A;
            A = kv_set_head hp ((kv_heads A hp)\<lparr>iou_sq_flags :=
                  iou_sq_flags (kv_heads A hp) AND NOT DS_IO_URING_SQ_FLAG_FULL\<rparr>) A in
        (DS_SUCCESS, A))"

definition ds_io_uring_insert_c ::
  "ptr \<Rightarrow> u64 \<Rightarrow> u64 \<Rightarrow> 'a iou_arena \<Rightarrow> int \<times> 'a iou_arena" where
  "ds_io_uring_insert_c hp k v A =
     (let rh = kv_heads A hp;
          tail = iou_tail rh;
          h = iou_head rh in
      if tail - h \<ge> iou_ring_entries rh then
        (DS_ERROR_FULL,
         kv_set_head hp (rh\<lparr>iou_sq_flags := iou_sq_flags rh OR DS_IO_URING_SQ_FLAG_FULL\<rparr>) A)
      else
        let slot = kv_slot (iou_entries rh) (tail AND iou_ring_mask rh);
            A = A\<lparr>kv_mem := (kv_mem A)(slot := (kv_mem A slot)\<lparr>key := k\<rparr>)\<rparr>;
            A = A\<lparr>kv_mem := (kv_mem A)(slot := (kv_mem A slot)\<lparr>val := v\<rparr>)\<rparr>;
            A = kv_set_head hp ((kv_heads A hp)\<lparr>iou_tail := tail + 1\<rparr>) A;
            A = kv_set_head hp ((kv_heads A hp)\<lparr>iou_sq_flags :=
                  iou_sq_flags (kv_heads A hp) AND NOT DS_IO_URING_SQ_FLAG_FULL\<rparr>) A in
        (DS_SUCCESS, A))"

definition ds_io_uring_insert :: "side \<Rightarrow> ptr \<Rightarrow> u64 \<Rightarrow> u64 \<Rightarrow> 'a iou_arena \<Rightarrow> int \<times> 'a iou_arena" where
  "ds_io_uring_insert sd hp k v A =
     (case sd of BPF \<Rightarrow> ds_io_uring_insert_lkmm hp k v A | USERSPACE \<Rightarrow> ds_io_uring_insert_c hp k v A)"

subsection \<open>Removal (consumer)\<close>

definition ds_io_uring_pop_lkmm ::
  "ptr \<Rightarrow> ds_kv option \<Rightarrow> 'a iou_arena \<Rightarrow> int \<times> ds_kv option \<times> 'a iou_arena" where
  "ds_io_uring_pop_lkmm hp out A =
     (let rh = kv_heads A hp;
          h = iou_head rh;
          t = iou_tail rh in
      if h = t then (DS_ERROR_NOT_FOUND, out, A)
      else
        let slot = kv_slot (iou_entries rh) (h AND iou_ring_mask rh);
            out = map_option (\<lambda>d. d\<lparr>key := key (kv_mem A slot), val := val (kv_mem A slot)\<rparr>) out in
        (DS_SUCCESS, out, kv_set_head hp (rh\<lparr>iou_head := h + 1\<rparr>) A))"

definition ds_io_uring_pop_c ::
  "ptr \<Rightarrow> ds_kv option \<Rightarrow> 'a iou_arena \<Rightarrow> int \<times> ds_kv option \<times> 'a iou_arena" where
  "ds_io_uring_pop_c hp out A =
     (let rh = kv_heads A hp;
          h = iou_head rh;
          t = iou_tail rh in
      if h = t then (DS_ERROR_NOT_FOUND, out, A)
      else
        let slot = kv_slot (iou_entries rh) (h AND iou_ring_mask rh);
            out = map_option (\<lambda>d. d\<lparr>key := key (kv_mem A slot), val := val (kv_mem A slot)\<rparr>) out in
        (DS_SUCCESS, out, kv_set_head hp (rh\<lparr>iou_head := h + 1\<rparr>) A))"

definition ds_io_uring_pop :: "side \<Rightarrow> ptr \<Rightarrow> ds_kv option \<Rightarrow> 'a iou_arena \<Rightarrow> int \<times> ds_kv option \<times> 'a iou_arena" where
  "ds_io_uring_pop sd hp out A =
     (case sd of BPF \<Rightarrow> ds_io_uring_pop_lkmm hp out A | USERSPACE \<Rightarrow> ds_io_uring_pop_c hp out A)"

subsection \<open>Search and the verifier\<close>

definition ds_io_uring_search_lkmm :: "ptr \<Rightarrow> u64 \<Rightarrow> 'a iou_arena \<Rightarrow> int" where
  "ds_io_uring_search_lkmm hp k A = DS_ERROR_INVALID"

definition ds_io_uring_search_c :: "ptr \<Rightarrow> u64 \<Rightarrow> 'a iou_arena \<Rightarrow> int" where
  "ds_io_uring_search_c hp k A = DS_ERROR_INVALID"

definition ds_io_uring_search :: "side \<Rightarrow> ptr \<Rightarrow> u64 \<Rightarrow> 'a iou_arena \<Rightarrow> int" where
  "ds_io_uring_search sd hp k A =
     (case sd of BPF \<Rightarrow> ds_io_uring_search_lkmm hp k A | USERSPACE \<Rightarrow> ds_io_uring_search_c hp k A)"

definition ds_io_uring_verify_lkmm :: "ptr \<Rightarrow> 'a iou_arena \<Rightarrow> int" where
  "ds_io_uring_verify_lkmm hp A =
     (let rh = kv_heads A hp;
          ring_entries = iou_ring_entries rh in
      if ring_entries = 0 \<or> ring_entries AND (ring_entries - 1) \<noteq> 0 then DS_ERROR_CORRUPT
      else if iou_ring_mask rh \<noteq> ring_entries - 1 then DS_ERROR_CORRUPT
      else
        let tail = iou_tail rh; h = iou_head rh in
        if tail - h > ring_entries then DS_ERROR_CORRUPT else DS_SUCCESS)"

definition ds_io_uring_verify_c :: "ptr \<Rightarrow> 'a iou_arena \<Rightarrow> int" where
  "ds_io_uring_verify_c hp A =
     (let rh = kv_heads A hp;
          ring_entries = iou_ring_entries rh in
      if ring_entries = 0 \<or> ring_entries AND (ring_entries - 1) \<noteq> 0 then DS_ERROR_CORRUPT
      else if iou_ring_mask rh \<noteq> ring_entries - 1 then DS_ERROR_CORRUPT
      else
        let tail = iou_tail rh; h = iou_head rh in
        if tail - h > ring_entries then DS_ERROR_CORRUPT else DS_SUCCESS)"

definition ds_io_uring_verify :: "side \<Rightarrow> ptr \<Rightarrow> 'a iou_arena \<Rightarrow> int" where
  "ds_io_uring_verify sd hp A =
     (case sd of BPF \<Rightarrow> ds_io_uring_verify_lkmm hp A | USERSPACE \<Rightarrow> ds_io_uring_verify_c hp A)"

subsection \<open>The variants agree\<close>

lemma iou_init_side [ds_variant]: "ds_io_uring_init sd = ds_io_uring_init_lkmm"
  by (intro ext) (cases sd, simp_all add: ds_io_uring_init_def ds_io_uring_init_lkmm_def
      ds_io_uring_init_c_def)

lemma iou_insert_side [ds_variant]: "ds_io_uring_insert sd = ds_io_uring_insert_lkmm"
  by (intro ext) (cases sd, simp_all add: ds_io_uring_insert_def ds_io_uring_insert_lkmm_def
      ds_io_uring_insert_c_def Let_def kv_set_slot_def)

lemma iou_pop_side [ds_variant]: "ds_io_uring_pop sd = ds_io_uring_pop_lkmm"
  by (intro ext) (cases sd, simp_all add: ds_io_uring_pop_def ds_io_uring_pop_lkmm_def
      ds_io_uring_pop_c_def)

lemma iou_verify_side [ds_variant]: "ds_io_uring_verify sd = ds_io_uring_verify_lkmm"
  by (intro ext) (cases sd, simp_all add: ds_io_uring_verify_def ds_io_uring_verify_lkmm_def
      ds_io_uring_verify_c_def)

subsection \<open>What a head represents\<close>

definition iou_wf :: "ds_io_uring_ring_head \<Rightarrow> bool" where
  "iou_wf rh \<longleftrightarrow> pow2_word (iou_ring_entries rh) \<and> iou_ring_mask rh = iou_ring_entries rh - 1 \<and>
     iou_tail rh - iou_head rh \<le> iou_ring_entries rh"

definition iou_queue :: "ptr \<Rightarrow> 'a iou_arena \<Rightarrow> ds_kv list \<Rightarrow> bool" where
  "iou_queue hp A xs \<longleftrightarrow>
     (let rh = kv_heads A hp in
      iou_wf rh \<and>
      xs = kv_ring (kv_mem A) (iou_entries rh) (unat (iou_head rh) mod unat (iou_ring_entries rh))
        (unat (iou_tail rh - iou_head rh)) (unat (iou_ring_entries rh)))"

definition iou_room :: "ptr \<Rightarrow> 'a iou_arena \<Rightarrow> bool" where
  "iou_room hp A \<longleftrightarrow> iou_tail (kv_heads A hp) - iou_head (kv_heads A hp) < iou_ring_entries (kv_heads A hp)"

lemma iou_queue_length:
  "iou_queue hp A xs \<Longrightarrow> length xs = unat (iou_tail (kv_heads A hp) - iou_head (kv_heads A hp))"
  by (simp add: iou_queue_def Let_def)

lemma iou_entries_bound: "pow2_word (n :: u32) \<Longrightarrow> unat n \<le> 2 ^ 31"
proof -
  assume "pow2_word n"
  then obtain k where "k < 32" "unat n = 2 ^ k" using pow2_word_unat [of n] by auto
  moreover have "(2::nat) ^ k \<le> 2 ^ 31" using \<open>k < 32\<close> by (intro power_increasing) simp_all
  ultimately show ?thesis by (simp only:)
qed

lemma iou_tail_slot:
  fixes t h e :: u32
  assumes "pow2_word e"
  shows "(unat h mod unat e + unat (t - h)) mod unat e = unat t mod unat e"
  using unat_plus_mod_pow2 [OF assms, of h "t - h"] by (simp add: mod_add_left_eq)

lemma iou_masked:
  "iou_wf rh \<Longrightarrow> of_nat (unat x mod unat (iou_ring_entries rh)) = x AND iou_ring_mask rh"
  by (simp add: iou_wf_def flip: unat_and_pow2_mask)

subsection \<open>Each operation on the represented queue\<close>

lemma iou_insert_room:
  assumes q: "iou_queue hp A xs" and r: "iou_room hp A"
  shows "\<exists>A'. ds_io_uring_insert_lkmm hp (key x) (val x) A = (DS_SUCCESS, A') \<and>
    iou_queue hp A' (xs @ [x]) \<and> iou_sq_flags (kv_heads A' hp) AND DS_IO_URING_SQ_FLAG_FULL = 0"
proof -
  let ?h = "kv_heads A hp"
  let ?e = "unat (iou_ring_entries ?h)"
  let ?n = "unat (iou_tail ?h - iou_head ?h)"
  let ?a = "kv_slot (iou_entries ?h) (iou_tail ?h AND iou_ring_mask ?h)"
  define A' where "A' = kv_set_head hp (?h\<lparr>iou_tail := iou_tail ?h + 1,
      iou_sq_flags := iou_sq_flags ?h AND NOT DS_IO_URING_SQ_FLAG_FULL\<rparr>) (kv_set_slot ?a (key x) (val x) A)"
  have wf: "iou_wf ?h" and xs: "xs = kv_ring (kv_mem A) (iou_entries ?h) (unat (iou_head ?h) mod ?e) ?n ?e"
    using q by (simp_all add: iou_queue_def Let_def)
  have p2: "pow2_word (iou_ring_entries ?h)" using wf by (simp add: iou_wf_def)
  have n: "?n < ?e" using r by (simp add: iou_room_def word_less_nat_alt)
  have e: "?e \<le> 2 ^ 31" using iou_entries_bound [OF p2] .
  have run: "ds_io_uring_insert_lkmm hp (key x) (val x) A = (DS_SUCCESS, A')"
    using leD [OF less_imp_le] r
    by (simp add: ds_io_uring_insert_lkmm_def iou_room_def A'_def Let_def not_le kv_set_head_def kv_set_slot_def)
  have t1: "iou_tail ?h + 1 - iou_head ?h = (iou_tail ?h - iou_head ?h) + 1" by simp
  have sn: "unat (iou_tail ?h + 1 - iou_head ?h) = Suc ?n"
    unfolding t1 using n e unat_plus_u32 [of "iou_tail ?h - iou_head ?h" 1] by simp
  have "?a = kv_slot (iou_entries ?h) (of_nat ((unat (iou_head ?h) mod ?e + ?n) mod ?e))"
    by (simp only: iou_tail_slot [OF p2] iou_masked [OF wf])
  then have "iou_queue hp A' (xs @ [x])"
    using kv_ring_push [of ?n ?e ?a "iou_entries ?h" "unat (iou_head ?h) mod ?e" "kv_mem A" x] n e wf
    by (simp add: iou_queue_def Let_def A'_def sn xs iou_wf_def word_le_nat_alt)
  moreover have "iou_sq_flags (kv_heads A' hp) AND DS_IO_URING_SQ_FLAG_FULL = 0"
    by (simp add: A'_def and.assoc)
  ultimately show ?thesis using run by blast
qed

lemma iou_insert_full:
  assumes q: "iou_queue hp A xs" and r: "\<not> iou_room hp A"
  shows "\<exists>A'. ds_io_uring_insert_lkmm hp k v A = (DS_ERROR_FULL, A') \<and> iou_queue hp A' xs \<and>
    iou_sq_flags (kv_heads A' hp) AND DS_IO_URING_SQ_FLAG_FULL \<noteq> 0"
proof -
  have "(f OR DS_IO_URING_SQ_FLAG_FULL) AND DS_IO_URING_SQ_FLAG_FULL \<noteq> 0" for f :: u32
    by (simp add: DS_IO_URING_SQ_FLAG_FULL_def and.commute [of _ 1] one_and_eq)
  then show ?thesis
    using q r by (simp add: ds_io_uring_insert_lkmm_def Let_def iou_room_def not_less iou_queue_def iou_wf_def)
qed

lemma iou_pop_empty: "iou_queue hp A [] \<Longrightarrow> ds_io_uring_pop_lkmm hp d A = (DS_ERROR_NOT_FOUND, d, A)"
  using iou_queue_length [of hp A "[]"]
  by (simp add: ds_io_uring_pop_lkmm_def Let_def unat_eq_0)

lemma iou_pop_front:
  assumes q: "iou_queue hp A (x # xs)"
  shows "\<exists>A'. ds_io_uring_pop_lkmm hp d A = (DS_SUCCESS, map_option (\<lambda>_. x) d, A') \<and> iou_queue hp A' xs"
proof -
  let ?h = "kv_heads A hp"
  let ?e = "unat (iou_ring_entries ?h)"
  have wf: "iou_wf ?h" and xs: "x # xs = kv_ring (kv_mem A) (iou_entries ?h) (unat (iou_head ?h) mod ?e)
      (unat (iou_tail ?h - iou_head ?h)) ?e"
    using q by (simp_all add: iou_queue_def Let_def)
  have p2: "pow2_word (iou_ring_entries ?h)" using wf by (simp add: iou_wf_def)
  have n: "unat (iou_tail ?h - iou_head ?h) = Suc (length xs)" using iou_queue_length [OF q] by simp
  then have ne: "iou_tail ?h - iou_head ?h \<noteq> 0" by auto
  then have m: "unat (iou_tail ?h - (iou_head ?h + 1)) = length xs"
    using unat_pred [OF ne] n by (simp add: diff_diff_eq)
  have "unat (iou_head ?h + 1) mod ?e = Suc (unat (iou_head ?h) mod ?e) mod ?e"
    using unat_plus_mod_pow2 [OF p2, of "iou_head ?h" 1] by (simp add: mod_Suc_eq)
  then have l: "x = kv_mem A (kv_slot (iou_entries ?h) (iou_head ?h AND iou_ring_mask ?h)) \<and>
      xs = kv_ring (kv_mem A) (iou_entries ?h) (unat (iou_head ?h + 1) mod ?e)
        (unat (iou_tail ?h - (iou_head ?h + 1))) ?e"
    using xs by (simp add: n m kv_ring_front iou_masked [OF wf])
  have "ds_io_uring_pop_lkmm hp d A =
      (DS_SUCCESS, map_option (\<lambda>_. x) d, kv_set_head hp (?h\<lparr>iou_head := iou_head ?h + 1\<rparr>) A)"
    using ne l by (auto simp: ds_io_uring_pop_lkmm_def Let_def)
  moreover have "iou_queue hp (kv_set_head hp (?h\<lparr>iou_head := iou_head ?h + 1\<rparr>) A) xs"
    using l wf n m by (simp add: iou_queue_def Let_def iou_wf_def word_le_nat_alt)
  ultimately show ?thesis by blast
qed

interpretation iou: fifo_lane
  "\<lambda>x. ds_io_uring_insert pr hp (key x) (val x)" "ds_io_uring_pop co hp (Some d)"
  "iou_queue hp" "iou_room hp" for pr co :: side and hp :: ptr and d :: ds_kv
proof unfold_locales
  fix A :: "'a iou_arena" and xs and x :: ds_kv
  assume "iou_queue hp A xs" "iou_room hp A"
  from iou_insert_room [OF this]
  show "\<exists>A'. ds_io_uring_insert pr hp (key x) (val x) A = (DS_SUCCESS, A') \<and> iou_queue hp A' (xs @ [x])"
    unfolding ds_variant by blast
next
  fix A :: "'a iou_arena" and xs and x :: ds_kv
  assume "iou_queue hp A xs" "\<not> iou_room hp A"
  from iou_insert_full [OF this]
  show "\<exists>e A'. ds_io_uring_insert pr hp (key x) (val x) A = (e, A') \<and> e \<noteq> DS_SUCCESS \<and> iou_queue hp A' xs"
    unfolding ds_variant using ds_error_not_success(7) by blast
next
  fix A :: "'a iou_arena"
  assume "iou_queue hp A []"
  then show "\<exists>out A'. ds_io_uring_pop co hp (Some d) A = (DS_ERROR_NOT_FOUND, out, A') \<and> iou_queue hp A' []"
    by (simp add: ds_variant iou_pop_empty)
next
  fix A :: "'a iou_arena" and x xs
  assume "iou_queue hp A (x # xs)"
  from iou_pop_front [OF this, of "Some d"]
  show "\<exists>A'. ds_io_uring_pop co hp (Some d) A = (DS_SUCCESS, Some x, A') \<and> iou_queue hp A' xs"
    by (simp add: ds_variant)
qed

text \<open>
  The io_uring ring is a FIFO even when its free-running indices wrap past
  \<open>2 ^ 32\<close>: every sequence of inserts and pops keeps the head well formed, and the
  elements accepted (after those already there) are the elements delivered followed by
  those still queued, in order.
\<close>

theorem iou_run_fifo:
  assumes "iou_queue hp A xs"
    and "lane_run (\<lambda>x. ds_io_uring_insert pr hp (key x) (val x)) (ds_io_uring_pop co hp (Some d))
      ops A = (evs, A')"
  shows "\<exists>ys. iou_queue hp A' ys \<and> xs @ accepted evs = delivered evs @ ys"
  using assms by (rule iou.run_fifo)

text \<open>An empty ring of two slots whose indices are about to wrap.\<close>

definition iou_demo :: "'a \<Rightarrow> 'a iou_arena" where
  "iou_demo al =
     \<lparr>kv_heads = (\<lambda>_. \<lparr>iou_tail = 0xFFFFFFFF, iou_head = 0xFFFFFFFF, iou_ring_entries = 2,
        iou_ring_mask = 1, iou_sq_flags = 0, iou_entries = 0x2000\<rparr>),
      kv_mem = (\<lambda>_. zero_kv), kv_alloc = al\<rparr>"

lemma iou_demo_queue: "iou_queue 0x1000 (iou_demo al) []"
  by (simp add: iou_queue_def iou_wf_def iou_demo_def pow2_word_def)

theorem iou_run_fifo_witness:
  "\<exists>evs A' ys. lane_run (\<lambda>x. ds_io_uring_insert USERSPACE 0x1000 (key x) (val x))
       (ds_io_uring_pop BPF 0x1000 (Some zero_kv))
       [LInsert \<lparr>key = 1, val = 10\<rparr>, LInsert \<lparr>key = 2, val = 20\<rparr>, LInsert \<lparr>key = 3, val = 30\<rparr>, LPop]
       (iou_demo ()) = (evs, A') \<and>
     iou_queue 0x1000 A' ys \<and> accepted evs = delivered evs @ ys \<and>
     delivered evs = [\<lparr>key = 1, val = 10\<rparr>] \<and> ys = [\<lparr>key = 2, val = 20\<rparr>]"
proof -
  let ?run = "lane_run (\<lambda>x. ds_io_uring_insert USERSPACE 0x1000 (key x) (val x))
       (ds_io_uring_pop BPF 0x1000 (Some zero_kv))
       [LInsert \<lparr>key = 1, val = 10\<rparr>, LInsert \<lparr>key = 2, val = 20\<rparr>, LInsert \<lparr>key = 3, val = 30\<rparr>, LPop]
       (iou_demo ())"
  obtain evs A' where run: "?run = (evs, A')" by fastforce
  have "accepted (fst ?run) = [\<lparr>key = 1, val = 10\<rparr>, \<lparr>key = 2, val = 20\<rparr>] \<and>
    delivered (fst ?run) = [\<lparr>key = 1, val = 10\<rparr>]"
    by code_simp
  then have "accepted evs = [\<lparr>key = 1, val = 10\<rparr>, \<lparr>key = 2, val = 20\<rparr>]"
    "delivered evs = [\<lparr>key = 1, val = 10\<rparr>]" by (simp_all only: run fst_conv)
  with iou_run_fifo [OF iou_demo_queue run] run show ?thesis by fastforce
qed

text \<open>
  The whole ring is usable and the backpressure flag is exact: an insert is
  refused precisely when the queue already holds \<open>ring_entries\<close> elements, and bit 0 of
  the status word afterwards says whether this insert was refused.
\<close>

theorem iou_insert_backpressure:
  assumes q: "iou_queue hp A xs" and i: "ds_io_uring_insert sd hp k v A = (r, A')"
  shows "(r = DS_ERROR_FULL \<longleftrightarrow> length xs = unat (iou_ring_entries (kv_heads A hp))) \<and>
    (r = DS_SUCCESS \<longleftrightarrow> length xs < unat (iou_ring_entries (kv_heads A hp))) \<and>
    (iou_sq_flags (kv_heads A' hp) AND DS_IO_URING_SQ_FLAG_FULL \<noteq> 0 \<longleftrightarrow> r = DS_ERROR_FULL)"
proof -
  have "length xs \<le> unat (iou_ring_entries (kv_heads A hp))"
    using q iou_queue_length [OF q] by (simp add: iou_queue_def iou_wf_def Let_def word_le_nat_alt)
  moreover have "iou_room hp A \<longleftrightarrow> length xs < unat (iou_ring_entries (kv_heads A hp))"
    using iou_queue_length [OF q] by (simp add: iou_room_def word_less_nat_alt)
  ultimately show ?thesis
    using iou_insert_room [OF q, of "\<lparr>key = k, val = v\<rparr>"] iou_insert_full [OF q, of k v] i
    by (cases "iou_room hp A") (auto simp: ds_variant ds_codes)
qed

theorem iou_insert_backpressure_witness:
  "fst (ds_io_uring_insert BPF 0x1000 5 6 (iou_demo ())) = DS_SUCCESS"
  using iou_insert_backpressure [OF iou_demo_queue surjective_pairing, of BPF 5 6 "()"]
  by (simp add: iou_demo_def)

text \<open>
  Initialisation: a number of entries that is not a power of two is refused and
  nothing changes, an allocation failure is reported and no head or slot changes,
  otherwise the head is an empty ring over the allocated array with the status word
  clear.
\<close>

theorem iou_init_branches:
  assumes i: "ds_io_uring_init sd alloc hp n A = (r, A')"
    and a: "alloc (kv_bytes n) (kv_alloc A) = (p, al)"
  shows "(if \<not> pow2_word n then r = DS_ERROR_INVALID \<and> A' = A
     else if p = NULL then r = DS_ERROR_NOMEM \<and> A' = A\<lparr>kv_alloc := al\<rparr>
     else r = DS_SUCCESS \<and> iou_queue hp A' [] \<and> iou_ring_entries (kv_heads A' hp) = n \<and>
       iou_entries (kv_heads A' hp) = p \<and> iou_sq_flags (kv_heads A' hp) = 0 \<and> kv_mem A' = kv_mem A)"
  using i a
  by (auto simp: ds_variant ds_io_uring_init_lkmm_def Let_def pow2_word_def iou_queue_def iou_wf_def
      split: if_splits)

theorem iou_init_branches_witness:
  "\<exists>A'. ds_io_uring_init BPF (\<lambda>n k. (0x2000, k + n)) 0x1000 128 (iou_demo 0) = (DS_SUCCESS, A') \<and>
     iou_queue 0x1000 A' []"
proof -
  obtain r A' where i: "ds_io_uring_init BPF (\<lambda>n k. (0x2000, k + n)) 0x1000 128 (iou_demo 0) = (r, A')"
    by fastforce
  from iou_init_branches [OF i refl] i show ?thesis by (simp add: pow2_word_def)
qed

text \<open>
  The verifier is exact: it reports success precisely when the head represents
  some queue.
\<close>

theorem iou_verify_exact:
  "ds_io_uring_verify sd hp A = DS_SUCCESS \<longleftrightarrow> (\<exists>xs. iou_queue hp A xs)"
  by (auto simp: ds_variant ds_io_uring_verify_lkmm_def iou_queue_def iou_wf_def pow2_word_def Let_def
      not_less split: if_splits)

end
