(* ===== verification/SpscThreads.thy ===== *)
theory SpscThreads
  imports FollySpsc CkRingSpsc IoUring
begin

unbundle bit_operations_syntax

text \<open>
  The three single-producer single-consumer rings with both sides running at once.  Every
  insert and every pop is cut into steps that make one access to the shared arena each
  (the constant fields of a head are read along with them), and a schedule interleaves
  the steps of the producer and of the consumer in any order.  Memory is sequentially
  consistent: the schedule is the order in which accesses take effect, so the barriers
  the source uses to obtain that order have no counterpart here.  The three rings run the
  same protocol; what differs between them is a record of code fragments.
\<close>

subsection \<open>The code fragments of a ring\<close>

record 'h ring_code =
  rc_valid :: "ptr \<Rightarrow> 'h \<Rightarrow> bool"
  rc_read_first :: bool
  rc_w :: "'h \<Rightarrow> u32"
  rc_r :: "'h \<Rightarrow> u32"
  rc_set_w :: "u32 \<Rightarrow> 'h \<Rightarrow> 'h"
  rc_set_r :: "u32 \<Rightarrow> 'h \<Rightarrow> 'h"
  rc_next :: "'h \<Rightarrow> u32 \<Rightarrow> u32"
  rc_full :: "'h \<Rightarrow> u32 \<Rightarrow> u32 \<Rightarrow> bool"
  rc_slot :: "'h \<Rightarrow> u32 \<Rightarrow> ptr"
  rc_on_full :: "'h \<Rightarrow> 'h"
  rc_after :: "'h \<Rightarrow> 'h"

text \<open>
  \<open>rc_read_first\<close> says which index an insert loads first (the Concurrency Kit ring loads
  the consumer's), \<open>rc_on_full\<close> and \<open>rc_after\<close> are what an insert does to the head when it
  finds the ring full and after it has published (the advisory flag of the io_uring ring).
\<close>

definition folly_code :: "ds_spsc_queue_head ring_code" where
  "folly_code =
     \<lparr>rc_valid = (\<lambda>_ _. True), rc_read_first = False,
      rc_w = spsc_write_idx, rc_r = spsc_read_idx,
      rc_set_w = (\<lambda>i h. h\<lparr>spsc_write_idx := i\<rparr>), rc_set_r = (\<lambda>i h. h\<lparr>spsc_read_idx := i\<rparr>),
      rc_next = (\<lambda>h i. if i + 1 \<ge> spsc_size h then 0 else i + 1),
      rc_full = (\<lambda>h w r. (if w + 1 \<ge> spsc_size h then 0 else w + 1) = r),
      rc_slot = (\<lambda>h i. kv_slot (spsc_records h) i),
      rc_on_full = (\<lambda>h. h), rc_after = (\<lambda>h. h)\<rparr>"

definition ckr_code :: "ds_ck_ring_spsc_head ring_code" where
  "ckr_code =
     \<lparr>rc_valid = (\<lambda>hp h. hp \<noteq> NULL \<and> ckr_slots h \<noteq> NULL), rc_read_first = True,
      rc_w = ckr_p_tail, rc_r = ckr_c_head,
      rc_set_w = (\<lambda>i h. h\<lparr>ckr_p_tail := i\<rparr>), rc_set_r = (\<lambda>i h. h\<lparr>ckr_c_head := i\<rparr>),
      rc_next = (\<lambda>h i. (i + 1) AND ckr_mask h),
      rc_full = (\<lambda>h w r. (w + 1) AND ckr_mask h = r),
      rc_slot = (\<lambda>h i. kv_slot (ckr_slots h) i),
      rc_on_full = (\<lambda>h. h), rc_after = (\<lambda>h. h)\<rparr>"

definition iou_code :: "ds_io_uring_ring_head ring_code" where
  "iou_code =
     \<lparr>rc_valid = (\<lambda>_ _. True), rc_read_first = False,
      rc_w = iou_tail, rc_r = iou_head,
      rc_set_w = (\<lambda>i h. h\<lparr>iou_tail := i\<rparr>), rc_set_r = (\<lambda>i h. h\<lparr>iou_head := i\<rparr>),
      rc_next = (\<lambda>h i. i + 1),
      rc_full = (\<lambda>h w r. w - r \<ge> iou_ring_entries h),
      rc_slot = (\<lambda>h i. kv_slot (iou_entries h) (i AND iou_ring_mask h)),
      rc_on_full = (\<lambda>h. h\<lparr>iou_sq_flags := iou_sq_flags h OR DS_IO_URING_SQ_FLAG_FULL\<rparr>),
      rc_after = (\<lambda>h. h\<lparr>iou_sq_flags := iou_sq_flags h AND NOT DS_IO_URING_SQ_FLAG_FULL\<rparr>)\<rparr>"

subsection \<open>One access at a time\<close>

text \<open>
  Where the producer is inside an insert of an element, with the indices it has loaded:
  about to load the first index, the second one, to test for room (and store the key or
  leave), to store the value, to publish, to return.
\<close>

datatype prod_pc =
    P_idle
  | P_enter ds_kv
  | P_load ds_kv u32
  | P_test ds_kv u32 u32
  | P_val ds_kv u32
  | P_pub ds_kv u32
  | P_ret ds_kv

text \<open>Where the consumer is inside a pop, with its output buffer and loaded indices.\<close>

datatype cons_pc =
    C_idle
  | C_enter ds_kv
  | C_load ds_kv u32
  | C_test ds_kv u32 u32
  | C_val ds_kv u32
  | C_pub ds_kv u32

definition kv_store_key :: "ptr \<Rightarrow> u64 \<Rightarrow> ('h, 'a) kv_arena \<Rightarrow> ('h, 'a) kv_arena" where
  "kv_store_key a k A = A\<lparr>kv_mem := (kv_mem A)(a := (kv_mem A a)\<lparr>key := k\<rparr>)\<rparr>"

definition kv_store_val :: "ptr \<Rightarrow> u64 \<Rightarrow> ('h, 'a) kv_arena \<Rightarrow> ('h, 'a) kv_arena" where
  "kv_store_val a v A = A\<lparr>kv_mem := (kv_mem A)(a := (kv_mem A a)\<lparr>val := v\<rparr>)\<rparr>"

text \<open>
  One step of an insert: the next position, the element and code returned if the call
  ends with this step, and the arena.
\<close>

fun insert_step :: "'h ring_code \<Rightarrow> ptr \<Rightarrow> prod_pc \<Rightarrow> ('h, 'a) kv_arena \<Rightarrow>
    prod_pc \<times> (ds_kv \<times> int) option \<times> ('h, 'a) kv_arena" where
  "insert_step rc hp P_idle A = (P_idle, None, A)"
| "insert_step rc hp (P_enter x) A =
     (let h = kv_heads A hp in
      if \<not> rc_valid rc hp h then (P_idle, Some (x, DS_ERROR_INVALID), A)
      else (P_load x (if rc_read_first rc then rc_r rc h else rc_w rc h), None, A))"
| "insert_step rc hp (P_load x i) A =
     (let h = kv_heads A hp in
      (if rc_read_first rc then P_test x (rc_w rc h) i else P_test x i (rc_r rc h), None, A))"
| "insert_step rc hp (P_test x w r) A =
     (let h = kv_heads A hp in
      if rc_full rc h w r
      then (P_idle, Some (x, DS_ERROR_FULL), kv_set_head hp (rc_on_full rc h) A)
      else (P_val x w, None, kv_store_key (rc_slot rc h w) (key x) A))"
| "insert_step rc hp (P_val x w) A =
     (P_pub x w, None, kv_store_val (rc_slot rc (kv_heads A hp) w) (val x) A)"
| "insert_step rc hp (P_pub x w) A =
     (let h = kv_heads A hp in
      (P_ret x, None, kv_set_head hp (rc_set_w rc (rc_next rc h w) h) A))"
| "insert_step rc hp (P_ret x) A =
     (P_idle, Some (x, DS_SUCCESS), kv_set_head hp (rc_after rc (kv_heads A hp)) A)"

text \<open>One step of a pop into a buffer: likewise, with the code and the buffer returned.\<close>

fun pop_step :: "'h ring_code \<Rightarrow> ptr \<Rightarrow> cons_pc \<Rightarrow> ('h, 'a) kv_arena \<Rightarrow>
    cons_pc \<times> (int \<times> ds_kv) option \<times> ('h, 'a) kv_arena" where
  "pop_step rc hp C_idle A = (C_idle, None, A)"
| "pop_step rc hp (C_enter d) A =
     (let h = kv_heads A hp in
      if \<not> rc_valid rc hp h then (C_idle, Some (DS_ERROR_INVALID, d), A)
      else (C_load d (rc_r rc h), None, A))"
| "pop_step rc hp (C_load d r) A = (C_test d r (rc_w rc (kv_heads A hp)), None, A)"
| "pop_step rc hp (C_test d r w) A =
     (if r = w then (C_idle, Some (DS_ERROR_NOT_FOUND, d), A)
      else (C_val (d\<lparr>key := key (kv_mem A (rc_slot rc (kv_heads A hp) r))\<rparr>) r, None, A))"
| "pop_step rc hp (C_val d r) A =
     (C_pub (d\<lparr>val := val (kv_mem A (rc_slot rc (kv_heads A hp) r))\<rparr>) r, None, A)"
| "pop_step rc hp (C_pub d r) A =
     (let h = kv_heads A hp in
      (C_idle, Some (DS_SUCCESS, d), kv_set_head hp (rc_set_r rc (rc_next rc h r) h) A))"

subsection \<open>The two threads\<close>

record ('h, 'a) ring_sys =
  rs_arena :: "('h, 'a) kv_arena"
  rs_prod :: prod_pc
  rs_cons :: cons_pc
  rs_inserts :: "(ds_kv \<times> int) list"
  rs_pops :: "(int \<times> ds_kv) list"

text \<open>
  A turn of the schedule: the producer calls insert, the consumer calls pop (ignored
  while the previous call runs), or a thread makes the next step of its call.  Calls
  that return are logged in order.
\<close>

datatype turn = T_insert ds_kv | T_pop ds_kv | T_prod | T_cons

fun ring_turn :: "'h ring_code \<Rightarrow> ptr \<Rightarrow> turn \<Rightarrow> ('h, 'a) ring_sys \<Rightarrow> ('h, 'a) ring_sys" where
  "ring_turn rc hp (T_insert x) s = (if rs_prod s = P_idle then s\<lparr>rs_prod := P_enter x\<rparr> else s)"
| "ring_turn rc hp (T_pop d) s = (if rs_cons s = C_idle then s\<lparr>rs_cons := C_enter d\<rparr> else s)"
| "ring_turn rc hp T_prod s =
     (let (pc, ret, A) = insert_step rc hp (rs_prod s) (rs_arena s) in
      s\<lparr>rs_arena := A, rs_prod := pc, rs_inserts := rs_inserts s @ (case ret of None \<Rightarrow> [] | Some e \<Rightarrow> [e])\<rparr>)"
| "ring_turn rc hp T_cons s =
     (let (pc, ret, A) = pop_step rc hp (rs_cons s) (rs_arena s) in
      s\<lparr>rs_arena := A, rs_cons := pc, rs_pops := rs_pops s @ (case ret of None \<Rightarrow> [] | Some e \<Rightarrow> [e])\<rparr>)"

definition ring_schedule :: "'h ring_code \<Rightarrow> ptr \<Rightarrow> turn list \<Rightarrow> ('h, 'a) ring_sys \<Rightarrow> ('h, 'a) ring_sys" where
  "ring_schedule rc hp ts s = fold (ring_turn rc hp) ts s"

definition idle_sys :: "('h, 'a) kv_arena \<Rightarrow> ('h, 'a) ring_sys" where
  "idle_sys A = \<lparr>rs_arena = A, rs_prod = P_idle, rs_cons = C_idle, rs_inserts = [], rs_pops = []\<rparr>"

text \<open>
  The elements whose insert returned success (and the one published whose insert is about
  to return), and the elements the pops that returned success delivered.
\<close>

definition sys_accepted :: "('h, 'a) ring_sys \<Rightarrow> ds_kv list" where
  "sys_accepted s = map fst (filter (\<lambda>e. snd e = DS_SUCCESS) (rs_inserts s)) @
     (case rs_prod s of P_ret x \<Rightarrow> [x] | _ \<Rightarrow> [])"

definition sys_delivered :: "('h, 'a) ring_sys \<Rightarrow> ds_kv list" where
  "sys_delivered s = map snd (filter (\<lambda>e. fst e = DS_SUCCESS) (rs_pops s))"

subsection \<open>The invariant of the protocol\<close>

text \<open>
  What the producer may rely on at each position: the write index it loaded is the current
  one, a ring it saw with room still has room, and what it has stored is in the slot at
  the write index.
\<close>

fun prod_inv :: "'h ring_code \<Rightarrow> ptr \<Rightarrow> ('h, 'a) kv_arena \<Rightarrow> prod_pc \<Rightarrow> bool" where
  "prod_inv rc hp A P_idle \<longleftrightarrow> True"
| "prod_inv rc hp A (P_enter x) \<longleftrightarrow> True"
| "prod_inv rc hp A (P_load x i) \<longleftrightarrow>
     (let h = kv_heads A hp in
      if rc_read_first rc then rc_full rc h (rc_w rc h) (rc_r rc h) \<longrightarrow> rc_full rc h (rc_w rc h) i
      else i = rc_w rc h)"
| "prod_inv rc hp A (P_test x w r) \<longleftrightarrow>
     (let h = kv_heads A hp in w = rc_w rc h \<and> (rc_full rc h w (rc_r rc h) \<longrightarrow> rc_full rc h w r))"
| "prod_inv rc hp A (P_val x w) \<longleftrightarrow>
     (let h = kv_heads A hp in w = rc_w rc h \<and> \<not> rc_full rc h w (rc_r rc h) \<and>
        key (kv_mem A (rc_slot rc h w)) = key x)"
| "prod_inv rc hp A (P_pub x w) \<longleftrightarrow>
     (let h = kv_heads A hp in w = rc_w rc h \<and> \<not> rc_full rc h w (rc_r rc h) \<and>
        kv_mem A (rc_slot rc h w) = x)"
| "prod_inv rc hp A (P_ret x) \<longleftrightarrow> True"

text \<open>
  What the consumer may rely on: the read index it loaded is the current one, a queue it
  saw with an element still has one, and its buffer holds what it has read of the front.
\<close>

fun cons_inv :: "'h ring_code \<Rightarrow> ptr \<Rightarrow> ('h, 'a) kv_arena \<Rightarrow> ds_kv list \<Rightarrow> cons_pc \<Rightarrow> bool" where
  "cons_inv rc hp A xs C_idle \<longleftrightarrow> True"
| "cons_inv rc hp A xs (C_enter d) \<longleftrightarrow> True"
| "cons_inv rc hp A xs (C_load d r) \<longleftrightarrow> r = rc_r rc (kv_heads A hp)"
| "cons_inv rc hp A xs (C_test d r w) \<longleftrightarrow> r = rc_r rc (kv_heads A hp) \<and> (r \<noteq> w \<longrightarrow> xs \<noteq> [])"
| "cons_inv rc hp A xs (C_val d r) \<longleftrightarrow>
     r = rc_r rc (kv_heads A hp) \<and> xs \<noteq> [] \<and> key d = key (hd xs)"
| "cons_inv rc hp A xs (C_pub d r) \<longleftrightarrow> r = rc_r rc (kv_heads A hp) \<and> xs \<noteq> [] \<and> d = hd xs"

text \<open>The contract a ring's code keeps with the queue its head represents.\<close>

locale spsc_ring =
  fixes rc :: "'h ring_code" and hp :: ptr and q :: "('h, 'a) kv_arena \<Rightarrow> ds_kv list \<Rightarrow> bool"
  assumes code_valid: "q A xs \<Longrightarrow> rc_valid rc hp (kv_heads A hp)"
    and code_det: "q A xs \<Longrightarrow> q A ys \<Longrightarrow> xs = ys"
    and code_empty: "q A xs \<Longrightarrow> rc_r rc (kv_heads A hp) = rc_w rc (kv_heads A hp) \<longleftrightarrow> xs = []"
    and code_front: "q A (x # xs) \<Longrightarrow> kv_mem A (rc_slot rc (kv_heads A hp) (rc_r rc (kv_heads A hp))) = x"
    and code_pop: "q A (x # xs) \<Longrightarrow> h = kv_heads A hp \<Longrightarrow>
      q (kv_set_head hp (rc_set_r rc (rc_next rc h (rc_r rc h)) h) A) xs"
    and code_room: "q A (x # xs) \<Longrightarrow> h = kv_heads A hp \<Longrightarrow>
      \<not> rc_full rc h (rc_w rc h) (rc_next rc h (rc_r rc h))"
    and code_write: "q A xs \<Longrightarrow> h = kv_heads A hp \<Longrightarrow> \<not> rc_full rc h (rc_w rc h) (rc_r rc h) \<Longrightarrow>
      q (A\<lparr>kv_mem := (kv_mem A)(rc_slot rc h (rc_w rc h) := y)\<rparr>) xs"
    and code_push: "q A xs \<Longrightarrow> h = kv_heads A hp \<Longrightarrow> \<not> rc_full rc h (rc_w rc h) (rc_r rc h) \<Longrightarrow>
      kv_mem A (rc_slot rc h (rc_w rc h)) = x \<Longrightarrow>
      q (kv_set_head hp (rc_set_w rc (rc_next rc h (rc_w rc h)) h) A) (xs @ [x])"
    and code_flags: "q A xs \<Longrightarrow> q (kv_set_head hp (rc_on_full rc (kv_heads A hp)) A) xs"
      "q A xs \<Longrightarrow> q (kv_set_head hp (rc_after rc (kv_heads A hp)) A) xs"
    and code_fields [simp]:
      "rc_r rc (rc_set_r rc i h) = i" "rc_w rc (rc_set_r rc i h) = rc_w rc h"
      "rc_r rc (rc_set_w rc i h) = rc_r rc h"
      "rc_slot rc (rc_set_r rc i h) = rc_slot rc h" "rc_full rc (rc_set_r rc i h) = rc_full rc h"
      "rc_r rc (rc_on_full rc h) = rc_r rc h" "rc_r rc (rc_after rc h) = rc_r rc h"
begin

text \<open>A step of the producer keeps its own invariant and what the consumer relies on.\<close>

lemma insert_step_inv:
  assumes "q A xs" and "prod_inv rc hp A pc" and "cons_inv rc hp A xs cc"
    and "insert_step rc hp pc A = (pc', ret, A')"
  shows "\<exists>ys. q A' (xs @ ys) \<and> prod_inv rc hp A' pc' \<and> cons_inv rc hp A' (xs @ ys) cc \<and>
    ys = (case pc of P_pub x w \<Rightarrow> [x] | _ \<Rightarrow> [])"
proof (cases pc)
  case (P_test x w r)
  then show ?thesis
    using assms code_write [OF assms(1) refl] code_flags(1) [OF assms(1)]
    by (cases cc) (auto simp: Let_def kv_store_key_def split: if_splits)
next
  case (P_val x w)
  then show ?thesis
    using assms code_write [OF assms(1) refl]
    by (cases cc) (auto simp: Let_def kv_store_val_def)
next
  case (P_pub x w)
  then show ?thesis
    using assms code_push [OF assms(1) refl] by (cases cc) (auto simp: Let_def)
next
  case (P_ret x)
  then show ?thesis using assms code_flags(2) [OF assms(1)] by (cases cc) (auto simp: Let_def)
qed (use assms in \<open>auto simp: Let_def split: if_splits\<close>)

text \<open>A step of the consumer keeps its own invariant and what the producer relies on.\<close>

lemma pop_step_inv:
  assumes "q A xs" and "prod_inv rc hp A pc" and "cons_inv rc hp A xs cc"
    and "pop_step rc hp cc A = (cc', ret, A')"
  shows "\<exists>ys. q A' ys \<and> prod_inv rc hp A' pc \<and> cons_inv rc hp A' ys cc' \<and>
    xs = (case cc of C_pub d r \<Rightarrow> [d] | _ \<Rightarrow> []) @ ys"
proof (cases cc)
  case (C_test d r w)
  then show ?thesis
    using assms code_front [of A "hd xs" "tl xs"] by (auto split: if_splits)
next
  case (C_val d r)
  then show ?thesis using assms code_front [of A "hd xs" "tl xs"] by auto
next
  case (C_pub d r)
  then obtain zs where xs: "xs = d # zs" using assms(3) by (cases xs) auto
  note room = code_room [OF assms(1) [unfolded xs] refl] and pop = code_pop [OF assms(1) [unfolded xs] refl]
  show ?thesis
    using C_pub assms(2,3,4) xs room pop by (cases pc) (auto simp: Let_def)
qed (use assms code_empty [OF assms(1)] in \<open>auto simp: Let_def split: if_splits\<close>)

end

subsection \<open>Every schedule is a FIFO history\<close>

text \<open>An element is accepted by the step that publishes it, delivered by the step that frees its slot.\<close>

lemma turn_accepted:
  "sys_accepted (ring_turn rc hp T_prod s) = sys_accepted s @ (case rs_prod s of P_pub x w \<Rightarrow> [x] | _ \<Rightarrow> [])"
  "sys_accepted (ring_turn rc hp T_cons s) = sys_accepted s"
  "sys_accepted (ring_turn rc hp (T_insert x) s) = sys_accepted s"
  "sys_accepted (ring_turn rc hp (T_pop d) s) = sys_accepted s"
  by (cases "rs_prod s"; auto simp: sys_accepted_def Let_def split_def ds_codes)+

lemma turn_delivered:
  "sys_delivered (ring_turn rc hp T_cons s) = sys_delivered s @ (case rs_cons s of C_pub d r \<Rightarrow> [d] | _ \<Rightarrow> [])"
  "sys_delivered (ring_turn rc hp T_prod s) = sys_delivered s"
  "sys_delivered (ring_turn rc hp (T_insert x) s) = sys_delivered s"
  "sys_delivered (ring_turn rc hp (T_pop d) s) = sys_delivered s"
  by (cases "rs_cons s"; auto simp: sys_delivered_def Let_def split_def ds_codes)+

lemma turn_state:
  "insert_step rc hp (rs_prod s) (rs_arena s) = (pc, ret, A) \<Longrightarrow>
     rs_arena (ring_turn rc hp T_prod s) = A \<and> rs_prod (ring_turn rc hp T_prod s) = pc \<and>
     rs_cons (ring_turn rc hp T_prod s) = rs_cons s"
  "pop_step rc hp (rs_cons s) (rs_arena s) = (cc, ret', A) \<Longrightarrow>
     rs_arena (ring_turn rc hp T_cons s) = A \<and> rs_cons (ring_turn rc hp T_cons s) = cc \<and>
     rs_prod (ring_turn rc hp T_cons s) = rs_prod s"
  by simp_all

text \<open>
  \<open>sys_inv rc hp q zs s xs\<close>: the head represents \<open>xs\<close>, both threads find what they rely on,
  and what was there at the start (\<open>zs\<close>) followed by what was accepted is what was
  delivered followed by \<open>xs\<close>.
\<close>

definition sys_inv :: "'h ring_code \<Rightarrow> ptr \<Rightarrow> (('h, 'a) kv_arena \<Rightarrow> ds_kv list \<Rightarrow> bool) \<Rightarrow>
    ds_kv list \<Rightarrow> ('h, 'a) ring_sys \<Rightarrow> ds_kv list \<Rightarrow> bool" where
  "sys_inv rc hp q zs s xs \<longleftrightarrow> q (rs_arena s) xs \<and> prod_inv rc hp (rs_arena s) (rs_prod s) \<and>
     cons_inv rc hp (rs_arena s) xs (rs_cons s) \<and> zs @ sys_accepted s = sys_delivered s @ xs"

lemma sys_invD:
  assumes "sys_inv rc hp q zs s xs"
  shows "q (rs_arena s) xs" and "prod_inv rc hp (rs_arena s) (rs_prod s)"
    and "cons_inv rc hp (rs_arena s) xs (rs_cons s)" and "zs @ sys_accepted s = sys_delivered s @ xs"
  using assms by (simp_all add: sys_inv_def)

lemma sys_inv_idle: "q A xs \<Longrightarrow> sys_inv rc hp q xs (idle_sys A) xs"
  by (simp add: sys_inv_def idle_sys_def sys_accepted_def sys_delivered_def)

context spsc_ring
begin

lemma turn_inv:
  assumes "sys_inv rc hp q zs s xs"
  shows "\<exists>ys. sys_inv rc hp q zs (ring_turn rc hp t s) ys"
proof (cases t)
  case T_prod
  obtain pc ret A where st: "insert_step rc hp (rs_prod s) (rs_arena s) = (pc, ret, A)"
    by (metis prod_cases3)
  from insert_step_inv [OF _ _ _ st] assms turn_state(1) [OF st] show ?thesis
    unfolding sys_inv_def T_prod turn_accepted turn_delivered by (metis append.assoc)
next
  case T_cons
  obtain cc ret A where st: "pop_step rc hp (rs_cons s) (rs_arena s) = (cc, ret, A)"
    by (metis prod_cases3)
  from pop_step_inv [OF _ _ _ st] assms turn_state(2) [OF st] show ?thesis
    unfolding sys_inv_def T_cons turn_accepted turn_delivered by (metis append.assoc)
next
  case (T_insert x)
  then show ?thesis using assms unfolding sys_inv_def T_insert turn_accepted turn_delivered by auto
next
  case (T_pop d)
  then show ?thesis using assms unfolding sys_inv_def T_pop turn_accepted turn_delivered by auto
qed

lemma schedule_inv: "sys_inv rc hp q zs s xs \<Longrightarrow> \<exists>ys. sys_inv rc hp q zs (ring_schedule rc hp ts s) ys"
proof (induction ts arbitrary: s xs)
  case (Cons t ts)
  from turn_inv [OF Cons.prems] Cons.IH show ?case by (fastforce simp: ring_schedule_def)
qed (auto simp: ring_schedule_def)

lemma schedule_fifo:
  assumes "q A zs" and "s = ring_schedule rc hp ts (idle_sys A)"
  shows "\<exists>xs. q (rs_arena s) xs \<and> zs @ sys_accepted s = sys_delivered s @ xs"
  using schedule_inv [OF sys_inv_idle [of q A zs rc hp, OF assms(1)], of ts] assms(2) by (auto simp: sys_inv_def)

end

subsection \<open>Calls return, whatever the other side does\<close>

text \<open>How many steps of its own a call still takes at most.\<close>

fun prod_left :: "prod_pc \<Rightarrow> nat" where
  "prod_left P_idle = 0"
| "prod_left (P_enter x) = 6"
| "prod_left (P_load x i) = 5"
| "prod_left (P_test x w r) = 4"
| "prod_left (P_val x w) = 3"
| "prod_left (P_pub x w) = 2"
| "prod_left (P_ret x) = 1"

fun cons_left :: "cons_pc \<Rightarrow> nat" where
  "cons_left C_idle = 0"
| "cons_left (C_enter d) = 5"
| "cons_left (C_load d r) = 4"
| "cons_left (C_test d r w) = 3"
| "cons_left (C_val d r) = 2"
| "cons_left (C_pub d r) = 1"

text \<open>The producer is inside an insert of \<open>x\<close> and what it has loaded so far shows room.\<close>

fun prod_room :: "'h ring_code \<Rightarrow> 'h \<Rightarrow> ds_kv \<Rightarrow> prod_pc \<Rightarrow> bool" where
  "prod_room rc h x (P_enter y) \<longleftrightarrow> y = x \<and> \<not> rc_full rc h (rc_w rc h) (rc_r rc h)"
| "prod_room rc h x (P_load y i) \<longleftrightarrow>
     y = x \<and> \<not> rc_full rc h (rc_w rc h) (if rc_read_first rc then i else rc_r rc h)"
| "prod_room rc h x (P_test y w r) \<longleftrightarrow> y = x \<and> \<not> rc_full rc h w r"
| "prod_room rc h x (P_val y w) \<longleftrightarrow> y = x"
| "prod_room rc h x (P_pub y w) \<longleftrightarrow> y = x"
| "prod_room rc h x (P_ret y) \<longleftrightarrow> y = x"
| "prod_room rc h x P_idle \<longleftrightarrow> False"

text \<open>The consumer is inside a pop and what it has loaded so far shows an element.\<close>

fun cons_some :: "cons_pc \<Rightarrow> bool" where
  "cons_some C_idle \<longleftrightarrow> False"
| "cons_some (C_test d r w) \<longleftrightarrow> r \<noteq> w"
| "cons_some _ \<longleftrightarrow> True"

lemma turn_logs_extend:
  "\<exists>zs. rs_inserts (ring_turn rc hp t s) = rs_inserts s @ zs"
  "\<exists>zs. rs_pops (ring_turn rc hp t s) = rs_pops s @ zs"
  by (cases t; simp add: Let_def split_def)+

lemma inserts_extend: "\<exists>zs. rs_inserts (ring_schedule rc hp ts s) = rs_inserts s @ zs"
proof (induction ts arbitrary: s)
  case (Cons t ts)
  from Cons.IH [of "ring_turn rc hp t s"] turn_logs_extend(1) [of rc hp t s] show ?case
    by (auto simp: ring_schedule_def)
qed (simp add: ring_schedule_def)

lemma pops_extend: "\<exists>zs. rs_pops (ring_schedule rc hp ts s) = rs_pops s @ zs"
proof (induction ts arbitrary: s)
  case (Cons t ts)
  from Cons.IH [of "ring_turn rc hp t s"] turn_logs_extend(2) [of rc hp t s] show ?case
    by (auto simp: ring_schedule_def)
qed (simp add: ring_schedule_def)

lemma schedule_Cons: "ring_schedule rc hp (t # ts) s = ring_schedule rc hp ts (ring_turn rc hp t s)"
  by (simp add: ring_schedule_def)

context spsc_ring
begin

lemma insert_step_room:
  assumes "q A xs" "prod_inv rc hp A pc" "prod_room rc (kv_heads A hp) x pc"
    and "insert_step rc hp pc A = (pc', ret, A')"
  shows "if prod_left pc = 1 then ret = Some (x, DS_SUCCESS)
    else ret = None \<and> prod_room rc (kv_heads A' hp) x pc' \<and> Suc (prod_left pc') = prod_left pc"
  using assms code_valid [OF assms(1)]
  by (cases pc) (auto simp: Let_def kv_store_key_def kv_store_val_def split: if_splits)

lemma pop_step_room:
  assumes "sys_inv rc hp q zs s xs" "prod_room rc (kv_heads (rs_arena s) hp) x pc"
    and "pop_step rc hp (rs_cons s) (rs_arena s) = (cc', ret, A')"
  shows "prod_room rc (kv_heads A' hp) x pc"
proof (cases "rs_cons s")
  case (C_pub d r)
  then obtain ys where "xs = d # ys" "r = rc_r rc (kv_heads (rs_arena s) hp)"
    using assms(1) by (cases xs) (auto simp: sys_inv_def)
  then have "\<not> rc_full rc (kv_heads (rs_arena s) hp) (rc_w rc (kv_heads (rs_arena s) hp))
      (rc_next rc (kv_heads (rs_arena s) hp) r)"
    using assms(1) code_room [of "rs_arena s" d ys] by (simp add: sys_inv_def)
  then show ?thesis using assms C_pub by (cases pc) (auto simp: Let_def)
qed (use assms in \<open>auto simp: Let_def split: if_splits\<close>)

text \<open>
  An insert that has seen room returns success once the producer has had enough turns.
\<close>

lemma insert_returns:
  assumes "sys_inv rc hp q zs s xs" and "prod_room rc (kv_heads (rs_arena s) hp) x (rs_prod s)"
    and "prod_left (rs_prod s) \<le> count_list ts T_prod"
  shows "\<exists>es. rs_inserts (ring_schedule rc hp ts s) = rs_inserts s @ (x, DS_SUCCESS) # es"
  using assms
proof (induction ts arbitrary: s xs)
  case Nil
  then show ?case by (cases "rs_prod s") simp_all
next
  case (Cons t ts)
  obtain ys where inv: "sys_inv rc hp q zs (ring_turn rc hp t s) ys" using turn_inv [OF Cons.prems(1)] by blast
  have busy: "rs_prod s \<noteq> P_idle" using Cons.prems(2) by auto
  show ?case
  proof (cases t)
    case T_prod
    obtain pc ret A where st: "insert_step rc hp (rs_prod s) (rs_arena s) = (pc, ret, A)"
      by (metis prod_cases3)
    note step = insert_step_room [OF sys_invD(1,2) [OF Cons.prems(1)] Cons.prems(2) st]
    show ?thesis
    proof (cases "prod_left (rs_prod s) = 1")
      case True
      then show ?thesis
        using inserts_extend [of rc hp ts "ring_turn rc hp t s"] step st T_prod by (auto simp: schedule_Cons)
    next
      case False
      then show ?thesis
        using Cons.IH [OF inv] Cons.prems(3) step st T_prod by (simp add: schedule_Cons)
    qed
  next
    case T_cons
    obtain cc ret A where st: "pop_step rc hp (rs_cons s) (rs_arena s) = (cc, ret, A)"
      by (metis prod_cases3)
    show ?thesis
      using Cons.IH [OF inv] Cons.prems(3) pop_step_room [OF Cons.prems(1,2) st] st T_cons
      by (simp add: schedule_Cons)
  next
    case (T_pop d)
    then show ?thesis
      using Cons.IH [OF inv] Cons.prems(2,3) by (cases "rs_cons s = C_idle") (simp_all add: schedule_Cons)
  qed (use Cons.IH [OF inv] Cons.prems busy in \<open>simp add: schedule_Cons\<close>)
qed

text \<open>As long as no pop completes, the queue only grows at the back.\<close>

lemma queue_grows:
  assumes "sys_inv rc hp q zs s xs" and "sys_inv rc hp q zs (ring_turn rc hp t s) ys"
    and "t = T_cons \<Longrightarrow> cons_left (rs_cons s) \<noteq> 1"
  shows "\<exists>more. ys = xs @ more"
proof -
  have "sys_delivered (ring_turn rc hp t s) = sys_delivered s"
    using assms(3) by (cases t; cases "rs_cons s") (simp_all only: turn_delivered, simp_all)
  moreover have "\<exists>more. sys_accepted (ring_turn rc hp t s) = sys_accepted s @ more"
    by (cases t) (simp_all only: turn_accepted, simp_all)
  ultimately have "\<exists>more. sys_delivered s @ ys = (sys_delivered s @ xs) @ more"
    using sys_invD(4) [OF assms(1)] sys_invD(4) [OF assms(2)] by (metis append.assoc)
  then show ?thesis by simp
qed

lemma pop_step_some:
  assumes "q A (x # xs)" "cons_inv rc hp A (x # xs) cc" "cons_some cc"
    and "pop_step rc hp cc A = (cc', ret, A')"
  shows "if cons_left cc = 1 then ret = Some (DS_SUCCESS, x)
    else ret = None \<and> cons_some cc' \<and> Suc (cons_left cc') = cons_left cc"
  using assms code_valid [OF assms(1)] code_empty [OF assms(1)] by (cases cc) (auto simp: Let_def)

text \<open>
  A pop that has seen an element returns the front of the queue once the consumer has had
  enough turns.
\<close>

lemma pop_returns:
  assumes "sys_inv rc hp q zs s (x # xs)" and "cons_some (rs_cons s)"
    and "cons_left (rs_cons s) \<le> count_list ts T_cons"
  shows "\<exists>es. rs_pops (ring_schedule rc hp ts s) = rs_pops s @ (DS_SUCCESS, x) # es"
  using assms
proof (induction ts arbitrary: s xs)
  case Nil
  then show ?case by (cases "rs_cons s") simp_all
next
  case (Cons t ts)
  obtain ys where inv: "sys_inv rc hp q zs (ring_turn rc hp t s) ys" using turn_inv [OF Cons.prems(1)] by blast
  have busy: "rs_cons s \<noteq> C_idle" using Cons.prems(2) by auto
  show ?case
  proof (cases "t = T_cons")
    case True
    obtain cc ret A where st: "pop_step rc hp (rs_cons s) (rs_arena s) = (cc, ret, A)"
      by (metis prod_cases3)
    note step = pop_step_some [OF sys_invD(1,3) [OF Cons.prems(1)] Cons.prems(2) st]
    show ?thesis
    proof (cases "cons_left (rs_cons s) = 1")
      case last: True
      then show ?thesis
        using pops_extend [of rc hp ts "ring_turn rc hp t s"] step st True by (auto simp: schedule_Cons)
    next
      case False
      then obtain more where "ys = x # more" using queue_grows [OF Cons.prems(1) inv] by auto
      then show ?thesis
        using Cons.IH [of "ring_turn rc hp t s" more] inv Cons.prems(3) step st True False
        by (simp add: schedule_Cons)
    qed
  next
    case False
    then obtain more where ys: "ys = x # more" using queue_grows [OF Cons.prems(1) inv] by auto
    have "rs_cons (ring_turn rc hp t s) = rs_cons s" "rs_pops (ring_turn rc hp t s) = rs_pops s"
      using False busy by (cases t; simp add: Let_def split_def)+
    then show ?thesis
      using Cons.IH [of "ring_turn rc hp t s" more] inv Cons.prems(2,3) ys False
      by (simp add: schedule_Cons)
  qed
qed

end

subsection \<open>Rings with one empty slot\<close>

text \<open>
  The Folly and the Concurrency Kit ring both keep their indices below the number of slots
  and leave one slot empty; they differ in how the next index is computed.
\<close>

definition mod_queue :: "'h ring_code \<Rightarrow> ptr \<Rightarrow> ('h \<Rightarrow> bool) \<Rightarrow> ('h \<Rightarrow> ptr) \<Rightarrow> ('h \<Rightarrow> nat) \<Rightarrow>
    ('h, 'a) kv_arena \<Rightarrow> ds_kv list \<Rightarrow> bool" where
  "mod_queue rc hp wfh base cap A xs \<longleftrightarrow> wfh (kv_heads A hp) \<and>
     ring_rel (kv_mem A) (base (kv_heads A hp)) (unat (rc_w rc (kv_heads A hp)))
       (unat (rc_r rc (kv_heads A hp))) (cap (kv_heads A hp)) xs"

locale mod_ring =
  fixes rc :: "'h ring_code" and hp :: ptr and wfh :: "'h \<Rightarrow> bool" and base :: "'h \<Rightarrow> ptr"
    and cap :: "'h \<Rightarrow> nat"
  assumes wfh_valid: "wfh h \<Longrightarrow> rc_valid rc hp h"
    and next_mod: "wfh h \<Longrightarrow> unat i < cap h \<Longrightarrow> unat (rc_next rc h i) = Suc (unat i) mod cap h"
    and full_next: "rc_full rc h w r \<longleftrightarrow> rc_next rc h w = r"
    and slot_index: "rc_slot rc h i = kv_slot (base h) i"
    and no_flags: "rc_on_full rc h = h" "rc_after rc h = h"
    and set_w_fields: "rc_r rc (rc_set_w rc i h) = rc_r rc h" "rc_w rc (rc_set_w rc i h) = i"
      "wfh (rc_set_w rc i h) = wfh h" "base (rc_set_w rc i h) = base h" "cap (rc_set_w rc i h) = cap h"
    and set_r_fields: "rc_r rc (rc_set_r rc i h) = i" "rc_w rc (rc_set_r rc i h) = rc_w rc h"
      "wfh (rc_set_r rc i h) = wfh h" "base (rc_set_r rc i h) = base h" "cap (rc_set_r rc i h) = cap h"
      "rc_next rc (rc_set_r rc i h) = rc_next rc h"
begin

lemma full_mod:
  "wfh h \<Longrightarrow> unat w < cap h \<Longrightarrow> rc_full rc h w r \<longleftrightarrow> Suc (unat w) mod cap h = unat r"
  by (auto simp: full_next next_mod word_unat_eq_iff)

lemma mod_queueD:
  assumes "mod_queue rc hp wfh base cap A xs"
  shows "wfh (kv_heads A hp)"
    and "ring_rel (kv_mem A) (base (kv_heads A hp)) (unat (rc_w rc (kv_heads A hp)))
       (unat (rc_r rc (kv_heads A hp))) (cap (kv_heads A hp)) xs"
    and "unat (rc_w rc (kv_heads A hp)) < cap (kv_heads A hp)"
    and "unat (rc_r rc (kv_heads A hp)) < cap (kv_heads A hp)"
  using assms by (simp_all add: mod_queue_def ring_rel_def)

end

sublocale mod_ring \<subseteq> spsc_ring rc hp "mod_queue rc hp wfh base cap"
proof
  fix A :: "('h, 'a) kv_arena" and xs x h y
  let ?h = "kv_heads A hp"
  show "rc_r rc ?h = rc_w rc ?h \<longleftrightarrow> xs = []" if "mod_queue rc hp wfh base cap A xs"
    using ring_rel_empty_iff [OF mod_queueD(2) [OF that]] by (auto simp: word_unat_eq_iff)
  show "kv_mem A (rc_slot rc ?h (rc_r rc ?h)) = x" if "mod_queue rc hp wfh base cap A (x # xs)"
    using ring_rel_pop(2) [OF mod_queueD(2) [OF that]] by (simp add: slot_index)
  show "mod_queue rc hp wfh base cap (kv_set_head hp (rc_set_r rc (rc_next rc h (rc_r rc h)) h) A) xs"
    if "mod_queue rc hp wfh base cap A (x # xs)" "h = ?h"
    using ring_rel_pop(3) [OF mod_queueD(2) [OF that(1)]] mod_queueD(1,4) [OF that(1)] that(2)
    by (simp add: mod_queue_def set_r_fields next_mod)
  show "\<not> rc_full rc h (rc_w rc h) (rc_next rc h (rc_r rc h))" if "mod_queue rc hp wfh base cap A (x # xs)" "h = ?h"
    using ring_rel_pop_room [OF mod_queueD(2) [OF that(1)]] mod_queueD(1,3,4) [OF that(1)] that(2)
    by (simp add: full_mod next_mod)
  show "mod_queue rc hp wfh base cap (A\<lparr>kv_mem := (kv_mem A)(rc_slot rc h (rc_w rc h) := y)\<rparr>) xs"
    if "mod_queue rc hp wfh base cap A xs" "h = ?h" "\<not> rc_full rc h (rc_w rc h) (rc_r rc h)"
    using ring_rel_write [OF mod_queueD(2) [OF that(1)]] mod_queueD(1,3) [OF that(1)] that(2,3)
    by (simp add: mod_queue_def slot_index full_mod)
  show "mod_queue rc hp wfh base cap (kv_set_head hp (rc_set_w rc (rc_next rc h (rc_w rc h)) h) A) (xs @ [x])"
    if "mod_queue rc hp wfh base cap A xs" "h = ?h" "\<not> rc_full rc h (rc_w rc h) (rc_r rc h)"
      "kv_mem A (rc_slot rc h (rc_w rc h)) = x"
    using ring_rel_publish [OF mod_queueD(2) [OF that(1)]] mod_queueD(1,3) [OF that(1)] that(2-)
    by (simp add: mod_queue_def set_w_fields slot_index full_mod next_mod)
qed (auto simp: mod_queueD(1) wfh_valid set_w_fields set_r_fields no_flags slot_index full_next
    mod_queue_def ring_rel_def fun_eq_iff)

subsection \<open>The three rings keep the contract\<close>

interpretation folly_mod: mod_ring folly_code hp "\<lambda>_. True" spsc_records "\<lambda>h. unat (spsc_size h)" for hp
  by unfold_locales (auto simp: folly_code_def simp flip: spsc_next_def intro: unat_spsc_next)

lemma spsc_queue_mod: "spsc_queue hp = mod_queue folly_code hp (\<lambda>_. True) spsc_records (\<lambda>h. unat (spsc_size h))"
  by (intro ext) (simp add: spsc_queue_def mod_queue_def folly_code_def Let_def)

interpretation folly_threads: spsc_ring folly_code hp "spsc_queue hp" for hp
  unfolding spsc_queue_mod by (rule folly_mod.spsc_ring_axioms)

interpretation ckr_mod: mod_ring ckr_code hp "\<lambda>h. hp \<noteq> NULL \<and> ckr_wf h" ckr_slots
  "\<lambda>h. unat (ckr_capacity h)" for hp
  by unfold_locales (auto simp: ckr_code_def ckr_mask_succ, auto simp: ckr_wf_def)

lemma ckr_queue_mod: "ckr_queue hp =
    mod_queue ckr_code hp (\<lambda>h. hp \<noteq> NULL \<and> ckr_wf h) ckr_slots (\<lambda>h. unat (ckr_capacity h))"
  by (intro ext) (simp add: ckr_queue_def mod_queue_def ckr_code_def Let_def)

interpretation ckr_threads: spsc_ring ckr_code hp "ckr_queue hp" for hp
  unfolding ckr_queue_mod by (rule ckr_mod.spsc_ring_axioms)

text \<open>The free-running indices of the io_uring ring.\<close>

lemma iou_queueD:
  assumes "iou_queue hp A xs" and "h = kv_heads A hp"
  shows "iou_wf h" and "pow2_word (iou_ring_entries h)" and "unat (iou_ring_entries h) \<le> 2 ^ 31"
    and "xs = kv_ring (kv_mem A) (iou_entries h) (unat (iou_head h) mod unat (iou_ring_entries h))
      (unat (iou_tail h - iou_head h)) (unat (iou_ring_entries h))"
    and "kv_slot (iou_entries h) (iou_tail h AND iou_ring_mask h) =
      kv_slot (iou_entries h) (of_nat ((unat (iou_head h) mod unat (iou_ring_entries h) +
        unat (iou_tail h - iou_head h)) mod unat (iou_ring_entries h)))"
proof -
  show w: "iou_wf h" and "xs = kv_ring (kv_mem A) (iou_entries h)
      (unat (iou_head h) mod unat (iou_ring_entries h))
      (unat (iou_tail h - iou_head h)) (unat (iou_ring_entries h))"
    using assms by (simp_all add: iou_queue_def Let_def)
  then show p: "pow2_word (iou_ring_entries h)" by (simp add: iou_wf_def)
  then show "unat (iou_ring_entries h) \<le> 2 ^ 31" by (rule iou_entries_bound)
  show "kv_slot (iou_entries h) (iou_tail h AND iou_ring_mask h) =
      kv_slot (iou_entries h) (of_nat ((unat (iou_head h) mod unat (iou_ring_entries h) +
        unat (iou_tail h - iou_head h)) mod unat (iou_ring_entries h)))"
    by (simp only: iou_tail_slot [OF p] iou_masked [OF w])
qed

lemma iou_write:
  assumes "iou_queue hp A xs" and "h = kv_heads A hp" and "iou_tail h - iou_head h < iou_ring_entries h"
  shows "iou_queue hp (A\<lparr>kv_mem := (kv_mem A)(kv_slot (iou_entries h) (iou_tail h AND iou_ring_mask h) := y)\<rparr>) xs"
  using iou_queueD [OF assms(1,2)] assms(2,3)
    kv_ring_write [of "unat (iou_tail h - iou_head h)" "unat (iou_ring_entries h)" _ "iou_entries h"
      "unat (iou_head h) mod unat (iou_ring_entries h)" "kv_mem A" y, OF _ _ iou_queueD(5) [OF assms(1,2)]]
  by (simp add: iou_queue_def Let_def word_less_nat_alt)

lemma iou_publish:
  assumes "iou_queue hp A xs" and "h = kv_heads A hp" and "iou_tail h - iou_head h < iou_ring_entries h"
    and "kv_mem A (kv_slot (iou_entries h) (iou_tail h AND iou_ring_mask h)) = x"
  shows "iou_queue hp (kv_set_head hp (h\<lparr>iou_tail := iou_tail h + 1\<rparr>) A) (xs @ [x])"
proof -
  note d = iou_queueD [OF assms(1,2)]
  have n: "unat (iou_tail h - iou_head h) < unat (iou_ring_entries h)"
    using assms(3) by (simp add: word_less_nat_alt)
  have sn: "unat (iou_tail h + 1 - iou_head h) = Suc (unat (iou_tail h - iou_head h))"
    using n d(3) unat_plus_u32 [of "iou_tail h - iou_head h" 1] by (simp add: algebra_simps)
  have "kv_ring (kv_mem A) (iou_entries h) (unat (iou_head h) mod unat (iou_ring_entries h))
      (Suc (unat (iou_tail h - iou_head h))) (unat (iou_ring_entries h)) = xs @ [x]"
    using kv_ring_push [OF n _ d(5), of "kv_mem A" x] d(3,4) assms(4) by (simp add: fun_upd_idem)
  then show ?thesis
    using d(1,2) n by (simp add: iou_queue_def Let_def iou_wf_def sn word_le_nat_alt)
qed

lemma iou_release:
  assumes "iou_queue hp A (x # xs)" and "h = kv_heads A hp"
  shows "kv_mem A (kv_slot (iou_entries h) (iou_head h AND iou_ring_mask h)) = x"
    and "iou_queue hp (kv_set_head hp (h\<lparr>iou_head := iou_head h + 1\<rparr>) A) xs"
    and "iou_tail h - (iou_head h + 1) < iou_ring_entries h"
proof -
  have n: "unat (iou_tail h - iou_head h) = Suc (length xs)" using iou_queue_length [OF assms(1)] assms(2) by simp
  then have ne: "iou_tail h - iou_head h \<noteq> 0" by auto
  obtain A' where "ds_io_uring_pop_lkmm hp (Some zero_kv) A = (DS_SUCCESS, Some x, A')" "iou_queue hp A' xs"
    using iou_pop_front [OF assms(1), of "Some zero_kv"] by auto
  then show "kv_mem A (kv_slot (iou_entries h) (iou_head h AND iou_ring_mask h)) = x"
    "iou_queue hp (kv_set_head hp (h\<lparr>iou_head := iou_head h + 1\<rparr>) A) xs"
    using ne assms(2) by (auto simp: ds_io_uring_pop_lkmm_def Let_def)
  have "unat (iou_tail h - (iou_head h + 1)) = length xs"
    using unat_pred [OF ne] n by (simp add: diff_diff_eq)
  then show "iou_tail h - (iou_head h + 1) < iou_ring_entries h"
    using iou_queueD(1) [OF assms] n by (simp add: iou_wf_def word_le_nat_alt word_less_nat_alt)
qed

interpretation iou_threads: spsc_ring iou_code hp "iou_queue hp" for hp
proof
  fix A :: "'a iou_arena" and xs x h y
  show "rc_r iou_code (kv_heads A hp) = rc_w iou_code (kv_heads A hp) \<longleftrightarrow> xs = []" if "iou_queue hp A xs"
    using iou_queue_length [OF that] by (auto simp: iou_code_def unat_eq_0)
  show "kv_mem A (rc_slot iou_code (kv_heads A hp) (rc_r iou_code (kv_heads A hp))) = x"
    if "iou_queue hp A (x # xs)"
    using iou_release(1) [OF that refl] by (simp add: iou_code_def)
  show "iou_queue hp (kv_set_head hp (rc_set_r iou_code (rc_next iou_code h (rc_r iou_code h)) h) A) xs"
    if "iou_queue hp A (x # xs)" "h = kv_heads A hp"
    using iou_release(2) [OF that] by (simp add: iou_code_def)
  show "\<not> rc_full iou_code h (rc_w iou_code h) (rc_next iou_code h (rc_r iou_code h))"
    if "iou_queue hp A (x # xs)" "h = kv_heads A hp"
    using iou_release(3) [OF that] by (simp add: iou_code_def not_le)
  show "iou_queue hp (A\<lparr>kv_mem := (kv_mem A)(rc_slot iou_code h (rc_w iou_code h) := y)\<rparr>) xs"
    if "iou_queue hp A xs" "h = kv_heads A hp" "\<not> rc_full iou_code h (rc_w iou_code h) (rc_r iou_code h)"
    using iou_write [OF that(1,2)] that(3) by (simp add: iou_code_def not_le)
  show "iou_queue hp (kv_set_head hp (rc_set_w iou_code (rc_next iou_code h (rc_w iou_code h)) h) A) (xs @ [x])"
    if "iou_queue hp A xs" "h = kv_heads A hp" "\<not> rc_full iou_code h (rc_w iou_code h) (rc_r iou_code h)"
      "kv_mem A (rc_slot iou_code h (rc_w iou_code h)) = x"
    using iou_publish [OF that(1,2)] that(3,4) by (simp add: iou_code_def not_le)
qed (simp_all add: iou_code_def iou_queue_def iou_wf_def Let_def)

subsection \<open>Calls from a quiet thread\<close>

context spsc_ring
begin

text \<open>
  From any state a schedule reaches, a call made by a thread that is not inside another
  one returns success after six steps of the producer, or five of the consumer, if there
  was room, or an element, when the call began; the element a pop delivers is the one
  that was at the front then.
\<close>

lemma calls_return:
  assumes "q A zs" and "s = ring_schedule rc hp ts (idle_sys A)"
  shows "rs_prod s = P_idle \<Longrightarrow>
      \<not> rc_full rc (kv_heads (rs_arena s) hp) (rc_w rc (kv_heads (rs_arena s) hp)) (rc_r rc (kv_heads (rs_arena s) hp)) \<Longrightarrow>
      6 \<le> count_list us T_prod \<Longrightarrow>
      \<exists>es. rs_inserts (ring_schedule rc hp (T_insert x # us) s) = rs_inserts s @ (x, DS_SUCCESS) # es"
    and "rs_cons s = C_idle \<Longrightarrow> q (rs_arena s) (y # ys) \<Longrightarrow> 5 \<le> count_list us T_cons \<Longrightarrow>
      \<exists>es. rs_pops (ring_schedule rc hp (T_pop d # us) s) = rs_pops s @ (DS_SUCCESS, y) # es"
proof -
  obtain xs where inv: "sys_inv rc hp q zs s xs"
    using schedule_inv [OF sys_inv_idle [of q A zs rc hp, OF assms(1)], of ts] assms(2) by blast
  show "\<exists>es. rs_inserts (ring_schedule rc hp (T_insert x # us) s) = rs_inserts s @ (x, DS_SUCCESS) # es"
    if i: "rs_prod s = P_idle" and r: "\<not> rc_full rc (kv_heads (rs_arena s) hp)
      (rc_w rc (kv_heads (rs_arena s) hp)) (rc_r rc (kv_heads (rs_arena s) hp))"
      and n: "6 \<le> count_list us T_prod"
  proof -
    obtain ys where "sys_inv rc hp q zs (ring_turn rc hp (T_insert x) s) ys" using turn_inv [OF inv] by blast
    from insert_returns [OF this, of x us] i r n show ?thesis by (simp add: schedule_Cons)
  qed
  show "\<exists>es. rs_pops (ring_schedule rc hp (T_pop d # us) s) = rs_pops s @ (DS_SUCCESS, y) # es"
    if i: "rs_cons s = C_idle" and y: "q (rs_arena s) (y # ys)" and n: "5 \<le> count_list us T_cons"
  proof -
    obtain vs where v: "sys_inv rc hp q zs (ring_turn rc hp (T_pop d) s) vs" using turn_inv [OF inv] by blast
    then obtain more where "vs = y # more"
      using queue_grows [OF inv v] code_det [OF sys_invD(1) [OF inv] y] by auto
    with pop_returns [of zs "ring_turn rc hp (T_pop d) s" y more us] v i n show ?thesis by (simp add: schedule_Cons)
  qed
qed

end

subsection \<open>Properties of the rings\<close>

lemma kv_set_head_same [simp]: "kv_set_head hp (kv_heads A hp) A = A"
  by (simp add: kv_set_head_def)

lemma replicate_turns:
  "replicate 6 t = [t, t, t, t, t, t]" "replicate 5 t = [t, t, t, t, t]"
  by (simp_all add: numeral_eq_Suc)

lemmas alone_defs = replicate_turns idle_sys_def ring_schedule_def Let_def kv_store_key_def
  kv_store_val_def kv_set_slot_def

lemma schedule_append: "ring_schedule rc hp (ts @ us) s = ring_schedule rc hp us (ring_schedule rc hp ts s)"
  by (simp add: ring_schedule_def)

text \<open>
  C19.  The Folly ring is a FIFO under every interleaving: start from a well-formed head
  and let a schedule interleave the single accesses of inserts and pops in any order, also
  stopping in the middle of both.  The head stays well formed, and what was there followed
  by the elements whose insert has published is exactly what the pops have delivered
  followed by what is queued: no element is lost, duplicated, reordered or read half
  written.
\<close>

theorem folly_threads_fifo:
  assumes "spsc_queue hp A zs" and "s = ring_schedule folly_code hp ts (idle_sys A)"
  shows "\<exists>xs. spsc_queue hp (rs_arena s) xs \<and> zs @ sys_accepted s = sys_delivered s @ xs"
  using assms by (rule folly_threads.schedule_fifo)

text \<open>
  The consumer starts on an empty ring and loads the write index only after the producer
  has published, then both run on with their steps alternating.
\<close>

definition demo_turns :: "turn list" where
  "demo_turns = [T_insert \<lparr>key = 1, val = 10\<rparr>, T_pop zero_kv, T_cons, T_prod, T_prod, T_prod, T_prod,
     T_prod, T_cons, T_prod, T_cons, T_insert \<lparr>key = 2, val = 20\<rparr>, T_prod, T_cons, T_prod, T_cons, T_prod,
     T_prod, T_prod]"

theorem folly_threads_fifo_witness:
  "let s = ring_schedule folly_code 0x1000 demo_turns (idle_sys (spsc_demo ())) in
   \<exists>xs. spsc_queue 0x1000 (rs_arena s) xs \<and> sys_accepted s = sys_delivered s @ xs \<and>
     sys_delivered s = [\<lparr>key = 1, val = 10\<rparr>] \<and> sys_accepted s = [\<lparr>key = 1, val = 10\<rparr>, \<lparr>key = 2, val = 20\<rparr>]"
proof -
  let ?s = "ring_schedule folly_code 0x1000 demo_turns (idle_sys (spsc_demo ()))"
  have "sys_delivered ?s = [\<lparr>key = 1, val = 10\<rparr>] \<and>
      sys_accepted ?s = [\<lparr>key = 1, val = 10\<rparr>, \<lparr>key = 2, val = 20\<rparr>]"
    by code_simp
  with folly_threads_fifo [OF spsc_demo_queue refl, of demo_turns "()"] show ?thesis
    by (simp add: Let_def)
qed


text \<open>Likewise for the Concurrency Kit ring, NULL heads and heads without slots included.\<close>

lemma ckr_alone:
  "ring_schedule ckr_code hp (T_insert x # replicate 6 T_prod) (idle_sys A) =
     (case ds_ck_ring_spsc_insert sd hp (key x) (val x) A of (r, A') \<Rightarrow> (idle_sys A')\<lparr>rs_inserts := [(x, r)]\<rparr>) \<and>
   ring_schedule ckr_code hp (T_pop d # replicate 5 T_cons) (idle_sys A) =
     (case ds_ck_ring_spsc_pop sd hp (Some d) A of (r, out, A') \<Rightarrow> (idle_sys A')\<lparr>rs_pops := [(r, the out)]\<rparr>)"
proof
  let ?h = "kv_heads A hp"
  note defs = ds_variant ds_ck_ring_spsc_insert_lkmm_def ds_ck_ring_spsc_delete_lkmm_def ckr_code_def alone_defs
  show "ring_schedule ckr_code hp (T_insert x # replicate 6 T_prod) (idle_sys A) =
     (case ds_ck_ring_spsc_insert sd hp (key x) (val x) A of (r, A') \<Rightarrow> (idle_sys A')\<lparr>rs_inserts := [(x, r)]\<rparr>)"
    by (cases "hp = NULL \<or> ckr_slots ?h = NULL"; cases "(ckr_p_tail ?h + 1) AND ckr_mask ?h = ckr_c_head ?h")
       (auto simp: defs)
  show "ring_schedule ckr_code hp (T_pop d # replicate 5 T_cons) (idle_sys A) =
     (case ds_ck_ring_spsc_pop sd hp (Some d) A of (r, out, A') \<Rightarrow> (idle_sys A')\<lparr>rs_pops := [(r, the out)]\<rparr>)"
    by (cases "hp = NULL \<or> ckr_slots ?h = NULL"; cases "ckr_c_head ?h = ckr_p_tail ?h") (auto simp: defs)
qed

text \<open>And for the io_uring ring, with its flag.\<close>

lemma iou_alone:
  "ring_schedule iou_code hp (T_insert x # replicate 6 T_prod) (idle_sys A) =
     (case ds_io_uring_insert sd hp (key x) (val x) A of (r, A') \<Rightarrow> (idle_sys A')\<lparr>rs_inserts := [(x, r)]\<rparr>) \<and>
   ring_schedule iou_code hp (T_pop d # replicate 5 T_cons) (idle_sys A) =
     (case ds_io_uring_pop sd hp (Some d) A of (r, out, A') \<Rightarrow> (idle_sys A')\<lparr>rs_pops := [(r, the out)]\<rparr>)"
  by (intro conjI; simp add: ds_variant ds_io_uring_insert_lkmm_def ds_io_uring_pop_lkmm_def
      iou_code_def alone_defs)

text \<open>
  Neither side of the Folly ring can be held up or turned away by the other: after
  any schedule, an insert called by an idle producer while the ring is not full has
  returned success by the time the producer has made six steps, and a pop called by an
  idle consumer while \<open>y\<close> is at the front has returned success with \<open>y\<close> after five steps,
  however the other side's steps fall in between.
\<close>

theorem folly_calls_return:
  assumes "spsc_queue hp A zs" and "s = ring_schedule folly_code hp ts (idle_sys A)"
  shows "(rs_prod s = P_idle \<and> \<not> ds_spsc_is_full sd hp (rs_arena s) \<and> 6 \<le> count_list us T_prod \<longrightarrow>
      (\<exists>es. rs_inserts (ring_schedule folly_code hp (T_insert x # us) s) = rs_inserts s @ (x, DS_SUCCESS) # es)) \<and>
    (rs_cons s = C_idle \<and> spsc_queue hp (rs_arena s) (y # ys) \<and> 5 \<le> count_list us T_cons \<longrightarrow>
      (\<exists>es. rs_pops (ring_schedule folly_code hp (T_pop d # us) s) = rs_pops s @ (DS_SUCCESS, y) # es))"
proof -
  have "ds_spsc_is_full sd hp B = rc_full folly_code (kv_heads B hp) (rc_w folly_code (kv_heads B hp))
      (rc_r folly_code (kv_heads B hp))" for B :: "'a spsc_arena"
    by (cases sd) (simp_all add: ds_spsc_is_full_def ds_variant ds_spsc_is_full_lkmm_def folly_code_def Let_def)
  then show ?thesis
    using folly_threads.calls_return(1) [OF assms, of us x] folly_threads.calls_return(2) [OF assms, of y ys us d]
    by blast
qed

theorem folly_calls_return_witness:
  "let s = ring_schedule folly_code 0x1000 (demo_turns @ [T_prod]) (idle_sys (spsc_demo ()));
       us = [T_cons, T_prod, T_prod, T_cons, T_prod, T_prod, T_cons, T_prod, T_prod, T_cons] in
   \<exists>es. rs_inserts (ring_schedule folly_code 0x1000 (T_insert \<lparr>key = 3, val = 30\<rparr> # us) s) =
     rs_inserts s @ (\<lparr>key = 3, val = 30\<rparr>, DS_SUCCESS) # es"
proof -
  let ?s = "ring_schedule folly_code 0x1000 (demo_turns @ [T_prod]) (idle_sys (spsc_demo ()))"
  let ?us = "[T_cons, T_prod, T_prod, T_cons, T_prod, T_prod, T_cons, T_prod, T_prod, T_cons]"
  have "rs_prod ?s = P_idle" "\<not> ds_spsc_is_full BPF 0x1000 (rs_arena ?s)" by code_simp+
  with folly_calls_return [OF spsc_demo_queue refl, of "demo_turns @ [T_prod]" "()" BPF ?us "\<lparr>key = 3, val = 30\<rparr>"]
  show ?thesis by (simp add: Let_def)
qed

text \<open>
  The Concurrency Kit ring is a FIFO under every interleaving of the single accesses
  of its producer and consumer, although its insert loads the consumer's index before its
  own: the head stays well formed and the published elements are, in order, the delivered
  ones followed by the queued ones.
\<close>

theorem ckr_threads_fifo:
  assumes "ckr_queue hp A zs" and "s = ring_schedule ckr_code hp ts (idle_sys A)"
  shows "\<exists>xs. ckr_queue hp (rs_arena s) xs \<and> zs @ sys_accepted s = sys_delivered s @ xs"
  using assms by (rule ckr_threads.schedule_fifo)

text \<open>
  In the same schedule on a ring of two slots the second insert loads the consumer's
  index before the pop frees its slot, and is refused.
\<close>

theorem ckr_threads_fifo_witness:
  "let s = ring_schedule ckr_code 0x1000 demo_turns (idle_sys (ckr_demo ())) in
   \<exists>xs. ckr_queue 0x1000 (rs_arena s) xs \<and> sys_accepted s = sys_delivered s @ xs \<and>
     sys_accepted s = [\<lparr>key = 1, val = 10\<rparr>]"
proof -
  let ?s = "ring_schedule ckr_code 0x1000 demo_turns (idle_sys (ckr_demo ()))"
  have "sys_accepted ?s = [\<lparr>key = 1, val = 10\<rparr>]" by code_simp
  with ckr_threads_fifo [OF ckr_demo_queue refl, of demo_turns "()"] show ?thesis
    by (simp add: Let_def)
qed

text \<open>
  C20.  The io_uring ring is a FIFO under every interleaving of the single accesses of its
  producer and consumer, across the wrap-around of its 32-bit indices: the head stays well
  formed and the published elements are, in order, the delivered ones followed by the
  queued ones.
\<close>

theorem iou_threads_fifo:
  assumes "iou_queue hp A zs" and "s = ring_schedule iou_code hp ts (idle_sys A)"
  shows "\<exists>xs. iou_queue hp (rs_arena s) xs \<and> zs @ sys_accepted s = sys_delivered s @ xs"
  using assms by (rule iou_threads.schedule_fifo)

theorem iou_threads_fifo_witness:
  "let s = ring_schedule iou_code 0x1000 demo_turns (idle_sys (iou_demo ())) in
   \<exists>xs. iou_queue 0x1000 (rs_arena s) xs \<and> sys_accepted s = sys_delivered s @ xs \<and>
     sys_accepted s = [\<lparr>key = 1, val = 10\<rparr>, \<lparr>key = 2, val = 20\<rparr>]"
proof -
  let ?s = "ring_schedule iou_code 0x1000 demo_turns (idle_sys (iou_demo ()))"
  have "sys_accepted ?s = [\<lparr>key = 1, val = 10\<rparr>, \<lparr>key = 2, val = 20\<rparr>]" by code_simp
  with iou_threads_fifo [OF iou_demo_queue refl, of demo_turns "()"] show ?thesis
    by (simp add: Let_def)
qed

text \<open>
  C21.  Neither side of the io_uring ring can be held up or turned away by the other: after
  any schedule, an insert called by an idle producer while a slot is free has returned
  success once the producer has made six steps, and a pop called by an idle consumer while
  \<open>y\<close> is at the front has returned success with \<open>y\<close> after five steps, however the other
  side's steps fall in between.
\<close>

theorem iou_calls_return:
  assumes "iou_queue hp A zs" and "s = ring_schedule iou_code hp ts (idle_sys A)"
  shows "(rs_prod s = P_idle \<and> iou_room hp (rs_arena s) \<and> 6 \<le> count_list us T_prod \<longrightarrow>
      (\<exists>es. rs_inserts (ring_schedule iou_code hp (T_insert x # us) s) = rs_inserts s @ (x, DS_SUCCESS) # es)) \<and>
    (rs_cons s = C_idle \<and> iou_queue hp (rs_arena s) (y # ys) \<and> 5 \<le> count_list us T_cons \<longrightarrow>
      (\<exists>es. rs_pops (ring_schedule iou_code hp (T_pop d # us) s) = rs_pops s @ (DS_SUCCESS, y) # es))"
proof -
  have "iou_room hp B \<longleftrightarrow> \<not> rc_full iou_code (kv_heads B hp) (rc_w iou_code (kv_heads B hp))
      (rc_r iou_code (kv_heads B hp))" for B :: "'a iou_arena"
    by (simp add: iou_room_def iou_code_def not_le)
  then show ?thesis
    using iou_threads.calls_return(1) [OF assms, of us x] iou_threads.calls_return(2) [OF assms, of y ys us d]
    by blast
qed

theorem iou_calls_return_witness:
  "let s = ring_schedule iou_code 0x1000 (demo_turns @ [T_prod]) (idle_sys (iou_demo ()));
       us = [T_cons, T_prod, T_prod, T_cons, T_prod, T_prod, T_cons, T_prod, T_prod, T_cons] in
   \<exists>es. rs_inserts (ring_schedule iou_code 0x1000 (T_insert \<lparr>key = 3, val = 30\<rparr> # us) s) =
     rs_inserts s @ (\<lparr>key = 3, val = 30\<rparr>, DS_SUCCESS) # es"
proof -
  let ?s = "ring_schedule iou_code 0x1000 (demo_turns @ [T_prod]) (idle_sys (iou_demo ()))"
  let ?us = "[T_cons, T_prod, T_prod, T_cons, T_prod, T_prod, T_cons, T_prod, T_prod, T_cons]"
  have "rs_prod ?s = P_idle" "iou_room 0x1000 (rs_arena ?s)" by code_simp+
  with iou_calls_return [OF iou_demo_queue refl, of "demo_turns @ [T_prod]" "()" ?us "\<lparr>key = 3, val = 30\<rparr>"]
  show ?thesis by (simp add: Let_def)
qed

text \<open>The same for the Concurrency Kit ring.\<close>

lemma ckr_calls_return:
  assumes "ckr_queue hp A zs" and "s = ring_schedule ckr_code hp ts (idle_sys A)"
  shows "(rs_prod s = P_idle \<and> \<not> ds_ck_ring_spsc_is_full sd hp (rs_arena s) \<and> 6 \<le> count_list us T_prod \<longrightarrow>
      (\<exists>es. rs_inserts (ring_schedule ckr_code hp (T_insert x # us) s) = rs_inserts s @ (x, DS_SUCCESS) # es)) \<and>
    (rs_cons s = C_idle \<and> ckr_queue hp (rs_arena s) (y # ys) \<and> 5 \<le> count_list us T_cons \<longrightarrow>
      (\<exists>es. rs_pops (ring_schedule ckr_code hp (T_pop d # us) s) = rs_pops s @ (DS_SUCCESS, y) # es))"
proof -
  have "ds_ck_ring_spsc_is_full sd hp B = rc_full ckr_code (kv_heads B hp) (rc_w ckr_code (kv_heads B hp))
      (rc_r ckr_code (kv_heads B hp))" for B :: "'a ckr_arena"
    by (simp add: ds_variant ds_ck_ring_spsc_is_full_lkmm_def ckr_code_def Let_def)
  then show ?thesis
    using ckr_threads.calls_return(1) [OF assms, of us x] ckr_threads.calls_return(2) [OF assms, of y ys us d]
    by blast
qed

end
