(* ===== verification/Vyukhov.thy ===== *)
theory Vyukhov
  imports LaneContracts ArenaAlloc
begin

unbundle bit_operations_syntax

text \<open>
  Vyukov's bounded queue of \<^verbatim>\<open>include/ds_vyukhov.h\<close>: 64-bit enqueue and dequeue
  positions, an array of cells that carry a sequence number, and a bounded number of
  retries.  The operations are modelled as they run without interference; \<^verbatim>\<open>can_loop\<close>
  is true, as in userspace (the kernel's budget of eight million iterations exceeds
  every loop over a buffer the allocators can provide).
\<close>

subsection \<open>State\<close>

record ds_vyukhov_node =
  vy_sequence :: u64
  vy_data :: ds_kv

record ds_vyukhov_head =
  vy_enqueue_pos :: u64
  vy_dequeue_pos :: u64
  vy_buffer_mask :: u64
  vy_buffer :: ptr
  vy_count :: u64

record 'a vy_arena =
  vy_heads :: "ptr \<Rightarrow> ds_vyukhov_head"
  vy_cells :: "ptr \<Rightarrow> ds_vyukhov_node"
  vy_alloc :: 'a

definition DS_VYUKHOV_MAX_RETRIES :: nat where "DS_VYUKHOV_MAX_RETRIES = 100"

definition DS_VYUKHOV_DEFAULT_CAPACITY :: u32 where "DS_VYUKHOV_DEFAULT_CAPACITY = 256"

text \<open>\<^verbatim>\<open>&buffer[i]\<close> for 24-byte cells, and the byte cnt truncated to 32 bits.\<close>

definition vy_cell :: "ptr \<Rightarrow> u64 \<Rightarrow> ptr" where
  "vy_cell buffer i = buffer + 24 * i"

definition vy_bytes :: "u32 \<Rightarrow> u32" where
  "vy_bytes n = ucast (ucast n * 24 :: u64)"

definition vy_set_head :: "ptr \<Rightarrow> ds_vyukhov_head \<Rightarrow> 'a vy_arena \<Rightarrow> 'a vy_arena" where
  "vy_set_head hp h A = A\<lparr>vy_heads := (vy_heads A)(hp := h)\<rparr>"

definition vy_set_cell :: "ptr \<Rightarrow> ds_vyukhov_node \<Rightarrow> 'a vy_arena \<Rightarrow> 'a vy_arena" where
  "vy_set_cell a c A = A\<lparr>vy_cells := (vy_cells A)(a := c)\<rparr>"

lemma vy_set_acc [simp]:
  "vy_heads (vy_set_head hp h A) = (vy_heads A)(hp := h)" "vy_cells (vy_set_head hp h A) = vy_cells A"
  "vy_alloc (vy_set_head hp h A) = vy_alloc A"
  "vy_heads (vy_set_cell a c A) = vy_heads A" "vy_cells (vy_set_cell a c A) = (vy_cells A)(a := c)"
  "vy_alloc (vy_set_cell a c A) = vy_alloc A"
  by (simp_all add: vy_set_head_def vy_set_cell_def)

subsection \<open>Initialisation\<close>

text \<open>The loop gives cell \<open>i\<close> the sequence number \<open>i\<close>; \<open>n\<close> cells are left.\<close>

fun vy_init_loop :: "nat \<Rightarrow> u32 \<Rightarrow> ptr \<Rightarrow> 'a vy_arena \<Rightarrow> 'a vy_arena" where
  "vy_init_loop 0 i buffer A = A"
| "vy_init_loop (Suc n) i buffer A =
     (let cell = vy_cell buffer (ucast i) in
      vy_init_loop n (i + 1) buffer
        (vy_set_cell cell ((vy_cells A cell)\<lparr>vy_sequence := ucast i\<rparr>) A))"

definition ds_vyukhov_init_lkmm ::
  "'a allocator \<Rightarrow> ptr \<Rightarrow> u32 \<Rightarrow> 'a vy_arena \<Rightarrow> int \<times> 'a vy_arena" where
  "ds_vyukhov_init_lkmm bpf_arena_alloc hp capacity A =
     (if hp = NULL then (DS_ERROR_INVALID, A)
      else if capacity < 2 \<or> capacity AND (capacity - 1) \<noteq> 0 then (DS_ERROR_INVALID, A)
      else
        let A = vy_set_head hp ((vy_heads A hp)\<lparr>vy_buffer_mask := ucast (capacity - 1),
                  vy_enqueue_pos := 0, vy_dequeue_pos := 0, vy_count := 0\<rparr>) A;
            (buffer, al) = bpf_arena_alloc (vy_bytes capacity) (vy_alloc A);
            A = A\<lparr>vy_alloc := al\<rparr>;
            A = vy_set_head hp ((vy_heads A hp)\<lparr>vy_buffer := buffer\<rparr>) A in
        if vy_buffer (vy_heads A hp) = NULL then (DS_ERROR_NOMEM, A)
        else (DS_SUCCESS, vy_init_loop (unat capacity) 0 (vy_buffer (vy_heads A hp)) A))"

definition ds_vyukhov_init_c ::
  "'a allocator \<Rightarrow> ptr \<Rightarrow> u32 \<Rightarrow> 'a vy_arena \<Rightarrow> int \<times> 'a vy_arena" where
  "ds_vyukhov_init_c bpf_arena_alloc hp capacity A =
     (if hp = NULL then (DS_ERROR_INVALID, A)
      else if capacity < 2 \<or> capacity AND (capacity - 1) \<noteq> 0 then (DS_ERROR_INVALID, A)
      else
        let A = vy_set_head hp ((vy_heads A hp)\<lparr>vy_buffer_mask := ucast (capacity - 1),
                  vy_enqueue_pos := 0, vy_dequeue_pos := 0, vy_count := 0\<rparr>) A;
            (buffer, al) = bpf_arena_alloc (vy_bytes capacity) (vy_alloc A);
            A = A\<lparr>vy_alloc := al\<rparr>;
            A = vy_set_head hp ((vy_heads A hp)\<lparr>vy_buffer := buffer\<rparr>) A in
        if vy_buffer (vy_heads A hp) = NULL then (DS_ERROR_NOMEM, A)
        else (DS_SUCCESS, vy_init_loop (unat capacity) 0 (vy_buffer (vy_heads A hp)) A))"

definition ds_vyukhov_init :: "side \<Rightarrow> 'a allocator \<Rightarrow> ptr \<Rightarrow> u32 \<Rightarrow> 'a vy_arena \<Rightarrow> int \<times> 'a vy_arena" where
  "ds_vyukhov_init sd bpf_arena_alloc hp capacity A =
     (case sd of BPF \<Rightarrow> ds_vyukhov_init_lkmm bpf_arena_alloc hp capacity A | USERSPACE \<Rightarrow> ds_vyukhov_init_c bpf_arena_alloc hp capacity A)"

subsection \<open>Insertion\<close>

text \<open>The retry loop: \<open>n\<close> attempts are left, \<open>pos\<close> is the position last read.\<close>

fun vy_insert_loop ::
  "nat \<Rightarrow> ptr \<Rightarrow> u64 \<Rightarrow> u64 \<Rightarrow> u64 \<Rightarrow> u64 \<Rightarrow> 'a vy_arena \<Rightarrow> int \<times> 'a vy_arena" where
  "vy_insert_loop 0 hp pos msk k v A = (DS_ERROR_BUSY, A)"
| "vy_insert_loop (Suc n) hp pos msk k v A =
     (let cell = vy_cell (vy_buffer (vy_heads A hp)) (pos AND msk);
          seq = vy_sequence (vy_cells A cell);
          dif = seq - pos in
      if sint dif = 0 then
        let (old_pos, enq) = arena_atomic_cmpxchg (vy_enqueue_pos (vy_heads A hp)) pos (pos + 1);
            A = vy_set_head hp ((vy_heads A hp)\<lparr>vy_enqueue_pos := enq\<rparr>) A in
        if old_pos = pos then
          let A = vy_set_cell cell ((vy_cells A cell)\<lparr>vy_data := \<lparr>key = k, val = v\<rparr>\<rparr>) A;
              A = vy_set_cell cell ((vy_cells A cell)\<lparr>vy_sequence := pos + 1\<rparr>) A;
              A = vy_set_head hp ((vy_heads A hp)\<lparr>vy_count := vy_count (vy_heads A hp) + 1\<rparr>) A in
          (DS_SUCCESS, A)
        else vy_insert_loop n hp (vy_enqueue_pos (vy_heads A hp)) msk k v A
      else if sint dif < 0 then (DS_ERROR_NOMEM, A)
      else vy_insert_loop n hp (vy_enqueue_pos (vy_heads A hp)) msk k v A)"

definition ds_vyukhov_insert_lkmm ::
  "ptr \<Rightarrow> u64 \<Rightarrow> u64 \<Rightarrow> 'a vy_arena \<Rightarrow> int \<times> 'a vy_arena" where
  "ds_vyukhov_insert_lkmm hp k v A =
     (if hp = NULL \<or> vy_buffer (vy_heads A hp) = NULL then (DS_ERROR_INVALID, A)
      else vy_insert_loop DS_VYUKHOV_MAX_RETRIES hp (vy_enqueue_pos (vy_heads A hp))
        (vy_buffer_mask (vy_heads A hp)) k v A)"

definition ds_vyukhov_insert_c ::
  "ptr \<Rightarrow> u64 \<Rightarrow> u64 \<Rightarrow> 'a vy_arena \<Rightarrow> int \<times> 'a vy_arena" where
  "ds_vyukhov_insert_c hp k v A =
     (if hp = NULL \<or> vy_buffer (vy_heads A hp) = NULL then (DS_ERROR_INVALID, A)
      else vy_insert_loop DS_VYUKHOV_MAX_RETRIES hp (vy_enqueue_pos (vy_heads A hp))
        (vy_buffer_mask (vy_heads A hp)) k v A)"

definition ds_vyukhov_insert :: "side \<Rightarrow> ptr \<Rightarrow> u64 \<Rightarrow> u64 \<Rightarrow> 'a vy_arena \<Rightarrow> int \<times> 'a vy_arena" where
  "ds_vyukhov_insert sd hp k v A =
     (case sd of BPF \<Rightarrow> ds_vyukhov_insert_lkmm hp k v A | USERSPACE \<Rightarrow> ds_vyukhov_insert_c hp k v A)"

subsection \<open>Removal\<close>

fun vy_pop_loop ::
  "nat \<Rightarrow> ptr \<Rightarrow> u64 \<Rightarrow> u64 \<Rightarrow> ds_kv \<Rightarrow> 'a vy_arena \<Rightarrow> int \<times> ds_kv option \<times> 'a vy_arena" where
  "vy_pop_loop 0 hp pos msk data A = (DS_ERROR_BUSY, Some data, A)"
| "vy_pop_loop (Suc n) hp pos msk data A =
     (let cell = vy_cell (vy_buffer (vy_heads A hp)) (pos AND msk);
          seq = vy_sequence (vy_cells A cell);
          dif = seq - (pos + 1) in
      if sint dif = 0 then
        let (old_pos, deq) = arena_atomic_cmpxchg (vy_dequeue_pos (vy_heads A hp)) pos (pos + 1);
            A = vy_set_head hp ((vy_heads A hp)\<lparr>vy_dequeue_pos := deq\<rparr>) A in
        if old_pos = pos then
          let data = data\<lparr>key := key (vy_data (vy_cells A cell)), val := val (vy_data (vy_cells A cell))\<rparr>;
              A = vy_set_cell cell ((vy_cells A cell)\<lparr>vy_sequence := pos + msk + 1\<rparr>) A;
              A = vy_set_head hp ((vy_heads A hp)\<lparr>vy_count := vy_count (vy_heads A hp) - 1\<rparr>) A in
          (DS_SUCCESS, Some data, A)
        else vy_pop_loop n hp (vy_dequeue_pos (vy_heads A hp)) msk data A
      else if sint dif < 0 then (DS_ERROR_NOT_FOUND, Some data, A)
      else vy_pop_loop n hp (vy_dequeue_pos (vy_heads A hp)) msk data A)"

text \<open>\<open>data\<close> is the output buffer, \<open>None\<close> for a NULL pointer, which this header refuses.\<close>

definition ds_vyukhov_pop_lkmm ::
  "ptr \<Rightarrow> ds_kv option \<Rightarrow> 'a vy_arena \<Rightarrow> int \<times> ds_kv option \<times> 'a vy_arena" where
  "ds_vyukhov_pop_lkmm hp data A =
     (if hp = NULL \<or> vy_buffer (vy_heads A hp) = NULL then (DS_ERROR_INVALID, data, A)
      else case data of
        None \<Rightarrow> (DS_ERROR_INVALID, data, A)
      | Some d \<Rightarrow> vy_pop_loop DS_VYUKHOV_MAX_RETRIES hp (vy_dequeue_pos (vy_heads A hp))
          (vy_buffer_mask (vy_heads A hp)) d A)"

definition ds_vyukhov_pop_c ::
  "ptr \<Rightarrow> ds_kv option \<Rightarrow> 'a vy_arena \<Rightarrow> int \<times> ds_kv option \<times> 'a vy_arena" where
  "ds_vyukhov_pop_c hp data A =
     (if hp = NULL \<or> vy_buffer (vy_heads A hp) = NULL then (DS_ERROR_INVALID, data, A)
      else case data of
        None \<Rightarrow> (DS_ERROR_INVALID, data, A)
      | Some d \<Rightarrow> vy_pop_loop DS_VYUKHOV_MAX_RETRIES hp (vy_dequeue_pos (vy_heads A hp))
          (vy_buffer_mask (vy_heads A hp)) d A)"

definition ds_vyukhov_pop :: "side \<Rightarrow> ptr \<Rightarrow> ds_kv option \<Rightarrow> 'a vy_arena \<Rightarrow> int \<times> ds_kv option \<times> 'a vy_arena" where
  "ds_vyukhov_pop sd hp data A =
     (case sd of BPF \<Rightarrow> ds_vyukhov_pop_lkmm hp data A | USERSPACE \<Rightarrow> ds_vyukhov_pop_c hp data A)"

subsection \<open>Search, iteration, verification\<close>

text \<open>The loops from one position up to another end because the position grows.\<close>

lemma position_measure:
  "i < e \<Longrightarrow> (unat e - unat (i + 1), unat e - unat i) \<in> measure id" for i e :: u64
proof -
  assume "i < e"
  then have l: "unat i < unat e" by (simp add: word_less_nat_alt)
  moreover have "unat e < 2 ^ 64" using unsigned_less [of e, where 'a = nat] by simp
  ultimately have "unat (i + 1) = unat i + 1" by (simp add: unat_plus_u64)
  with l show ?thesis by simp
qed

function vy_search_loop :: "ptr \<Rightarrow> u64 \<Rightarrow> u64 \<Rightarrow> u64 \<Rightarrow> u64 \<Rightarrow> 'a vy_arena \<Rightarrow> int" where
  "vy_search_loop hp k msk i e A =
     (if i < e then
        let cell = vy_cell (vy_buffer (vy_heads A hp)) (i AND msk) in
        if key (vy_data (vy_cells A cell)) = k then DS_SUCCESS
        else vy_search_loop hp k msk (i + 1) e A
      else DS_ERROR_NOT_FOUND)"
  by pat_completeness auto
termination
  by (relation "inv_image (measure id) (\<lambda>(hp, k, msk, i, e, A). unat e - unat i)")
     (use position_measure in auto)

declare vy_search_loop.simps [simp del]

definition ds_vyukhov_search_lkmm :: "ptr \<Rightarrow> u64 \<Rightarrow> 'a vy_arena \<Rightarrow> int" where
  "ds_vyukhov_search_lkmm hp k A =
     (if hp = NULL \<or> vy_buffer (vy_heads A hp) = NULL then DS_ERROR_INVALID
      else vy_search_loop hp k (vy_buffer_mask (vy_heads A hp)) (vy_dequeue_pos (vy_heads A hp))
        (vy_enqueue_pos (vy_heads A hp)) A)"

definition ds_vyukhov_search_c :: "ptr \<Rightarrow> u64 \<Rightarrow> 'a vy_arena \<Rightarrow> int" where
  "ds_vyukhov_search_c hp k A =
     (if hp = NULL \<or> vy_buffer (vy_heads A hp) = NULL then DS_ERROR_INVALID
      else vy_search_loop hp k (vy_buffer_mask (vy_heads A hp)) (vy_dequeue_pos (vy_heads A hp))
        (vy_enqueue_pos (vy_heads A hp)) A)"

definition ds_vyukhov_search :: "side \<Rightarrow> ptr \<Rightarrow> u64 \<Rightarrow> 'a vy_arena \<Rightarrow> int" where
  "ds_vyukhov_search sd hp k A =
     (case sd of BPF \<Rightarrow> ds_vyukhov_search_lkmm hp k A | USERSPACE \<Rightarrow> ds_vyukhov_search_c hp k A)"

definition ds_vyukhov_verify_lkmm :: "ptr \<Rightarrow> 'a vy_arena \<Rightarrow> int" where
  "ds_vyukhov_verify_lkmm hp A =
     (if hp = NULL then DS_ERROR_INVALID
      else
        let h = vy_heads A hp in
        if vy_buffer h = NULL then DS_ERROR_CORRUPT
        else
          let enq = vy_enqueue_pos h; deq = vy_dequeue_pos h in
          if deq > enq then DS_ERROR_CORRUPT
          else
            let sz = enq - deq; capacity = vy_buffer_mask h + 1 in
            if sz > capacity then DS_ERROR_CORRUPT
            else if vy_count h > capacity then DS_ERROR_CORRUPT
            else DS_SUCCESS)"

definition ds_vyukhov_verify_c :: "ptr \<Rightarrow> 'a vy_arena \<Rightarrow> int" where
  "ds_vyukhov_verify_c hp A =
     (if hp = NULL then DS_ERROR_INVALID
      else
        let h = vy_heads A hp in
        if vy_buffer h = NULL then DS_ERROR_CORRUPT
        else
          let enq = vy_enqueue_pos h; deq = vy_dequeue_pos h in
          if deq > enq then DS_ERROR_CORRUPT
          else
            let sz = enq - deq; capacity = vy_buffer_mask h + 1 in
            if sz > capacity then DS_ERROR_CORRUPT
            else if vy_count h > capacity then DS_ERROR_CORRUPT
            else DS_SUCCESS)"

definition ds_vyukhov_verify :: "side \<Rightarrow> ptr \<Rightarrow> 'a vy_arena \<Rightarrow> int" where
  "ds_vyukhov_verify sd hp A =
     (case sd of BPF \<Rightarrow> ds_vyukhov_verify_lkmm hp A | USERSPACE \<Rightarrow> ds_vyukhov_verify_c hp A)"

definition ds_vyukhov_get_metadata :: ds_metadata where
  "ds_vyukhov_get_metadata =
     \<lparr>md_name = ''vyukhov'', md_description = ''Bounded MPMC Queue (Vyukhov 1024cores)'',
      md_node_size = 24, md_requires_locking = 0\<rparr>"

text \<open>
  The callback gets key, value and the context it updates; the loop stops when it
  returns a non-zero value.  The result is the number of elements visited before that.
\<close>

function vy_iterate_loop ::
  "(u64 \<Rightarrow> u64 \<Rightarrow> 'c \<Rightarrow> int \<times> 'c) \<Rightarrow> ptr \<Rightarrow> u64 \<Rightarrow> u64 \<Rightarrow> u64 \<Rightarrow> u64 \<Rightarrow> 'c \<Rightarrow> 'a vy_arena \<Rightarrow> u64 \<times> 'c" where
  "vy_iterate_loop fn hp msk i e cnt ctx A =
     (if i < e then
        let cell = vy_cell (vy_buffer (vy_heads A hp)) (i AND msk);
            (ret, ctx) = fn (key (vy_data (vy_cells A cell))) (val (vy_data (vy_cells A cell))) ctx in
        if ret \<noteq> 0 then (cnt, ctx)
        else vy_iterate_loop fn hp msk (i + 1) e (cnt + 1) ctx A
      else (cnt, ctx))"
  by pat_completeness auto
termination
  by (relation "inv_image (measure id) (\<lambda>(fn, hp, msk, i, e, cnt, ctx, A). unat e - unat i)")
     (use position_measure in auto)

declare vy_iterate_loop.simps [simp del]

definition ds_vyukhov_iterate_lkmm ::
  "ptr \<Rightarrow> (u64 \<Rightarrow> u64 \<Rightarrow> 'c \<Rightarrow> int \<times> 'c) option \<Rightarrow> 'c \<Rightarrow> 'a vy_arena \<Rightarrow> u64 \<times> 'c" where
  "ds_vyukhov_iterate_lkmm hp fn ctx A =
     (case fn of
        None \<Rightarrow> (0, ctx)
      | Some f \<Rightarrow>
          if hp = NULL \<or> vy_buffer (vy_heads A hp) = NULL then (0, ctx)
          else vy_iterate_loop f hp (vy_buffer_mask (vy_heads A hp)) (vy_dequeue_pos (vy_heads A hp))
            (vy_enqueue_pos (vy_heads A hp)) 0 ctx A)"

definition ds_vyukhov_iterate_c ::
  "ptr \<Rightarrow> (u64 \<Rightarrow> u64 \<Rightarrow> 'c \<Rightarrow> int \<times> 'c) option \<Rightarrow> 'c \<Rightarrow> 'a vy_arena \<Rightarrow> u64 \<times> 'c" where
  "ds_vyukhov_iterate_c hp fn ctx A =
     (case fn of
        None \<Rightarrow> (0, ctx)
      | Some f \<Rightarrow>
          if hp = NULL \<or> vy_buffer (vy_heads A hp) = NULL then (0, ctx)
          else vy_iterate_loop f hp (vy_buffer_mask (vy_heads A hp)) (vy_dequeue_pos (vy_heads A hp))
            (vy_enqueue_pos (vy_heads A hp)) 0 ctx A)"

definition ds_vyukhov_iterate :: "side \<Rightarrow> ptr \<Rightarrow> (u64 \<Rightarrow> u64 \<Rightarrow> 'c \<Rightarrow> int \<times> 'c) option \<Rightarrow> 'c \<Rightarrow> 'a vy_arena \<Rightarrow> u64 \<times> 'c" where
  "ds_vyukhov_iterate sd hp fn ctx A =
     (case sd of BPF \<Rightarrow> ds_vyukhov_iterate_lkmm hp fn ctx A | USERSPACE \<Rightarrow> ds_vyukhov_iterate_c hp fn ctx A)"

subsection \<open>The variants agree\<close>

lemma vy_init_side [ds_variant]: "ds_vyukhov_init sd = ds_vyukhov_init_lkmm"
  by (intro ext) (cases sd, simp_all add: ds_vyukhov_init_def ds_vyukhov_init_lkmm_def ds_vyukhov_init_c_def)

lemma vy_insert_side [ds_variant]: "ds_vyukhov_insert sd = ds_vyukhov_insert_lkmm"
  by (intro ext) (cases sd, simp_all add: ds_vyukhov_insert_def ds_vyukhov_insert_lkmm_def ds_vyukhov_insert_c_def)

lemma vy_pop_side [ds_variant]: "ds_vyukhov_pop sd = ds_vyukhov_pop_lkmm"
  by (intro ext) (cases sd, simp_all add: ds_vyukhov_pop_def ds_vyukhov_pop_lkmm_def ds_vyukhov_pop_c_def)

lemma vy_search_side [ds_variant]: "ds_vyukhov_search sd = ds_vyukhov_search_lkmm"
  by (intro ext) (cases sd, simp_all add: ds_vyukhov_search_def ds_vyukhov_search_lkmm_def ds_vyukhov_search_c_def)

lemma vy_verify_side [ds_variant]: "ds_vyukhov_verify sd = ds_vyukhov_verify_lkmm"
  by (intro ext) (cases sd, simp_all add: ds_vyukhov_verify_def ds_vyukhov_verify_lkmm_def ds_vyukhov_verify_c_def)

lemma vy_iterate_side [ds_variant]: "ds_vyukhov_iterate sd = ds_vyukhov_iterate_lkmm"
  by (intro ext) (cases sd, simp_all add: ds_vyukhov_iterate_def ds_vyukhov_iterate_lkmm_def ds_vyukhov_iterate_c_def)

subsection \<open>What a head represents\<close>

definition vy_cap :: "ds_vyukhov_head \<Rightarrow> nat" where
  "vy_cap h = unat (vy_buffer_mask h + 1)"

definition vy_at :: "ds_vyukhov_head \<Rightarrow> u64 \<Rightarrow> ptr" where
  "vy_at h pos = vy_cell (vy_buffer h) (pos AND vy_buffer_mask h)"

definition vy_wf :: "ds_vyukhov_head \<Rightarrow> bool" where
  "vy_wf h \<longleftrightarrow> vy_buffer h \<noteq> NULL \<and> pow2_word (vy_buffer_mask h + 1) \<and> 2 \<le> vy_cap h \<and> vy_cap h \<le> 2 ^ 32"

text \<open>
  The cell \<open>i\<close> positions after the dequeue position carries the number of that position,
  plus one when it holds element \<open>i\<close> of the queue.
\<close>

definition vy_cell_ok :: "u64 \<Rightarrow> ds_kv list \<Rightarrow> nat \<Rightarrow> ds_vyukhov_node \<Rightarrow> bool" where
  "vy_cell_ok deq xs i c \<longleftrightarrow>
     vy_sequence c = deq + of_nat i + (if i < length xs then 1 else 0) \<and>
     (i < length xs \<longrightarrow> vy_data c = xs ! i)"

definition vy_queue :: "ptr \<Rightarrow> 'a vy_arena \<Rightarrow> ds_kv list \<Rightarrow> bool" where
  "vy_queue hp A xs \<longleftrightarrow> hp \<noteq> NULL \<and>
     (let h = vy_heads A hp in
      vy_wf h \<and> length xs \<le> vy_cap h \<and>
      vy_enqueue_pos h = vy_dequeue_pos h + of_nat (length xs) \<and>
      vy_count h = of_nat (length xs) \<and>
      (\<forall>i < vy_cap h. vy_cell_ok (vy_dequeue_pos h) xs i (vy_cells A (vy_at h (vy_dequeue_pos h + of_nat i)))))"

definition vy_room :: "ptr \<Rightarrow> 'a vy_arena \<Rightarrow> bool" where
  "vy_room hp A \<longleftrightarrow>
     unat (vy_enqueue_pos (vy_heads A hp) - vy_dequeue_pos (vy_heads A hp)) < vy_cap (vy_heads A hp)"

lemma vy_queueD:
  assumes "vy_queue hp A xs"
  shows "hp \<noteq> NULL" and "vy_wf (vy_heads A hp)" and "vy_buffer (vy_heads A hp) \<noteq> NULL"
    and "length xs \<le> vy_cap (vy_heads A hp)"
    and "vy_enqueue_pos (vy_heads A hp) = vy_dequeue_pos (vy_heads A hp) + of_nat (length xs)"
    and "\<And>i. i < vy_cap (vy_heads A hp) \<Longrightarrow> vy_cell_ok (vy_dequeue_pos (vy_heads A hp)) xs i
      (vy_cells A (vy_at (vy_heads A hp) (vy_dequeue_pos (vy_heads A hp) + of_nat i)))"
  using assms by (simp_all add: vy_queue_def Let_def vy_wf_def)

lemma vy_shape_updates [simp]:
  "vy_at (vy_enqueue_pos_update f h) = vy_at h" "vy_at (vy_dequeue_pos_update f h) = vy_at h"
  "vy_at (vy_count_update f h) = vy_at h"
  "vy_cap (vy_enqueue_pos_update f h) = vy_cap h" "vy_cap (vy_dequeue_pos_update f h) = vy_cap h"
  "vy_cap (vy_count_update f h) = vy_cap h"
  "vy_wf (vy_enqueue_pos_update f h) = vy_wf h" "vy_wf (vy_dequeue_pos_update f h) = vy_wf h"
  "vy_wf (vy_count_update f h) = vy_wf h"
  by (simp_all add: vy_at_def vy_cap_def vy_wf_def fun_eq_iff)

lemma unat_of_nat_u64: "n < 2 ^ 64 \<Longrightarrow> unat (of_nat n :: u64) = n"
  by (simp add: unat_of_nat)

lemma vy_masked:
  assumes "vy_wf h" and "i \<le> vy_cap h"
  shows "unat ((p + of_nat i) AND vy_buffer_mask h) = (unat p + i) mod vy_cap h"
proof -
  have p2: "pow2_word (vy_buffer_mask h + 1)" and i: "i < 2 ^ 64" using assms by (simp_all add: vy_wf_def)
  have "unat ((p + of_nat i) AND (vy_buffer_mask h + 1 - 1)) =
      unat (p + of_nat i) mod unat (vy_buffer_mask h + 1)"
    by (rule unat_and_pow2_mask [OF p2])
  also have "\<dots> = (unat p + i) mod unat (vy_buffer_mask h + 1)"
    using unat_plus_mod_pow2 [OF p2, of p "of_nat i"] i by (simp only: unat_of_nat_u64)
  finally show ?thesis by (simp add: vy_cap_def)
qed

lemma vy_cell_inject:
  assumes "unat x < 2 ^ 32" "unat y < 2 ^ 32" and "vy_cell b x = vy_cell b y"
  shows "x = y"
proof -
  have "24 * x = 24 * y" using assms(3) by (simp add: vy_cell_def)
  then have "unat (24 * x) = unat (24 * y)" by simp
  then have "unat x = unat y" using assms(1,2) by (simp add: unat_word_ariths)
  then show ?thesis by (rule unsigned_word_eqI)
qed

lemma vy_at_inject:
  assumes w: "vy_wf h" and "i < vy_cap h" "j < vy_cap h"
  shows "vy_at h (p + of_nat i) = vy_at h (p + of_nat j) \<longleftrightarrow> i = j"
proof
  assume e: "vy_at h (p + of_nat i) = vy_at h (p + of_nat j)"
  have c: "0 < vy_cap h" "vy_cap h \<le> 2 ^ 32" using w by (simp_all add: vy_wf_def)
  have m: "unat ((p + of_nat k) AND vy_buffer_mask h) = (unat p + k) mod vy_cap h" if "k < vy_cap h" for k
    using vy_masked [OF w] that by simp
  have "(unat p + k) mod vy_cap h < 2 ^ 32" for k
    using c by (meson less_le_trans mod_less_divisor)
  then have "(p + of_nat i) AND vy_buffer_mask h = (p + of_nat j) AND vy_buffer_mask h"
    using vy_cell_inject e [unfolded vy_at_def] m assms(2,3) by metis
  then have "(unat p + i) mod vy_cap h = (unat p + j) mod vy_cap h" using m assms(2,3) by metis
  then show "i = j" using assms(2,3) by (rule mod_add_eq_window)
qed simp

lemma vy_at_lap:
  assumes "vy_wf h"
  shows "vy_at h (p + of_nat (vy_cap h)) = vy_at h p"
proof -
  have "unat ((p + of_nat (vy_cap h)) AND vy_buffer_mask h) = unat (p AND vy_buffer_mask h)"
    using vy_masked [OF assms, of "vy_cap h" p] vy_masked [OF assms, of 0 p] by simp
  then have "(p + of_nat (vy_cap h)) AND vy_buffer_mask h = p AND vy_buffer_mask h"
    by (rule unsigned_word_eqI)
  then show ?thesis by (simp add: vy_at_def)
qed

lemma vy_cap_word: "of_nat (vy_cap h) = vy_buffer_mask h + 1"
  by (simp add: vy_cap_def)

lemma vy_room_iff: "vy_queue hp A xs \<Longrightarrow> vy_room hp A \<longleftrightarrow> length xs < vy_cap (vy_heads A hp)"
proof -
  assume q: "vy_queue hp A xs"
  have "length xs < 2 ^ 64" using vy_queueD(2,4) [OF q] by (simp add: vy_wf_def)
  then show ?thesis
    using vy_queueD(5) [OF q] by (simp add: vy_room_def unat_of_nat_u64)
qed

subsection \<open>Each operation on the represented queue\<close>

lemma vy_insert_room:
  assumes q: "vy_queue hp A xs" and r: "vy_room hp A"
  shows "\<exists>A'. ds_vyukhov_insert_lkmm hp (key x) (val x) A = (DS_SUCCESS, A') \<and> vy_queue hp A' (xs @ [x])"
proof -
  let ?h = "vy_heads A hp"
  let ?n = "length xs"
  let ?a = "vy_at ?h (vy_enqueue_pos ?h)"
  define A' where "A' = vy_set_head hp
      (?h\<lparr>vy_enqueue_pos := vy_enqueue_pos ?h + 1, vy_count := vy_count ?h + 1\<rparr>)
      (vy_set_cell ?a \<lparr>vy_sequence = vy_enqueue_pos ?h + 1, vy_data = x\<rparr> A)"
  have n: "?n < vy_cap ?h" using vy_room_iff [OF q] r by simp
  have a: "?a = vy_at ?h (vy_dequeue_pos ?h + of_nat ?n)" by (simp add: vy_queueD(5) [OF q])
  then have "vy_sequence (vy_cells A ?a) = vy_enqueue_pos ?h"
    using vy_queueD(6) [OF q n] vy_queueD(5) [OF q] by (simp add: vy_cell_ok_def)
  then have "ds_vyukhov_insert_lkmm hp (key x) (val x) A = (DS_SUCCESS, A')"
    using vy_queueD(1,3) [OF q]
    by (cases "vy_cells A ?a") (simp add: ds_vyukhov_insert_lkmm_def DS_VYUKHOV_MAX_RETRIES_def
        numeral_eq_Suc A'_def Let_def vy_at_def vy_set_head_def vy_set_cell_def)
  moreover have "vy_queue hp A' (xs @ [x])"
  proof -
    have "vy_cell_ok (vy_dequeue_pos ?h) (xs @ [x]) i
        (vy_cells A' (vy_at ?h (vy_dequeue_pos ?h + of_nat i)))" if i: "i < vy_cap ?h" for i
      using vy_queueD(6) [OF q i] vy_at_inject [OF vy_queueD(2) [OF q] i n, of "vy_dequeue_pos ?h"]
      by (auto simp: A'_def a vy_cell_ok_def nth_append vy_queueD(5) [OF q])
    moreover have "vy_heads A' hp =
        ?h\<lparr>vy_enqueue_pos := vy_enqueue_pos ?h + 1, vy_count := vy_count ?h + 1\<rparr>"
      by (simp add: A'_def)
    ultimately show ?thesis using q n by (simp add: vy_queue_def Let_def add.assoc)
  qed
  ultimately show ?thesis by blast
qed

lemma vy_insert_full:
  assumes q: "vy_queue hp A xs" and r: "\<not> vy_room hp A"
  shows "ds_vyukhov_insert_lkmm hp k v A = (DS_ERROR_NOMEM, A)"
proof -
  let ?h = "vy_heads A hp"
  have w: "vy_wf ?h" using vy_queueD(2) [OF q] .
  have n: "length xs = vy_cap ?h" using vy_room_iff [OF q] r vy_queueD(4) [OF q] by simp
  have c: "2 \<le> vy_cap ?h" "vy_cap ?h \<le> 2 ^ 32" using w by (simp_all add: vy_wf_def)
  have enq: "vy_enqueue_pos ?h = vy_dequeue_pos ?h + of_nat (vy_cap ?h)" using vy_queueD(5) [OF q] n by simp
  have s: "vy_sequence (vy_cells A (vy_at ?h (vy_enqueue_pos ?h))) = vy_dequeue_pos ?h + 1"
    using vy_queueD(6) [OF q, of 0] c n by (simp add: enq vy_at_lap [OF w] vy_cell_ok_def)
  have "vy_dequeue_pos ?h + 1 - vy_enqueue_pos ?h = of_int (1 - int (vy_cap ?h))"
    by (simp add: enq)
  moreover have "sint (of_int (1 - int (vy_cap ?h)) :: u64) = 1 - int (vy_cap ?h)"
    using c by (intro sint_of_int_u64) simp_all
  ultimately have "sint (vy_dequeue_pos ?h + 1 - vy_enqueue_pos ?h) < 0" using c by (simp only:)
  then show ?thesis
    using vy_queueD(1,3) [OF q] s
    by (simp add: ds_vyukhov_insert_lkmm_def DS_VYUKHOV_MAX_RETRIES_def numeral_eq_Suc vy_at_def Let_def)
qed

lemma vy_pop_empty:
  assumes q: "vy_queue hp A []"
  shows "ds_vyukhov_pop_lkmm hp (Some d) A = (DS_ERROR_NOT_FOUND, Some d, A)"
proof -
  let ?h = "vy_heads A hp"
  have "0 < vy_cap ?h" using vy_queueD(2) [OF q] by (simp add: vy_wf_def)
  then have "vy_sequence (vy_cells A (vy_at ?h (vy_dequeue_pos ?h))) = vy_dequeue_pos ?h"
    using vy_queueD(6) [OF q, of 0] by (simp add: vy_cell_ok_def)
  then show ?thesis
    using vy_queueD(1,3) [OF q]
    by (simp add: ds_vyukhov_pop_lkmm_def DS_VYUKHOV_MAX_RETRIES_def numeral_eq_Suc vy_at_def Let_def)
qed

lemma vy_pop_front:
  assumes q: "vy_queue hp A (x # xs)"
  shows "\<exists>A'. ds_vyukhov_pop_lkmm hp (Some d) A = (DS_SUCCESS, Some x, A') \<and> vy_queue hp A' xs"
proof -
  let ?h = "vy_heads A hp"
  let ?p = "vy_dequeue_pos ?h"
  let ?c = "vy_cells A (vy_at ?h ?p)"
  define A' where "A' = vy_set_head hp (?h\<lparr>vy_dequeue_pos := ?p + 1, vy_count := vy_count ?h - 1\<rparr>)
      (vy_set_cell (vy_at ?h ?p) (?c\<lparr>vy_sequence := ?p + vy_buffer_mask ?h + 1\<rparr>) A)"
  have w: "vy_wf ?h" using vy_queueD(2) [OF q] .
  have c0: "0 < vy_cap ?h" using w by (simp add: vy_wf_def)
  have "vy_sequence ?c = ?p + 1" and x: "vy_data ?c = x"
    using vy_queueD(6) [OF q c0] by (simp_all add: vy_cell_ok_def)
  then have run: "ds_vyukhov_pop_lkmm hp (Some d) A = (DS_SUCCESS, Some x, A')"
    using vy_queueD(1,3) [OF q]
    by (simp add: ds_vyukhov_pop_lkmm_def DS_VYUKHOV_MAX_RETRIES_def
        numeral_eq_Suc A'_def Let_def vy_at_def vy_set_head_def vy_set_cell_def)
  have "vy_cell_ok (?p + 1) xs i (vy_cells A' (vy_at ?h (?p + 1 + of_nat i)))"
    if i: "i < vy_cap ?h" for i
  proof (cases "Suc i = vy_cap ?h")
    case True
    have "?p + 1 + of_nat i = ?p + of_nat (Suc i)" by simp
    then have "vy_at ?h (?p + 1 + of_nat i) = vy_at ?h ?p" by (simp only: True vy_at_lap [OF w])
    moreover have "of_nat i = vy_buffer_mask ?h" using True vy_cap_word [of ?h] by (simp flip: True)
    ultimately show ?thesis
      using vy_queueD(4) [OF q] True by (simp add: A'_def vy_cell_ok_def)
  next
    case False
    then have s: "Suc i < vy_cap ?h" using i by simp
    then show ?thesis
      using vy_queueD(6) [OF q s] vy_at_inject [OF w s c0, of ?p]
      by (simp add: A'_def vy_cell_ok_def add.assoc)
  qed
  moreover have "vy_heads A' hp = ?h\<lparr>vy_dequeue_pos := ?p + 1, vy_count := vy_count ?h - 1\<rparr>"
    by (simp add: A'_def)
  ultimately have "vy_queue hp A' xs"
    using q by (simp add: vy_queue_def Let_def add.assoc)
  with run show ?thesis by blast
qed

interpretation vy: fifo_lane
  "\<lambda>x. ds_vyukhov_insert pr hp (key x) (val x)" "ds_vyukhov_pop co hp (Some d)"
  "vy_queue hp" "vy_room hp" for pr co :: side and hp :: ptr and d :: ds_kv
proof unfold_locales
  fix A :: "'a vy_arena" and xs and x :: ds_kv
  assume "vy_queue hp A xs" "vy_room hp A"
  then show "\<exists>A'. ds_vyukhov_insert pr hp (key x) (val x) A = (DS_SUCCESS, A') \<and> vy_queue hp A' (xs @ [x])"
    unfolding ds_variant by (rule vy_insert_room)
next
  fix A :: "'a vy_arena" and xs and x :: ds_kv
  assume "vy_queue hp A xs" "\<not> vy_room hp A"
  then show "\<exists>e A'. ds_vyukhov_insert pr hp (key x) (val x) A = (e, A') \<and> e \<noteq> DS_SUCCESS \<and> vy_queue hp A' xs"
    by (simp add: ds_variant vy_insert_full)
next
  fix A :: "'a vy_arena"
  assume "vy_queue hp A []"
  then show "\<exists>out A'. ds_vyukhov_pop co hp (Some d) A = (DS_ERROR_NOT_FOUND, out, A') \<and> vy_queue hp A' []"
    by (simp add: ds_variant vy_pop_empty)
next
  fix A :: "'a vy_arena" and x xs
  assume "vy_queue hp A (x # xs)"
  then show "\<exists>A'. ds_vyukhov_pop co hp (Some d) A = (DS_SUCCESS, Some x, A') \<and> vy_queue hp A' xs"
    unfolding ds_variant by (rule vy_pop_front)
qed


text \<open>A queue of two cells at 0x2000 whose positions are about to wrap.\<close>

definition vy_demo :: "'a \<Rightarrow> 'a vy_arena" where
  "vy_demo al =
     \<lparr>vy_heads = (\<lambda>_. \<lparr>vy_enqueue_pos = - 1, vy_dequeue_pos = - 1, vy_buffer_mask = 1,
        vy_buffer = 0x2000, vy_count = 0\<rparr>),
      vy_cells = (\<lambda>_. \<lparr>vy_sequence = 0, vy_data = zero_kv\<rparr>)
        (0x2018 := \<lparr>vy_sequence = - 1, vy_data = zero_kv\<rparr>),
      vy_alloc = al\<rparr>"

lemma vy_demo_queue: "vy_queue 0x1000 (vy_demo al) []"
proof -
  have "(\<forall>i < 2. P i) \<longleftrightarrow> P 0 \<and> P 1" for P :: "nat \<Rightarrow> bool" by (auto simp: less_2_cases_iff)
  then show ?thesis
    by (simp add: vy_queue_def vy_wf_def vy_cap_def vy_demo_def pow2_word_def vy_cell_ok_def vy_at_def
        vy_cell_def)
qed


subsection \<open>Initialisation establishes the representation\<close>

lemma vy_init_loop_frame:
  "vy_heads (vy_init_loop n i b A) = vy_heads A" "vy_alloc (vy_init_loop n i b A) = vy_alloc A"
  by (induction n i b A rule: vy_init_loop.induct) (simp_all add: Let_def)

lemma ucast_u64_of_nat: "(ucast (i :: u32) :: u64) = of_nat (unat i)"
  by (metis of_nat_unat ucast_eq of_int_of_nat_eq)

lemma vy_cell_of_nat:
  assumes j: "j < 2 ^ 32" and k: "k < 2 ^ 32"
  shows "vy_cell b (of_nat j) = vy_cell b (of_nat k) \<longleftrightarrow> j = k"
proof
  assume e: "vy_cell b (of_nat j) = vy_cell b (of_nat k)"
  have u: "unat (of_nat n :: u64) = n" if "n < 2 ^ 32" for n using that by (simp add: unat_of_nat)
  have "unat (of_nat n :: u64) < 2 ^ 32" if "n < 2 ^ 32" for n using that by (simp only: u)
  then have "(of_nat j :: u64) = of_nat k" using vy_cell_inject [OF _ _ e] j k by blast
  then show "j = k" using u [OF j] u [OF k] by metis
qed simp

lemma vy_init_loop_cells:
  "unat i + n < 2 ^ 32 \<Longrightarrow> j < unat i + n \<Longrightarrow>
   vy_sequence (vy_cells (vy_init_loop n i b A) (vy_cell b (of_nat j))) =
     (if unat i \<le> j then of_nat j else vy_sequence (vy_cells A (vy_cell b (of_nat j))))"
proof (induction n i b A rule: vy_init_loop.induct)
  case (1 i b A)
  then show ?case by simp
next
  case (2 n i b A)
  let ?A = "vy_set_cell (vy_cell b (ucast i)) ((vy_cells A (vy_cell b (ucast i)))\<lparr>vy_sequence := ucast i\<rparr>) A"
  have i1: "unat (i + 1) = Suc (unat i)" using 2(2) by (simp add: unat_plus_u32)
  have "j < 2 ^ 32" "unat i < 2 ^ 32" using 2(2,3) by linarith+
  then have inj: "vy_cell b (of_nat j) = vy_cell b (ucast i) \<longleftrightarrow> j = unat i"
    unfolding ucast_u64_of_nat by (rule vy_cell_of_nat)
  have "vy_sequence (vy_cells (vy_init_loop n (i + 1) b ?A) (vy_cell b (of_nat j))) =
      (if unat (i + 1) \<le> j then of_nat j else vy_sequence (vy_cells ?A (vy_cell b (of_nat j))))"
    using 2(1) [OF refl] 2(2,3) by (simp add: i1)
  then show ?case
    using inj by (auto simp: Let_def i1)
qed

lemma pow2_word_ucast:
  assumes "pow2_word (c :: u32)"
  shows "pow2_word (ucast c :: u64)" and "(ucast (c - 1) :: u64) + 1 = ucast c"
proof -
  have c: "c \<noteq> 0" using assms by (simp add: pow2_word_def)
  have u: "unat (ucast x :: u64) = unat x" for x :: u32
    by (simp add: unsigned_ucast_eq take_bit_nat_eq_self_iff less_trans [OF unsigned_less])
  have "unat (c - 1) + 1 = unat c" using c by (simp add: unat_pred unat_gt_0)
  moreover have "unat c < 2 ^ 32" using unsigned_less [of c, where 'a = nat] by simp
  ultimately have "unat ((ucast (c - 1) :: u64) + 1) = unat (ucast c :: u64)"
    using unat_plus_u64 [of "ucast (c - 1)" 1] by (simp add: u)
  then show s: "(ucast (c - 1) :: u64) + 1 = ucast c" by (rule unsigned_word_eqI)
  have "(ucast c :: u64) AND ucast (c - 1) = ucast (c AND (c - 1))" by (simp add: unsigned_and_eq)
  moreover have "(ucast c :: u64) - 1 = ucast (c - 1)" using s by (metis add_diff_cancel_right')
  moreover have "(ucast c :: u64) \<noteq> 0" using c u [of c] by (metis unat_eq_0)
  ultimately show "pow2_word (ucast c :: u64)" using assms by (simp add: pow2_word_def)
qed

lemma vy_fresh_queue:
  assumes "hp \<noteq> NULL" "2 \<le> c" "pow2_word (c :: u32)" and h: "vy_heads A hp = h"
    and f: "vy_buffer_mask h = ucast (c - 1)" "vy_enqueue_pos h = 0" "vy_dequeue_pos h = 0" "vy_count h = 0"
      "vy_buffer h \<noteq> NULL"
  shows "vy_queue hp (vy_init_loop (unat c) 0 (vy_buffer h) A) []"
proof -
  obtain k where k: "k < 32" "unat c = 2 ^ k" using pow2_word_unat [OF assms(3)] by auto
  have "(2::nat) ^ k < 2 ^ 32" using k(1) by (intro power_strict_increasing) simp_all
  then have c: "unat c < 2 ^ 32" "2 \<le> unat c" using k assms(2) by (simp_all add: word_le_nat_alt)
  have cap: "vy_cap h = unat c"
    by (simp add: vy_cap_def f pow2_word_ucast(2) [OF assms(3)] unsigned_ucast_eq
        take_bit_nat_eq_self_iff less_trans [OF c(1)])
  have w: "vy_wf h" using f(5) c by (simp add: vy_wf_def cap f(1) pow2_word_ucast [OF assms(3)])
  have "vy_sequence (vy_cells (vy_init_loop (unat c) 0 (vy_buffer h) A) (vy_at h (of_nat i))) = of_nat i"
    if i: "i < unat c" for i
  proof -
    have "unat ((of_nat i :: u64) AND vy_buffer_mask h) = i" using vy_masked [OF w, of i 0] i by (simp add: cap)
    moreover have "unat (of_nat i :: u64) = i" using i c(1) by (simp add: unat_of_nat)
    ultimately have "(of_nat i :: u64) AND vy_buffer_mask h = of_nat i" by (simp only: word_unat_eq_iff)
    then show ?thesis using vy_init_loop_cells [of 0 "unat c" i "vy_buffer h" A] i c by (simp add: vy_at_def)
  qed
  then show ?thesis
    using assms(1) w by (simp add: vy_queue_def Let_def vy_init_loop_frame h f cap vy_cell_ok_def)
qed

text \<open>
  Initialisation: a NULL head or a capacity that is not a power of two of at least
  two is refused and nothing changes; when the allocation fails the head is left with a
  NULL buffer, which makes every later operation return an error; otherwise the
  sequence numbers describe the empty queue.
\<close>

theorem vy_init_branches:
  assumes i: "ds_vyukhov_init sd alloc hp c A = (r, A')"
    and a: "alloc (vy_bytes c) (vy_alloc A) = (p, al)"
  shows "(if hp = NULL \<or> c < 2 \<or> \<not> pow2_word c then r = DS_ERROR_INVALID \<and> A' = A
     else if p = NULL then r = DS_ERROR_NOMEM \<and> vy_buffer (vy_heads A' hp) = NULL \<and> vy_alloc A' = al \<and>
       vy_cells A' = vy_cells A
     else r = DS_SUCCESS \<and> vy_queue hp A' [] \<and> vy_cap (vy_heads A' hp) = unat c \<and>
       vy_buffer (vy_heads A' hp) = p \<and> vy_alloc A' = al)"
proof (cases "hp = NULL \<or> c < 2 \<or> \<not> pow2_word c \<or> p = NULL")
  case True
  moreover have "\<not> c < 2 \<Longrightarrow> c \<noteq> 0" by auto
  ultimately show ?thesis
    using i a by (auto simp: ds_variant ds_vyukhov_init_lkmm_def Let_def pow2_word_def split: if_splits)
next
  case False
  define A1 where "A1 = vy_set_head hp ((vy_heads A hp)\<lparr>vy_buffer_mask := ucast (c - 1), vy_enqueue_pos := 0,
      vy_dequeue_pos := 0, vy_count := 0, vy_buffer := p\<rparr>) (A\<lparr>vy_alloc := al\<rparr>)"
  have A': "r = DS_SUCCESS" "A' = vy_init_loop (unat c) 0 p A1"
    using i a False
    by (auto simp: ds_variant ds_vyukhov_init_lkmm_def Let_def pow2_word_def A1_def vy_set_head_def split: if_splits)
  have "vy_queue hp A' []"
    using vy_fresh_queue [of hp c A1 "vy_heads A1 hp"] False by (simp add: A' A1_def not_less)
  moreover have "vy_cap (vy_heads A' hp) = unat c"
    using False pow2_word_ucast(2) [of c]
    by (simp add: A' A1_def vy_cap_def vy_init_loop_frame unsigned_ucast_eq take_bit_nat_eq_self_iff
        less_trans [OF unsigned_less])
  ultimately show ?thesis using False by (simp add: A') (simp add: A1_def vy_init_loop_frame)
qed

theorem vy_init_branches_witness:
  "\<exists>A'. ds_vyukhov_init BPF (\<lambda>n k. (0x2000, k + n)) 0x1000 64 (vy_demo 0) = (DS_SUCCESS, A') \<and>
     vy_queue 0x1000 A' [] \<and> vy_cap (vy_heads A' 0x1000) = 64"
proof -
  obtain r A' where i: "ds_vyukhov_init BPF (\<lambda>n k. (0x2000, k + n)) 0x1000 64 (vy_demo 0) = (r, A')"
    by fastforce
  from vy_init_branches [OF i refl] i show ?thesis by (simp add: pow2_word_def)
qed

subsection \<open>Search, iteration and the verifier on the represented queue\<close>

text \<open>Positions between the dequeue and the enqueue position, when these did not wrap.\<close>

lemma vy_positions:
  assumes q: "vy_queue hp A xs" and o: "vy_dequeue_pos (vy_heads A hp) \<le> vy_enqueue_pos (vy_heads A hp)"
    and i: "i \<le> length xs"
  shows "vy_dequeue_pos (vy_heads A hp) + of_nat i < vy_enqueue_pos (vy_heads A hp) \<longleftrightarrow> i < length xs"
proof -
  let ?d = "vy_dequeue_pos (vy_heads A hp)"
  have n: "length xs < 2 ^ 64" using vy_queueD(2,4) [OF q] by (simp add: vy_wf_def)
  have e: "vy_enqueue_pos (vy_heads A hp) = ?d + of_nat (length xs)" by (rule vy_queueD(5) [OF q])
  have "unat ?d + length xs < 2 ^ 64"
  proof (rule ccontr)
    assume "\<not> unat ?d + length xs < 2 ^ 64"
    moreover have "unat ?d < 2 ^ 64" using unsigned_less [of ?d, where 'a = nat] by simp
    ultimately have "(unat ?d + length xs) mod 2 ^ 64 < unat ?d" using n by (auto simp: mod_if)
    then have "unat (?d + of_nat (length xs)) < unat ?d"
      using n by (simp add: unat_word_ariths unat_of_nat)
    then show False using o by (simp add: e word_le_nat_alt)
  qed
  then have "unat (?d + of_nat j) = unat ?d + j" if "j \<le> length xs" for j
    using that n by (subst unat_plus_u64) (simp_all add: unat_of_nat)
  then show ?thesis using i by (simp add: e word_less_nat_alt)
qed

lemma vy_element:
  assumes q: "vy_queue hp A xs" and i: "i < length xs"
  shows "vy_data (vy_cells A (vy_cell (vy_buffer (vy_heads A hp))
    ((vy_dequeue_pos (vy_heads A hp) + of_nat i) AND vy_buffer_mask (vy_heads A hp)))) = xs ! i"
  using vy_queueD(6) [OF q, of i] i vy_queueD(4) [OF q] by (simp add: vy_cell_ok_def vy_at_def)

lemma vy_search_loop_drop:
  assumes q: "vy_queue hp A xs" and o: "vy_dequeue_pos (vy_heads A hp) \<le> vy_enqueue_pos (vy_heads A hp)"
  shows "i \<le> length xs \<Longrightarrow>
    vy_search_loop hp k (vy_buffer_mask (vy_heads A hp)) (vy_dequeue_pos (vy_heads A hp) + of_nat i)
      (vy_enqueue_pos (vy_heads A hp)) A =
    (if k \<in> key ` set (drop i xs) then DS_SUCCESS else DS_ERROR_NOT_FOUND)"
proof (induction "length xs - i" arbitrary: i)
  case 0
  then show ?case using vy_positions [OF q o, of i] by (simp add: vy_search_loop.simps)
next
  case (Suc m)
  then have i: "i < length xs" by simp
  have "vy_search_loop hp k (vy_buffer_mask (vy_heads A hp)) (vy_dequeue_pos (vy_heads A hp) + of_nat (Suc i))
      (vy_enqueue_pos (vy_heads A hp)) A =
    (if k \<in> key ` set (drop (Suc i) xs) then DS_SUCCESS else DS_ERROR_NOT_FOUND)"
    using Suc.hyps(1) [of "Suc i"] Suc.hyps(2) i by simp
  then show ?case
    using vy_positions [OF q o, of i] vy_element [OF q i] i
    by (simp add: vy_search_loop.simps [of hp k _ "vy_dequeue_pos (vy_heads A hp) + of_nat i"] Let_def
        Cons_nth_drop_Suc [symmetric] add.assoc add.commute [of 1])
qed

lemma vy_iterate_loop_drop:
  assumes q: "vy_queue hp A xs" and o: "vy_dequeue_pos (vy_heads A hp) \<le> vy_enqueue_pos (vy_heads A hp)"
  shows "i \<le> length xs \<Longrightarrow>
    vy_iterate_loop f hp (vy_buffer_mask (vy_heads A hp)) (vy_dequeue_pos (vy_heads A hp) + of_nat i)
      (vy_enqueue_pos (vy_heads A hp)) n c A = iterate_list f (drop i xs) n c"
proof (induction "length xs - i" arbitrary: i n c)
  case 0
  then show ?case using vy_positions [OF q o, of i] by (simp add: vy_iterate_loop.simps)
next
  case (Suc m)
  then have i: "i < length xs" by simp
  have "vy_iterate_loop f hp (vy_buffer_mask (vy_heads A hp)) (vy_dequeue_pos (vy_heads A hp) + of_nat (Suc i))
      (vy_enqueue_pos (vy_heads A hp)) n' c' A = iterate_list f (drop (Suc i) xs) n' c'" for n' c'
    using Suc.hyps(1) [of "Suc i"] Suc.hyps(2) i by simp
  then show ?case
    using vy_positions [OF q o, of i] vy_element [OF q i] i
    by (simp add: vy_iterate_loop.simps [of f hp _ "vy_dequeue_pos (vy_heads A hp) + of_nat i"] Let_def
        Cons_nth_drop_Suc [symmetric] add.assoc add.commute [of 1] split: prod.split)
qed

text \<open>
  Reading the queue: while the positions have not wrapped, search finds a key
  exactly when some queued element has it, iteration visits the queued elements in
  order (up to the first for which the callback asks to stop) and counts them, and the
  verifier accepts the queue.
\<close>

theorem vy_readers:
  assumes q: "vy_queue hp A xs" and o: "vy_dequeue_pos (vy_heads A hp) \<le> vy_enqueue_pos (vy_heads A hp)"
  shows "(ds_vyukhov_search sd hp k A = DS_SUCCESS \<longleftrightarrow> k \<in> key ` set xs) \<and>
    ds_vyukhov_iterate sd hp (Some f) c A = iterate_list f xs 0 c \<and>
    ds_vyukhov_verify sd hp A = DS_SUCCESS"
proof -
  have "ds_vyukhov_search sd hp k A = DS_SUCCESS \<longleftrightarrow> k \<in> key ` set xs"
    using vy_search_loop_drop [OF q o, of 0 k] vy_queueD(1,3) [OF q]
    by (simp add: ds_variant ds_vyukhov_search_lkmm_def)
  moreover have "ds_vyukhov_iterate sd hp (Some f) c A = iterate_list f xs 0 c"
    using vy_iterate_loop_drop [OF q o, of 0 f 0 c] vy_queueD(1,3) [OF q]
    by (simp add: ds_variant ds_vyukhov_iterate_lkmm_def)
  moreover have "(of_nat (length xs) :: u64) \<le> vy_buffer_mask (vy_heads A hp) + 1"
  proof -
    have "length xs < 2 ^ 64" using vy_queueD(2,4) [OF q] by (simp add: vy_wf_def)
    then show ?thesis using vy_queueD(4) [OF q] by (simp add: word_le_nat_alt unat_of_nat vy_cap_def)
  qed
  then have "ds_vyukhov_verify sd hp A = DS_SUCCESS"
    using q o vy_queueD(1,3) [OF q]
    by (simp add: ds_variant ds_vyukhov_verify_lkmm_def Let_def vy_queue_def not_less)
  ultimately show ?thesis by blast
qed

theorem vy_readers_witness:
  "ds_vyukhov_search BPF 0x1000 7 (vy_demo ()) = DS_ERROR_NOT_FOUND \<and>
   ds_vyukhov_verify USERSPACE 0x1000 (vy_demo ()) = DS_SUCCESS"
proof -
  have "ds_vyukhov_search BPF 0x1000 7 (vy_demo ()) \<in> {DS_SUCCESS, DS_ERROR_NOT_FOUND}"
    by (simp add: ds_variant ds_vyukhov_search_lkmm_def vy_search_loop.simps vy_demo_def)
  then show ?thesis
    using vy_readers [OF vy_demo_queue, of "()" BPF 7 "\<lambda>k v (c :: nat). (0, c)" 0]
      vy_readers [OF vy_demo_queue, of "()" USERSPACE 7 "\<lambda>k v (c :: nat). (0, c)" 0]
    by (simp add: vy_demo_def)
qed



lemma vy_set_head_same [simp]: "vy_set_head hp (vy_heads A hp) A = A"
  by (simp add: vy_set_head_def)

end
