(* ===== verification/Kcov.thy ===== *)
theory Kcov
  imports LaneContracts ArenaAlloc
begin

text \<open>
  The kcov-style flat buffer of \<^verbatim>\<open>include/ds_kcov.h\<close>: word 0 of the area counts the
  entries, entry \<open>n\<close> occupies the two words after the entries before it.  Insert appends
  and writes the counter before the data, pop takes the newest entry.
\<close>

subsection \<open>State\<close>

definition KCOV_WORDS_PER_ENTRY :: u64 where "KCOV_WORDS_PER_ENTRY = 2"

record ds_kcov_buf =
  kc_size :: u64
  kc_area :: ptr

record 'a kc_arena =
  kc_heads :: "ptr \<Rightarrow> ds_kcov_buf"
  kc_words :: "ptr \<Rightarrow> u64"
  kc_alloc :: 'a

text \<open>\<^verbatim>\<open>&area[i]\<close> for 8-byte words, and \<^verbatim>\<open>(__u32)(size * sizeof(__u64))\<close>.\<close>

definition kc_word :: "ptr \<Rightarrow> u64 \<Rightarrow> ptr" where
  "kc_word area i = area + 8 * i"

definition kc_bytes :: "u64 \<Rightarrow> u32" where
  "kc_bytes sz = ucast (sz * 8)"

definition kc_set_word :: "ptr \<Rightarrow> u64 \<Rightarrow> 'a kc_arena \<Rightarrow> 'a kc_arena" where
  "kc_set_word a w A = A\<lparr>kc_words := (kc_words A)(a := w)\<rparr>"

lemma kc_set_word_acc [simp]:
  "kc_heads (kc_set_word a w A) = kc_heads A" "kc_alloc (kc_set_word a w A) = kc_alloc A"
  "kc_words (kc_set_word a w A) = (kc_words A)(a := w)"
  by (simp_all add: kc_set_word_def)

subsection \<open>Initialisation\<close>

definition ds_kcov_init_lkmm ::
  "'a allocator \<Rightarrow> ptr \<Rightarrow> u64 \<Rightarrow> 'a kc_arena \<Rightarrow> int \<times> 'a kc_arena" where
  "ds_kcov_init_lkmm bpf_arena_alloc hp sz A =
     (if sz < 1 + KCOV_WORDS_PER_ENTRY then (DS_ERROR_INVALID, A)
      else
        let (area, al) = bpf_arena_alloc (kc_bytes sz) (kc_alloc A);
            A = A\<lparr>kc_alloc := al\<rparr> in
        if area = NULL then (DS_ERROR_NOMEM, A)
        else
          let A = kc_set_word (kc_word area 0) 0 A;
              h = (kc_heads A hp)\<lparr>kc_area := area\<rparr>;
              h = h\<lparr>kc_size := sz\<rparr> in
          (DS_SUCCESS, A\<lparr>kc_heads := (kc_heads A)(hp := h)\<rparr>))"

definition ds_kcov_init_c ::
  "'a allocator \<Rightarrow> ptr \<Rightarrow> u64 \<Rightarrow> 'a kc_arena \<Rightarrow> int \<times> 'a kc_arena" where
  "ds_kcov_init_c bpf_arena_alloc hp sz A =
     (if sz < 1 + KCOV_WORDS_PER_ENTRY then (DS_ERROR_INVALID, A)
      else
        let (area, al) = bpf_arena_alloc (kc_bytes sz) (kc_alloc A);
            A = A\<lparr>kc_alloc := al\<rparr> in
        if area = NULL then (DS_ERROR_NOMEM, A)
        else
          let A = kc_set_word (kc_word area 0) 0 A;
              h = (kc_heads A hp)\<lparr>kc_area := area\<rparr>;
              h = h\<lparr>kc_size := sz\<rparr> in
          (DS_SUCCESS, A\<lparr>kc_heads := (kc_heads A)(hp := h)\<rparr>))"

definition ds_kcov_init :: "side \<Rightarrow> 'a allocator \<Rightarrow> ptr \<Rightarrow> u64 \<Rightarrow> 'a kc_arena \<Rightarrow> int \<times> 'a kc_arena" where
  "ds_kcov_init sd bpf_arena_alloc hp sz A =
     (case sd of BPF \<Rightarrow> ds_kcov_init_lkmm bpf_arena_alloc hp sz A | USERSPACE \<Rightarrow> ds_kcov_init_c bpf_arena_alloc hp sz A)"

subsection \<open>Append\<close>

definition ds_kcov_insert_lkmm ::
  "ptr \<Rightarrow> u64 \<Rightarrow> u64 \<Rightarrow> 'a kc_arena \<Rightarrow> int \<times> 'a kc_arena" where
  "ds_kcov_insert_lkmm hp k v A =
     (let area = kc_area (kc_heads A hp) in
      if area = NULL then (DS_ERROR_INVALID, A)
      else
        let cnt = kc_words A (kc_word area 0) + 1;
            start_index = 1 + (cnt - 1) * KCOV_WORDS_PER_ENTRY;
            end_index = start_index + KCOV_WORDS_PER_ENTRY in
        if end_index > kc_size (kc_heads A hp) then (DS_ERROR_FULL, A)
        else
          let A = kc_set_word (kc_word area 0) cnt A;
              A = kc_set_word (kc_word area start_index) k A;
              A = kc_set_word (kc_word area (start_index + 1)) v A in
          (DS_SUCCESS, A))"

definition ds_kcov_insert_c ::
  "ptr \<Rightarrow> u64 \<Rightarrow> u64 \<Rightarrow> 'a kc_arena \<Rightarrow> int \<times> 'a kc_arena" where
  "ds_kcov_insert_c hp k v A =
     (let area = kc_area (kc_heads A hp) in
      if area = NULL then (DS_ERROR_INVALID, A)
      else
        let cnt = kc_words A (kc_word area 0) + 1;
            start_index = 1 + (cnt - 1) * KCOV_WORDS_PER_ENTRY;
            end_index = start_index + KCOV_WORDS_PER_ENTRY in
        if end_index > kc_size (kc_heads A hp) then (DS_ERROR_FULL, A)
        else
          let A = kc_set_word (kc_word area 0) cnt A;
              A = kc_set_word (kc_word area start_index) k A;
              A = kc_set_word (kc_word area (start_index + 1)) v A in
          (DS_SUCCESS, A))"

definition ds_kcov_insert :: "side \<Rightarrow> ptr \<Rightarrow> u64 \<Rightarrow> u64 \<Rightarrow> 'a kc_arena \<Rightarrow> int \<times> 'a kc_arena" where
  "ds_kcov_insert sd hp k v A =
     (case sd of BPF \<Rightarrow> ds_kcov_insert_lkmm hp k v A | USERSPACE \<Rightarrow> ds_kcov_insert_c hp k v A)"

text \<open>
  The two halves of an append, split where the source puts its compiler barrier: the
  check and the counter write, and the data writes for the count that was claimed.
\<close>

definition kcov_claim :: "ptr \<Rightarrow> 'a kc_arena \<Rightarrow> (int + u64) \<times> 'a kc_arena" where
  "kcov_claim hp A =
     (let area = kc_area (kc_heads A hp) in
      if area = NULL then (Inl DS_ERROR_INVALID, A)
      else
        let cnt = kc_words A (kc_word area 0) + 1;
            start_index = 1 + (cnt - 1) * KCOV_WORDS_PER_ENTRY;
            end_index = start_index + KCOV_WORDS_PER_ENTRY in
        if end_index > kc_size (kc_heads A hp) then (Inl DS_ERROR_FULL, A)
        else (Inr start_index, kc_set_word (kc_word area 0) cnt A))"

definition kcov_fill :: "ptr \<Rightarrow> u64 \<Rightarrow> u64 \<Rightarrow> u64 \<Rightarrow> 'a kc_arena \<Rightarrow> 'a kc_arena" where
  "kcov_fill hp start_index k v A =
     (let area = kc_area (kc_heads A hp);
          A = kc_set_word (kc_word area start_index) k A in
      kc_set_word (kc_word area (start_index + 1)) v A)"

lemma kcov_insert_split:
  "ds_kcov_insert_lkmm hp k v A =
     (case kcov_claim hp A of
        (Inl e, A1) \<Rightarrow> (e, A1)
      | (Inr start_index, A1) \<Rightarrow> (DS_SUCCESS, kcov_fill hp start_index k v A1))"
  by (simp add: ds_kcov_insert_lkmm_def kcov_claim_def kcov_fill_def Let_def)

subsection \<open>Removal of the newest entry\<close>

definition ds_kcov_pop_lkmm ::
  "ptr \<Rightarrow> ds_kv option \<Rightarrow> 'a kc_arena \<Rightarrow> int \<times> ds_kv option \<times> 'a kc_arena" where
  "ds_kcov_pop_lkmm hp out A =
     (let area = kc_area (kc_heads A hp) in
      if area = NULL then (DS_ERROR_INVALID, out, A)
      else
        let cnt = kc_words A (kc_word area 0) in
        if cnt = 0 then (DS_ERROR_NOT_FOUND, out, A)
        else
          let start_index = 1 + (cnt - 1) * KCOV_WORDS_PER_ENTRY;
              out = map_option (\<lambda>d. d\<lparr>key := kc_words A (kc_word area start_index),
                      val := kc_words A (kc_word area (start_index + 1))\<rparr>) out in
          (DS_SUCCESS, out, kc_set_word (kc_word area 0) (cnt - 1) A))"

definition ds_kcov_pop_c ::
  "ptr \<Rightarrow> ds_kv option \<Rightarrow> 'a kc_arena \<Rightarrow> int \<times> ds_kv option \<times> 'a kc_arena" where
  "ds_kcov_pop_c hp out A =
     (let area = kc_area (kc_heads A hp) in
      if area = NULL then (DS_ERROR_INVALID, out, A)
      else
        let cnt = kc_words A (kc_word area 0) in
        if cnt = 0 then (DS_ERROR_NOT_FOUND, out, A)
        else
          let start_index = 1 + (cnt - 1) * KCOV_WORDS_PER_ENTRY;
              out = map_option (\<lambda>d. d\<lparr>key := kc_words A (kc_word area start_index),
                      val := kc_words A (kc_word area (start_index + 1))\<rparr>) out in
          (DS_SUCCESS, out, kc_set_word (kc_word area 0) (cnt - 1) A))"

definition ds_kcov_pop :: "side \<Rightarrow> ptr \<Rightarrow> ds_kv option \<Rightarrow> 'a kc_arena \<Rightarrow> int \<times> ds_kv option \<times> 'a kc_arena" where
  "ds_kcov_pop sd hp out A =
     (case sd of BPF \<Rightarrow> ds_kcov_pop_lkmm hp out A | USERSPACE \<Rightarrow> ds_kcov_pop_c hp out A)"

subsection \<open>Search and the verifier\<close>

definition ds_kcov_search_lkmm :: "ptr \<Rightarrow> u64 \<Rightarrow> 'a kc_arena \<Rightarrow> int" where
  "ds_kcov_search_lkmm hp k A = DS_ERROR_INVALID"

definition ds_kcov_search_c :: "ptr \<Rightarrow> u64 \<Rightarrow> 'a kc_arena \<Rightarrow> int" where
  "ds_kcov_search_c hp k A = DS_ERROR_INVALID"

definition ds_kcov_search :: "side \<Rightarrow> ptr \<Rightarrow> u64 \<Rightarrow> 'a kc_arena \<Rightarrow> int" where
  "ds_kcov_search sd hp k A =
     (case sd of BPF \<Rightarrow> ds_kcov_search_lkmm hp k A | USERSPACE \<Rightarrow> ds_kcov_search_c hp k A)"

definition ds_kcov_verify_lkmm :: "ptr \<Rightarrow> 'a kc_arena \<Rightarrow> int" where
  "ds_kcov_verify_lkmm hp A =
     (let area = kc_area (kc_heads A hp) in
      if area = NULL then DS_ERROR_INVALID
      else
        let cnt = kc_words A (kc_word area 0) in
        if kc_size (kc_heads A hp) < 1 then DS_ERROR_CORRUPT
        else
          let max_entries = (kc_size (kc_heads A hp) - 1) div KCOV_WORDS_PER_ENTRY in
          if cnt > max_entries then DS_ERROR_CORRUPT else DS_SUCCESS)"

definition ds_kcov_verify_c :: "ptr \<Rightarrow> 'a kc_arena \<Rightarrow> int" where
  "ds_kcov_verify_c hp A =
     (let area = kc_area (kc_heads A hp) in
      if area = NULL then DS_ERROR_INVALID
      else
        let cnt = kc_words A (kc_word area 0) in
        if kc_size (kc_heads A hp) < 1 then DS_ERROR_CORRUPT
        else
          let max_entries = (kc_size (kc_heads A hp) - 1) div KCOV_WORDS_PER_ENTRY in
          if cnt > max_entries then DS_ERROR_CORRUPT else DS_SUCCESS)"

definition ds_kcov_verify :: "side \<Rightarrow> ptr \<Rightarrow> 'a kc_arena \<Rightarrow> int" where
  "ds_kcov_verify sd hp A =
     (case sd of BPF \<Rightarrow> ds_kcov_verify_lkmm hp A | USERSPACE \<Rightarrow> ds_kcov_verify_c hp A)"

subsection \<open>The variants agree\<close>

lemma kc_init_side [ds_variant]: "ds_kcov_init sd = ds_kcov_init_lkmm"
  by (intro ext) (cases sd, simp_all add: ds_kcov_init_def ds_kcov_init_lkmm_def ds_kcov_init_c_def)

lemma kc_insert_side [ds_variant]: "ds_kcov_insert sd = ds_kcov_insert_lkmm"
  by (intro ext) (cases sd, simp_all add: ds_kcov_insert_def ds_kcov_insert_lkmm_def ds_kcov_insert_c_def)

lemma kc_pop_side [ds_variant]: "ds_kcov_pop sd = ds_kcov_pop_lkmm"
  by (intro ext) (cases sd, simp_all add: ds_kcov_pop_def ds_kcov_pop_lkmm_def ds_kcov_pop_c_def)

lemma kc_verify_side [ds_variant]: "ds_kcov_verify sd = ds_kcov_verify_lkmm"
  by (intro ext) (cases sd, simp_all add: ds_kcov_verify_def ds_kcov_verify_lkmm_def ds_kcov_verify_c_def)

subsection \<open>What a buffer represents\<close>

text \<open>Entry \<open>j\<close> (from 0, oldest first) and the list of all entries, newest first.\<close>

definition kc_entry :: "(ptr \<Rightarrow> u64) \<Rightarrow> ptr \<Rightarrow> nat \<Rightarrow> ds_kv" where
  "kc_entry m area j = \<lparr>key = m (kc_word area (of_nat (1 + 2 * j))), val = m (kc_word area (of_nat (2 + 2 * j)))\<rparr>"

definition kc_list :: "(ptr \<Rightarrow> u64) \<Rightarrow> ptr \<Rightarrow> nat \<Rightarrow> ds_kv list" where
  "kc_list m area n = rev (map (kc_entry m area) [0..<n])"

definition kc_stack :: "ptr \<Rightarrow> 'a kc_arena \<Rightarrow> ds_kv list \<Rightarrow> bool" where
  "kc_stack hp A xs \<longleftrightarrow>
     (let h = kc_heads A hp; n = unat (kc_words A (kc_word (kc_area h) 0)) in
      kc_area h \<noteq> NULL \<and> 3 \<le> unat (kc_size h) \<and> unat (kc_size h) < 2 ^ 61 \<and>
      1 + 2 * n \<le> unat (kc_size h) \<and> xs = kc_list (kc_words A) (kc_area h) n)"

definition kc_room :: "ptr \<Rightarrow> 'a kc_arena \<Rightarrow> bool" where
  "kc_room hp A \<longleftrightarrow>
     (let h = kc_heads A hp in
      3 + 2 * unat (kc_words A (kc_word (kc_area h) 0)) \<le> unat (kc_size h))"

lemma length_kc_list [simp]: "length (kc_list m area n) = n"
  by (simp add: kc_list_def)

lemma kc_list_Suc: "kc_list m area (Suc n) = kc_entry m area n # kc_list m area n"
  by (simp add: kc_list_def)

lemma kc_word_inject:
  assumes "i < 2 ^ 61" "j < 2 ^ 61"
  shows "kc_word area (of_nat i) = kc_word area (of_nat j) \<longleftrightarrow> i = j"
proof
  assume "kc_word area (of_nat i) = kc_word area (of_nat j)"
  then have "unat (8 * of_nat i :: u64) = unat (8 * of_nat j :: u64)" by (simp add: kc_word_def)
  then show "i = j" using assms by (simp add: unat_word_ariths unat_of_nat)
qed simp

lemma kc_count_word:
  "2 + 2 * j < 2 ^ 61 \<Longrightarrow>
   kc_word area 0 \<noteq> kc_word area (of_nat (1 + 2 * j)) \<and> kc_word area 0 \<noteq> kc_word area (of_nat (2 + 2 * j))"
  using kc_word_inject [of 0 "1 + 2 * j" area] kc_word_inject [of 0 "2 + 2 * j" area] by simp

lemma kc_list_cong:
  "(\<And>j. j < n \<Longrightarrow> kc_entry m area j = kc_entry m' area j) \<Longrightarrow> kc_list m area n = kc_list m' area n"
  by (simp add: kc_list_def)

lemma kc_entry_other:
  assumes "2 + 2 * j < 2 ^ 61" and "i < 2 ^ 61" and "i \<noteq> 1 + 2 * j" "i \<noteq> 2 + 2 * j"
  shows "kc_entry (m(kc_word area (of_nat i) := w)) area j = kc_entry m area j"
  using assms kc_word_inject [of "1 + 2 * j" i area] kc_word_inject [of "2 + 2 * j" i area]
  by (simp add: kc_entry_def del: of_nat_add of_nat_mult)

text \<open>The word index computed from the counter.\<close>

lemma kc_start_index: "1 + (c :: u64) * KCOV_WORDS_PER_ENTRY = of_nat (1 + 2 * unat c)"
  by (simp add: KCOV_WORDS_PER_ENTRY_def mult.commute)

lemma kc_end_index:
  assumes "unat (c :: u64) < 2 ^ 61"
  shows "unat (1 + c * KCOV_WORDS_PER_ENTRY + KCOV_WORDS_PER_ENTRY) = 3 + 2 * unat c"
proof -
  have "1 + c * KCOV_WORDS_PER_ENTRY + KCOV_WORDS_PER_ENTRY = of_nat (3 + 2 * unat c)"
    by (simp add: KCOV_WORDS_PER_ENTRY_def mult.commute)
  then show ?thesis using assms by (simp only: unat_of_nat) simp
qed

lemma kc_stackD:
  assumes "kc_stack hp A xs"
  shows "kc_area (kc_heads A hp) \<noteq> NULL" and "unat (kc_size (kc_heads A hp)) < 2 ^ 61"
    and "kc_words A (kc_word (kc_area (kc_heads A hp)) 0) = of_nat (length xs)"
    and "unat (kc_words A (kc_word (kc_area (kc_heads A hp)) 0)) = length xs"
    and "1 + 2 * length xs \<le> unat (kc_size (kc_heads A hp))"
    and "xs = kc_list (kc_words A) (kc_area (kc_heads A hp)) (length xs)"
    and "3 \<le> unat (kc_size (kc_heads A hp))"
  using assms by (auto simp: kc_stack_def Let_def)

lemma kc_stackI:
  assumes "kc_area (kc_heads A hp) \<noteq> NULL" and "3 \<le> unat (kc_size (kc_heads A hp))"
    and "unat (kc_size (kc_heads A hp)) < 2 ^ 61"
    and "kc_words A (kc_word (kc_area (kc_heads A hp)) 0) = of_nat (length xs)"
    and "1 + 2 * length xs \<le> unat (kc_size (kc_heads A hp))"
    and "xs = kc_list (kc_words A) (kc_area (kc_heads A hp)) (length xs)"
  shows "kc_stack hp A xs"
proof -
  have "length xs < 2 ^ 64" using assms(3,5) by simp
  then have "unat (kc_words A (kc_word (kc_area (kc_heads A hp)) 0)) = length xs"
    by (simp add: assms(4) unat_of_nat)
  then show ?thesis using assms by (simp add: kc_stack_def Let_def)
qed

lemma kc_room_iff: "kc_stack hp A xs \<Longrightarrow> kc_room hp A \<longleftrightarrow> 3 + 2 * length xs \<le> unat (kc_size (kc_heads A hp))"
  by (simp only: kc_room_def Let_def kc_stackD(4))

text \<open>Storing a new count leaves the entries alone.\<close>

lemma kc_set_count:
  assumes q: "kc_stack hp A xs" and n: "1 + 2 * n \<le> unat (kc_size (kc_heads A hp))"
  shows "kc_stack hp (kc_set_word (kc_word (kc_area (kc_heads A hp)) 0) (of_nat n) A)
    (kc_list (kc_words A) (kc_area (kc_heads A hp)) n)"
proof -
  let ?area = "kc_area (kc_heads A hp)"
  have "kc_entry ((kc_words A)(kc_word ?area 0 := of_nat n)) ?area j = kc_entry (kc_words A) ?area j"
    if "j < n" for j
    using kc_entry_other [of j 0 "kc_words A" ?area "of_nat n"] that n kc_stackD(2) [OF q] by simp
  then show ?thesis
    using kc_stackD(1,2,7) [OF q] n by (intro kc_stackI) (simp_all add: kc_list_def)
qed

lemma kc_claim_room:
  assumes q: "kc_stack hp A xs" and r: "kc_room hp A"
  shows "\<exists>g A1. kcov_claim hp A = (Inr (of_nat (1 + 2 * length xs)), A1) \<and>
    kc_stack hp A1 (g # xs) \<and> kc_heads A1 = kc_heads A"
proof -
  let ?area = "kc_area (kc_heads A hp)"
  let ?c = "kc_words A (kc_word ?area 0)"
  note c = kc_stackD(3) [OF q] and u = kc_stackD(4) [OF q]
  have le: "3 + 2 * length xs \<le> unat (kc_size (kc_heads A hp))" using r by (simp add: kc_room_iff [OF q])
  then have "unat ?c < 2 ^ 61" using kc_stackD(2) [OF q] by (simp only: u)
  from kc_end_index [OF this] le
  have "\<not> 1 + ?c * KCOV_WORDS_PER_ENTRY + KCOV_WORDS_PER_ENTRY > kc_size (kc_heads A hp)"
    by (simp add: word_less_nat_alt u)
  then have "kcov_claim hp A = (Inr (of_nat (1 + 2 * length xs)),
      kc_set_word (kc_word ?area 0) (of_nat (Suc (length xs))) A)"
    using kc_stackD(1) [OF q] kc_start_index [of ?c] c
    by (simp add: kcov_claim_def Let_def u add.commute)
  moreover have "kc_list (kc_words A) ?area (Suc (length xs)) =
      kc_entry (kc_words A) ?area (length xs) # xs"
    using kc_stackD(6) [OF q] by (simp add: kc_list_Suc)
  ultimately show ?thesis using kc_set_count [OF q, of "Suc (length xs)"] le by fastforce
qed

lemma kc_claim_full:
  assumes q: "kc_stack hp A xs" and r: "\<not> kc_room hp A"
  shows "kcov_claim hp A = (Inl DS_ERROR_FULL, A)"
proof -
  let ?c = "kc_words A (kc_word (kc_area (kc_heads A hp)) 0)"
  have "unat ?c < 2 ^ 61" using kc_stackD(2,5) [OF q] by (simp only: kc_stackD(4) [OF q])
  from kc_end_index [OF this] r
  have "1 + ?c * KCOV_WORDS_PER_ENTRY + KCOV_WORDS_PER_ENTRY > kc_size (kc_heads A hp)"
    by (simp add: word_less_nat_alt kc_room_iff [OF q] kc_stackD(4) [OF q])
  then show ?thesis using kc_stackD(1) [OF q] by (simp add: kcov_claim_def Let_def)
qed

text \<open>The data writes replace the entry that was claimed, wherever it is by then.\<close>

lemma kc_fill:
  assumes q: "kc_stack hp A (zs @ g # xs)"
  shows "kc_stack hp (kcov_fill hp (of_nat (1 + 2 * length xs)) (key x) (val x) A) (zs @ x # xs)"
proof -
  let ?area = "kc_area (kc_heads A hp)"
  let ?j = "length xs" and ?n = "length zs + Suc (length xs)"
  let ?m = "(kc_words A)(kc_word ?area (of_nat (1 + 2 * ?j)) := key x,
    kc_word ?area (of_nat (2 + 2 * ?j)) := val x)"
  have sz: "1 + 2 * ?n < 2 ^ 61" using kc_stackD(2,5) [OF q] by simp
  have fill: "kcov_fill hp (of_nat (1 + 2 * ?j)) (key x) (val x) A = A\<lparr>kc_words := ?m\<rparr>"
    by (simp add: kcov_fill_def Let_def kc_set_word_def add.commute)
  have "kc_entry ?m ?area i = kc_entry (kc_words A) ?area i" if "i < ?n" "i \<noteq> ?j" for i
  proof -
    have b: "2 + 2 * i < 2 ^ 61" "1 + 2 * ?j < 2 ^ 61" "2 + 2 * ?j < 2 ^ 61" using sz that(1) by simp_all
    have "1 + 2 * ?j \<noteq> 1 + 2 * i" "1 + 2 * ?j \<noteq> 2 + 2 * i" "2 + 2 * ?j \<noteq> 1 + 2 * i" "2 + 2 * ?j \<noteq> 2 + 2 * i"
      using that(2) by presburger+
    then show ?thesis by (simp only: kc_entry_other [OF b(1,2)] kc_entry_other [OF b(1,3)] simp_thms)
  qed
  moreover have "kc_entry ?m ?area ?j = x"
    using kc_word_inject [of "1 + 2 * ?j" "2 + 2 * ?j" ?area] sz
    by (simp add: kc_entry_def del: of_nat_add of_nat_mult)
  ultimately have "map (kc_entry ?m ?area) [0..<?n] = (map (kc_entry (kc_words A) ?area) [0..<?n])[?j := x]"
    by (intro nth_equalityI) (auto simp: nth_list_update simp del: upt_Suc)
  moreover have "map (kc_entry (kc_words A) ?area) [0..<?n] = rev xs @ g # rev zs"
    using arg_cong [OF kc_stackD(6) [OF q], of rev] by (simp add: kc_list_def del: upt_Suc)
  ultimately have l: "zs @ x # xs = kc_list ?m ?area ?n"
    by (simp add: kc_list_def list_update_append del: upt_Suc)
  have "kc_word ?area 0 \<noteq> kc_word ?area (of_nat (1 + 2 * ?j))"
    "kc_word ?area 0 \<noteq> kc_word ?area (of_nat (2 + 2 * ?j))"
    using kc_count_word [of ?j ?area] sz by simp_all
  then show ?thesis
    unfolding fill using kc_stackD(1,2,3,5,7) [OF q] l by (intro kc_stackI) simp_all
qed

text \<open>Data written above the count is not part of the buffer.\<close>

lemma kc_fill_above:
  assumes q: "kc_stack hp A xs" and r: "kc_room hp A"
  shows "kc_stack hp (kcov_fill hp (of_nat (1 + 2 * length xs)) k v A) xs"
proof -
  let ?area = "kc_area (kc_heads A hp)"
  let ?j = "length xs"
  let ?m = "(kc_words A)(kc_word ?area (of_nat (1 + 2 * ?j)) := k, kc_word ?area (of_nat (2 + 2 * ?j)) := v)"
  have sz: "2 + 2 * ?j < 2 ^ 61" using r kc_stackD(2) [OF q] by (simp add: kc_room_iff [OF q])
  have fill: "kcov_fill hp (of_nat (1 + 2 * ?j)) k v A = A\<lparr>kc_words := ?m\<rparr>"
    by (simp add: kcov_fill_def Let_def kc_set_word_def add.commute)
  have "kc_entry ?m ?area i = kc_entry (kc_words A) ?area i" if "i < ?j" for i
  proof -
    have b: "2 + 2 * i < 2 ^ 61" "1 + 2 * ?j < 2 ^ 61" using sz that by simp_all
    have "1 + 2 * ?j \<noteq> 1 + 2 * i" "1 + 2 * ?j \<noteq> 2 + 2 * i" "2 + 2 * ?j \<noteq> 1 + 2 * i" "2 + 2 * ?j \<noteq> 2 + 2 * i"
      using that by presburger+
    then show ?thesis by (simp only: kc_entry_other [OF b(1,2)] kc_entry_other [OF b(1) sz] simp_thms)
  qed
  then have l: "xs = kc_list ?m ?area ?j" using kc_stackD(6) [OF q] kc_list_cong by metis
  have "kc_word ?area 0 \<noteq> kc_word ?area (of_nat (1 + 2 * ?j))"
    "kc_word ?area 0 \<noteq> kc_word ?area (of_nat (2 + 2 * ?j))"
    using kc_count_word [of ?j ?area] sz by simp_all
  then show ?thesis
    unfolding fill using kc_stackD(1,2,3,5,7) [OF q] l by (intro kc_stackI) simp_all
qed

lemma kc_pop_top:
  assumes q: "kc_stack hp A (x # xs)"
  shows "\<exists>A'. ds_kcov_pop_lkmm hp d A = (DS_SUCCESS, map_option (\<lambda>_. x) d, A') \<and> kc_stack hp A' xs \<and>
    kc_heads A' = kc_heads A"
proof -
  let ?area = "kc_area (kc_heads A hp)"
  let ?c = "kc_words A (kc_word ?area 0)"
  have c: "?c - 1 = of_nat (length xs)" "?c \<noteq> 0"
    using kc_stackD(3) [OF q] kc_stackD(4) [OF q] by auto
  have e: "x = kc_entry (kc_words A) ?area (length xs)" "xs = kc_list (kc_words A) ?area (length xs)"
    using kc_stackD(6) [OF q] by (simp_all add: kc_list_Suc)
  have "1 + (?c - 1) * KCOV_WORDS_PER_ENTRY = of_nat (1 + 2 * length xs)"
    by (simp add: c(1) KCOV_WORDS_PER_ENTRY_def mult.commute)
  then have "ds_kcov_pop_lkmm hp d A =
      (DS_SUCCESS, map_option (\<lambda>_. x) d, kc_set_word (kc_word ?area 0) (of_nat (length xs)) A)"
    using kc_stackD(1) [OF q] c
    by (simp add: ds_kcov_pop_lkmm_def Let_def e(1) kc_entry_def add.commute kv_set_both)
  moreover have "kc_stack hp (kc_set_word (kc_word ?area 0) (of_nat (length xs)) A) xs"
    using kc_set_count [OF q, of "length xs"] kc_stackD(5) [OF q] e(2) by simp
  ultimately show ?thesis by simp
qed

lemma kc_insert_room:
  assumes "kc_stack hp A xs" and "kc_room hp A"
  shows "\<exists>A'. ds_kcov_insert_lkmm hp (key x) (val x) A = (DS_SUCCESS, A') \<and> kc_stack hp A' (x # xs)"
  using kc_claim_room [OF assms] kc_fill [of hp _ "[]" _ xs x] by (fastforce simp: kcov_insert_split)

lemma kc_insert_full:
  "kc_stack hp A xs \<Longrightarrow> \<not> kc_room hp A \<Longrightarrow> ds_kcov_insert_lkmm hp k v A = (DS_ERROR_FULL, A)"
  by (simp add: kcov_insert_split kc_claim_full)

lemma kc_pop_empty:
  "kc_stack hp A [] \<Longrightarrow> ds_kcov_pop_lkmm hp d A = (DS_ERROR_NOT_FOUND, d, A)"
  using kc_stackD(1,3) [of hp A "[]"] by (simp add: ds_kcov_pop_lkmm_def Let_def)

interpretation kc: lifo_lane
  "\<lambda>x. ds_kcov_insert pr hp (key x) (val x)" "ds_kcov_pop co hp (Some d)"
  "kc_stack hp" "kc_room hp" for pr co :: side and hp :: ptr and d :: ds_kv
proof unfold_locales
  fix A :: "'a kc_arena" and xs and x :: ds_kv
  assume "kc_stack hp A xs" "kc_room hp A"
  then show "\<exists>A'. ds_kcov_insert pr hp (key x) (val x) A = (DS_SUCCESS, A') \<and> kc_stack hp A' (x # xs)"
    unfolding ds_variant by (rule kc_insert_room)
next
  fix A :: "'a kc_arena" and xs and x :: ds_kv
  assume "kc_stack hp A xs" "\<not> kc_room hp A"
  then show "\<exists>e A'. ds_kcov_insert pr hp (key x) (val x) A = (e, A') \<and> e \<noteq> DS_SUCCESS \<and> kc_stack hp A' xs"
    by (simp add: ds_variant kc_insert_full)
next
  fix A :: "'a kc_arena"
  assume "kc_stack hp A []"
  then show "\<exists>out A'. ds_kcov_pop co hp (Some d) A = (DS_ERROR_NOT_FOUND, out, A') \<and> kc_stack hp A' []"
    by (simp add: ds_variant kc_pop_empty)
next
  fix A :: "'a kc_arena" and x xs
  assume "kc_stack hp A (x # xs)"
  from kc_pop_top [OF this, of "Some d"]
  show "\<exists>A'. ds_kcov_pop co hp (Some d) A = (DS_SUCCESS, Some x, A') \<and> kc_stack hp A' xs"
    unfolding ds_variant by auto
qed

text \<open>
  The flat buffer is a stack: replaying the reported events of any sequence of
  inserts and pops on an abstract stack never finds a pop that delivered something else
  than the newest entry, and ends with what the buffer then holds.
\<close>

theorem kc_run_lifo:
  assumes "kc_stack hp A xs"
    and "lane_run (\<lambda>x. ds_kcov_insert pr hp (key x) (val x)) (ds_kcov_pop co hp (Some d)) ops A = (evs, A')"
  shows "\<exists>ys. stack_replay xs evs = Some ys \<and> kc_stack hp A' ys"
  using assms by (rule kc.run_stack_replay)

text \<open>An empty buffer of five words (two entries) at 0x2000.\<close>

definition kc_demo :: "'a \<Rightarrow> 'a kc_arena" where
  "kc_demo al =
     \<lparr>kc_heads = (\<lambda>_. \<lparr>kc_size = 5, kc_area = 0x2000\<rparr>), kc_words = (\<lambda>_. 0), kc_alloc = al\<rparr>"

lemma kc_demo_stack: "kc_stack 0x1000 (kc_demo al) []"
  by (simp add: kc_stack_def kc_demo_def kc_list_def)

theorem kc_run_lifo_witness:
  "\<exists>evs A'. lane_run (\<lambda>x. ds_kcov_insert BPF 0x1000 (key x) (val x))
       (ds_kcov_pop USERSPACE 0x1000 (Some zero_kv))
       [LInsert \<lparr>key = 1, val = 10\<rparr>, LInsert \<lparr>key = 2, val = 20\<rparr>, LInsert \<lparr>key = 3, val = 30\<rparr>, LPop]
       (kc_demo ()) = (evs, A') \<and>
     kc_stack 0x1000 A' [\<lparr>key = 1, val = 10\<rparr>] \<and> delivered evs = [\<lparr>key = 2, val = 20\<rparr>]"
proof -
  let ?run = "lane_run (\<lambda>x. ds_kcov_insert BPF 0x1000 (key x) (val x))
       (ds_kcov_pop USERSPACE 0x1000 (Some zero_kv))
       [LInsert \<lparr>key = 1, val = 10\<rparr>, LInsert \<lparr>key = 2, val = 20\<rparr>, LInsert \<lparr>key = 3, val = 30\<rparr>, LPop]
       (kc_demo ())"
  obtain evs A' where run: "?run = (evs, A')" by fastforce
  have "stack_replay [] (fst ?run) = Some [\<lparr>key = 1, val = 10\<rparr>] \<and>
    delivered (fst ?run) = [\<lparr>key = 2, val = 20\<rparr>]"
    by code_simp
  then have "stack_replay [] evs = Some [\<lparr>key = 1, val = 10\<rparr>]"
    "delivered evs = [\<lparr>key = 2, val = 20\<rparr>]" by (simp_all only: run fst_conv)
  with kc_run_lifo [OF kc_demo_stack run] run show ?thesis by fastforce
qed

subsection \<open>Interrupted appends\<close>

lemma stack_replay_inserts:
  "lane_run ins pop (map LInsert ys) s = (evs, s') \<Longrightarrow> stack_replay xs evs = Some (rev (accepted evs) @ xs)"
proof (induction ys arbitrary: s evs xs)
  case (Cons y ys)
  obtain r s1 where i: "ins y s = (r, s1)" by fastforce
  obtain evs1 where "lane_run ins pop (map LInsert ys) s1 = (evs1, s')" "evs = EvIns y r # evs1"
    using Cons.prems i by (auto split: prod.splits)
  with Cons.IH show ?case by simp
qed simp

text \<open>
  C32.  Counter-first appends are re-entrant: when an append that has claimed its slot is
  interrupted by any number of complete appends before it writes its data, the buffer
  afterwards holds every accepted entry once, the interrupted one below those of the
  interrupts.
\<close>

theorem kcov_insert_reentrant:
  assumes q: "kc_stack hp A xs" and c: "kcov_claim hp A = (Inr start, A1)"
    and run: "lane_run (\<lambda>x. ds_kcov_insert sd hp (key x) (val x)) (ds_kcov_pop sd hp (Some d))
      (map LInsert ys) A1 = (evs, A2)"
  shows "kc_stack hp (kcov_fill hp start (key x) (val x) A2) (rev (accepted evs) @ x # xs)"
proof -
  have "kc_room hp A" using kc_claim_full [OF q] c by (cases "kc_room hp A") auto
  then obtain g where g: "start = of_nat (1 + 2 * length xs)" "kc_stack hp A1 (g # xs)"
    using kc_claim_room [OF q] c by auto
  obtain zs where "stack_replay (g # xs) evs = Some zs" "kc_stack hp A2 zs"
    using kc.run_stack_replay [OF g(2) run] by blast
  moreover have "stack_replay (g # xs) evs = Some (rev (accepted evs) @ g # xs)"
    using run by (rule stack_replay_inserts)
  ultimately have "kc_stack hp A2 (rev (accepted evs) @ g # xs)" by simp
  then show ?thesis unfolding g(1) by (rule kc_fill)
qed

theorem kcov_insert_reentrant_witness:
  "\<exists>start A1 A2 evs. kcov_claim 0x1000 (kc_demo ()) = (Inr start, A1) \<and>
     lane_run (\<lambda>x. ds_kcov_insert BPF 0x1000 (key x) (val x)) (ds_kcov_pop BPF 0x1000 (Some zero_kv))
       (map LInsert [\<lparr>key = 7, val = 70\<rparr>]) A1 = (evs, A2) \<and>
     kc_stack 0x1000 (kcov_fill 0x1000 start 8 80 A2) (rev (accepted evs) @ [\<lparr>key = 8, val = 80\<rparr>])"
proof -
  obtain g A1 where c: "kcov_claim 0x1000 (kc_demo ()) = (Inr (of_nat (1 + 2 * length ([] :: ds_kv list))), A1)"
    using kc_claim_room [OF kc_demo_stack, of "()"] by (auto simp: kc_room_def kc_demo_def)
  obtain evs A2 where r: "lane_run (\<lambda>x. ds_kcov_insert BPF 0x1000 (key x) (val x))
      (ds_kcov_pop BPF 0x1000 (Some zero_kv)) (map LInsert [\<lparr>key = 7, val = 70\<rparr>]) A1 = (evs, A2)"
    by fastforce
  from kcov_insert_reentrant [OF kc_demo_stack c r, of "\<lparr>key = 8, val = 80\<rparr>"] c r
  show ?thesis by auto
qed

text \<open>
  C33.  A consumer is not covered by that argument: a pop that runs between the two
  halves of an append delivers whatever the two words held before as if it were the new
  entry, and the appended entry is then lost although the append reports success.
\<close>

theorem kcov_pop_tears_insert:
  assumes q: "kc_stack hp A xs" and c: "kcov_claim hp A = (Inr start, A1)"
    and p: "ds_kcov_pop sd hp (Some d) A1 = (r, out, A2)"
  shows "r = DS_SUCCESS \<and>
    out = Some (kc_entry (kc_words A) (kc_area (kc_heads A hp)) (length xs)) \<and>
    kc_stack hp (kcov_fill hp start k v A2) xs"
proof -
  let ?area = "kc_area (kc_heads A hp)"
  have room: "kc_room hp A" using kc_claim_full [OF q] c by (cases "kc_room hp A") auto
  then obtain g where g: "start = of_nat (1 + 2 * length xs)" "kc_stack hp A1 (g # xs)"
    and h: "kc_heads A1 = kc_heads A" using kc_claim_room [OF q] c by auto
  have "kc_words A1 = (kc_words A)(kc_word ?area 0 := of_nat (Suc (length xs)))"
    using c kc_stackD(3) [OF q] by (auto simp: kcov_claim_def Let_def add.commute split: if_splits)
  moreover have sz: "2 + 2 * length xs < 2 ^ 61"
    using room kc_stackD(2) [OF q] by (simp add: kc_room_iff [OF q])
  ultimately have "kc_entry (kc_words A1) ?area (length xs) = kc_entry (kc_words A) ?area (length xs)"
    using kc_entry_other [OF sz, of 0] by simp
  moreover have "g = kc_entry (kc_words A1) ?area (length xs)"
    using kc_stackD(6) [OF g(2)] by (simp add: kc_list_Suc h)
  ultimately have ro: "r = DS_SUCCESS" "out = Some (kc_entry (kc_words A) ?area (length xs))"
    and s2: "kc_stack hp A2 xs" "kc_heads A2 = kc_heads A"
    using kc_pop_top [OF g(2), of "Some d"] p h by (auto simp: ds_variant)
  have room2: "kc_room hp A2" using room kc_room_iff [OF q] kc_room_iff [OF s2(1)] s2(2) by simp
  have "kc_stack hp (kcov_fill hp start k v A2) xs"
    unfolding g(1) using kc_fill_above [OF s2(1)] room2 by simp
  with ro show ?thesis by blast
qed

theorem kcov_pop_tears_insert_witness:
  "\<exists>start A1 A2. kcov_claim 0x1000 (kc_demo ()) = (Inr start, A1) \<and>
     ds_kcov_pop USERSPACE 0x1000 (Some \<lparr>key = 9, val = 9\<rparr>) A1 = (DS_SUCCESS, Some \<lparr>key = 0, val = 0\<rparr>, A2) \<and>
     kc_stack 0x1000 (kcov_fill 0x1000 start 8 80 A2) []"
proof -
  obtain g A1 where c: "kcov_claim 0x1000 (kc_demo ()) = (Inr (of_nat (1 + 2 * length ([] :: ds_kv list))), A1)"
    using kc_claim_room [OF kc_demo_stack, of "()"] by (auto simp: kc_room_def kc_demo_def)
  obtain r out A2 where p: "ds_kcov_pop USERSPACE 0x1000 (Some \<lparr>key = 9, val = 9\<rparr>) A1 = (r, out, A2)"
    by (metis surj_pair)
  from kcov_pop_tears_insert [OF kc_demo_stack c p, of 8 80] c p
  show ?thesis by (auto simp: kc_entry_def kc_demo_def)
qed

subsection \<open>Initialisation and the verifier\<close>

text \<open>
  Initialisation: fewer than three words are refused and nothing changes, an
  allocation failure is reported and neither buffers nor words change; otherwise (sizes
  below \<open>2 ^ 61\<close> words) the buffer is empty over the allocated area.
\<close>

theorem kc_init_branches:
  assumes i: "ds_kcov_init sd alloc hp sz A = (r, A')" and a: "alloc (kc_bytes sz) (kc_alloc A) = (p, al)"
    and s: "unat sz < 2 ^ 61"
  shows "(if unat sz < 3 then r = DS_ERROR_INVALID \<and> A' = A
     else if p = NULL then r = DS_ERROR_NOMEM \<and> A' = A\<lparr>kc_alloc := al\<rparr>
     else r = DS_SUCCESS \<and> kc_stack hp A' [] \<and> kc_size (kc_heads A' hp) = sz \<and>
       kc_area (kc_heads A' hp) = p \<and> kc_alloc A' = al)"
proof -
  have lt: "sz < 1 + KCOV_WORDS_PER_ENTRY \<longleftrightarrow> unat sz < 3"
    by (simp add: KCOV_WORDS_PER_ENTRY_def word_less_nat_alt)
  show ?thesis
  proof (cases "unat sz < 3 \<or> p = NULL")
    case True
    then show ?thesis using i a lt by (auto simp: ds_variant ds_kcov_init_lkmm_def Let_def split: if_splits)
  next
    case False
    then have "r = DS_SUCCESS" "kc_heads A' hp = \<lparr>kc_size = sz, kc_area = p\<rparr>" "kc_alloc A' = al"
      "kc_words A' (kc_word p 0) = 0"
      using i a lt by (cases "kc_heads A hp"; auto simp: ds_variant ds_kcov_init_lkmm_def Let_def)+
    then show ?thesis using False s by (simp add: kc_stack_def kc_list_def)
  qed
qed

theorem kc_init_branches_witness:
  "\<exists>A'. ds_kcov_init BPF (\<lambda>n k. (0x2000, k + n)) 0x1000 509 (kc_demo 0) = (DS_SUCCESS, A') \<and>
     kc_stack 0x1000 A' []"
proof -
  obtain r A' where i: "ds_kcov_init BPF (\<lambda>n k. (0x2000, k + n)) 0x1000 509 (kc_demo 0) = (r, A')" by fastforce
  from kc_init_branches [OF i refl] i show ?thesis by simp
qed

text \<open>
  For a buffer of at least one entry (and fewer than \<open>2 ^ 61\<close> words) the verifier
  is exact: it accepts the buffer precisely when the area exists and the counter fits, in
  which case the buffer represents a stack.
\<close>

theorem kc_verify_exact:
  assumes "3 \<le> unat (kc_size (kc_heads A hp))" and "unat (kc_size (kc_heads A hp)) < 2 ^ 61"
  shows "ds_kcov_verify sd hp A = DS_SUCCESS \<longleftrightarrow> (\<exists>xs. kc_stack hp A xs)"
proof -
  let ?s = "kc_size (kc_heads A hp)"
  let ?c = "kc_words A (kc_word (kc_area (kc_heads A hp)) 0)"
  have "?s \<noteq> 0" using assms(1) by auto
  then have "unat ((?s - 1) div KCOV_WORDS_PER_ENTRY) = (unat ?s - 1) div 2"
    by (simp add: unat_div KCOV_WORDS_PER_ENTRY_def unat_pred)
  then have "?c > (?s - 1) div KCOV_WORDS_PER_ENTRY \<longleftrightarrow> \<not> 1 + 2 * unat ?c \<le> unat ?s"
    using assms(1) by (simp only: word_less_nat_alt) linarith
  moreover have "\<not> ?s < 1" using assms(1) by (auto simp: word_less_nat_alt)
  ultimately show ?thesis
    using assms by (auto simp: ds_variant ds_kcov_verify_lkmm_def Let_def kc_stack_def)
qed

theorem kc_verify_exact_witness: "ds_kcov_verify BPF 0x1000 (kc_demo ()) = DS_SUCCESS"
  using kc_verify_exact [of "kc_demo ()" "0x1000" BPF] kc_demo_stack [of "()"] by (auto simp: kc_demo_def)

end
