(* ===== verification/NodeHeap.thy ===== *)
theory NodeHeap
  imports LaneContracts ArenaAlloc
begin

text \<open>
  Linked nodes in arena memory, shared by the stack and the two linked queues: the
  segment of addresses reached by following a next-pointer function, and Floyd's
  tortoise-and-hare argument for the verifier of the stack.
\<close>

subsection \<open>Segments\<close>

text \<open>
  \<open>seg nx p as q\<close>: from \<open>p\<close> the next pointers run through the addresses \<open>as\<close>, none of
  them NULL, and then reach \<open>q\<close>.
\<close>

fun seg :: "(ptr \<Rightarrow> ptr) \<Rightarrow> ptr \<Rightarrow> ptr list \<Rightarrow> ptr \<Rightarrow> bool" where
  "seg nx p [] q \<longleftrightarrow> p = q"
| "seg nx p (a # as) q \<longleftrightarrow> p = a \<and> a \<noteq> NULL \<and> seg nx (nx a) as q"

lemma seg_append: "seg nx p (as @ bs) q \<longleftrightarrow> (\<exists>r. seg nx p as r \<and> seg nx r bs q)"
  by (induction as arbitrary: p) auto

lemma seg_snoc: "seg nx p (as @ [a]) q \<longleftrightarrow> seg nx p as a \<and> a \<noteq> NULL \<and> nx a = q"
  by (auto simp: seg_append)

lemma seg_cong: "(\<And>a. a \<in> set as \<Longrightarrow> nx' a = nx a) \<Longrightarrow> seg nx' p as q = seg nx p as q"
  by (induction as arbitrary: p) auto

lemma seg_fun_upd [simp]: "a \<notin> set as \<Longrightarrow> seg (nx(a := v)) p as q = seg nx p as q"
  by (rule seg_cong) auto

lemma seg_comp_upd [simp]: "a \<notin> set as \<Longrightarrow> seg (f \<circ> h(a := v)) p as q = seg (f \<circ> h) p as q"
  by (rule seg_cong) auto

lemma map_comp_upd [simp]: "a \<notin> set as \<Longrightarrow> map (f \<circ> h(a := v)) as = map (f \<circ> h) as"
  by auto

lemma seg_not_null: "seg nx p as q \<Longrightarrow> NULL \<notin> set as"
  by (induction as arbitrary: p) auto

lemma seg_NULL_head: "seg nx NULL as NULL \<longleftrightarrow> as = []"
  by (cases as) auto

lemma seg_nonNULL_head: "p \<noteq> NULL \<Longrightarrow> seg nx p as NULL \<Longrightarrow> \<exists>bs. as = p # bs \<and> seg nx (nx p) bs NULL"
  by (cases as) auto

lemma seg_unique: "seg nx p as NULL \<Longrightarrow> seg nx p bs NULL \<Longrightarrow> as = bs"
proof (induction as arbitrary: p bs)
  case Nil
  then show ?case by (simp add: seg_NULL_head)
next
  case (Cons a as)
  then show ?case by (cases bs) auto
qed

lemma seg_distinct: "seg nx p as NULL \<Longrightarrow> distinct as"
proof (induction as arbitrary: p)
  case Nil
  then show ?case by simp
next
  case (Cons a as)
  have "a \<notin> set as"
  proof
    assume "a \<in> set as"
    then obtain us vs where as: "as = us @ a # vs" by (auto dest: split_list)
    then have "seg nx a (a # vs) NULL" using Cons.prems by (auto simp: seg_append)
    moreover have "seg nx a (a # as) NULL" using Cons.prems by auto
    ultimately show False using seg_unique as by fastforce
  qed
  then show ?case using Cons by auto
qed

text \<open>Linking a node behind the last one.\<close>

lemma seg_link:
  assumes s: "seg nx p as NULL" and as: "as \<noteq> []" and q: "q \<noteq> NULL" "q \<notin> set as" "nx q = NULL"
  shows "seg (nx(last as := q)) p (as @ [q]) NULL"
proof -
  obtain bs z where z: "as = bs @ [z]" using as by (cases as rule: rev_cases) auto
  then have "z \<notin> set bs" using seg_distinct [OF s] by simp
  then show ?thesis using s q z by (auto simp: seg_append)
qed

text \<open>Places in a segment.\<close>

lemma seg_nth:
  assumes "seg nx p as NULL" and "k < length as"
  shows "nx (as ! k) = (if Suc k < length as then as ! Suc k else NULL)"
  using assms
proof (induction as arbitrary: p k)
  case (Cons a as)
  then show ?case by (cases k; cases as) auto
qed simp

lemma seg_last_place:
  assumes "seg nx p as NULL" and "k < length as" and "nx (as ! k) = NULL"
  shows "length as = Suc k"
proof (rule ccontr)
  assume "length as \<noteq> Suc k"
  then have "Suc k < length as" using assms(2) by simp
  then show False using seg_nth [OF assms(1,2)] assms(3) seg_not_null [OF assms(1)] nth_mem by force
qed

lemma seg_drop:
  assumes "seg nx p as NULL" and "k < length as"
  shows "seg nx (as ! k) (drop k as) NULL"
  using assms
proof (induction as arbitrary: p k)
  case (Cons a as)
  then show ?case by (cases k) auto
qed simp

lemma seg_iterate: "seg nx p as q \<Longrightarrow> (nx ^^ length as) p = q"
  by (induction as arbitrary: p) (auto simp: funpow_swap1)

lemma seg_of_iterate:
  "(\<And>i. i < n \<Longrightarrow> (nx ^^ i) p \<noteq> NULL) \<Longrightarrow> (nx ^^ n) p = q \<Longrightarrow>
   seg nx p (map (\<lambda>i. (nx ^^ i) p) [0..<n]) q"
  by (induction n arbitrary: q) (auto simp: seg_snoc)

subsection \<open>Cycles\<close>

lemma funpow_funpow: "(f ^^ m) ((f ^^ n) x) = (f ^^ (m + n)) x"
  by (simp add: funpow_add)

text \<open>On 64-bit addresses a chain that never reaches NULL meets itself at double speed.\<close>

lemma chain_meets:
  fixes f :: "ptr \<Rightarrow> ptr"
  shows "\<exists>i > 0. (f ^^ i) p = (f ^^ (2 * i)) p"
proof -
  have "\<not> inj (\<lambda>i :: nat. (f ^^ i) p)"
    using finite_imageD [of "\<lambda>i :: nat. (f ^^ i) p" UNIV] finite [of "range (\<lambda>i :: nat. (f ^^ i) p)"] by auto
  then obtain m n where mn: "m < n" "(f ^^ m) p = (f ^^ n) p"
    by (auto simp: inj_def) (metis linorder_neqE_nat)
  let ?c = "n - m"
  have period: "(f ^^ (k + ?c)) p = (f ^^ k) p" if "m \<le> k" for k
  proof -
    have "(f ^^ (k + ?c)) p = (f ^^ (k - m)) ((f ^^ n) p)"
      using mn(1) that by (simp add: funpow_funpow)
    also have "\<dots> = (f ^^ k) p" using that by (simp add: funpow_funpow flip: mn(2))
    finally show ?thesis .
  qed
  have periods: "(f ^^ (k + j * ?c)) p = (f ^^ k) p" if "m \<le> k" for k j
  proof (induction j)
    case (Suc j)
    have "k + Suc j * ?c = (k + j * ?c) + ?c" by simp
    then show ?case using period [of "k + j * ?c"] that Suc by (simp only:)
  qed simp
  let ?i = "Suc m * ?c"
  have "Suc m * 1 \<le> ?i" by (rule mult_le_mono2) (use mn(1) in simp)
  then have "m < ?i" by (rule less_le_trans [rotated]) simp
  then have "m \<le> ?i" "0 < ?i" by (simp_all only: less_imp_le)
  moreover have "(f ^^ (2 * ?i)) p = (f ^^ ?i) p"
    using periods [of ?i "Suc m"] \<open>m \<le> ?i\<close> by (simp only: mult_2)
  ultimately show ?thesis by metis
qed

lemma chain_meets_never_null:
  fixes f :: "ptr \<Rightarrow> ptr"
  assumes meet: "0 < i" "(f ^^ i) p = (f ^^ (2 * i)) p" and nn: "\<forall>j \<le> 2 * i. (f ^^ j) p \<noteq> NULL"
  shows "(f ^^ k) p \<noteq> NULL"
proof (induction k rule: less_induct)
  case (less k)
  show ?case
  proof (cases "k \<le> 2 * i")
    case True
    with nn show ?thesis by blast
  next
    case False
    then have "(f ^^ k) p = (f ^^ (k - 2 * i)) ((f ^^ (2 * i)) p)" by (simp add: funpow_funpow)
    also have "\<dots> = (f ^^ (k - i)) p" using False by (simp add: funpow_funpow flip: meet(2))
    finally show ?thesis using less [of "k - i"] False meet(1) by simp
  qed
qed

end
