(* ===== verification/CkStackUpmc.thy ===== *)
theory CkStackUpmc
  imports NodeHeap
begin

text \<open>
  The Treiber stack of \<^verbatim>\<open>include/ds_ck_stack_upmc.h\<close> (after Concurrency Kit): push
  and pop exchange the head pointer in a retry loop, insert allocates an entry and pushes
  it, pop copies the data out and leaves the entry allocated.

  \<^verbatim>\<open>can_loop\<close> is a budget: the argument \<open>budget\<close> says how many times it is true.  The
  loops are modelled without interference; the results are the same for every budget
  unless a lemma says otherwise.
\<close>

subsection \<open>State\<close>

record ds_ck_stack_upmc_entry =
  st_next :: ptr
  st_data :: ds_kv

record ds_ck_stack_upmc_head =
  st_head :: ptr
  st_count :: u64

record 'a st_arena =
  st_heads :: "ptr \<Rightarrow> ds_ck_stack_upmc_head"
  st_nodes :: "ptr \<Rightarrow> ds_ck_stack_upmc_entry"
  st_alloc :: 'a

definition st_set_head :: "ptr \<Rightarrow> ds_ck_stack_upmc_head \<Rightarrow> 'a st_arena \<Rightarrow> 'a st_arena" where
  "st_set_head hp h A = A\<lparr>st_heads := (st_heads A)(hp := h)\<rparr>"

definition st_set_node :: "ptr \<Rightarrow> ds_ck_stack_upmc_entry \<Rightarrow> 'a st_arena \<Rightarrow> 'a st_arena" where
  "st_set_node a e A = A\<lparr>st_nodes := (st_nodes A)(a := e)\<rparr>"

lemma st_set_acc [simp]:
  "st_heads (st_set_head hp h A) = (st_heads A)(hp := h)" "st_nodes (st_set_head hp h A) = st_nodes A"
  "st_alloc (st_set_head hp h A) = st_alloc A"
  "st_heads (st_set_node a e A) = st_heads A" "st_nodes (st_set_node a e A) = (st_nodes A)(a := e)"
  "st_alloc (st_set_node a e A) = st_alloc A"
  by (simp_all add: st_set_head_def st_set_node_def)

subsection \<open>Initialisation and emptiness\<close>

definition ds_ck_stack_upmc_init_lkmm :: "ptr \<Rightarrow> 'a st_arena \<Rightarrow> 'a st_arena" where
  "ds_ck_stack_upmc_init_lkmm hp A =
     (if hp = NULL then A
      else
        let A = st_set_head hp ((st_heads A hp)\<lparr>st_head := NULL\<rparr>) A in
        st_set_head hp ((st_heads A hp)\<lparr>st_count := 0\<rparr>) A)"

definition ds_ck_stack_upmc_init_c :: "ptr \<Rightarrow> 'a st_arena \<Rightarrow> 'a st_arena" where
  "ds_ck_stack_upmc_init_c hp A =
     (if hp = NULL then A
      else
        let A = st_set_head hp ((st_heads A hp)\<lparr>st_head := NULL\<rparr>) A in
        st_set_head hp ((st_heads A hp)\<lparr>st_count := 0\<rparr>) A)"

definition ds_ck_stack_upmc_init :: "side \<Rightarrow> ptr \<Rightarrow> 'a st_arena \<Rightarrow> 'a st_arena" where
  "ds_ck_stack_upmc_init sd hp A =
     (case sd of BPF \<Rightarrow> ds_ck_stack_upmc_init_lkmm hp A | USERSPACE \<Rightarrow> ds_ck_stack_upmc_init_c hp A)"

definition ds_ck_stack_upmc_isempty_lkmm :: "ptr \<Rightarrow> 'a st_arena \<Rightarrow> bool" where
  "ds_ck_stack_upmc_isempty_lkmm hp A \<longleftrightarrow> hp = NULL \<or> st_head (st_heads A hp) = NULL"

definition ds_ck_stack_upmc_isempty_c :: "ptr \<Rightarrow> 'a st_arena \<Rightarrow> bool" where
  "ds_ck_stack_upmc_isempty_c hp A \<longleftrightarrow> hp = NULL \<or> st_head (st_heads A hp) = NULL"

definition ds_ck_stack_upmc_isempty :: "side \<Rightarrow> ptr \<Rightarrow> 'a st_arena \<Rightarrow> bool" where
  "ds_ck_stack_upmc_isempty sd hp A =
     (case sd of BPF \<Rightarrow> ds_ck_stack_upmc_isempty_lkmm hp A | USERSPACE \<Rightarrow> ds_ck_stack_upmc_isempty_c hp A)"

subsection \<open>Push and pop of entries\<close>

text \<open>
  The loop of push: link the entry to the head last seen, try to exchange it in, take the
  observed head on failure.  The flag says whether the entry was pushed.
\<close>

fun st_push_loop :: "nat \<Rightarrow> ptr \<Rightarrow> ptr \<Rightarrow> ptr \<Rightarrow> 'a st_arena \<Rightarrow> bool \<times> 'a st_arena" where
  "st_push_loop n hp entry head A =
     (let A = st_set_node entry ((st_nodes A entry)\<lparr>st_next := head\<rparr>) A;
          (observed, new_head) = arena_atomic_cmpxchg (st_head (st_heads A hp)) head entry;
          A = st_set_head hp ((st_heads A hp)\<lparr>st_head := new_head\<rparr>) A in
      if observed = head then (True, A)
      else (case n of 0 \<Rightarrow> (False, A) | Suc m \<Rightarrow> st_push_loop m hp entry observed A))"

declare st_push_loop.simps [simp del]

definition ds_ck_stack_upmc_push_upmc_lkmm ::
  "nat \<Rightarrow> ptr \<Rightarrow> ptr \<Rightarrow> u64 \<Rightarrow> u64 \<Rightarrow> 'a st_arena \<Rightarrow> 'a st_arena" where
  "ds_ck_stack_upmc_push_upmc_lkmm budget hp entry k v A =
     (if hp = NULL \<or> entry = NULL then A
      else
        let A = st_set_node entry ((st_nodes A entry)\<lparr>st_data := \<lparr>key = k, val = v\<rparr>\<rparr>) A;
            (pushed, A) = st_push_loop budget hp entry (st_head (st_heads A hp)) A in
        if pushed then st_set_head hp ((st_heads A hp)\<lparr>st_count := st_count (st_heads A hp) + 1\<rparr>) A
        else A)"

definition ds_ck_stack_upmc_push_upmc_c ::
  "nat \<Rightarrow> ptr \<Rightarrow> ptr \<Rightarrow> u64 \<Rightarrow> u64 \<Rightarrow> 'a st_arena \<Rightarrow> 'a st_arena" where
  "ds_ck_stack_upmc_push_upmc_c budget hp entry k v A =
     (if hp = NULL \<or> entry = NULL then A
      else
        let A = st_set_node entry ((st_nodes A entry)\<lparr>st_data := \<lparr>key = k, val = v\<rparr>\<rparr>) A;
            (pushed, A) = st_push_loop budget hp entry (st_head (st_heads A hp)) A in
        if pushed then st_set_head hp ((st_heads A hp)\<lparr>st_count := st_count (st_heads A hp) + 1\<rparr>) A
        else A)"

definition ds_ck_stack_upmc_push_upmc :: "side \<Rightarrow> nat \<Rightarrow> ptr \<Rightarrow> ptr \<Rightarrow> u64 \<Rightarrow> u64 \<Rightarrow> 'a st_arena \<Rightarrow> 'a st_arena" where
  "ds_ck_stack_upmc_push_upmc sd budget hp entry k v A =
     (case sd of BPF \<Rightarrow> ds_ck_stack_upmc_push_upmc_lkmm budget hp entry k v A | USERSPACE \<Rightarrow> ds_ck_stack_upmc_push_upmc_c budget hp entry k v A)"

definition ds_ck_stack_upmc_trypush_upmc_lkmm ::
  "ptr \<Rightarrow> ptr \<Rightarrow> u64 \<Rightarrow> u64 \<Rightarrow> 'a st_arena \<Rightarrow> bool \<times> 'a st_arena" where
  "ds_ck_stack_upmc_trypush_upmc_lkmm hp entry k v A =
     (if hp = NULL \<or> entry = NULL then (False, A)
      else
        let A = st_set_node entry ((st_nodes A entry)\<lparr>st_data := \<lparr>key = k, val = v\<rparr>\<rparr>) A;
            head = st_head (st_heads A hp);
            A = st_set_node entry ((st_nodes A entry)\<lparr>st_next := head\<rparr>) A;
            (observed, new_head) = arena_atomic_cmpxchg (st_head (st_heads A hp)) head entry;
            A = st_set_head hp ((st_heads A hp)\<lparr>st_head := new_head\<rparr>) A in
        if observed \<noteq> head then (False, A)
        else (True, st_set_head hp ((st_heads A hp)\<lparr>st_count := st_count (st_heads A hp) + 1\<rparr>) A))"

definition ds_ck_stack_upmc_trypush_upmc_c ::
  "ptr \<Rightarrow> ptr \<Rightarrow> u64 \<Rightarrow> u64 \<Rightarrow> 'a st_arena \<Rightarrow> bool \<times> 'a st_arena" where
  "ds_ck_stack_upmc_trypush_upmc_c hp entry k v A =
     (if hp = NULL \<or> entry = NULL then (False, A)
      else
        let A = st_set_node entry ((st_nodes A entry)\<lparr>st_data := \<lparr>key = k, val = v\<rparr>\<rparr>) A;
            head = st_head (st_heads A hp);
            A = st_set_node entry ((st_nodes A entry)\<lparr>st_next := head\<rparr>) A;
            (observed, new_head) = arena_atomic_cmpxchg (st_head (st_heads A hp)) head entry;
            A = st_set_head hp ((st_heads A hp)\<lparr>st_head := new_head\<rparr>) A in
        if observed \<noteq> head then (False, A)
        else (True, st_set_head hp ((st_heads A hp)\<lparr>st_count := st_count (st_heads A hp) + 1\<rparr>) A))"

definition ds_ck_stack_upmc_trypush_upmc :: "side \<Rightarrow> ptr \<Rightarrow> ptr \<Rightarrow> u64 \<Rightarrow> u64 \<Rightarrow> 'a st_arena \<Rightarrow> bool \<times> 'a st_arena" where
  "ds_ck_stack_upmc_trypush_upmc sd hp entry k v A =
     (case sd of BPF \<Rightarrow> ds_ck_stack_upmc_trypush_upmc_lkmm hp entry k v A | USERSPACE \<Rightarrow> ds_ck_stack_upmc_trypush_upmc_c hp entry k v A)"

fun st_pop_loop :: "nat \<Rightarrow> ptr \<Rightarrow> ptr \<Rightarrow> 'a st_arena \<Rightarrow> ptr \<times> 'a st_arena" where
  "st_pop_loop n hp head A =
     (if head = NULL then (NULL, A)
      else case n of
        0 \<Rightarrow> (NULL, A)
      | Suc m \<Rightarrow>
          let next = st_next (st_nodes A head);
              (observed, new_head) = arena_atomic_cmpxchg (st_head (st_heads A hp)) head next;
              A = st_set_head hp ((st_heads A hp)\<lparr>st_head := new_head\<rparr>) A in
          if observed = head then
            (head, st_set_head hp ((st_heads A hp)\<lparr>st_count := st_count (st_heads A hp) - 1\<rparr>) A)
          else st_pop_loop m hp observed A)"

declare st_pop_loop.simps [simp del]

definition ds_ck_stack_upmc_pop_upmc_lkmm :: "nat \<Rightarrow> ptr \<Rightarrow> 'a st_arena \<Rightarrow> ptr \<times> 'a st_arena" where
  "ds_ck_stack_upmc_pop_upmc_lkmm budget hp A =
     (if hp = NULL then (NULL, A) else st_pop_loop budget hp (st_head (st_heads A hp)) A)"

definition ds_ck_stack_upmc_pop_upmc_c :: "nat \<Rightarrow> ptr \<Rightarrow> 'a st_arena \<Rightarrow> ptr \<times> 'a st_arena" where
  "ds_ck_stack_upmc_pop_upmc_c budget hp A =
     (if hp = NULL then (NULL, A) else st_pop_loop budget hp (st_head (st_heads A hp)) A)"

definition ds_ck_stack_upmc_pop_upmc :: "side \<Rightarrow> nat \<Rightarrow> ptr \<Rightarrow> 'a st_arena \<Rightarrow> ptr \<times> 'a st_arena" where
  "ds_ck_stack_upmc_pop_upmc sd budget hp A =
     (case sd of BPF \<Rightarrow> ds_ck_stack_upmc_pop_upmc_lkmm budget hp A | USERSPACE \<Rightarrow> ds_ck_stack_upmc_pop_upmc_c budget hp A)"

text \<open>\<open>entry_out\<close> is the pointer cell for the result, \<open>None\<close> for a NULL pointer.\<close>

definition ds_ck_stack_upmc_trypop_upmc_lkmm ::
  "ptr \<Rightarrow> ptr option \<Rightarrow> 'a st_arena \<Rightarrow> bool \<times> ptr option \<times> 'a st_arena" where
  "ds_ck_stack_upmc_trypop_upmc_lkmm hp entry_out A =
     (if hp = NULL then (False, entry_out, A)
      else
        let head = st_head (st_heads A hp) in
        if head = NULL then (False, entry_out, A)
        else
          let next = st_next (st_nodes A head);
              (observed, new_head) = arena_atomic_cmpxchg (st_head (st_heads A hp)) head next;
              A = st_set_head hp ((st_heads A hp)\<lparr>st_head := new_head\<rparr>) A in
          if observed \<noteq> head then (False, entry_out, A)
          else
            let A = st_set_head hp ((st_heads A hp)\<lparr>st_count := st_count (st_heads A hp) - 1\<rparr>) A in
            (True, map_option (\<lambda>_. head) entry_out, A))"

definition ds_ck_stack_upmc_trypop_upmc_c ::
  "ptr \<Rightarrow> ptr option \<Rightarrow> 'a st_arena \<Rightarrow> bool \<times> ptr option \<times> 'a st_arena" where
  "ds_ck_stack_upmc_trypop_upmc_c hp entry_out A =
     (if hp = NULL then (False, entry_out, A)
      else
        let head = st_head (st_heads A hp) in
        if head = NULL then (False, entry_out, A)
        else
          let next = st_next (st_nodes A head);
              (observed, new_head) = arena_atomic_cmpxchg (st_head (st_heads A hp)) head next;
              A = st_set_head hp ((st_heads A hp)\<lparr>st_head := new_head\<rparr>) A in
          if observed \<noteq> head then (False, entry_out, A)
          else
            let A = st_set_head hp ((st_heads A hp)\<lparr>st_count := st_count (st_heads A hp) - 1\<rparr>) A in
            (True, map_option (\<lambda>_. head) entry_out, A))"

definition ds_ck_stack_upmc_trypop_upmc :: "side \<Rightarrow> ptr \<Rightarrow> ptr option \<Rightarrow> 'a st_arena \<Rightarrow> bool \<times> ptr option \<times> 'a st_arena" where
  "ds_ck_stack_upmc_trypop_upmc sd hp entry_out A =
     (case sd of BPF \<Rightarrow> ds_ck_stack_upmc_trypop_upmc_lkmm hp entry_out A | USERSPACE \<Rightarrow> ds_ck_stack_upmc_trypop_upmc_c hp entry_out A)"

subsection \<open>The key-value interface\<close>

text \<open>The size of an entry: a pointer and a \<^verbatim>\<open>struct ds_kv\<close>.\<close>

definition st_entry_bytes :: u32 where "st_entry_bytes = 24"

definition ds_ck_stack_upmc_insert_lkmm ::
  "nat \<Rightarrow> 'a allocator \<Rightarrow> ptr \<Rightarrow> u64 \<Rightarrow> u64 \<Rightarrow> 'a st_arena \<Rightarrow> int \<times> 'a st_arena" where
  "ds_ck_stack_upmc_insert_lkmm budget bpf_arena_alloc hp k v A =
     (if hp = NULL then (DS_ERROR_INVALID, A)
      else
        let (entry, al) = bpf_arena_alloc st_entry_bytes (st_alloc A);
            A = A\<lparr>st_alloc := al\<rparr> in
        if entry = NULL then (DS_ERROR_NOMEM, A)
        else (DS_SUCCESS, ds_ck_stack_upmc_push_upmc_lkmm budget hp entry k v A))"

definition ds_ck_stack_upmc_insert_c ::
  "nat \<Rightarrow> 'a allocator \<Rightarrow> ptr \<Rightarrow> u64 \<Rightarrow> u64 \<Rightarrow> 'a st_arena \<Rightarrow> int \<times> 'a st_arena" where
  "ds_ck_stack_upmc_insert_c budget bpf_arena_alloc hp k v A =
     (if hp = NULL then (DS_ERROR_INVALID, A)
      else
        let (entry, al) = bpf_arena_alloc st_entry_bytes (st_alloc A);
            A = A\<lparr>st_alloc := al\<rparr> in
        if entry = NULL then (DS_ERROR_NOMEM, A)
        else (DS_SUCCESS, ds_ck_stack_upmc_push_upmc_c budget hp entry k v A))"

definition ds_ck_stack_upmc_insert :: "side \<Rightarrow> nat \<Rightarrow> 'a allocator \<Rightarrow> ptr \<Rightarrow> u64 \<Rightarrow> u64 \<Rightarrow> 'a st_arena \<Rightarrow> int \<times> 'a st_arena" where
  "ds_ck_stack_upmc_insert sd budget bpf_arena_alloc hp k v A =
     (case sd of BPF \<Rightarrow> ds_ck_stack_upmc_insert_lkmm budget bpf_arena_alloc hp k v A | USERSPACE \<Rightarrow> ds_ck_stack_upmc_insert_c budget bpf_arena_alloc hp k v A)"

definition ds_ck_stack_upmc_delete :: "ptr \<Rightarrow> u64 \<Rightarrow> 'a st_arena \<Rightarrow> int" where
  "ds_ck_stack_upmc_delete hp k A = (if hp = NULL then DS_ERROR_INVALID else DS_ERROR_INVALID)"

definition ds_ck_stack_upmc_pop_lkmm ::
  "nat \<Rightarrow> ptr \<Rightarrow> ds_kv option \<Rightarrow> 'a st_arena \<Rightarrow> int \<times> ds_kv option \<times> 'a st_arena" where
  "ds_ck_stack_upmc_pop_lkmm budget hp out A =
     (case out of
        None \<Rightarrow> (DS_ERROR_INVALID, out, A)
      | Some d \<Rightarrow>
          if hp = NULL then (DS_ERROR_INVALID, out, A)
          else
            let (entry, A) = ds_ck_stack_upmc_pop_upmc_lkmm budget hp A in
            if entry = NULL then (DS_ERROR_NOT_FOUND, out, A)
            else (DS_SUCCESS,
              Some (d\<lparr>key := key (st_data (st_nodes A entry)), val := val (st_data (st_nodes A entry))\<rparr>), A))"

definition ds_ck_stack_upmc_pop_c ::
  "nat \<Rightarrow> ptr \<Rightarrow> ds_kv option \<Rightarrow> 'a st_arena \<Rightarrow> int \<times> ds_kv option \<times> 'a st_arena" where
  "ds_ck_stack_upmc_pop_c budget hp out A =
     (case out of
        None \<Rightarrow> (DS_ERROR_INVALID, out, A)
      | Some d \<Rightarrow>
          if hp = NULL then (DS_ERROR_INVALID, out, A)
          else
            let (entry, A) = ds_ck_stack_upmc_pop_upmc_c budget hp A in
            if entry = NULL then (DS_ERROR_NOT_FOUND, out, A)
            else (DS_SUCCESS,
              Some (d\<lparr>key := key (st_data (st_nodes A entry)), val := val (st_data (st_nodes A entry))\<rparr>), A))"

definition ds_ck_stack_upmc_pop :: "side \<Rightarrow> nat \<Rightarrow> ptr \<Rightarrow> ds_kv option \<Rightarrow> 'a st_arena \<Rightarrow> int \<times> ds_kv option \<times> 'a st_arena" where
  "ds_ck_stack_upmc_pop sd budget hp out A =
     (case sd of BPF \<Rightarrow> ds_ck_stack_upmc_pop_lkmm budget hp out A | USERSPACE \<Rightarrow> ds_ck_stack_upmc_pop_c budget hp out A)"

text \<open>The bounded scan: at most 100000 entries are looked at.\<close>

function st_search_loop :: "int \<Rightarrow> ptr \<Rightarrow> u64 \<Rightarrow> 'a st_arena \<Rightarrow> int" where
  "st_search_loop iterations cursor k A =
     (if cursor \<noteq> NULL \<and> iterations < 100000 then
        if key (st_data (st_nodes A cursor)) = k then DS_SUCCESS
        else st_search_loop (iterations + 1) (st_next (st_nodes A cursor)) k A
      else DS_ERROR_NOT_FOUND)"
  by pat_completeness auto
termination
  by (relation "measure (\<lambda>(iterations, cursor, k, A). nat (100000 - iterations))") auto

declare st_search_loop.simps [simp del]

definition ds_ck_stack_upmc_search_lkmm :: "ptr \<Rightarrow> u64 \<Rightarrow> 'a st_arena \<Rightarrow> int" where
  "ds_ck_stack_upmc_search_lkmm hp k A =
     (if hp = NULL then DS_ERROR_INVALID else st_search_loop 0 (st_head (st_heads A hp)) k A)"

definition ds_ck_stack_upmc_search_c :: "ptr \<Rightarrow> u64 \<Rightarrow> 'a st_arena \<Rightarrow> int" where
  "ds_ck_stack_upmc_search_c hp k A =
     (if hp = NULL then DS_ERROR_INVALID else st_search_loop 0 (st_head (st_heads A hp)) k A)"

definition ds_ck_stack_upmc_search :: "side \<Rightarrow> ptr \<Rightarrow> u64 \<Rightarrow> 'a st_arena \<Rightarrow> int" where
  "ds_ck_stack_upmc_search sd hp k A =
     (case sd of BPF \<Rightarrow> ds_ck_stack_upmc_search_lkmm hp k A | USERSPACE \<Rightarrow> ds_ck_stack_upmc_search_c hp k A)"

subsection \<open>The verifier and statistics\<close>

fun st_verify_loop :: "nat \<Rightarrow> ptr \<Rightarrow> ptr \<Rightarrow> 'a st_arena \<Rightarrow> int" where
  "st_verify_loop n slow fast A =
     (if fast = NULL then DS_SUCCESS
      else case n of
        0 \<Rightarrow> DS_SUCCESS
      | Suc m \<Rightarrow>
          let fast_next = st_next (st_nodes A fast) in
          if fast_next = NULL then DS_SUCCESS
          else
            let fast = st_next (st_nodes A fast_next);
                slow = (if slow \<noteq> NULL then st_next (st_nodes A slow) else slow) in
            if slow \<noteq> NULL \<and> slow = fast then DS_ERROR_CORRUPT
            else st_verify_loop m slow fast A)"

declare st_verify_loop.simps [simp del]

definition ds_ck_stack_upmc_verify_lkmm :: "nat \<Rightarrow> ptr \<Rightarrow> 'a st_arena \<Rightarrow> int" where
  "ds_ck_stack_upmc_verify_lkmm budget hp A =
     (if hp = NULL then DS_ERROR_INVALID
      else
        let slow = st_head (st_heads A hp); fast = slow in
        st_verify_loop budget slow fast A)"

definition ds_ck_stack_upmc_verify_c :: "nat \<Rightarrow> ptr \<Rightarrow> 'a st_arena \<Rightarrow> int" where
  "ds_ck_stack_upmc_verify_c budget hp A =
     (if hp = NULL then DS_ERROR_INVALID
      else
        let slow = st_head (st_heads A hp); fast = slow in
        st_verify_loop budget slow fast A)"

definition ds_ck_stack_upmc_verify :: "side \<Rightarrow> nat \<Rightarrow> ptr \<Rightarrow> 'a st_arena \<Rightarrow> int" where
  "ds_ck_stack_upmc_verify sd budget hp A =
     (case sd of BPF \<Rightarrow> ds_ck_stack_upmc_verify_lkmm budget hp A | USERSPACE \<Rightarrow> ds_ck_stack_upmc_verify_c budget hp A)"

definition ds_ck_stack_upmc_stats_lkmm :: "ptr \<Rightarrow> ds_stats option \<Rightarrow> 'a st_arena \<Rightarrow> int \<times> ds_stats option" where
  "ds_ck_stack_upmc_stats_lkmm hp stats A =
     (case stats of
        None \<Rightarrow> (DS_ERROR_INVALID, stats)
      | Some st \<Rightarrow>
          if hp = NULL then (DS_ERROR_INVALID, stats)
          else (DS_SUCCESS, Some (st\<lparr>st_current_elements := st_count (st_heads A hp),
            st_max_elements := 0, st_memory_used := 0\<rparr>)))"

definition ds_ck_stack_upmc_stats_c :: "ptr \<Rightarrow> ds_stats option \<Rightarrow> 'a st_arena \<Rightarrow> int \<times> ds_stats option" where
  "ds_ck_stack_upmc_stats_c hp stats A =
     (case stats of
        None \<Rightarrow> (DS_ERROR_INVALID, stats)
      | Some st \<Rightarrow>
          if hp = NULL then (DS_ERROR_INVALID, stats)
          else (DS_SUCCESS, Some (st\<lparr>st_current_elements := st_count (st_heads A hp),
            st_max_elements := 0, st_memory_used := 0\<rparr>)))"

definition ds_ck_stack_upmc_stats :: "side \<Rightarrow> ptr \<Rightarrow> ds_stats option \<Rightarrow> 'a st_arena \<Rightarrow> int \<times> ds_stats option" where
  "ds_ck_stack_upmc_stats sd hp stats A =
     (case sd of BPF \<Rightarrow> ds_ck_stack_upmc_stats_lkmm hp stats A | USERSPACE \<Rightarrow> ds_ck_stack_upmc_stats_c hp stats A)"

subsection \<open>The variants agree\<close>

lemma st_entry_variants:
  "ds_ck_stack_upmc_push_upmc_c = ds_ck_stack_upmc_push_upmc_lkmm" "ds_ck_stack_upmc_pop_upmc_c = ds_ck_stack_upmc_pop_upmc_lkmm"
  by (intro ext, simp add: ds_ck_stack_upmc_push_upmc_lkmm_def ds_ck_stack_upmc_push_upmc_c_def
      ds_ck_stack_upmc_pop_upmc_lkmm_def ds_ck_stack_upmc_pop_upmc_c_def)+

lemma st_init_side [ds_variant]: "ds_ck_stack_upmc_init sd = ds_ck_stack_upmc_init_lkmm"
  by (intro ext) (cases sd, simp_all add: ds_ck_stack_upmc_init_def ds_ck_stack_upmc_init_lkmm_def
      ds_ck_stack_upmc_init_c_def)

lemma st_isempty_side [ds_variant]: "ds_ck_stack_upmc_isempty sd = ds_ck_stack_upmc_isempty_lkmm"
  by (intro ext) (cases sd, simp_all add: ds_ck_stack_upmc_isempty_def ds_ck_stack_upmc_isempty_lkmm_def
      ds_ck_stack_upmc_isempty_c_def)

lemma st_push_upmc_side [ds_variant]: "ds_ck_stack_upmc_push_upmc sd = ds_ck_stack_upmc_push_upmc_lkmm"
  by (intro ext) (cases sd, simp_all add: ds_ck_stack_upmc_push_upmc_def ds_ck_stack_upmc_push_upmc_lkmm_def
      ds_ck_stack_upmc_push_upmc_c_def)

lemma st_trypush_upmc_side [ds_variant]: "ds_ck_stack_upmc_trypush_upmc sd = ds_ck_stack_upmc_trypush_upmc_lkmm"
  by (intro ext) (cases sd, simp_all add: ds_ck_stack_upmc_trypush_upmc_def ds_ck_stack_upmc_trypush_upmc_lkmm_def
      ds_ck_stack_upmc_trypush_upmc_c_def)

lemma st_pop_upmc_side [ds_variant]: "ds_ck_stack_upmc_pop_upmc sd = ds_ck_stack_upmc_pop_upmc_lkmm"
  by (intro ext) (cases sd, simp_all add: ds_ck_stack_upmc_pop_upmc_def ds_ck_stack_upmc_pop_upmc_lkmm_def
      ds_ck_stack_upmc_pop_upmc_c_def)

lemma st_trypop_upmc_side [ds_variant]: "ds_ck_stack_upmc_trypop_upmc sd = ds_ck_stack_upmc_trypop_upmc_lkmm"
  by (intro ext) (cases sd, simp_all add: ds_ck_stack_upmc_trypop_upmc_def ds_ck_stack_upmc_trypop_upmc_lkmm_def
      ds_ck_stack_upmc_trypop_upmc_c_def)

lemma st_insert_side [ds_variant]: "ds_ck_stack_upmc_insert sd = ds_ck_stack_upmc_insert_lkmm"
  by (intro ext) (cases sd, simp_all add: ds_ck_stack_upmc_insert_def ds_ck_stack_upmc_insert_lkmm_def
      ds_ck_stack_upmc_insert_c_def st_entry_variants Let_def split_def)

lemma st_pop_side [ds_variant]: "ds_ck_stack_upmc_pop sd = ds_ck_stack_upmc_pop_lkmm"
  by (intro ext) (cases sd, simp_all add: ds_ck_stack_upmc_pop_def ds_ck_stack_upmc_pop_lkmm_def
      ds_ck_stack_upmc_pop_c_def st_entry_variants Let_def split_def split: option.split)

lemma st_search_side [ds_variant]: "ds_ck_stack_upmc_search sd = ds_ck_stack_upmc_search_lkmm"
  by (intro ext) (cases sd, simp_all add: ds_ck_stack_upmc_search_def ds_ck_stack_upmc_search_lkmm_def
      ds_ck_stack_upmc_search_c_def)

lemma st_verify_side [ds_variant]: "ds_ck_stack_upmc_verify sd = ds_ck_stack_upmc_verify_lkmm"
  by (intro ext) (cases sd, simp_all add: ds_ck_stack_upmc_verify_def ds_ck_stack_upmc_verify_lkmm_def
      ds_ck_stack_upmc_verify_c_def)

lemma st_stats_side [ds_variant]: "ds_ck_stack_upmc_stats sd = ds_ck_stack_upmc_stats_lkmm"
  by (intro ext) (cases sd, simp_all add: ds_ck_stack_upmc_stats_def ds_ck_stack_upmc_stats_lkmm_def
      ds_ck_stack_upmc_stats_c_def)

subsection \<open>What a stack represents\<close>

text \<open>
  The entries reached from the head, each inside memory the allocator has handed out
  (\<open>used\<close>), with the allocator in a state between calls (\<open>ok\<close>).
\<close>

definition st_stack :: "('a \<Rightarrow> bool) \<Rightarrow> ('a \<Rightarrow> nat set) \<Rightarrow> ptr \<Rightarrow> 'a st_arena \<Rightarrow> ds_kv list \<Rightarrow> bool" where
  "st_stack ok used hp A xs \<longleftrightarrow>
     hp \<noteq> NULL \<and> ok (st_alloc A) \<and> st_count (st_heads A hp) = of_nat (length xs) \<and>
     (\<exists>as. seg (st_next \<circ> st_nodes A) (st_head (st_heads A hp)) as NULL \<and>
        xs = map (st_data \<circ> st_nodes A) as \<and>
        (\<forall>a \<in> set as. block a st_entry_bytes \<subseteq> used (st_alloc A)))"

definition st_room :: "'a allocator \<Rightarrow> 'a st_arena \<Rightarrow> bool" where
  "st_room alloc A \<longleftrightarrow> fst (alloc st_entry_bytes (st_alloc A)) \<noteq> NULL"

lemma st_push_now:
  assumes "hp \<noteq> NULL" "entry \<noteq> NULL"
  shows "ds_ck_stack_upmc_push_upmc_lkmm n hp entry k v A =
    st_set_head hp \<lparr>st_head = entry, st_count = st_count (st_heads A hp) + 1\<rparr>
      (st_set_node entry \<lparr>st_next = st_head (st_heads A hp), st_data = \<lparr>key = k, val = v\<rparr>\<rparr> A)"
  using assms
  by (cases "st_heads A hp"; cases "st_nodes A entry")
     (simp add: ds_ck_stack_upmc_push_upmc_lkmm_def st_push_loop.simps Let_def st_set_head_def st_set_node_def)

lemma st_pop_now:
  "hp \<noteq> NULL \<Longrightarrow> ds_ck_stack_upmc_pop_upmc_lkmm (Suc n) hp A =
    (let h = st_heads A hp in
     if st_head h = NULL then (NULL, A)
     else (st_head h, st_set_head hp \<lparr>st_head = st_next (st_nodes A (st_head h)), st_count = st_count h - 1\<rparr> A))"
  by (cases "st_heads A hp")
     (simp add: ds_ck_stack_upmc_pop_upmc_lkmm_def st_pop_loop.simps Let_def st_set_head_def)

context arena_allocator
begin

lemma st_insert_room:
  assumes q: "st_stack ok used hp A xs" and r: "st_room alloc A"
  shows "\<exists>A'. ds_ck_stack_upmc_insert_lkmm n alloc hp (key x) (val x) A = (DS_SUCCESS, A') \<and>
    st_stack ok used hp A' (x # xs)"
proof -
  obtain as where s: "seg (st_next \<circ> st_nodes A) (st_head (st_heads A hp)) as NULL"
    and xs: "xs = map (st_data \<circ> st_nodes A) as" and u: "\<forall>a \<in> set as. block a st_entry_bytes \<subseteq> used (st_alloc A)"
    and hp: "hp \<noteq> NULL" and k: "ok (st_alloc A)" and c: "st_count (st_heads A hp) = of_nat (length xs)"
    using q unfolding st_stack_def by (elim conjE exE) (rule that)
  obtain p al where a: "alloc st_entry_bytes (st_alloc A) = (p, al)" by fastforce
  then have p: "p \<noteq> NULL" using r by (simp add: st_room_def)
  note f = alloc_fresh [OF k a p] and m = alloc_used [OF k a]
  have "unat p \<in> block p st_entry_bytes" by (simp add: block_def st_entry_bytes_def)
  then have fresh: "p \<notin> set as" using f u by blast
  let ?A = "st_set_head hp \<lparr>st_head = p, st_count = st_count (st_heads A hp) + 1\<rparr>
    (st_set_node p \<lparr>st_next = st_head (st_heads A hp), st_data = x\<rparr> (A\<lparr>st_alloc := al\<rparr>))"
  have "ds_ck_stack_upmc_insert_lkmm n alloc hp (key x) (val x) A = (DS_SUCCESS, ?A)"
    using a p hp by (simp add: ds_ck_stack_upmc_insert_lkmm_def Let_def st_push_now)
  moreover have "st_stack ok used hp ?A (x # xs)"
  proof -
    let ?nx = "st_next \<circ> st_nodes ?A"
    have "seg ?nx (st_head (st_heads A hp)) as NULL" using s fresh by simp
    then have "seg ?nx p (p # as) NULL" using p by simp
    moreover have "x # xs = map (st_data \<circ> st_nodes ?A) (p # as)" using xs fresh by auto
    moreover have "\<forall>a \<in> set (p # as). block a st_entry_bytes \<subseteq> used al" using f u m by auto
    ultimately show ?thesis
      unfolding st_stack_def using hp alloc_ok [OF k a] c
      by (intro conjI exI [of _ "p # as"]) (simp_all add: add.commute)
  qed
  ultimately show ?thesis by blast
qed

lemma st_insert_nomem:
  assumes q: "st_stack ok used hp A xs" and r: "\<not> st_room alloc A"
  shows "\<exists>A'. ds_ck_stack_upmc_insert_lkmm n alloc hp k v A = (DS_ERROR_NOMEM, A') \<and> st_stack ok used hp A' xs"
proof -
  obtain p al where a: "alloc st_entry_bytes (st_alloc A) = (p, al)" by fastforce
  have k: "ok (st_alloc A)" "hp \<noteq> NULL" using q by (simp_all add: st_stack_def)
  have "ds_ck_stack_upmc_insert_lkmm n alloc hp k v A = (DS_ERROR_NOMEM, A\<lparr>st_alloc := al\<rparr>)"
    using a r k(2) by (simp add: ds_ck_stack_upmc_insert_lkmm_def st_room_def)
  moreover have "st_stack ok used hp (A\<lparr>st_alloc := al\<rparr>) xs"
    using q alloc_ok [OF k(1) a] alloc_used [OF k(1) a] by (fastforce simp: st_stack_def)
  ultimately show ?thesis by blast
qed

end

lemma st_pop_empty:
  assumes "st_stack ok used hp A []"
  shows "ds_ck_stack_upmc_pop_lkmm (Suc n) hp (Some d) A = (DS_ERROR_NOT_FOUND, Some d, A)"
  using assms by (auto simp: st_stack_def ds_ck_stack_upmc_pop_lkmm_def st_pop_now Let_def)

lemma st_pop_top:
  assumes q: "st_stack ok used hp A (x # xs)"
  shows "\<exists>A'. ds_ck_stack_upmc_pop_lkmm (Suc n) hp (Some d) A = (DS_SUCCESS, Some x, A') \<and>
    st_stack ok used hp A' xs"
proof -
  let ?h = "st_heads A hp"
  obtain as where s: "seg (st_next \<circ> st_nodes A) (st_head ?h) as NULL"
    and xs: "x # xs = map (st_data \<circ> st_nodes A) as" and u: "\<forall>a \<in> set as. block a st_entry_bytes \<subseteq> used (st_alloc A)"
    and hp: "hp \<noteq> NULL" and k: "ok (st_alloc A)" and c: "st_count ?h = of_nat (length (x # xs))"
    using q unfolding st_stack_def by (elim conjE exE) (rule that)
  obtain a bs where as: "as = a # bs" "x = st_data (st_nodes A a)" "xs = map (st_data \<circ> st_nodes A) bs"
    using xs by (cases as) auto
  then have a: "st_head ?h = a" "a \<noteq> NULL" "seg (st_next \<circ> st_nodes A) (st_next (st_nodes A a)) bs NULL"
    using s by auto
  let ?A = "st_set_head hp \<lparr>st_head = st_next (st_nodes A a), st_count = st_count ?h - 1\<rparr> A"
  have "ds_ck_stack_upmc_pop_lkmm (Suc n) hp (Some d) A = (DS_SUCCESS, Some x, ?A)"
    using hp a as(2) by (simp add: ds_ck_stack_upmc_pop_lkmm_def st_pop_now Let_def)
  moreover have "st_stack ok used hp ?A xs"
    using hp k c a(3) u as by (auto simp: st_stack_def)
  ultimately show ?thesis by blast
qed

text \<open>Any allocator that keeps the contract makes the stack a last-in first-out lane.\<close>

sublocale arena_allocator \<subseteq> stk: lifo_lane
  "\<lambda>x. ds_ck_stack_upmc_insert pr n alloc hp (key x) (val x)"
  "ds_ck_stack_upmc_pop co (Suc m) hp (Some d)" "st_stack ok used hp" "st_room alloc"
  for pr co :: side and n m :: nat and hp :: ptr and d :: ds_kv
proof unfold_locales
  fix A xs and x :: ds_kv
  assume "st_stack ok used hp A xs" "st_room alloc A"
  then show "\<exists>A'. ds_ck_stack_upmc_insert pr n alloc hp (key x) (val x) A = (DS_SUCCESS, A') \<and>
      st_stack ok used hp A' (x # xs)"
    unfolding ds_variant by (rule st_insert_room)
next
  fix A xs and x :: ds_kv
  assume "st_stack ok used hp A xs" "\<not> st_room alloc A"
  then show "\<exists>e A'. ds_ck_stack_upmc_insert pr n alloc hp (key x) (val x) A = (e, A') \<and> e \<noteq> DS_SUCCESS \<and>
      st_stack ok used hp A' xs"
    unfolding ds_variant using st_insert_nomem ds_error_not_success(3) by blast
next
  fix A
  assume "st_stack ok used hp A []"
  then show "\<exists>out A'. ds_ck_stack_upmc_pop co (Suc m) hp (Some d) A = (DS_ERROR_NOT_FOUND, out, A') \<and>
      st_stack ok used hp A' []"
    by (simp add: ds_variant st_pop_empty)
next
  fix A x xs
  assume "st_stack ok used hp A (x # xs)"
  then show "\<exists>A'. ds_ck_stack_upmc_pop co (Suc m) hp (Some d) A = (DS_SUCCESS, Some x, A') \<and>
      st_stack ok used hp A' xs"
    unfolding ds_variant by (rule st_pop_top)
qed

text \<open>
  C30.  The stack over the userspace allocator is last-in first-out: replaying the
  reported events of any sequence of inserts and pops on an abstract stack never finds a
  pop that delivered something else than the top or failed on a stack that was not
  empty, and ends with what the stack then holds; no new entry reuses a live one.
\<close>

theorem st_run_lifo:
  assumes "st_stack user_ok user_used hp A xs"
    and "lane_run (\<lambda>x. ds_ck_stack_upmc_insert pr n user_allocator hp (key x) (val x))
      (ds_ck_stack_upmc_pop co (Suc m) hp (Some d)) ops A = (evs, A')"
  shows "\<exists>ys. stack_replay xs evs = Some ys \<and> st_stack user_ok user_used hp A' ys"
  using assms by (rule ua.stk.run_stack_replay)

text \<open>An empty stack at 0x1000 over a fresh userspace arena.\<close>

definition st_demo :: "user_alloc st_arena" where
  "st_demo = \<lparr>st_heads = (\<lambda>_. \<lparr>st_head = NULL, st_count = 0\<rparr>),
     st_nodes = (\<lambda>_. \<lparr>st_next = NULL, st_data = zero_kv\<rparr>), st_alloc = demo_user_alloc\<rparr>"

lemma st_demo_stack: "st_stack user_ok user_used 0x1000 st_demo []"
  by (simp add: st_stack_def st_demo_def demo_user_alloc_ok)

theorem st_run_lifo_witness:
  "\<exists>evs A'. lane_run (\<lambda>x. ds_ck_stack_upmc_insert USERSPACE 3 user_allocator 0x1000 (key x) (val x))
       (ds_ck_stack_upmc_pop BPF (Suc 3) 0x1000 (Some zero_kv))
       [LInsert \<lparr>key = 1, val = 10\<rparr>, LInsert \<lparr>key = 2, val = 20\<rparr>, LPop] st_demo = (evs, A') \<and>
     st_stack user_ok user_used 0x1000 A' [\<lparr>key = 1, val = 10\<rparr>] \<and> delivered evs = [\<lparr>key = 2, val = 20\<rparr>]"
proof -
  let ?run = "lane_run (\<lambda>x. ds_ck_stack_upmc_insert USERSPACE 3 user_allocator 0x1000 (key x) (val x))
       (ds_ck_stack_upmc_pop BPF (Suc 3) 0x1000 (Some zero_kv))
       [LInsert \<lparr>key = 1, val = 10\<rparr>, LInsert \<lparr>key = 2, val = 20\<rparr>, LPop] st_demo"
  obtain evs A' where run: "?run = (evs, A')" by fastforce
  have "stack_replay [] (fst ?run) = Some [\<lparr>key = 1, val = 10\<rparr>] \<and>
    delivered (fst ?run) = [\<lparr>key = 2, val = 20\<rparr>]"
    by code_simp
  then have "stack_replay [] evs = Some [\<lparr>key = 1, val = 10\<rparr>]"
    "delivered evs = [\<lparr>key = 2, val = 20\<rparr>]" by (simp_all only: run fst_conv)
  with st_run_lifo [OF st_demo_stack run] run show ?thesis by fastforce
qed

subsection \<open>Single attempts, search, statistics\<close>

text \<open>
  Without interference one attempt is enough: the single-attempt push and pop
  succeed exactly where the looping ones do, with the same entry and the same arena
  afterwards, whatever the loop budget.
\<close>

theorem st_try_agrees:
  assumes "hp \<noteq> NULL"
  shows "ds_ck_stack_upmc_trypush_upmc sd hp entry k v A =
      (entry \<noteq> NULL, ds_ck_stack_upmc_push_upmc sd n hp entry k v A) \<and>
    ds_ck_stack_upmc_trypop_upmc sd hp (Some e) A =
      (\<not> ds_ck_stack_upmc_isempty sd hp A,
       Some (if ds_ck_stack_upmc_isempty sd hp A then e else fst (ds_ck_stack_upmc_pop_upmc sd (Suc n) hp A)),
       snd (ds_ck_stack_upmc_pop_upmc sd (Suc n) hp A))"
proof -
  have "ds_ck_stack_upmc_trypush_upmc sd hp entry k v A =
      (entry \<noteq> NULL, ds_ck_stack_upmc_push_upmc sd n hp entry k v A)"
  proof (cases "entry = NULL")
    case True
    then show ?thesis
      by (simp add: ds_variant ds_ck_stack_upmc_trypush_upmc_lkmm_def ds_ck_stack_upmc_push_upmc_lkmm_def)
  next
    case False
    then show ?thesis
      using assms by (cases "st_heads A hp"; cases "st_nodes A entry")
        (simp add: ds_variant ds_ck_stack_upmc_trypush_upmc_lkmm_def st_push_now Let_def st_set_head_def
          st_set_node_def)
  qed
  moreover have "ds_ck_stack_upmc_trypop_upmc sd hp (Some e) A =
      (\<not> ds_ck_stack_upmc_isempty sd hp A,
       Some (if ds_ck_stack_upmc_isempty sd hp A then e else fst (ds_ck_stack_upmc_pop_upmc sd (Suc n) hp A)),
       snd (ds_ck_stack_upmc_pop_upmc sd (Suc n) hp A))"
    using assms by (cases "st_heads A hp")
      (simp add: ds_variant ds_ck_stack_upmc_trypop_upmc_lkmm_def ds_ck_stack_upmc_isempty_lkmm_def st_pop_now
        Let_def st_set_head_def)
  ultimately show ?thesis by blast
qed

theorem st_try_agrees_witness:
  "fst (ds_ck_stack_upmc_trypush_upmc BPF 0x1000 0x3000 1 2 st_demo) \<and>
   \<not> fst (ds_ck_stack_upmc_trypop_upmc BPF 0x1000 (Some 0) st_demo)"
  using st_try_agrees [of "0x1000" BPF "0x3000" 1 2 st_demo 5 0]
  by (simp add: ds_variant ds_ck_stack_upmc_isempty_lkmm_def st_demo_def)

lemma st_search_loop_seg:
  assumes "seg (st_next \<circ> st_nodes A) p as NULL"
  shows "0 \<le> it \<Longrightarrow> it \<le> 100000 \<Longrightarrow> st_search_loop it p k A =
    (if k \<in> key ` set (take (nat (100000 - it)) (map (st_data \<circ> st_nodes A) as)) then DS_SUCCESS
     else DS_ERROR_NOT_FOUND)"
  using assms
proof (induction as arbitrary: p it)
  case Nil
  then show ?case by (simp add: st_search_loop.simps)
next
  case (Cons a as)
  show ?case
  proof (cases "it = 100000")
    case True
    then show ?thesis by (simp add: st_search_loop.simps)
  next
    case False
    have "nat (100000 - it) = Suc (nat (100000 - (it + 1)))" using Cons.prems False by simp
    then show ?thesis
      using Cons.IH [of "it + 1" "st_next (st_nodes A a)"] Cons.prems False
      by (simp add: st_search_loop.simps [of it])
  qed
qed

text \<open>
  Search looks at the newest hundred thousand entries and no further: it finds a
  key exactly when one of those has it; statistics report the number of entries.
\<close>

theorem st_search_newest:
  assumes q: "st_stack ok used hp A xs"
  shows "(ds_ck_stack_upmc_search sd hp k A = DS_SUCCESS \<longleftrightarrow> k \<in> key ` set (take 100000 xs)) \<and>
    (\<exists>st'. ds_ck_stack_upmc_stats sd hp (Some st) A = (DS_SUCCESS, Some st') \<and>
      st_current_elements st' = of_nat (length xs))"
proof -
  have "ds_ck_stack_upmc_search sd hp k A = DS_SUCCESS \<longleftrightarrow> k \<in> key ` set (take 100000 xs)"
    using q st_search_loop_seg [of A _ _ 0 k]
    by (auto simp: st_stack_def ds_variant ds_ck_stack_upmc_search_lkmm_def split: if_splits)
  then show ?thesis using q by (simp add: st_stack_def ds_variant ds_ck_stack_upmc_stats_lkmm_def)
qed

theorem st_search_newest_witness: "ds_ck_stack_upmc_search BPF 0x1000 7 st_demo \<noteq> DS_SUCCESS"
  using st_search_newest [OF st_demo_stack, of BPF 7] by simp

subsection \<open>The verifier finds every cycle\<close>

lemma st_verify_ends:
  fixes A :: "'a st_arena"
  defines "nx \<equiv> st_next \<circ> st_nodes A"
  assumes m: "(nx ^^ m) p = NULL" and least: "\<And>j. j < m \<Longrightarrow> (nx ^^ j) p \<noteq> NULL"
  shows "2 * i \<le> m \<Longrightarrow> st_verify_loop n ((nx ^^ i) p) ((nx ^^ (2 * i)) p) A = DS_SUCCESS"
proof (induction n arbitrary: i)
  case 0
  then show ?case by (simp add: st_verify_loop.simps)
next
  case (Suc n)
  let ?f = "\<lambda>j. (nx ^^ j) p"
  have step: "st_next (st_nodes A a) = nx a" for a by (simp add: nx_def)
  show ?case
  proof (cases "?f (2 * i) = NULL \<or> ?f (Suc (2 * i)) = NULL")
    case True
    then show ?thesis by (auto simp: st_verify_loop.simps step)
  next
    case False
    have le: "2 * Suc i \<le> m"
    proof -
      have "2 * i \<noteq> m" "Suc (2 * i) \<noteq> m" using False m by auto
      then show ?thesis using Suc.prems by simp
    qed
    have "\<not> (?f (Suc i) \<noteq> NULL \<and> ?f (Suc i) = ?f (2 * Suc i))"
    proof
      assume e: "?f (Suc i) \<noteq> NULL \<and> ?f (Suc i) = ?f (2 * Suc i)"
      then have "2 * Suc i \<noteq> m" using m by auto
      then have "\<forall>j \<le> 2 * Suc i. ?f j \<noteq> NULL" using le least by simp
      from chain_meets_never_null [of "Suc i" nx p, OF _ _ this] e m show False by auto
    qed
    moreover have "?f i \<noteq> NULL" using least [of i] le by simp
    ultimately show ?thesis
      using Suc.IH [OF le] False by (simp add: st_verify_loop.simps [of "Suc n"] step Let_def)
  qed
qed

lemma st_verify_cycle:
  fixes A :: "'a st_arena"
  defines "nx \<equiv> st_next \<circ> st_nodes A"
  assumes nn: "\<And>j. (nx ^^ j) p \<noteq> NULL" and meet: "(nx ^^ k) p = (nx ^^ (2 * k)) p"
  shows "i < k \<Longrightarrow> k - i \<le> n \<Longrightarrow> st_verify_loop n ((nx ^^ i) p) ((nx ^^ (2 * i)) p) A = DS_ERROR_CORRUPT"
proof (induction n arbitrary: i)
  case 0
  then show ?case by simp
next
  case (Suc n)
  let ?f = "\<lambda>j. (nx ^^ j) p"
  have step: "st_next (st_nodes A a) = nx a" for a by (simp add: nx_def)
  show ?case
  proof (cases "?f (Suc i) = ?f (2 * Suc i)")
    case True
    then show ?thesis
      using nn [of i] nn [of "2 * i"] nn [of "Suc (2 * i)"] nn [of "Suc i"]
      by (simp add: st_verify_loop.simps [of "Suc n"] step Let_def)
  next
    case False
    then have "Suc i < k" using Suc.prems meet by (metis Suc_lessI)
    moreover from this have "k - Suc i \<le> n" using Suc.prems by simp
    ultimately show ?thesis
      using Suc.IH [of "Suc i"] False nn [of i] nn [of "2 * i"] nn [of "Suc (2 * i)"]
      by (simp add: st_verify_loop.simps [of "Suc n"] step Let_def)
  qed
qed

text \<open>
  C37.  The verifier decides acyclicity: for every arena, with enough iterations it
  terminates with success exactly when following the next pointers from the head reaches
  NULL, and reports corruption exactly when they run into a cycle.  A list that reaches
  NULL is accepted whatever the number of iterations.
\<close>

theorem st_verify_exact:
  fixes A :: "'a st_arena"
  assumes "hp \<noteq> NULL"
  shows "\<exists>N. \<forall>n. (N \<le> n \<longrightarrow> ds_ck_stack_upmc_verify sd n hp A =
      (if \<exists>i. ((st_next \<circ> st_nodes A) ^^ i) (st_head (st_heads A hp)) = NULL then DS_SUCCESS
       else DS_ERROR_CORRUPT)) \<and>
    ((\<exists>i. ((st_next \<circ> st_nodes A) ^^ i) (st_head (st_heads A hp)) = NULL) \<longrightarrow>
      ds_ck_stack_upmc_verify sd n hp A = DS_SUCCESS)"
proof -
  let ?nx = "st_next \<circ> st_nodes A" and ?p = "st_head (st_heads A hp)"
  have v: "ds_ck_stack_upmc_verify sd n hp A = st_verify_loop n ((?nx ^^ 0) ?p) ((?nx ^^ (2 * 0)) ?p) A" for n
    using assms by (simp add: ds_variant ds_ck_stack_upmc_verify_lkmm_def Let_def)
  show ?thesis
  proof (cases "\<exists>i. (?nx ^^ i) ?p = NULL")
    case True
    define m where "m = (LEAST i. (?nx ^^ i) ?p = NULL)"
    have "(?nx ^^ m) ?p = NULL" "\<And>j. j < m \<Longrightarrow> (?nx ^^ j) ?p \<noteq> NULL"
      using True unfolding m_def by (auto intro: LeastI dest: not_less_Least)
    then have "st_verify_loop n ((?nx ^^ 0) ?p) ((?nx ^^ (2 * 0)) ?p) A = DS_SUCCESS" for n
      by (rule st_verify_ends) simp_all
    then show ?thesis using True v by simp
  next
    case False
    obtain k where k: "0 < k" "(?nx ^^ k) ?p = (?nx ^^ (2 * k)) ?p" using chain_meets by blast
    have "st_verify_loop n ((?nx ^^ 0) ?p) ((?nx ^^ (2 * 0)) ?p) A = DS_ERROR_CORRUPT" if "k \<le> n" for n
      using False k that by (intro st_verify_cycle [where k = k]) auto
    then show ?thesis using False v by (intro exI [of _ k]) simp
  qed
qed

theorem st_verify_exact_witness: "ds_ck_stack_upmc_verify BPF 10 0x1000 st_demo = DS_SUCCESS"
proof -
  have "((st_next \<circ> st_nodes st_demo) ^^ 0) (st_head (st_heads st_demo 0x1000)) = NULL"
    by (simp add: st_demo_def)
  moreover obtain N where "\<forall>n. (\<exists>i. ((st_next \<circ> st_nodes st_demo) ^^ i) (st_head (st_heads st_demo 0x1000)) = NULL) \<longrightarrow>
      ds_ck_stack_upmc_verify BPF n 0x1000 st_demo = DS_SUCCESS"
    using st_verify_exact [of "0x1000" BPF st_demo] by auto
  ultimately show ?thesis by blast
qed

end
