(* ===== verification/CkFifoSpsc.thy ===== *)
theory CkFifoSpsc
  imports NodeHeap
begin

text \<open>
  The linked single-producer single-consumer queue of \<^verbatim>\<open>include/ds_ck_fifo_spsc.h\<close>
  (after Concurrency Kit).  The head points to a stub whose successor is the front; the
  entries from \<open>garbage\<close> up to the head have been consumed and are recycled by the
  producer, which remembers in \<open>head_snapshot\<close> how far it may go.
\<close>

subsection \<open>State\<close>

record ds_ck_fifo_spsc_entry =
  cf_value :: ptr
  cf_next :: ptr
  cf_kv :: ds_kv

record ds_ck_fifo_spsc =
  cf_head :: ptr
  cf_tail :: ptr
  cf_head_snapshot :: ptr
  cf_garbage :: ptr

record 'a cf_arena =
  cf_heads :: "ptr \<Rightarrow> ds_ck_fifo_spsc"
  cf_nodes :: "ptr \<Rightarrow> ds_ck_fifo_spsc_entry"
  cf_alloc :: 'a

definition cf_set_head :: "ptr \<Rightarrow> ds_ck_fifo_spsc \<Rightarrow> 'a cf_arena \<Rightarrow> 'a cf_arena" where
  "cf_set_head hp h A = A\<lparr>cf_heads := (cf_heads A)(hp := h)\<rparr>"

definition cf_set_node :: "ptr \<Rightarrow> ds_ck_fifo_spsc_entry \<Rightarrow> 'a cf_arena \<Rightarrow> 'a cf_arena" where
  "cf_set_node a e A = A\<lparr>cf_nodes := (cf_nodes A)(a := e)\<rparr>"

lemma cf_set_acc [simp]:
  "cf_heads (cf_set_head hp h A) = (cf_heads A)(hp := h)" "cf_nodes (cf_set_head hp h A) = cf_nodes A"
  "cf_alloc (cf_set_head hp h A) = cf_alloc A"
  "cf_heads (cf_set_node a e A) = cf_heads A" "cf_nodes (cf_set_node a e A) = (cf_nodes A)(a := e)"
  "cf_alloc (cf_set_node a e A) = cf_alloc A"
  by (simp_all add: cf_set_head_def cf_set_node_def)

text \<open>
  An entry has 32 bytes and its \<^verbatim>\<open>kv\<close> starts at byte 16; \<open>cf_payload\<close> is the
  address of the payload of an entry, \<open>cf_payload_kv\<close> reads a payload by its address.
\<close>

definition cf_entry_bytes :: u32 where "cf_entry_bytes = 32"

definition cf_payload :: "ptr \<Rightarrow> ptr" where "cf_payload entry = entry + 16"

definition cf_payload_kv :: "ptr \<Rightarrow> 'a cf_arena \<Rightarrow> ds_kv" where
  "cf_payload_kv payload A = cf_kv (cf_nodes A (payload - 16))"

subsection \<open>The queue of entries\<close>

definition ds_ck_fifo_spsc_fifo_init_lkmm :: "ptr \<Rightarrow> ptr \<Rightarrow> 'a cf_arena \<Rightarrow> 'a cf_arena" where
  "ds_ck_fifo_spsc_fifo_init_lkmm hp stub A =
     (let A = cf_set_node stub ((cf_nodes A stub)\<lparr>cf_next := NULL\<rparr>) A in
      cf_set_head hp ((cf_heads A hp)\<lparr>cf_head := stub, cf_tail := stub, cf_head_snapshot := stub,
        cf_garbage := stub\<rparr>) A)"

definition ds_ck_fifo_spsc_fifo_init_c :: "ptr \<Rightarrow> ptr \<Rightarrow> 'a cf_arena \<Rightarrow> 'a cf_arena" where
  "ds_ck_fifo_spsc_fifo_init_c hp stub A =
     (let A = cf_set_node stub ((cf_nodes A stub)\<lparr>cf_next := NULL\<rparr>) A in
      cf_set_head hp ((cf_heads A hp)\<lparr>cf_head := stub, cf_tail := stub, cf_head_snapshot := stub,
        cf_garbage := stub\<rparr>) A)"

definition ds_ck_fifo_spsc_fifo_init :: "side \<Rightarrow> ptr \<Rightarrow> ptr \<Rightarrow> 'a cf_arena \<Rightarrow> 'a cf_arena" where
  "ds_ck_fifo_spsc_fifo_init sd hp stub A =
     (case sd of BPF \<Rightarrow> ds_ck_fifo_spsc_fifo_init_lkmm hp stub A | USERSPACE \<Rightarrow> ds_ck_fifo_spsc_fifo_init_c hp stub A)"

definition ds_ck_fifo_spsc_enqueue_lkmm :: "ptr \<Rightarrow> ptr \<Rightarrow> ptr \<Rightarrow> 'a cf_arena \<Rightarrow> 'a cf_arena" where
  "ds_ck_fifo_spsc_enqueue_lkmm hp entry v A =
     (let A = cf_set_node entry ((cf_nodes A entry)\<lparr>cf_value := v\<rparr>) A;
          A = cf_set_node entry ((cf_nodes A entry)\<lparr>cf_next := NULL\<rparr>) A;
          tail = cf_tail (cf_heads A hp);
          A = cf_set_node tail ((cf_nodes A tail)\<lparr>cf_next := entry\<rparr>) A in
      cf_set_head hp ((cf_heads A hp)\<lparr>cf_tail := entry\<rparr>) A)"

definition ds_ck_fifo_spsc_enqueue_c :: "ptr \<Rightarrow> ptr \<Rightarrow> ptr \<Rightarrow> 'a cf_arena \<Rightarrow> 'a cf_arena" where
  "ds_ck_fifo_spsc_enqueue_c hp entry v A =
     (let A = cf_set_node entry ((cf_nodes A entry)\<lparr>cf_value := v\<rparr>) A;
          A = cf_set_node entry ((cf_nodes A entry)\<lparr>cf_next := NULL\<rparr>) A;
          tail = cf_tail (cf_heads A hp);
          A = cf_set_node tail ((cf_nodes A tail)\<lparr>cf_next := entry\<rparr>) A in
      cf_set_head hp ((cf_heads A hp)\<lparr>cf_tail := entry\<rparr>) A)"

definition ds_ck_fifo_spsc_enqueue :: "side \<Rightarrow> ptr \<Rightarrow> ptr \<Rightarrow> ptr \<Rightarrow> 'a cf_arena \<Rightarrow> 'a cf_arena" where
  "ds_ck_fifo_spsc_enqueue sd hp entry v A =
     (case sd of BPF \<Rightarrow> ds_ck_fifo_spsc_enqueue_lkmm hp entry v A | USERSPACE \<Rightarrow> ds_ck_fifo_spsc_enqueue_c hp entry v A)"

text \<open>The output cell of dequeue is \<open>None\<close> for a NULL pointer.\<close>

definition ds_ck_fifo_spsc_dequeue_lkmm ::
  "ptr \<Rightarrow> ptr option \<Rightarrow> 'a cf_arena \<Rightarrow> bool \<times> ptr option \<times> 'a cf_arena" where
  "ds_ck_fifo_spsc_dequeue_lkmm hp value_out A =
     (let head = cf_head (cf_heads A hp);
          entry = cf_next (cf_nodes A head) in
      if entry = NULL then (False, value_out, A)
      else
        let value_out = map_option (\<lambda>_. cf_value (cf_nodes A entry)) value_out in
        (True, value_out, cf_set_head hp ((cf_heads A hp)\<lparr>cf_head := entry\<rparr>) A))"

definition ds_ck_fifo_spsc_dequeue_c ::
  "ptr \<Rightarrow> ptr option \<Rightarrow> 'a cf_arena \<Rightarrow> bool \<times> ptr option \<times> 'a cf_arena" where
  "ds_ck_fifo_spsc_dequeue_c hp value_out A =
     (let head = cf_head (cf_heads A hp);
          entry = cf_next (cf_nodes A head) in
      if entry = NULL then (False, value_out, A)
      else
        let value_out = map_option (\<lambda>_. cf_value (cf_nodes A entry)) value_out in
        (True, value_out, cf_set_head hp ((cf_heads A hp)\<lparr>cf_head := entry\<rparr>) A))"

definition ds_ck_fifo_spsc_dequeue :: "side \<Rightarrow> ptr \<Rightarrow> ptr option \<Rightarrow> 'a cf_arena \<Rightarrow> bool \<times> ptr option \<times> 'a cf_arena" where
  "ds_ck_fifo_spsc_dequeue sd hp value_out A =
     (case sd of BPF \<Rightarrow> ds_ck_fifo_spsc_dequeue_lkmm hp value_out A | USERSPACE \<Rightarrow> ds_ck_fifo_spsc_dequeue_c hp value_out A)"

definition ds_ck_fifo_spsc_isempty_lkmm :: "ptr \<Rightarrow> 'a cf_arena \<Rightarrow> bool" where
  "ds_ck_fifo_spsc_isempty_lkmm hp A \<longleftrightarrow>
     (let head = cf_head (cf_heads A hp) in cf_next (cf_nodes A head) = NULL)"

definition ds_ck_fifo_spsc_isempty_c :: "ptr \<Rightarrow> 'a cf_arena \<Rightarrow> bool" where
  "ds_ck_fifo_spsc_isempty_c hp A \<longleftrightarrow>
     (let head = cf_head (cf_heads A hp) in cf_next (cf_nodes A head) = NULL)"

definition ds_ck_fifo_spsc_isempty :: "side \<Rightarrow> ptr \<Rightarrow> 'a cf_arena \<Rightarrow> bool" where
  "ds_ck_fifo_spsc_isempty sd hp A =
     (case sd of BPF \<Rightarrow> ds_ck_fifo_spsc_isempty_lkmm hp A | USERSPACE \<Rightarrow> ds_ck_fifo_spsc_isempty_c hp A)"

definition ds_ck_fifo_spsc_recycle_lkmm :: "ptr \<Rightarrow> 'a cf_arena \<Rightarrow> ptr \<times> 'a cf_arena" where
  "ds_ck_fifo_spsc_recycle_lkmm hp A =
     (let A = (if cf_head_snapshot (cf_heads A hp) = cf_garbage (cf_heads A hp)
               then cf_set_head hp ((cf_heads A hp)\<lparr>cf_head_snapshot := cf_head (cf_heads A hp)\<rparr>) A
               else A) in
      if cf_head_snapshot (cf_heads A hp) = cf_garbage (cf_heads A hp) then (NULL, A)
      else
        let garbage = cf_garbage (cf_heads A hp) in
        (garbage, cf_set_head hp ((cf_heads A hp)\<lparr>cf_garbage := cf_next (cf_nodes A garbage)\<rparr>) A))"

definition ds_ck_fifo_spsc_recycle_c :: "ptr \<Rightarrow> 'a cf_arena \<Rightarrow> ptr \<times> 'a cf_arena" where
  "ds_ck_fifo_spsc_recycle_c hp A =
     (let A = (if cf_head_snapshot (cf_heads A hp) = cf_garbage (cf_heads A hp)
               then cf_set_head hp ((cf_heads A hp)\<lparr>cf_head_snapshot := cf_head (cf_heads A hp)\<rparr>) A
               else A) in
      if cf_head_snapshot (cf_heads A hp) = cf_garbage (cf_heads A hp) then (NULL, A)
      else
        let garbage = cf_garbage (cf_heads A hp) in
        (garbage, cf_set_head hp ((cf_heads A hp)\<lparr>cf_garbage := cf_next (cf_nodes A garbage)\<rparr>) A))"

definition ds_ck_fifo_spsc_recycle :: "side \<Rightarrow> ptr \<Rightarrow> 'a cf_arena \<Rightarrow> ptr \<times> 'a cf_arena" where
  "ds_ck_fifo_spsc_recycle sd hp A =
     (case sd of BPF \<Rightarrow> ds_ck_fifo_spsc_recycle_lkmm hp A | USERSPACE \<Rightarrow> ds_ck_fifo_spsc_recycle_c hp A)"

subsection \<open>The key-value interface\<close>

definition ds_ck_fifo_spsc_init_lkmm :: "'a allocator \<Rightarrow> ptr \<Rightarrow> 'a cf_arena \<Rightarrow> int \<times> 'a cf_arena" where
  "ds_ck_fifo_spsc_init_lkmm bpf_arena_alloc hp A =
     (if hp = NULL then (DS_ERROR_INVALID, A)
      else
        let (stub, al) = bpf_arena_alloc cf_entry_bytes (cf_alloc A);
            A = A\<lparr>cf_alloc := al\<rparr> in
        if stub = NULL then (DS_ERROR_NOMEM, A)
        else
          let A = cf_set_node stub ((cf_nodes A stub)\<lparr>cf_value := NULL, cf_kv := \<lparr>key = 0, val = 0\<rparr>\<rparr>) A in
          (DS_SUCCESS, ds_ck_fifo_spsc_fifo_init_lkmm hp stub A))"

definition ds_ck_fifo_spsc_init_c :: "'a allocator \<Rightarrow> ptr \<Rightarrow> 'a cf_arena \<Rightarrow> int \<times> 'a cf_arena" where
  "ds_ck_fifo_spsc_init_c bpf_arena_alloc hp A =
     (if hp = NULL then (DS_ERROR_INVALID, A)
      else
        let (stub, al) = bpf_arena_alloc cf_entry_bytes (cf_alloc A);
            A = A\<lparr>cf_alloc := al\<rparr> in
        if stub = NULL then (DS_ERROR_NOMEM, A)
        else
          let A = cf_set_node stub ((cf_nodes A stub)\<lparr>cf_value := NULL, cf_kv := \<lparr>key = 0, val = 0\<rparr>\<rparr>) A in
          (DS_SUCCESS, ds_ck_fifo_spsc_fifo_init_c hp stub A))"

definition ds_ck_fifo_spsc_init :: "side \<Rightarrow> 'a allocator \<Rightarrow> ptr \<Rightarrow> 'a cf_arena \<Rightarrow> int \<times> 'a cf_arena" where
  "ds_ck_fifo_spsc_init sd bpf_arena_alloc hp A =
     (case sd of BPF \<Rightarrow> ds_ck_fifo_spsc_init_lkmm bpf_arena_alloc hp A | USERSPACE \<Rightarrow> ds_ck_fifo_spsc_init_c bpf_arena_alloc hp A)"

definition ds_ck_fifo_spsc_insert_lkmm ::
  "'a allocator \<Rightarrow> ptr \<Rightarrow> u64 \<Rightarrow> u64 \<Rightarrow> 'a cf_arena \<Rightarrow> int \<times> 'a cf_arena" where
  "ds_ck_fifo_spsc_insert_lkmm bpf_arena_alloc hp k v A =
     (if hp = NULL then (DS_ERROR_INVALID, A)
      else
        let (entry, A) = ds_ck_fifo_spsc_recycle_lkmm hp A;
            (entry, A) =
              (if entry = NULL then
                 let (entry, al) = bpf_arena_alloc cf_entry_bytes (cf_alloc A) in (entry, A\<lparr>cf_alloc := al\<rparr>)
               else (entry, A)) in
        if entry = NULL then (DS_ERROR_NOMEM, A)
        else
          let A = cf_set_node entry ((cf_nodes A entry)\<lparr>cf_kv := \<lparr>key = k, val = v\<rparr>\<rparr>) A;
              payload = cf_payload entry in
          (DS_SUCCESS, ds_ck_fifo_spsc_enqueue_lkmm hp entry payload A))"

definition ds_ck_fifo_spsc_insert_c ::
  "'a allocator \<Rightarrow> ptr \<Rightarrow> u64 \<Rightarrow> u64 \<Rightarrow> 'a cf_arena \<Rightarrow> int \<times> 'a cf_arena" where
  "ds_ck_fifo_spsc_insert_c bpf_arena_alloc hp k v A =
     (if hp = NULL then (DS_ERROR_INVALID, A)
      else
        let (entry, A) = ds_ck_fifo_spsc_recycle_c hp A;
            (entry, A) =
              (if entry = NULL then
                 let (entry, al) = bpf_arena_alloc cf_entry_bytes (cf_alloc A) in (entry, A\<lparr>cf_alloc := al\<rparr>)
               else (entry, A)) in
        if entry = NULL then (DS_ERROR_NOMEM, A)
        else
          let A = cf_set_node entry ((cf_nodes A entry)\<lparr>cf_kv := \<lparr>key = k, val = v\<rparr>\<rparr>) A;
              payload = cf_payload entry in
          (DS_SUCCESS, ds_ck_fifo_spsc_enqueue_c hp entry payload A))"

definition ds_ck_fifo_spsc_insert :: "side \<Rightarrow> 'a allocator \<Rightarrow> ptr \<Rightarrow> u64 \<Rightarrow> u64 \<Rightarrow> 'a cf_arena \<Rightarrow> int \<times> 'a cf_arena" where
  "ds_ck_fifo_spsc_insert sd bpf_arena_alloc hp k v A =
     (case sd of BPF \<Rightarrow> ds_ck_fifo_spsc_insert_lkmm bpf_arena_alloc hp k v A | USERSPACE \<Rightarrow> ds_ck_fifo_spsc_insert_c bpf_arena_alloc hp k v A)"

text \<open>The local cell that receives the payload pointer is uninitialised before; it starts as 0 here.\<close>

definition ds_ck_fifo_spsc_delete_lkmm ::
  "ptr \<Rightarrow> ds_kv option \<Rightarrow> 'a cf_arena \<Rightarrow> int \<times> ds_kv option \<times> 'a cf_arena" where
  "ds_ck_fifo_spsc_delete_lkmm hp out A =
     (if hp = NULL then (DS_ERROR_INVALID, out, A)
      else
        let (found, cell, A) = ds_ck_fifo_spsc_dequeue_lkmm hp (Some 0) A in
        if \<not> found then (DS_ERROR_NOT_FOUND, out, A)
        else
          case out of
            None \<Rightarrow> (DS_SUCCESS, out, A)
          | Some d \<Rightarrow>
              let payload = the cell in
              if payload = NULL then (DS_ERROR_CORRUPT, out, A)
              else (DS_SUCCESS,
                Some (d\<lparr>key := key (cf_payload_kv payload A), val := val (cf_payload_kv payload A)\<rparr>), A))"

definition ds_ck_fifo_spsc_delete_c ::
  "ptr \<Rightarrow> ds_kv option \<Rightarrow> 'a cf_arena \<Rightarrow> int \<times> ds_kv option \<times> 'a cf_arena" where
  "ds_ck_fifo_spsc_delete_c hp out A =
     (if hp = NULL then (DS_ERROR_INVALID, out, A)
      else
        let (found, cell, A) = ds_ck_fifo_spsc_dequeue_c hp (Some 0) A in
        if \<not> found then (DS_ERROR_NOT_FOUND, out, A)
        else
          case out of
            None \<Rightarrow> (DS_SUCCESS, out, A)
          | Some d \<Rightarrow>
              let payload = the cell in
              if payload = NULL then (DS_ERROR_CORRUPT, out, A)
              else (DS_SUCCESS,
                Some (d\<lparr>key := key (cf_payload_kv payload A), val := val (cf_payload_kv payload A)\<rparr>), A))"

definition ds_ck_fifo_spsc_delete :: "side \<Rightarrow> ptr \<Rightarrow> ds_kv option \<Rightarrow> 'a cf_arena \<Rightarrow> int \<times> ds_kv option \<times> 'a cf_arena" where
  "ds_ck_fifo_spsc_delete sd hp out A =
     (case sd of BPF \<Rightarrow> ds_ck_fifo_spsc_delete_lkmm hp out A | USERSPACE \<Rightarrow> ds_ck_fifo_spsc_delete_c hp out A)"

definition ds_ck_fifo_spsc_pop ::
  "side \<Rightarrow> ptr \<Rightarrow> ds_kv option \<Rightarrow> 'a cf_arena \<Rightarrow> int \<times> ds_kv option \<times> 'a cf_arena" where
  "ds_ck_fifo_spsc_pop sd hp out A = ds_ck_fifo_spsc_delete sd hp out A"

definition ds_ck_fifo_spsc_search :: "ptr \<Rightarrow> u64 \<Rightarrow> 'a cf_arena \<Rightarrow> int" where
  "ds_ck_fifo_spsc_search hp k A = DS_ERROR_INVALID"

subsection \<open>The verifier\<close>

function cf_verify_loop :: "int \<Rightarrow> ptr \<Rightarrow> ptr \<Rightarrow> 'a cf_arena \<Rightarrow> int" where
  "cf_verify_loop i cursor tail A =
     (if i < 100000 then
        if cursor = tail then DS_SUCCESS
        else
          let cursor = cf_next (cf_nodes A cursor) in
          if cursor = NULL then DS_ERROR_CORRUPT else cf_verify_loop (i + 1) cursor tail A
      else DS_ERROR_CORRUPT)"
  by pat_completeness auto
termination
  by (relation "measure (\<lambda>(i, cursor, tail, A). nat (100000 - i))") auto

declare cf_verify_loop.simps [simp del]

definition ds_ck_fifo_spsc_verify_lkmm :: "ptr \<Rightarrow> 'a cf_arena \<Rightarrow> int" where
  "ds_ck_fifo_spsc_verify_lkmm hp A =
     (if hp = NULL then DS_ERROR_INVALID
      else
        let h = cf_heads A hp in
        if cf_head h = NULL \<or> cf_tail h = NULL \<or> cf_garbage h = NULL then DS_ERROR_CORRUPT
        else
          let cursor = cf_head h; tail = cf_tail h in
          if cursor = NULL \<or> tail = NULL then DS_ERROR_CORRUPT
          else cf_verify_loop 0 cursor tail A)"

definition ds_ck_fifo_spsc_verify_c :: "ptr \<Rightarrow> 'a cf_arena \<Rightarrow> int" where
  "ds_ck_fifo_spsc_verify_c hp A =
     (if hp = NULL then DS_ERROR_INVALID
      else
        let h = cf_heads A hp in
        if cf_head h = NULL \<or> cf_tail h = NULL \<or> cf_garbage h = NULL then DS_ERROR_CORRUPT
        else
          let cursor = cf_head h; tail = cf_tail h in
          if cursor = NULL \<or> tail = NULL then DS_ERROR_CORRUPT
          else cf_verify_loop 0 cursor tail A)"

definition ds_ck_fifo_spsc_verify :: "side \<Rightarrow> ptr \<Rightarrow> 'a cf_arena \<Rightarrow> int" where
  "ds_ck_fifo_spsc_verify sd hp A =
     (case sd of BPF \<Rightarrow> ds_ck_fifo_spsc_verify_lkmm hp A | USERSPACE \<Rightarrow> ds_ck_fifo_spsc_verify_c hp A)"

subsection \<open>The variants agree\<close>

lemma cf_entry_variants:
  "ds_ck_fifo_spsc_fifo_init_c = ds_ck_fifo_spsc_fifo_init_lkmm" "ds_ck_fifo_spsc_enqueue_c = ds_ck_fifo_spsc_enqueue_lkmm"
  "ds_ck_fifo_spsc_dequeue_c = ds_ck_fifo_spsc_dequeue_lkmm" "ds_ck_fifo_spsc_recycle_c = ds_ck_fifo_spsc_recycle_lkmm"
  by (intro ext, simp add: ds_ck_fifo_spsc_fifo_init_c_def ds_ck_fifo_spsc_fifo_init_lkmm_def
      ds_ck_fifo_spsc_enqueue_c_def ds_ck_fifo_spsc_enqueue_lkmm_def ds_ck_fifo_spsc_dequeue_c_def
      ds_ck_fifo_spsc_dequeue_lkmm_def ds_ck_fifo_spsc_recycle_c_def ds_ck_fifo_spsc_recycle_lkmm_def)+

lemma cf_isempty_variants: "ds_ck_fifo_spsc_isempty_c = ds_ck_fifo_spsc_isempty_lkmm"
  unfolding ds_ck_fifo_spsc_isempty_c_def ds_ck_fifo_spsc_isempty_lkmm_def ..

lemma cf_isempty_side [ds_variant]: "ds_ck_fifo_spsc_isempty sd = ds_ck_fifo_spsc_isempty_lkmm"
  by (intro ext) (cases sd, simp_all add: ds_ck_fifo_spsc_isempty_def cf_isempty_variants)

lemma cf_init_variants: "ds_ck_fifo_spsc_init_c = ds_ck_fifo_spsc_init_lkmm"
  unfolding ds_ck_fifo_spsc_init_c_def ds_ck_fifo_spsc_init_lkmm_def cf_entry_variants ..

lemma cf_init_side [ds_variant]: "ds_ck_fifo_spsc_init sd = ds_ck_fifo_spsc_init_lkmm"
  by (intro ext) (cases sd, simp_all add: ds_ck_fifo_spsc_init_def cf_init_variants)

lemma cf_insert_variants: "ds_ck_fifo_spsc_insert_c = ds_ck_fifo_spsc_insert_lkmm"
  unfolding ds_ck_fifo_spsc_insert_c_def ds_ck_fifo_spsc_insert_lkmm_def cf_entry_variants ..

lemma cf_insert_side [ds_variant]: "ds_ck_fifo_spsc_insert sd = ds_ck_fifo_spsc_insert_lkmm"
  by (intro ext) (cases sd, simp_all add: ds_ck_fifo_spsc_insert_def cf_insert_variants)

lemma cf_delete_variants: "ds_ck_fifo_spsc_delete_c = ds_ck_fifo_spsc_delete_lkmm"
  unfolding ds_ck_fifo_spsc_delete_c_def ds_ck_fifo_spsc_delete_lkmm_def cf_entry_variants ..

lemma cf_delete_side [ds_variant]: "ds_ck_fifo_spsc_delete sd = ds_ck_fifo_spsc_delete_lkmm"
  by (intro ext) (cases sd, simp_all add: ds_ck_fifo_spsc_delete_def cf_delete_variants)

lemma cf_verify_variants: "ds_ck_fifo_spsc_verify_c = ds_ck_fifo_spsc_verify_lkmm"
  unfolding ds_ck_fifo_spsc_verify_c_def ds_ck_fifo_spsc_verify_lkmm_def ..

lemma cf_verify_side [ds_variant]: "ds_ck_fifo_spsc_verify sd = ds_ck_fifo_spsc_verify_lkmm"
  by (intro ext) (cases sd, simp_all add: ds_ck_fifo_spsc_verify_def cf_verify_variants)

lemma cf_pop_side [ds_variant]: "ds_ck_fifo_spsc_pop sd = ds_ck_fifo_spsc_delete_lkmm"
  by (intro ext) (simp add: ds_ck_fifo_spsc_pop_def cf_delete_side)

subsection \<open>What a queue represents\<close>

text \<open>
  The chain from \<open>garbage\<close>: recyclable entries \<open>gs\<close>, the stub at the head, the queued
  entries \<open>qs\<close>.  Queued entries point to their own payload; every entry of the chain lies
  in memory the allocator handed out.
\<close>

definition cf_chain :: "ds_ck_fifo_spsc \<Rightarrow> (ptr \<Rightarrow> ds_ck_fifo_spsc_entry) \<Rightarrow> nat set \<Rightarrow> ptr list \<Rightarrow> ptr list \<Rightarrow> bool" where
  "cf_chain h m us gs qs \<longleftrightarrow>
     seg (cf_next \<circ> m) (cf_garbage h) (gs @ cf_head h # qs) NULL \<and>
     cf_tail h = last (cf_head h # qs) \<and>
     cf_head_snapshot h \<in> set (gs @ [cf_head h]) \<and>
     (\<forall>q \<in> set qs. cf_value (m q) = cf_payload q) \<and>
     (\<forall>a \<in> set (gs @ cf_head h # qs). block a cf_entry_bytes \<subseteq> us \<and> unat a + 32 \<le> 2 ^ 64)"

definition cf_queue :: "('a \<Rightarrow> bool) \<Rightarrow> ('a \<Rightarrow> nat set) \<Rightarrow> ptr \<Rightarrow> 'a cf_arena \<Rightarrow> ds_kv list \<Rightarrow> bool" where
  "cf_queue ok used hp A xs \<longleftrightarrow> hp \<noteq> NULL \<and> ok (cf_alloc A) \<and>
     (\<exists>gs qs. cf_chain (cf_heads A hp) (cf_nodes A) (used (cf_alloc A)) gs qs \<and>
        xs = map (cf_kv \<circ> cf_nodes A) qs)"

text \<open>An insert finds an entry: one to recycle, or one from the allocator.\<close>

definition cf_room :: "'a allocator \<Rightarrow> ptr \<Rightarrow> 'a cf_arena \<Rightarrow> bool" where
  "cf_room alloc hp A \<longleftrightarrow>
     fst (ds_ck_fifo_spsc_recycle_lkmm hp A) \<noteq> NULL \<or> fst (alloc cf_entry_bytes (cf_alloc A)) \<noteq> NULL"

lemma cf_queueE:
  assumes "cf_queue ok used hp A xs"
  obtains gs qs where "hp \<noteq> NULL" "ok (cf_alloc A)"
    "cf_chain (cf_heads A hp) (cf_nodes A) (used (cf_alloc A)) gs qs" "xs = map (cf_kv \<circ> cf_nodes A) qs"
  using assms by (auto simp: cf_queue_def)

lemma cf_queueI:
  "hp \<noteq> NULL \<Longrightarrow> ok (cf_alloc A) \<Longrightarrow>
   cf_chain (cf_heads A hp) (cf_nodes A) (used (cf_alloc A)) gs qs \<Longrightarrow>
   xs = map (cf_kv \<circ> cf_nodes A) qs \<Longrightarrow> cf_queue ok used hp A xs"
  by (auto simp: cf_queue_def)

lemma cf_chain_mono: "cf_chain h m us gs qs \<Longrightarrow> us \<subseteq> vs \<Longrightarrow> cf_chain h m vs gs qs"
  by (fastforce simp: cf_chain_def)

lemma cf_payload_not_null: "unat a + 32 \<le> 2 ^ 64 \<Longrightarrow> cf_payload a \<noteq> NULL"
proof
  assume a: "unat a + 32 \<le> 2 ^ 64" and "cf_payload a = NULL"
  then have "unat (a + 16) = 0" by (simp add: cf_payload_def)
  moreover have "unat (a + 16) = unat a + 16" using a by (subst unat_plus_u64) simp_all
  ultimately show False by simp
qed

lemma cf_payload_kv_own [simp]:
  "cf_payload_kv (cf_payload a) A = cf_kv (cf_nodes A a)"
  by (simp add: cf_payload_kv_def cf_payload_def)

text \<open>Recycling hands out the oldest consumed entry, which leaves the chain.\<close>

lemma cf_recycle:
  assumes c: "cf_chain (cf_heads A hp) (cf_nodes A) us gs qs"
    and r: "ds_ck_fifo_spsc_recycle_lkmm hp A = (e, A1)"
  shows "cf_nodes A1 = cf_nodes A" "cf_alloc A1 = cf_alloc A"
    and "e = NULL \<Longrightarrow> cf_chain (cf_heads A1 hp) (cf_nodes A1) us gs qs"
    and "e \<noteq> NULL \<Longrightarrow> \<exists>gs'. gs = e # gs' \<and> cf_chain (cf_heads A1 hp) (cf_nodes A1) us gs' qs"
proof -
  let ?h = "cf_heads A hp"
  define s where "s = (if cf_head_snapshot ?h = cf_garbage ?h then cf_head ?h else cf_head_snapshot ?h)"
  have sg: "seg (cf_next \<circ> cf_nodes A) (cf_garbage ?h) (gs @ cf_head ?h # qs) NULL"
    and s: "s \<in> set (gs @ [cf_head ?h])" using c by (auto simp: cf_chain_def s_def)
  have g: "cf_garbage ?h = hd (gs @ [cf_head ?h])" "cf_garbage ?h \<noteq> NULL" using sg by (cases gs; auto)+
  have A1: "(e, A1) = (if s = cf_garbage ?h then (NULL, cf_set_head hp (?h\<lparr>cf_head_snapshot := s\<rparr>) A)
     else (cf_garbage ?h, cf_set_head hp (?h\<lparr>cf_head_snapshot := s,
       cf_garbage := cf_next (cf_nodes A (cf_garbage ?h))\<rparr>) A))"
    using r by (auto simp: ds_ck_fifo_spsc_recycle_lkmm_def Let_def s_def cf_set_head_def fun_upd_idem)
  then show "cf_nodes A1 = cf_nodes A" "cf_alloc A1 = cf_alloc A" by (auto split: if_splits)
  show "cf_chain (cf_heads A1 hp) (cf_nodes A1) us gs qs" if "e = NULL"
    using A1 that g(2) c s by (auto simp: cf_chain_def split: if_splits)
  show "\<exists>gs'. gs = e # gs' \<and> cf_chain (cf_heads A1 hp) (cf_nodes A1) us gs' qs" if "e \<noteq> NULL"
  proof -
    have e: "e = cf_garbage ?h" "s \<noteq> e"
      and H: "A1 = cf_set_head hp (?h\<lparr>cf_head_snapshot := s, cf_garbage := cf_next (cf_nodes A e)\<rparr>) A"
      using A1 that by (auto split: if_splits)
    then obtain gs' where gs: "gs = e # gs'" using g(1) s by (cases gs) auto
    have "seg (cf_next \<circ> cf_nodes A) (cf_next (cf_nodes A e)) (gs' @ cf_head ?h # qs) NULL"
      using sg gs by simp
    moreover have "s \<in> set (gs' @ [cf_head ?h])" using s e(2) gs by simp
    ultimately show ?thesis using c gs by (auto simp: cf_chain_def H)
  qed
qed

text \<open>Appending an entry that is not in the chain.\<close>

lemma cf_enqueue:
  assumes c: "cf_chain (cf_heads A hp) (cf_nodes A) us gs qs"
    and e: "e \<noteq> NULL" "e \<notin> set (gs @ cf_head (cf_heads A hp) # qs)"
      "block e cf_entry_bytes \<subseteq> us" "unat e + 32 \<le> 2 ^ 64"
    and B: "B = ds_ck_fifo_spsc_enqueue_lkmm hp e (cf_payload e)
      (cf_set_node e ((cf_nodes A e)\<lparr>cf_kv := x\<rparr>) A)"
  shows "cf_chain (cf_heads B hp) (cf_nodes B) us gs (qs @ [e])"
    and "map (cf_kv \<circ> cf_nodes B) (qs @ [e]) = map (cf_kv \<circ> cf_nodes A) qs @ [x]"
    and "cf_alloc B = cf_alloc A"
proof -
  let ?h = "cf_heads A hp"
  let ?t = "cf_tail ?h"
  let ?as = "gs @ cf_head ?h # qs"
  define us' where "us' = butlast (cf_head ?h # qs)"
  have t: "?t = last (cf_head ?h # qs)" using c by (simp add: cf_chain_def)
  then have as: "?as = gs @ us' @ [?t]" by (simp add: us'_def)
  have sg: "seg (cf_next \<circ> cf_nodes A) (cf_garbage ?h) (gs @ us' @ [?t]) NULL"
    unfolding as [symmetric] using c by (simp add: cf_chain_def)
  then have d: "?t \<notin> set (gs @ us')" and et: "e \<noteq> ?t" and eu: "e \<notin> set (gs @ us')"
    using seg_distinct [OF sg] e(2) unfolding as by auto
  have nB: "cf_nodes B = (cf_nodes A)(e := \<lparr>cf_value = cf_payload e, cf_next = NULL, cf_kv = x\<rparr>,
      ?t := (cf_nodes A ?t)\<lparr>cf_next := e\<rparr>)"
    and hB: "cf_heads B hp = ?h\<lparr>cf_tail := e\<rparr>"
    using et by (cases "cf_nodes A e"; simp add: B ds_ck_fifo_spsc_enqueue_lkmm_def Let_def)+
  show "cf_alloc B = cf_alloc A" by (simp add: B ds_ck_fifo_spsc_enqueue_lkmm_def Let_def)
  have kv: "cf_kv (cf_nodes B a) = cf_kv (cf_nodes A a)" "cf_value (cf_nodes B a) = cf_value (cf_nodes A a)"
    if "a \<noteq> e" for a using that by (auto simp: nB)
  have q: "e \<notin> set qs" using e(2) by simp
  then show "map (cf_kv \<circ> cf_nodes B) (qs @ [e]) = map (cf_kv \<circ> cf_nodes A) qs @ [x]"
    using kv(1) et by (auto simp: nB)
  have "seg (cf_next \<circ> cf_nodes B) (cf_garbage ?h) ((gs @ us') @ [?t]) e"
    using sg d eu et e(1) by (simp add: nB seg_snoc seg_append del: append_assoc flip: append_assoc)
  then have "seg (cf_next \<circ> cf_nodes B) (cf_garbage ?h) (?as @ [e]) NULL"
    using e(1) et as by (simp add: seg_append nB)
  then show "cf_chain (cf_heads B hp) (cf_nodes B) us gs (qs @ [e])"
    using c e(3,4) q kv(2) et by (auto simp: cf_chain_def hB nB)
qed

context arena_allocator
begin

lemma cf_insert_room:
  assumes q: "cf_queue ok used hp A xs" and r: "cf_room alloc hp A"
  shows "\<exists>A'. ds_ck_fifo_spsc_insert_lkmm alloc hp (key x) (val x) A = (DS_SUCCESS, A') \<and>
    cf_queue ok used hp A' (xs @ [x])"
proof -
  obtain gs qs where hp: "hp \<noteq> NULL" and k: "ok (cf_alloc A)"
    and c: "cf_chain (cf_heads A hp) (cf_nodes A) (used (cf_alloc A)) gs qs"
    and xs: "xs = map (cf_kv \<circ> cf_nodes A) qs" using q by (rule cf_queueE)
  obtain e0 A1 where rc: "ds_ck_fifo_spsc_recycle_lkmm hp A = (e0, A1)" by fastforce
  note R = cf_recycle [OF c rc]
  have "\<exists>e A2 gs'. e \<noteq> NULL \<and>
      ds_ck_fifo_spsc_insert_lkmm alloc hp (key x) (val x) A = (DS_SUCCESS,
        ds_ck_fifo_spsc_enqueue_lkmm hp e (cf_payload e) (cf_set_node e ((cf_nodes A2 e)\<lparr>cf_kv := x\<rparr>) A2)) \<and>
      cf_chain (cf_heads A2 hp) (cf_nodes A2) (used (cf_alloc A2)) gs' qs \<and> cf_nodes A2 = cf_nodes A \<and>
      ok (cf_alloc A2) \<and> e \<notin> set (gs' @ cf_head (cf_heads A2 hp) # qs) \<and>
      block e cf_entry_bytes \<subseteq> used (cf_alloc A2) \<and> unat e + 32 \<le> 2 ^ 64"
  proof (cases "e0 = NULL")
    case False
    then obtain gs' where gs: "gs = e0 # gs'"
      and c1: "cf_chain (cf_heads A1 hp) (cf_nodes A1) (used (cf_alloc A)) gs' qs" using R(4) by blast
    have "distinct (gs @ cf_head (cf_heads A hp) # qs)"
      using c seg_distinct unfolding cf_chain_def by blast
    moreover have "cf_head (cf_heads A1 hp) = cf_head (cf_heads A hp)"
      using rc by (auto simp: ds_ck_fifo_spsc_recycle_lkmm_def Let_def split: if_splits)
    moreover have "ds_ck_fifo_spsc_insert_lkmm alloc hp (key x) (val x) A = (DS_SUCCESS,
        ds_ck_fifo_spsc_enqueue_lkmm hp e0 (cf_payload e0) (cf_set_node e0 ((cf_nodes A1 e0)\<lparr>cf_kv := x\<rparr>) A1))"
      using hp False rc by (simp add: ds_ck_fifo_spsc_insert_lkmm_def Let_def)
    ultimately show ?thesis
      using False c1 R(1,2) k c gs by (intro exI [of _ e0] exI [of _ A1] exI [of _ gs']) (simp add: cf_chain_def)
  next
    case True
    obtain p al where a: "alloc cf_entry_bytes (cf_alloc A) = (p, al)" by fastforce
    have p: "p \<noteq> NULL" using r True rc a by (simp add: cf_room_def)
    note f = alloc_fresh [OF k a p] and b = alloc_bounded [OF k a p]
    have c1: "cf_chain (cf_heads A1 hp) (cf_nodes A1) (used al) gs qs"
      using cf_chain_mono [OF R(3) [OF True] alloc_used [OF k a]] .
    have "unat p \<in> block p cf_entry_bytes" by (simp add: block_def cf_entry_bytes_def)
    then have "p \<notin> set (gs @ cf_head (cf_heads A1 hp) # qs)"
      using f R(3) [OF True] unfolding cf_chain_def by blast
    moreover have "ds_ck_fifo_spsc_insert_lkmm alloc hp (key x) (val x) A = (DS_SUCCESS,
        ds_ck_fifo_spsc_enqueue_lkmm hp p (cf_payload p)
          (cf_set_node p ((cf_nodes (A1\<lparr>cf_alloc := al\<rparr>) p)\<lparr>cf_kv := x\<rparr>) (A1\<lparr>cf_alloc := al\<rparr>)))"
      using hp True rc a p R(2) by (simp add: ds_ck_fifo_spsc_insert_lkmm_def Let_def)
    ultimately show ?thesis
      using c1 R(1) p f b alloc_ok [OF k a]
      by (intro exI [of _ p] exI [of _ "A1\<lparr>cf_alloc := al\<rparr>"] exI [of _ gs]) (simp add: cf_entry_bytes_def)
  qed
  then obtain e A2 gs' where e: "e \<noteq> NULL" "e \<notin> set (gs' @ cf_head (cf_heads A2 hp) # qs)"
      "block e cf_entry_bytes \<subseteq> used (cf_alloc A2)" "unat e + 32 \<le> 2 ^ 64"
    and run: "ds_ck_fifo_spsc_insert_lkmm alloc hp (key x) (val x) A = (DS_SUCCESS,
        ds_ck_fifo_spsc_enqueue_lkmm hp e (cf_payload e) (cf_set_node e ((cf_nodes A2 e)\<lparr>cf_kv := x\<rparr>) A2))"
    and c2: "cf_chain (cf_heads A2 hp) (cf_nodes A2) (used (cf_alloc A2)) gs' qs" "cf_nodes A2 = cf_nodes A"
      "ok (cf_alloc A2)" by auto
  note E = cf_enqueue [OF c2(1) e refl, of x]
  have "cf_queue ok used hp (ds_ck_fifo_spsc_enqueue_lkmm hp e (cf_payload e)
      (cf_set_node e ((cf_nodes A2 e)\<lparr>cf_kv := x\<rparr>) A2)) (xs @ [x])"
    using E c2 hp xs by (intro cf_queueI [where gs = gs' and qs = "qs @ [e]"]) simp_all
  with run show ?thesis by blast
qed

lemma cf_insert_nomem:
  assumes q: "cf_queue ok used hp A xs" and r: "\<not> cf_room alloc hp A"
  shows "\<exists>A'. ds_ck_fifo_spsc_insert_lkmm alloc hp k v A = (DS_ERROR_NOMEM, A') \<and> cf_queue ok used hp A' xs"
proof -
  obtain gs qs where hp: "hp \<noteq> NULL" and k: "ok (cf_alloc A)"
    and c: "cf_chain (cf_heads A hp) (cf_nodes A) (used (cf_alloc A)) gs qs"
    and xs: "xs = map (cf_kv \<circ> cf_nodes A) qs" using q by (rule cf_queueE)
  obtain e0 A1 where rc: "ds_ck_fifo_spsc_recycle_lkmm hp A = (e0, A1)" by fastforce
  obtain p al where a: "alloc cf_entry_bytes (cf_alloc A) = (p, al)" by fastforce
  have n: "e0 = NULL" "p = NULL" using r rc a by (simp_all add: cf_room_def)
  note R = cf_recycle [OF c rc]
  have "ds_ck_fifo_spsc_insert_lkmm alloc hp k v A = (DS_ERROR_NOMEM, A1\<lparr>cf_alloc := al\<rparr>)"
    using hp n rc a R(2) by (simp add: ds_ck_fifo_spsc_insert_lkmm_def Let_def)
  moreover have "cf_queue ok used hp (A1\<lparr>cf_alloc := al\<rparr>) xs"
    using cf_chain_mono [OF R(3) [OF n(1)] alloc_used [OF k a]] hp alloc_ok [OF k a] xs R(1)
    by (intro cf_queueI [where gs = gs and qs = qs]) simp_all
  ultimately show ?thesis by blast
qed

end

lemma cf_delete_empty:
  assumes "cf_queue ok used hp A []"
  shows "ds_ck_fifo_spsc_delete_lkmm hp d A = (DS_ERROR_NOT_FOUND, d, A)"
proof -
  obtain gs where hp: "hp \<noteq> NULL" and c: "cf_chain (cf_heads A hp) (cf_nodes A) (used (cf_alloc A)) gs []"
    using assms by (auto elim: cf_queueE)
  then have "cf_next (cf_nodes A (cf_head (cf_heads A hp))) = NULL" by (simp add: cf_chain_def seg_append)
  then show ?thesis using hp
    by (simp add: ds_ck_fifo_spsc_delete_lkmm_def ds_ck_fifo_spsc_dequeue_lkmm_def Let_def)
qed

lemma cf_delete_front:
  assumes q: "cf_queue ok used hp A (x # xs)"
  shows "\<exists>A'. ds_ck_fifo_spsc_delete_lkmm hp d A = (DS_SUCCESS, map_option (\<lambda>_. x) d, A') \<and>
    cf_queue ok used hp A' xs"
proof -
  let ?h = "cf_heads A hp"
  obtain gs qs where hp: "hp \<noteq> NULL" and k: "ok (cf_alloc A)"
    and c: "cf_chain ?h (cf_nodes A) (used (cf_alloc A)) gs qs"
    and xs: "x # xs = map (cf_kv \<circ> cf_nodes A) qs" using q by (rule cf_queueE)
  obtain e es where qs: "qs = e # es" "x = cf_kv (cf_nodes A e)" "xs = map (cf_kv \<circ> cf_nodes A) es"
    using xs by (cases qs) auto
  have n: "cf_next (cf_nodes A (cf_head ?h)) = e" "e \<noteq> NULL" "cf_value (cf_nodes A e) = cf_payload e"
    "cf_payload e \<noteq> NULL"
    using c cf_payload_not_null [of e] by (auto simp: cf_chain_def qs seg_append)
  have "ds_ck_fifo_spsc_delete_lkmm hp d A =
      (DS_SUCCESS, map_option (\<lambda>_. x) d, cf_set_head hp (?h\<lparr>cf_head := e\<rparr>) A)"
    using hp n by (cases d) (simp_all add: ds_ck_fifo_spsc_delete_lkmm_def ds_ck_fifo_spsc_dequeue_lkmm_def
        Let_def qs(2))
  moreover have "cf_chain (?h\<lparr>cf_head := e\<rparr>) (cf_nodes A) (used (cf_alloc A)) (gs @ [cf_head ?h]) es"
    using c by (auto simp: cf_chain_def qs)
  then have "cf_queue ok used hp (cf_set_head hp (?h\<lparr>cf_head := e\<rparr>) A) xs"
    using hp k qs(3) by (intro cf_queueI [where gs = "gs @ [cf_head ?h]" and qs = es]) simp_all
  ultimately show ?thesis by blast
qed

text \<open>Any allocator that keeps the contract makes the queue a first-in first-out lane.\<close>

sublocale arena_allocator \<subseteq> ckf: fifo_lane
  "\<lambda>x. ds_ck_fifo_spsc_insert pr alloc hp (key x) (val x)"
  "ds_ck_fifo_spsc_pop co hp (Some d)" "cf_queue ok used hp" "cf_room alloc hp"
  for pr co :: side and hp :: ptr and d :: ds_kv
proof unfold_locales
  fix A xs and x :: ds_kv
  assume "cf_queue ok used hp A xs" "cf_room alloc hp A"
  then show "\<exists>A'. ds_ck_fifo_spsc_insert pr alloc hp (key x) (val x) A = (DS_SUCCESS, A') \<and>
      cf_queue ok used hp A' (xs @ [x])"
    unfolding ds_variant by (rule cf_insert_room)
next
  fix A xs and x :: ds_kv
  assume "cf_queue ok used hp A xs" "\<not> cf_room alloc hp A"
  then show "\<exists>e A'. ds_ck_fifo_spsc_insert pr alloc hp (key x) (val x) A = (e, A') \<and> e \<noteq> DS_SUCCESS \<and>
      cf_queue ok used hp A' xs"
    unfolding ds_variant using cf_insert_nomem ds_error_not_success(3) by blast
next
  fix A
  assume "cf_queue ok used hp A []"
  then show "\<exists>out A'. ds_ck_fifo_spsc_pop co hp (Some d) A = (DS_ERROR_NOT_FOUND, out, A') \<and>
      cf_queue ok used hp A' []"
    by (simp add: ds_variant cf_delete_empty)
next
  fix A x xs
  assume "cf_queue ok used hp A (x # xs)"
  from cf_delete_front [OF this, of "Some d"]
  show "\<exists>A'. ds_ck_fifo_spsc_pop co hp (Some d) A = (DS_SUCCESS, Some x, A') \<and> cf_queue ok used hp A' xs"
    by (simp add: ds_variant)
qed

text \<open>
  The linked queue over the userspace allocator is a FIFO: every sequence of
  inserts and pops keeps the chain of recyclable and queued entries consistent, and the
  elements accepted (after those already there) are the elements delivered followed by
  those still queued, in order; recycling never overwrites an entry that is still queued.
\<close>

theorem cf_run_fifo:
  assumes "cf_queue user_ok user_used hp A xs"
    and "lane_run (\<lambda>x. ds_ck_fifo_spsc_insert pr user_allocator hp (key x) (val x))
      (ds_ck_fifo_spsc_pop co hp (Some d)) ops A = (evs, A')"
  shows "\<exists>ys. cf_queue user_ok user_used hp A' ys \<and> xs @ accepted evs = delivered evs @ ys"
  using assms by (rule ua.ckf.run_fifo)

context arena_allocator
begin

lemma cf_init_success:
  assumes "hp \<noteq> NULL" and k: "ok (cf_alloc A)" and a: "alloc cf_entry_bytes (cf_alloc A) = (p, al)" and p: "p \<noteq> NULL"
  shows "\<exists>A'. ds_ck_fifo_spsc_init_lkmm alloc hp A = (DS_SUCCESS, A') \<and> cf_queue ok used hp A' []"
proof -
  let ?A = "cf_set_head hp \<lparr>cf_head = p, cf_tail = p, cf_head_snapshot = p, cf_garbage = p\<rparr>
    (cf_set_node p \<lparr>cf_value = NULL, cf_next = NULL, cf_kv = \<lparr>key = 0, val = 0\<rparr>\<rparr> (A\<lparr>cf_alloc := al\<rparr>))"
  have "ds_ck_fifo_spsc_init_lkmm alloc hp A = (DS_SUCCESS, ?A)"
    using assms by (cases "cf_heads A hp"; cases "cf_nodes A p") (simp add: ds_ck_fifo_spsc_init_lkmm_def
      ds_ck_fifo_spsc_fifo_init_lkmm_def Let_def cf_set_head_def cf_set_node_def)
  moreover have "cf_chain (cf_heads ?A hp) (cf_nodes ?A) (used al) [] []"
    using p alloc_fresh [OF k a p] alloc_bounded [OF k a p] by (simp add: cf_chain_def cf_entry_bytes_def)
  then have "cf_queue ok used hp ?A []"
    using assms(1) alloc_ok [OF k a] by (intro cf_queueI [where gs = "[]" and qs = "[]"]) simp_all
  ultimately show ?thesis by blast
qed

end

text \<open>
  Initialisation with the userspace allocator: a NULL head is refused, an
  allocation failure is reported, otherwise the queue is empty with the stub as its only
  entry.
\<close>

theorem cf_init_branches:
  assumes k: "user_ok (cf_alloc A)" and i: "ds_ck_fifo_spsc_init sd user_allocator hp A = (r, A')"
  shows "(if hp = NULL then r = DS_ERROR_INVALID \<and> A' = A
     else if fst (user_allocator cf_entry_bytes (cf_alloc A)) = NULL
       then r = DS_ERROR_NOMEM \<and> cf_heads A' = cf_heads A \<and> cf_nodes A' = cf_nodes A
     else r = DS_SUCCESS \<and> cf_queue user_ok user_used hp A' [])"
proof -
  obtain p al where a: "user_allocator cf_entry_bytes (cf_alloc A) = (p, al)" by fastforce
  show ?thesis
    using i a ua.cf_init_success [OF _ k a]
    by (cases "hp = NULL"; cases "p = NULL") (auto simp: ds_variant ds_ck_fifo_spsc_init_lkmm_def)
qed

text \<open>An empty queue whose stub is the first block of a userspace arena.\<close>

definition cf_demo :: "user_alloc cf_arena" where
  "cf_demo =
     \<lparr>cf_heads = (\<lambda>_. \<lparr>cf_head = 0x100000001FD8, cf_tail = 0x100000001FD8,
        cf_head_snapshot = 0x100000001FD8, cf_garbage = 0x100000001FD8\<rparr>),
      cf_nodes = (\<lambda>_. \<lparr>cf_value = 0, cf_next = 0, cf_kv = zero_kv\<rparr>),
      cf_alloc = \<lparr>u_base = 0x100000001000, u_size = 0x4000, u_page_size = 4096, u_next_page_off = 4096,
        u_cur_page = 0x100000001000, u_cur_offset = 4056, u_lock = False, u_obj_cnt = (\<lambda>_. 1)\<rparr>\<rparr>"

lemma cf_demo_queue: "cf_queue user_ok user_used 0x1000 cf_demo []"
proof -
  have "user_ok (cf_alloc cf_demo)" by (simp add: cf_demo_def user_ok_def)
  moreover have "cf_chain (cf_heads cf_demo 0x1000) (cf_nodes cf_demo) (user_used (cf_alloc cf_demo)) [] []"
    by (simp add: cf_chain_def cf_demo_def user_used_def block_def cf_entry_bytes_def)
  ultimately show ?thesis by (intro cf_queueI [where gs = "[]" and qs = "[]"]) simp_all
qed

theorem cf_init_branches_witness:
  "\<exists>A'. ds_ck_fifo_spsc_init BPF user_allocator 0x1000 cf_demo = (DS_SUCCESS, A') \<and>
     cf_queue user_ok user_used 0x1000 A' []"
proof -
  obtain r A' where i: "ds_ck_fifo_spsc_init BPF user_allocator 0x1000 cf_demo = (r, A')" by fastforce
  have k: "user_ok (cf_alloc cf_demo)" using cf_demo_queue by (simp add: cf_queue_def)
  have "fst (user_allocator cf_entry_bytes (cf_alloc cf_demo)) \<noteq> NULL" by code_simp
  with cf_init_branches [OF k i] i show ?thesis by simp
qed

theorem cf_run_fifo_witness:
  "\<exists>evs A' ys. lane_run (\<lambda>x. ds_ck_fifo_spsc_insert USERSPACE user_allocator 0x1000 (key x) (val x))
       (ds_ck_fifo_spsc_pop BPF 0x1000 (Some zero_kv))
       [LInsert \<lparr>key = 1, val = 10\<rparr>, LPop] cf_demo = (evs, A') \<and>
     cf_queue user_ok user_used 0x1000 A' ys \<and> accepted evs = delivered evs @ ys \<and>
     delivered evs = [\<lparr>key = 1, val = 10\<rparr>] \<and> ys = []"
proof -
  let ?run = "lane_run (\<lambda>x. ds_ck_fifo_spsc_insert USERSPACE user_allocator 0x1000 (key x) (val x))
       (ds_ck_fifo_spsc_pop BPF 0x1000 (Some zero_kv))
       [LInsert \<lparr>key = 1, val = 10\<rparr>, LPop] cf_demo"
  obtain evs A' where run: "?run = (evs, A')" by fastforce
  have "accepted (fst ?run) = [\<lparr>key = 1, val = 10\<rparr>] \<and>
    delivered (fst ?run) = [\<lparr>key = 1, val = 10\<rparr>]"
    by code_simp
  then have "accepted evs = [\<lparr>key = 1, val = 10\<rparr>]"
    "delivered evs = [\<lparr>key = 1, val = 10\<rparr>]" by (simp_all only: run fst_conv)
  with cf_run_fifo [OF cf_demo_queue run] run show ?thesis by fastforce
qed

subsection \<open>Recycling and the verifier\<close>

text \<open>
  Memory is reused: whenever some entry has been consumed and not yet recycled, an
  insert succeeds without asking the allocator for memory, whatever the allocator.
\<close>

theorem cf_insert_recycles:
  assumes q: "cf_queue ok used hp A xs" and g: "cf_garbage (cf_heads A hp) \<noteq> cf_head (cf_heads A hp)"
    and i: "ds_ck_fifo_spsc_insert sd alloc hp k v A = (r, A')"
  shows "r = DS_SUCCESS \<and> cf_alloc A' = cf_alloc A"
proof -
  obtain gs qs where hp: "hp \<noteq> NULL" and c: "cf_chain (cf_heads A hp) (cf_nodes A) (used (cf_alloc A)) gs qs"
    using q by (rule cf_queueE)
  obtain e A1 where rc: "ds_ck_fifo_spsc_recycle_lkmm hp A = (e, A1)" by fastforce
  have "cf_garbage (cf_heads A hp) \<noteq> NULL" using c by (cases gs) (auto simp: cf_chain_def)
  then have e: "e \<noteq> NULL" using rc g by (auto simp: ds_ck_fifo_spsc_recycle_lkmm_def Let_def split: if_splits)
  then show ?thesis
    using i rc hp cf_recycle(2) [OF c rc]
    by (auto simp: ds_variant ds_ck_fifo_spsc_insert_lkmm_def ds_ck_fifo_spsc_enqueue_lkmm_def Let_def)
qed

theorem cf_insert_recycles_witness:
  "\<exists>A :: user_alloc cf_arena. cf_garbage (cf_heads A 0x1000) \<noteq> cf_head (cf_heads A 0x1000) \<and>
     fst (ds_ck_fifo_spsc_insert BPF (\<lambda>n s. (NULL, s)) 0x1000 5 6 A) = DS_SUCCESS"
proof -
  let ?run = "lane_run (\<lambda>x. ds_ck_fifo_spsc_insert USERSPACE user_allocator 0x1000 (key x) (val x))
       (ds_ck_fifo_spsc_pop BPF 0x1000 (Some zero_kv)) [LInsert \<lparr>key = 1, val = 10\<rparr>, LPop] cf_demo"
  obtain evs A where run: "?run = (evs, A)" by fastforce
  have "cf_garbage (cf_heads (snd ?run) 0x1000) \<noteq> cf_head (cf_heads (snd ?run) 0x1000)" by code_simp
  then have g: "cf_garbage (cf_heads A 0x1000) \<noteq> cf_head (cf_heads A 0x1000)" by (simp only: run snd_conv simp_thms)
  obtain ys where q: "cf_queue user_ok user_used 0x1000 A ys"
    using ua.ckf.run_fifo [OF cf_demo_queue run] by blast
  obtain r A' where i: "ds_ck_fifo_spsc_insert BPF (\<lambda>n s. (NULL, s)) 0x1000 5 6 A = (r, A')" by fastforce
  have "fst (ds_ck_fifo_spsc_insert BPF (\<lambda>n s. (NULL, s)) 0x1000 5 6 A) = DS_SUCCESS"
    using cf_insert_recycles [OF q g i] i by simp
  with g show ?thesis by (intro exI [of _ A] conjI)
qed

lemma cf_verify_loop_seg:
  assumes "seg (cf_next \<circ> cf_nodes A) p (p # qs) NULL" and "0 \<le> i" "i \<le> 100000"
  shows "cf_verify_loop i p (last (p # qs)) A =
    (if i + int (length qs) < 100000 then DS_SUCCESS else DS_ERROR_CORRUPT)"
  using assms
proof (induction qs arbitrary: p i)
  case Nil
  then show ?case by (simp add: cf_verify_loop.simps)
next
  case (Cons q qs)
  have "distinct (p # q # qs)" using seg_distinct [OF Cons.prems(1)] .
  then have "p \<noteq> last (q # qs)" using last_in_set [of "q # qs"] by auto
  then show ?case
    using Cons.IH [of q "i + 1"] Cons.prems by (simp add: cf_verify_loop.simps [of i] Let_def)
qed

text \<open>
  The verifier accepts a consistent queue of fewer than one hundred thousand
  elements and reports every longer one as corrupt, although it is consistent; emptiness
  is reported exactly.
\<close>

theorem cf_verify_bounded:
  assumes q: "cf_queue ok used hp A xs"
  shows "ds_ck_fifo_spsc_verify sd hp A = (if length xs < 100000 then DS_SUCCESS else DS_ERROR_CORRUPT) \<and>
    (ds_ck_fifo_spsc_isempty sd hp A \<longleftrightarrow> xs = [])"
proof -
  let ?h = "cf_heads A hp"
  obtain gs qs where hp: "hp \<noteq> NULL" and c: "cf_chain ?h (cf_nodes A) (used (cf_alloc A)) gs qs"
    and xs: "xs = map (cf_kv \<circ> cf_nodes A) qs" using q by (rule cf_queueE)
  have s: "seg (cf_next \<circ> cf_nodes A) (cf_head ?h) (cf_head ?h # qs) NULL" and t: "cf_tail ?h = last (cf_head ?h # qs)"
    and g: "cf_garbage ?h \<noteq> NULL"
    using c by (auto simp: cf_chain_def seg_append neq_Nil_conv) (cases gs; auto)+
  have "cf_tail ?h \<noteq> NULL" using seg_not_null [OF s] t last_in_set [of "cf_head ?h # qs"] by (metis list.discI)
  moreover have "cf_head ?h \<noteq> NULL" using s by simp
  ultimately have "ds_ck_fifo_spsc_verify sd hp A = (if length xs < 100000 then DS_SUCCESS else DS_ERROR_CORRUPT)"
    using hp g cf_verify_loop_seg [OF s, of 0] xs
    by (simp add: ds_variant ds_ck_fifo_spsc_verify_lkmm_def Let_def t)
  moreover have "ds_ck_fifo_spsc_isempty sd hp A \<longleftrightarrow> xs = []"
    using s xs by (cases qs) (auto simp: ds_variant ds_ck_fifo_spsc_isempty_lkmm_def)
  ultimately show ?thesis by blast
qed

theorem cf_verify_bounded_witness: "ds_ck_fifo_spsc_verify BPF 0x1000 cf_demo = DS_SUCCESS"
  using cf_verify_bounded [OF cf_demo_queue, of BPF] by simp

end
