(* ===== verification/Msqueue.thy ===== *)
theory Msqueue
  imports NodeHeap
begin

text \<open>
  The Michael-Scott queue of \<^verbatim>\<open>include/ds_msqueue.h\<close>: a linked list whose head is a
  dummy, a tail pointer that may lag behind the last node, at most ten attempts per
  operation.  The operations are modelled as they run without interference from any
  state the queue may be left in between calls, a lagging tail included.  The
  \<^verbatim>\<open>node\<close> member is at offset 0 of an element, so the conversions between the two
  pointers are the identity.
\<close>

subsection \<open>State\<close>

record ds_msqueue_elem =
  ms_next :: ptr
  ms_data :: ds_kv

record ds_msqueue =
  ms_head :: ptr
  ms_tail :: ptr
  ms_count :: u64

record 'a ms_arena =
  ms_heads :: "ptr \<Rightarrow> ds_msqueue"
  ms_nodes :: "ptr \<Rightarrow> ds_msqueue_elem"
  ms_alloc :: 'a

definition ms_set_head :: "ptr \<Rightarrow> ds_msqueue \<Rightarrow> 'a ms_arena \<Rightarrow> 'a ms_arena" where
  "ms_set_head hp h A = A\<lparr>ms_heads := (ms_heads A)(hp := h)\<rparr>"

definition ms_set_node :: "ptr \<Rightarrow> ds_msqueue_elem \<Rightarrow> 'a ms_arena \<Rightarrow> 'a ms_arena" where
  "ms_set_node a e A = A\<lparr>ms_nodes := (ms_nodes A)(a := e)\<rparr>"

lemma ms_set_acc [simp]:
  "ms_heads (ms_set_head hp h A) = (ms_heads A)(hp := h)" "ms_nodes (ms_set_head hp h A) = ms_nodes A"
  "ms_alloc (ms_set_head hp h A) = ms_alloc A"
  "ms_heads (ms_set_node a e A) = ms_heads A" "ms_nodes (ms_set_node a e A) = (ms_nodes A)(a := e)"
  "ms_alloc (ms_set_node a e A) = ms_alloc A"
  by (simp_all add: ms_set_head_def ms_set_node_def)

text \<open>The size of an element: a pointer and a \<^verbatim>\<open>struct ds_kv\<close>.\<close>

definition ms_elem_bytes :: u32 where "ms_elem_bytes = 24"

subsection \<open>Initialisation\<close>

definition ds_msqueue_init_lkmm :: "'a allocator \<Rightarrow> ptr \<Rightarrow> 'a ms_arena \<Rightarrow> int \<times> 'a ms_arena" where
  "ds_msqueue_init_lkmm bpf_arena_alloc hp A =
     (if hp = NULL then (DS_ERROR_INVALID, A)
      else
        let (dummy, al) = bpf_arena_alloc ms_elem_bytes (ms_alloc A);
            A = A\<lparr>ms_alloc := al\<rparr> in
        if dummy = NULL then (DS_ERROR_NOMEM, A)
        else
          let A = ms_set_node dummy ((ms_nodes A dummy)\<lparr>ms_next := NULL, ms_data := \<lparr>key = 420, val = 69\<rparr>\<rparr>) A in
          (DS_SUCCESS,
           ms_set_head hp ((ms_heads A hp)\<lparr>ms_head := dummy, ms_tail := dummy, ms_count := 0\<rparr>) A))"

definition ds_msqueue_init_c :: "'a allocator \<Rightarrow> ptr \<Rightarrow> 'a ms_arena \<Rightarrow> int \<times> 'a ms_arena" where
  "ds_msqueue_init_c bpf_arena_alloc hp A =
     (if hp = NULL then (DS_ERROR_INVALID, A)
      else
        let (dummy, al) = bpf_arena_alloc ms_elem_bytes (ms_alloc A);
            A = A\<lparr>ms_alloc := al\<rparr> in
        if dummy = NULL then (DS_ERROR_NOMEM, A)
        else
          let A = ms_set_node dummy ((ms_nodes A dummy)\<lparr>ms_next := NULL, ms_data := \<lparr>key = 420, val = 69\<rparr>\<rparr>) A in
          (DS_SUCCESS,
           ms_set_head hp ((ms_heads A hp)\<lparr>ms_head := dummy, ms_tail := dummy, ms_count := 0\<rparr>) A))"

definition ds_msqueue_init :: "side \<Rightarrow> 'a allocator \<Rightarrow> ptr \<Rightarrow> 'a ms_arena \<Rightarrow> int \<times> 'a ms_arena" where
  "ds_msqueue_init sd bpf_arena_alloc hp A =
     (case sd of BPF \<Rightarrow> ds_msqueue_init_lkmm bpf_arena_alloc hp A | USERSPACE \<Rightarrow> ds_msqueue_init_c bpf_arena_alloc hp A)"

subsection \<open>Insertion\<close>

definition ms_max_retries :: nat where "ms_max_retries = 10"

text \<open>
  The enqueue loop; \<open>n\<close> attempts are left.  It returns the tail after which the node was
  linked, or \<open>None\<close> when the attempts are used up.
\<close>

fun ms_add_loop :: "nat \<Rightarrow> ptr \<Rightarrow> ptr \<Rightarrow> 'a ms_arena \<Rightarrow> ptr option \<times> 'a ms_arena" where
  "ms_add_loop 0 new_node hp A = (None, A)"
| "ms_add_loop (Suc n) new_node hp A =
     (let tail = ms_tail (ms_heads A hp);
          next = ms_next (ms_nodes A tail) in
      if next \<noteq> NULL then
        let (_, new_tail) = arena_atomic_cmpxchg (ms_tail (ms_heads A hp)) tail next;
            A = ms_set_head hp ((ms_heads A hp)\<lparr>ms_tail := new_tail\<rparr>) A in
        ms_add_loop n new_node hp A
      else
        let (observed, new_next) = arena_atomic_cmpxchg (ms_next (ms_nodes A tail)) next new_node;
            A = ms_set_node tail ((ms_nodes A tail)\<lparr>ms_next := new_next\<rparr>) A in
        if observed = next then (Some tail, A) else ms_add_loop n new_node hp A)"

declare ms_add_loop.simps(2) [simp del]

definition msqueue_add_node_lkmm :: "ptr \<Rightarrow> ptr \<Rightarrow> 'a ms_arena \<Rightarrow> int \<times> 'a ms_arena" where
  "msqueue_add_node_lkmm new_node hp A =
     (case ms_add_loop ms_max_retries new_node hp A of
        (None, A) \<Rightarrow> (DS_ERROR_INVALID, A)
      | (Some tail, A) \<Rightarrow>
          let A = ms_set_head hp ((ms_heads A hp)\<lparr>ms_count := ms_count (ms_heads A hp) + 1\<rparr>) A;
              (_, new_tail) = arena_atomic_cmpxchg (ms_tail (ms_heads A hp)) tail new_node in
          (DS_SUCCESS, ms_set_head hp ((ms_heads A hp)\<lparr>ms_tail := new_tail\<rparr>) A))"

definition msqueue_add_node_c :: "ptr \<Rightarrow> ptr \<Rightarrow> 'a ms_arena \<Rightarrow> int \<times> 'a ms_arena" where
  "msqueue_add_node_c new_node hp A =
     (case ms_add_loop ms_max_retries new_node hp A of
        (None, A) \<Rightarrow> (DS_ERROR_INVALID, A)
      | (Some tail, A) \<Rightarrow>
          let A = ms_set_head hp ((ms_heads A hp)\<lparr>ms_count := ms_count (ms_heads A hp) + 1\<rparr>) A;
              (_, new_tail) = arena_atomic_cmpxchg (ms_tail (ms_heads A hp)) tail new_node in
          (DS_SUCCESS, ms_set_head hp ((ms_heads A hp)\<lparr>ms_tail := new_tail\<rparr>) A))"

definition ds_msqueue_insert_lkmm ::
  "'a allocator \<Rightarrow> (ptr \<Rightarrow> 'a \<Rightarrow> 'a) \<Rightarrow> ptr \<Rightarrow> u64 \<Rightarrow> u64 \<Rightarrow> 'a ms_arena \<Rightarrow> int \<times> 'a ms_arena" where
  "ds_msqueue_insert_lkmm bpf_arena_alloc bpf_arena_free hp k v A =
     (if hp = NULL then (DS_ERROR_INVALID, A)
      else
        let (new_node, al) = bpf_arena_alloc ms_elem_bytes (ms_alloc A);
            A = A\<lparr>ms_alloc := al\<rparr> in
        if new_node = NULL then (DS_ERROR_NOMEM, A)
        else
          let A = ms_set_node new_node ((ms_nodes A new_node)\<lparr>ms_data := \<lparr>key = k, val = v\<rparr>, ms_next := NULL\<rparr>) A;
              (r, A) = msqueue_add_node_lkmm new_node hp A in
          if r = DS_SUCCESS then (DS_SUCCESS, A)
          else (DS_ERROR_INVALID, A\<lparr>ms_alloc := bpf_arena_free new_node (ms_alloc A)\<rparr>))"

definition ds_msqueue_insert_c ::
  "'a allocator \<Rightarrow> (ptr \<Rightarrow> 'a \<Rightarrow> 'a) \<Rightarrow> ptr \<Rightarrow> u64 \<Rightarrow> u64 \<Rightarrow> 'a ms_arena \<Rightarrow> int \<times> 'a ms_arena" where
  "ds_msqueue_insert_c bpf_arena_alloc bpf_arena_free hp k v A =
     (if hp = NULL then (DS_ERROR_INVALID, A)
      else
        let (new_node, al) = bpf_arena_alloc ms_elem_bytes (ms_alloc A);
            A = A\<lparr>ms_alloc := al\<rparr> in
        if new_node = NULL then (DS_ERROR_NOMEM, A)
        else
          let A = ms_set_node new_node ((ms_nodes A new_node)\<lparr>ms_data := \<lparr>key = k, val = v\<rparr>, ms_next := NULL\<rparr>) A;
              (r, A) = msqueue_add_node_c new_node hp A in
          if r = DS_SUCCESS then (DS_SUCCESS, A)
          else (DS_ERROR_INVALID, A\<lparr>ms_alloc := bpf_arena_free new_node (ms_alloc A)\<rparr>))"

definition ds_msqueue_insert :: "side \<Rightarrow> 'a allocator \<Rightarrow> (ptr \<Rightarrow> 'a \<Rightarrow> 'a) \<Rightarrow> ptr \<Rightarrow> u64 \<Rightarrow> u64 \<Rightarrow> 'a ms_arena \<Rightarrow> int \<times> 'a ms_arena" where
  "ds_msqueue_insert sd bpf_arena_alloc bpf_arena_free hp k v A =
     (case sd of BPF \<Rightarrow> ds_msqueue_insert_lkmm bpf_arena_alloc bpf_arena_free hp k v A | USERSPACE \<Rightarrow> ds_msqueue_insert_c bpf_arena_alloc bpf_arena_free hp k v A)"

subsection \<open>Removal\<close>

text \<open>
  The dequeue loops; the userspace variant also refuses NULL head and tail pointers and
  NULL elements.  \<open>d\<close> is the output buffer, written before the exchange.
\<close>

primrec ms_pop_loop_lkmm :: "nat \<Rightarrow> (ptr \<Rightarrow> 'a \<Rightarrow> 'a) \<Rightarrow> ptr \<Rightarrow> ds_kv \<Rightarrow> 'a ms_arena \<Rightarrow> int \<times> ds_kv \<times> 'a ms_arena" where
  "ms_pop_loop_lkmm 0 free hp d A = (DS_ERROR_INVALID, d, A)"
| "ms_pop_loop_lkmm (Suc n) free hp d A =
     (let head = ms_head (ms_heads A hp);
          tail = ms_tail (ms_heads A hp);
          next = ms_next (ms_nodes A head) in
      if ms_head (ms_heads A hp) \<noteq> head then ms_pop_loop_lkmm n free hp d A
      else if next = NULL then (DS_ERROR_NOT_FOUND, d, A)
      else if head = tail then
        let next_elem_tail = next;
            (_, new_tail) = arena_atomic_cmpxchg (ms_tail (ms_heads A hp)) tail next_elem_tail in
        ms_pop_loop_lkmm n free hp d (ms_set_head hp ((ms_heads A hp)\<lparr>ms_tail := new_tail\<rparr>) A)
      else
        let next_elem = next in
        (let d = d\<lparr>key := key (ms_data (ms_nodes A next_elem)), val := val (ms_data (ms_nodes A next_elem))\<rparr>;
             (observed, new_head) = arena_atomic_cmpxchg (ms_head (ms_heads A hp)) head next_elem;
             A = ms_set_head hp ((ms_heads A hp)\<lparr>ms_head := new_head\<rparr>) A in
         if observed = head then
           let A = A\<lparr>ms_alloc := free head (ms_alloc A)\<rparr>;
               A = ms_set_head hp ((ms_heads A hp)\<lparr>ms_count := ms_count (ms_heads A hp) - 1\<rparr>) A in
           (DS_SUCCESS, d, A)
         else ms_pop_loop_lkmm n free hp d A))"

declare ms_pop_loop_lkmm.simps(2) [simp del]

primrec ms_pop_loop_c :: "nat \<Rightarrow> (ptr \<Rightarrow> 'a \<Rightarrow> 'a) \<Rightarrow> ptr \<Rightarrow> ds_kv \<Rightarrow> 'a ms_arena \<Rightarrow> int \<times> ds_kv \<times> 'a ms_arena" where
  "ms_pop_loop_c 0 free hp d A = (DS_ERROR_INVALID, d, A)"
| "ms_pop_loop_c (Suc n) free hp d A =
     (let head = ms_head (ms_heads A hp);
          tail = ms_tail (ms_heads A hp);
          next = ms_next (ms_nodes A head) in
      if head = NULL \<or> tail = NULL then (DS_ERROR_INVALID, d, A)
      else if ms_head (ms_heads A hp) \<noteq> head then ms_pop_loop_c n free hp d A
      else if next = NULL then (DS_ERROR_NOT_FOUND, d, A)
      else if head = tail then
        let next_elem_tail = next in
        if next_elem_tail = NULL then (DS_ERROR_INVALID, d, A)
        else
          let (_, new_tail) = arena_atomic_cmpxchg (ms_tail (ms_heads A hp)) tail next_elem_tail in
          ms_pop_loop_c n free hp d (ms_set_head hp ((ms_heads A hp)\<lparr>ms_tail := new_tail\<rparr>) A)
      else
        let next_elem = next in
        if next_elem = NULL then (DS_ERROR_INVALID, d, A)
        else (let d = d\<lparr>key := key (ms_data (ms_nodes A next_elem)), val := val (ms_data (ms_nodes A next_elem))\<rparr>;
             (observed, new_head) = arena_atomic_cmpxchg (ms_head (ms_heads A hp)) head next_elem;
             A = ms_set_head hp ((ms_heads A hp)\<lparr>ms_head := new_head\<rparr>) A in
         if observed = head then
           let A = A\<lparr>ms_alloc := free head (ms_alloc A)\<rparr>;
               A = ms_set_head hp ((ms_heads A hp)\<lparr>ms_count := ms_count (ms_heads A hp) - 1\<rparr>) A in
           (DS_SUCCESS, d, A)
         else ms_pop_loop_c n free hp d A))"

declare ms_pop_loop_c.simps(2) [simp del]

definition ds_msqueue_pop_lkmm ::
  "(ptr \<Rightarrow> 'a \<Rightarrow> 'a) \<Rightarrow> ptr \<Rightarrow> ds_kv option \<Rightarrow> 'a ms_arena \<Rightarrow> int \<times> ds_kv option \<times> 'a ms_arena" where
  "ds_msqueue_pop_lkmm bpf_arena_free hp data A =
     (case data of
        None \<Rightarrow> (DS_ERROR_INVALID, data, A)
      | Some d \<Rightarrow>
          if hp = NULL then (DS_ERROR_INVALID, data, A)
          else
            let (r, d, A) = ms_pop_loop_lkmm ms_max_retries bpf_arena_free hp d A in
            (r, Some d, A))"

definition ds_msqueue_pop_c ::
  "(ptr \<Rightarrow> 'a \<Rightarrow> 'a) \<Rightarrow> ptr \<Rightarrow> ds_kv option \<Rightarrow> 'a ms_arena \<Rightarrow> int \<times> ds_kv option \<times> 'a ms_arena" where
  "ds_msqueue_pop_c bpf_arena_free hp data A =
     (case data of
        None \<Rightarrow> (DS_ERROR_INVALID, data, A)
      | Some d \<Rightarrow>
          if hp = NULL then (DS_ERROR_INVALID, data, A)
          else
            let (r, d, A) = ms_pop_loop_c ms_max_retries bpf_arena_free hp d A in
            (r, Some d, A))"

definition ds_msqueue_pop :: "side \<Rightarrow> (ptr \<Rightarrow> 'a \<Rightarrow> 'a) \<Rightarrow> ptr \<Rightarrow> ds_kv option \<Rightarrow> 'a ms_arena \<Rightarrow> int \<times> ds_kv option \<times> 'a ms_arena" where
  "ds_msqueue_pop sd bpf_arena_free hp data A =
     (case sd of BPF \<Rightarrow> ds_msqueue_pop_lkmm bpf_arena_free hp data A | USERSPACE \<Rightarrow> ds_msqueue_pop_c bpf_arena_free hp data A)"

subsection \<open>Search and iteration\<close>

function ms_search_loop :: "int \<Rightarrow> ptr \<Rightarrow> u64 \<Rightarrow> 'a ms_arena \<Rightarrow> int" where
  "ms_search_loop cnt next k A =
     (if next \<noteq> NULL \<and> cnt < 100000 then
        if key (ms_data (ms_nodes A next)) = k then DS_SUCCESS
        else ms_search_loop (cnt + 1) (ms_next (ms_nodes A next)) k A
      else DS_ERROR_NOT_FOUND)"
  by pat_completeness auto
termination
  by (relation "measure (\<lambda>(cnt, next, k, A). nat (100000 - cnt))") auto

declare ms_search_loop.simps [simp del]

definition ds_msqueue_search_lkmm :: "ptr \<Rightarrow> u64 \<Rightarrow> 'a ms_arena \<Rightarrow> int" where
  "ds_msqueue_search_lkmm hp k A =
     (if hp = NULL then DS_ERROR_INVALID
      else
        let head = ms_head (ms_heads A hp) in
        ms_search_loop 0 (ms_next (ms_nodes A head)) k A)"

definition ds_msqueue_search_c :: "ptr \<Rightarrow> u64 \<Rightarrow> 'a ms_arena \<Rightarrow> int" where
  "ds_msqueue_search_c hp k A =
     (if hp = NULL then DS_ERROR_INVALID
      else
        let head = ms_head (ms_heads A hp) in
        ms_search_loop 0 (ms_next (ms_nodes A head)) k A)"

definition ds_msqueue_search :: "side \<Rightarrow> ptr \<Rightarrow> u64 \<Rightarrow> 'a ms_arena \<Rightarrow> int" where
  "ds_msqueue_search sd hp k A =
     (case sd of BPF \<Rightarrow> ds_msqueue_search_lkmm hp k A | USERSPACE \<Rightarrow> ds_msqueue_search_c hp k A)"

text \<open>The iteration stops after \<open>n\<close> more elements (ten in all).\<close>

fun ms_iterate_loop ::
  "nat \<Rightarrow> (u64 \<Rightarrow> u64 \<Rightarrow> 'c \<Rightarrow> int \<times> 'c) \<Rightarrow> ptr \<Rightarrow> u64 \<Rightarrow> 'c \<Rightarrow> 'a ms_arena \<Rightarrow> u64 \<times> 'c" where
  "ms_iterate_loop 0 fn node visited ctx A = (visited, ctx)"
| "ms_iterate_loop (Suc n) fn node visited ctx A =
     (if node = NULL then (visited, ctx)
      else
        let (result, ctx) = fn (key (ms_data (ms_nodes A node))) (val (ms_data (ms_nodes A node))) ctx in
        if result \<noteq> 0 then (visited, ctx)
        else ms_iterate_loop n fn (ms_next (ms_nodes A node)) (visited + 1) ctx A)"

definition ds_msqueue_iterate_lkmm ::
  "ptr \<Rightarrow> (u64 \<Rightarrow> u64 \<Rightarrow> 'c \<Rightarrow> int \<times> 'c) option \<Rightarrow> 'c \<Rightarrow> 'a ms_arena \<Rightarrow> u64 \<times> 'c" where
  "ds_msqueue_iterate_lkmm hp fn ctx A =
     (case fn of
        None \<Rightarrow> (0, ctx)
      | Some f \<Rightarrow>
          if hp = NULL then (0, ctx)
          else
            let node_ptr = ms_next (ms_nodes A (ms_head (ms_heads A hp))) in
            if node_ptr = NULL then (0, ctx) else ms_iterate_loop 10 f node_ptr 0 ctx A)"

definition ds_msqueue_iterate_c ::
  "ptr \<Rightarrow> (u64 \<Rightarrow> u64 \<Rightarrow> 'c \<Rightarrow> int \<times> 'c) option \<Rightarrow> 'c \<Rightarrow> 'a ms_arena \<Rightarrow> u64 \<times> 'c" where
  "ds_msqueue_iterate_c hp fn ctx A =
     (case fn of
        None \<Rightarrow> (0, ctx)
      | Some f \<Rightarrow>
          if hp = NULL then (0, ctx)
          else
            let node_ptr = ms_next (ms_nodes A (ms_head (ms_heads A hp))) in
            if node_ptr = NULL then (0, ctx) else ms_iterate_loop 10 f node_ptr 0 ctx A)"

definition ds_msqueue_iterate :: "side \<Rightarrow> ptr \<Rightarrow> (u64 \<Rightarrow> u64 \<Rightarrow> 'c \<Rightarrow> int \<times> 'c) option \<Rightarrow> 'c \<Rightarrow> 'a ms_arena \<Rightarrow> u64 \<times> 'c" where
  "ds_msqueue_iterate sd hp fn ctx A =
     (case sd of BPF \<Rightarrow> ds_msqueue_iterate_lkmm hp fn ctx A | USERSPACE \<Rightarrow> ds_msqueue_iterate_c hp fn ctx A)"

subsection \<open>The verifier\<close>

text \<open>The walk returns whether the tail was seen, and the running count.\<close>

function ms_verify_loop :: "ptr \<Rightarrow> ptr \<Rightarrow> nat \<Rightarrow> bool \<Rightarrow> 'a ms_arena \<Rightarrow> bool \<times> nat" where
  "ms_verify_loop node tail cnt found A =
     (if node \<noteq> NULL \<and> cnt < 100000 then
        let found = (if node = tail then True else found);
            node = ms_next (ms_nodes A node);
            cnt = (if cnt > 0 \<or> node \<noteq> NULL then cnt + 1 else cnt) in
        ms_verify_loop node tail cnt found A
      else (found, cnt))"
  by pat_completeness auto
termination
  by (relation "measure (\<lambda>(node, tail, cnt, found, A). if node = NULL then 0 else 100001 - cnt)") auto

declare ms_verify_loop.simps [simp del]

definition ds_msqueue_verify_lkmm :: "ptr \<Rightarrow> 'a ms_arena \<Rightarrow> int" where
  "ds_msqueue_verify_lkmm hp A =
     (if hp = NULL then DS_ERROR_INVALID
      else
        let head = ms_head (ms_heads A hp); tail = ms_tail (ms_heads A hp) in
        if head = NULL \<or> tail = NULL then DS_ERROR_CORRUPT * 5
        else
          let node = ms_next (ms_nodes A head) in
          if head = tail \<and> node = NULL then DS_SUCCESS
          else
            let (found_tail, cnt) = ms_verify_loop node tail 0 False A;
                cnt = (if cnt > 0 then cnt - 1 else cnt) in
            if \<not> found_tail then DS_ERROR_CORRUPT * 2
            else
              let recorded = ms_count (ms_heads A hp) in
              if (of_nat cnt :: u64) > recorded + 100 \<or> recorded > of_nat cnt + 100 then DS_ERROR_CORRUPT * 3
              else if cnt \<ge> 100000 then DS_ERROR_CORRUPT * 4
              else DS_SUCCESS)"

definition ds_msqueue_verify_c :: "ptr \<Rightarrow> 'a ms_arena \<Rightarrow> int" where
  "ds_msqueue_verify_c hp A =
     (if hp = NULL then DS_ERROR_INVALID
      else
        let head = ms_head (ms_heads A hp); tail = ms_tail (ms_heads A hp) in
        if head = NULL \<or> tail = NULL then DS_ERROR_CORRUPT * 5
        else
          let node = ms_next (ms_nodes A head) in
          if head = tail \<and> node = NULL then DS_SUCCESS
          else
            let (found_tail, cnt) = ms_verify_loop node tail 0 False A;
                cnt = (if cnt > 0 then cnt - 1 else cnt) in
            if \<not> found_tail then DS_ERROR_CORRUPT * 2
            else
              let recorded = ms_count (ms_heads A hp) in
              if (of_nat cnt :: u64) > recorded + 100 \<or> recorded > of_nat cnt + 100 then DS_ERROR_CORRUPT * 3
              else if cnt \<ge> 100000 then DS_ERROR_CORRUPT * 4
              else DS_SUCCESS)"

definition ds_msqueue_verify :: "side \<Rightarrow> ptr \<Rightarrow> 'a ms_arena \<Rightarrow> int" where
  "ds_msqueue_verify sd hp A =
     (case sd of BPF \<Rightarrow> ds_msqueue_verify_lkmm hp A | USERSPACE \<Rightarrow> ds_msqueue_verify_c hp A)"

definition ds_msqueue_get_metadata :: ds_metadata where
  "ds_msqueue_get_metadata =
     \<lparr>md_name = ''msqueue'', md_description = ''Michael-Scott Non-Blocking FIFO Queue'',
      md_node_size = 8, md_requires_locking = 0\<rparr>"

subsection \<open>The variants agree\<close>

lemma ms_add_variants: "msqueue_add_node_c = msqueue_add_node_lkmm"
  unfolding msqueue_add_node_c_def msqueue_add_node_lkmm_def ..

lemma ms_init_variants: "ds_msqueue_init_c = ds_msqueue_init_lkmm"
  unfolding ds_msqueue_init_c_def ds_msqueue_init_lkmm_def ..

lemma ms_init_side [ds_variant]: "ds_msqueue_init sd = ds_msqueue_init_lkmm"
  by (intro ext) (cases sd, simp_all add: ds_msqueue_init_def ms_init_variants)

lemma ms_insert_variants: "ds_msqueue_insert_c = ds_msqueue_insert_lkmm"
  unfolding ds_msqueue_insert_c_def ds_msqueue_insert_lkmm_def ms_add_variants ..

lemma ms_insert_side [ds_variant]: "ds_msqueue_insert sd = ds_msqueue_insert_lkmm"
  by (intro ext) (cases sd, simp_all add: ds_msqueue_insert_def ms_insert_variants)

lemma ms_search_variants: "ds_msqueue_search_c = ds_msqueue_search_lkmm"
  unfolding ds_msqueue_search_c_def ds_msqueue_search_lkmm_def ..

lemma ms_search_side [ds_variant]: "ds_msqueue_search sd = ds_msqueue_search_lkmm"
  by (intro ext) (cases sd, simp_all add: ds_msqueue_search_def ms_search_variants)

lemma ms_iterate_variants: "ds_msqueue_iterate_c = ds_msqueue_iterate_lkmm"
  unfolding ds_msqueue_iterate_c_def ds_msqueue_iterate_lkmm_def ..

lemma ms_iterate_side [ds_variant]: "ds_msqueue_iterate sd = ds_msqueue_iterate_lkmm"
  by (intro ext) (cases sd, simp_all add: ds_msqueue_iterate_def ms_iterate_variants)

lemma ms_verify_variants: "ds_msqueue_verify_c = ds_msqueue_verify_lkmm"
  unfolding ds_msqueue_verify_c_def ds_msqueue_verify_lkmm_def ..

lemma ms_verify_side [ds_variant]: "ds_msqueue_verify sd = ds_msqueue_verify_lkmm"
  by (intro ext) (cases sd, simp_all add: ds_msqueue_verify_def ms_verify_variants)

subsection \<open>What a queue represents\<close>

text \<open>
  The list from the dummy at the head through the queued nodes.  The tail is the last
  node or the one before it (an inserter was stopped before it moved the tail).
\<close>

definition ms_tail_ok :: "ptr \<Rightarrow> ptr list \<Rightarrow> bool" where
  "ms_tail_ok t as \<longleftrightarrow> t = last as \<or> (2 \<le> length as \<and> t = last (butlast as))"

definition ms_queue :: "('a \<Rightarrow> bool) \<Rightarrow> ('a \<Rightarrow> nat set) \<Rightarrow> ptr \<Rightarrow> 'a ms_arena \<Rightarrow> ds_kv list \<Rightarrow> bool" where
  "ms_queue ok used hp A xs \<longleftrightarrow> hp \<noteq> NULL \<and> ok (ms_alloc A) \<and>
     ms_count (ms_heads A hp) = of_nat (length xs) \<and>
     (\<exists>qs. seg (ms_next \<circ> ms_nodes A) (ms_head (ms_heads A hp)) (ms_head (ms_heads A hp) # qs) NULL \<and>
        ms_tail_ok (ms_tail (ms_heads A hp)) (ms_head (ms_heads A hp) # qs) \<and>
        xs = map (ms_data \<circ> ms_nodes A) qs \<and>
        (\<forall>a \<in> set (ms_head (ms_heads A hp) # qs). block a ms_elem_bytes \<subseteq> used (ms_alloc A)))"

definition ms_room :: "'a allocator \<Rightarrow> 'a ms_arena \<Rightarrow> bool" where
  "ms_room alloc A \<longleftrightarrow> fst (alloc ms_elem_bytes (ms_alloc A)) \<noteq> NULL"

lemma ms_queueE:
  assumes "ms_queue ok used hp A xs"
  obtains qs where "hp \<noteq> NULL" "ok (ms_alloc A)" "ms_count (ms_heads A hp) = of_nat (length xs)"
    "seg (ms_next \<circ> ms_nodes A) (ms_head (ms_heads A hp)) (ms_head (ms_heads A hp) # qs) NULL"
    "ms_tail_ok (ms_tail (ms_heads A hp)) (ms_head (ms_heads A hp) # qs)"
    "xs = map (ms_data \<circ> ms_nodes A) qs"
    "\<forall>a \<in> set (ms_head (ms_heads A hp) # qs). block a ms_elem_bytes \<subseteq> used (ms_alloc A)"
  using assms unfolding ms_queue_def by (elim conjE exE) (rule that)

lemma seg_before_last:
  assumes "seg nx p as q" and "2 \<le> length as"
  shows "nx (last (butlast as)) = last as"
proof (cases as rule: rev_cases)
  case (snoc bs z)
  then have "bs \<noteq> []" using assms(2) by auto
  then obtain cs y where "bs = cs @ [y]" by (cases bs rule: rev_cases) auto
  then show ?thesis using assms(1) snoc by (auto simp: seg_append butlast_append)
qed (use assms(2) in simp)

text \<open>
  Linking a fresh node: whether or not the tail lags, the node ends up after the last one
  and becomes the tail.
\<close>

lemma ms_add_node:
  assumes s: "seg (ms_next \<circ> ms_nodes A) p as NULL" and as: "as \<noteq> []"
    and t: "ms_tail_ok (ms_tail (ms_heads A hp)) as" and e: "e \<noteq> NULL"
  shows "msqueue_add_node_lkmm e hp A = (DS_SUCCESS,
    ms_set_head hp \<lparr>ms_head = ms_head (ms_heads A hp), ms_tail = e, ms_count = ms_count (ms_heads A hp) + 1\<rparr>
      (ms_set_node (last as) ((ms_nodes A (last as))\<lparr>ms_next := e\<rparr>) A))"
proof -
  let ?l = "last as"
  have l: "ms_next (ms_nodes A ?l) = NULL" "?l \<noteq> NULL"
    using s as seg_snoc [of "ms_next \<circ> ms_nodes A" p "butlast as" ?l NULL] by auto
  have now: "ms_add_loop (Suc n) e hp B = (Some ?l, ms_set_node ?l ((ms_nodes B ?l)\<lparr>ms_next := e\<rparr>) B)"
    if "ms_tail (ms_heads B hp) = ?l" "ms_next (ms_nodes B ?l) = NULL" for n and B :: "'a ms_arena"
    using that by (simp add: ms_add_loop.simps(2) Let_def)
  have "ms_add_loop ms_max_retries e hp A =
      (Some ?l, ms_set_node ?l ((ms_nodes A ?l)\<lparr>ms_next := e\<rparr>) (ms_set_head hp ((ms_heads A hp)\<lparr>ms_tail := ?l\<rparr>) A))"
  proof (cases "ms_tail (ms_heads A hp) = ?l")
    case True
    then have "ms_set_head hp ((ms_heads A hp)\<lparr>ms_tail := ?l\<rparr>) A = A"
      by (cases "ms_heads A hp") (simp add: ms_set_head_def fun_upd_idem)
    then show ?thesis using now [OF True l(1)] by (simp add: ms_max_retries_def numeral_eq_Suc)
  next
    case False
    then have "ms_next (ms_nodes A (ms_tail (ms_heads A hp))) = ?l"
      using t seg_before_last [OF s] by (auto simp: ms_tail_ok_def)
    then have "ms_add_loop (Suc n) e hp A = ms_add_loop n e hp (ms_set_head hp ((ms_heads A hp)\<lparr>ms_tail := ?l\<rparr>) A)" for n
      using l(2) by (simp add: ms_add_loop.simps(2) Let_def)
    then show ?thesis
      using now [of "ms_set_head hp ((ms_heads A hp)\<lparr>ms_tail := ?l\<rparr>) A"] l(1)
      by (simp add: ms_max_retries_def numeral_eq_Suc)
  qed
  then show ?thesis
    by (cases "ms_heads A hp") (simp add: msqueue_add_node_lkmm_def Let_def ms_set_head_def ms_set_node_def)
qed

context arena_allocator
begin

lemma ms_insert_room:
  assumes q: "ms_queue ok used hp A xs" and r: "ms_room alloc A"
  shows "\<exists>A'. ds_msqueue_insert_lkmm alloc free hp (key x) (val x) A = (DS_SUCCESS, A') \<and>
    ms_queue ok used hp A' (xs @ [x])"
proof -
  let ?h = "ms_heads A hp"
  obtain qs where hp: "hp \<noteq> NULL" and k: "ok (ms_alloc A)" and c: "ms_count ?h = of_nat (length xs)"
    and s: "seg (ms_next \<circ> ms_nodes A) (ms_head ?h) (ms_head ?h # qs) NULL"
    and t: "ms_tail_ok (ms_tail ?h) (ms_head ?h # qs)" and xs: "xs = map (ms_data \<circ> ms_nodes A) qs"
    and u: "\<forall>a \<in> set (ms_head ?h # qs). block a ms_elem_bytes \<subseteq> used (ms_alloc A)"
    using q by (rule ms_queueE)
  let ?as = "ms_head ?h # qs"
  let ?l = "last ?as"
  obtain p al where a: "alloc ms_elem_bytes (ms_alloc A) = (p, al)" by fastforce
  have p: "p \<noteq> NULL" using r a by (simp add: ms_room_def)
  note f = alloc_fresh [OF k a p] and m = alloc_used [OF k a]
  have "unat p \<in> block p ms_elem_bytes" by (simp add: block_def ms_elem_bytes_def)
  then have fresh: "p \<notin> set ?as" using f u by blast
  define B where "B = ms_set_node p \<lparr>ms_next = NULL, ms_data = x\<rparr> (A\<lparr>ms_alloc := al\<rparr>)"
  have nB: "ms_nodes B = (ms_nodes A)(p := \<lparr>ms_next = NULL, ms_data = x\<rparr>)" by (simp add: B_def)
  have sB: "seg (ms_next \<circ> ms_nodes B) (ms_head ?h) ?as NULL"
    unfolding nB seg_comp_upd [OF fresh] by (rule s)
  let ?A = "ms_set_head hp \<lparr>ms_head = ms_head ?h, ms_tail = p, ms_count = ms_count ?h + 1\<rparr>
    (ms_set_node ?l ((ms_nodes B ?l)\<lparr>ms_next := p\<rparr>) B)"
  have "ds_msqueue_insert_lkmm alloc free hp (key x) (val x) A = (DS_SUCCESS, ?A)"
    using ms_add_node [OF sB _ _ p, of hp] t hp a p
    by (cases "ms_nodes A p") (simp add: ds_msqueue_insert_lkmm_def Let_def B_def ms_set_node_def ms_set_head_def)
  moreover have "ms_queue ok used hp ?A (xs @ [x])"
  proof -
    have pl: "p \<noteq> ?l" using fresh by (metis last_in_set list.discI)
    have "ms_next \<circ> ms_nodes ?A = (ms_next \<circ> ms_nodes B)(?l := p)" by auto
    then have "seg (ms_next \<circ> ms_nodes ?A) (ms_head ?h) (?as @ [p]) NULL"
      using seg_link [OF sB _ p fresh] by (simp only:) (simp add: nB)
    moreover have "xs @ [x] = map (ms_data \<circ> ms_nodes ?A) (qs @ [p])"
      using xs fresh pl by (auto simp: B_def simp del: last.simps)
    moreover have "\<forall>a \<in> set (?as @ [p]). block a ms_elem_bytes \<subseteq> used al" using f u m by (auto; blast)
    ultimately show ?thesis
      unfolding ms_queue_def using hp alloc_ok [OF k a] c
      by (intro conjI exI [of _ "qs @ [p]"]) (simp_all add: ms_tail_ok_def B_def add.commute)
  qed
  ultimately show ?thesis by blast
qed

lemma ms_insert_nomem:
  assumes q: "ms_queue ok used hp A xs" and r: "\<not> ms_room alloc A"
  shows "\<exists>A'. ds_msqueue_insert_lkmm alloc free hp k v A = (DS_ERROR_NOMEM, A') \<and> ms_queue ok used hp A' xs"
proof -
  obtain p al where a: "alloc ms_elem_bytes (ms_alloc A) = (p, al)" by fastforce
  have k: "ok (ms_alloc A)" "hp \<noteq> NULL" using q by (simp_all add: ms_queue_def)
  have "ds_msqueue_insert_lkmm alloc free hp k v A = (DS_ERROR_NOMEM, A\<lparr>ms_alloc := al\<rparr>)"
    using a r k(2) by (simp add: ds_msqueue_insert_lkmm_def ms_room_def)
  moreover have "ms_queue ok used hp (A\<lparr>ms_alloc := al\<rparr>) xs"
    using q alloc_ok [OF k(1) a] alloc_used [OF k(1) a] by (fastforce simp: ms_queue_def)
  ultimately show ?thesis by blast
qed

end

text \<open>With a head and a tail in place the userspace loop runs as the other one does.\<close>

lemma ms_pop_variants:
  "ms_head (ms_heads A hp) \<noteq> NULL \<Longrightarrow> ms_tail (ms_heads A hp) \<noteq> NULL \<Longrightarrow>
   ms_pop_loop_c n free hp d A = ms_pop_loop_lkmm n free hp d A"
proof (induction n arbitrary: d A)
  case (Suc n)
  then show ?case
    by (simp add: ms_pop_loop_c.simps(2) ms_pop_loop_lkmm.simps(2) Let_def split_def arena_atomic_cmpxchg_def)
qed simp

lemma ms_tail_ok_mem: "ms_tail_ok t as \<Longrightarrow> as \<noteq> [] \<Longrightarrow> t \<in> set as"
  by (cases as rule: rev_cases; cases "butlast as" rule: rev_cases) (auto simp: ms_tail_ok_def)

lemma ms_pop_side:
  assumes "ms_queue ok used hp A xs"
  shows "ds_msqueue_pop sd free hp (Some d) A =
    (let (r, d, A) = ms_pop_loop_lkmm ms_max_retries free hp d A in (r, Some d, A))"
proof -
  obtain qs where hp: "hp \<noteq> NULL"
    and s: "seg (ms_next \<circ> ms_nodes A) (ms_head (ms_heads A hp)) (ms_head (ms_heads A hp) # qs) NULL"
    and t: "ms_tail_ok (ms_tail (ms_heads A hp)) (ms_head (ms_heads A hp) # qs)"
    using assms by (rule ms_queueE)
  let ?as = "ms_head (ms_heads A hp) # qs"
  have "ms_tail (ms_heads A hp) \<in> set ?as"
    using t by (rule ms_tail_ok_mem) simp
  then have "ms_tail (ms_heads A hp) \<noteq> NULL" using seg_not_null [OF s] by metis
  moreover have "ms_head (ms_heads A hp) \<noteq> NULL" using s by simp
  ultimately show ?thesis
    using hp by (cases sd) (simp_all add: ds_msqueue_pop_def ds_msqueue_pop_lkmm_def ds_msqueue_pop_c_def ms_pop_variants)
qed

lemma ms_pop_empty:
  assumes "ms_queue ok used hp A []"
  shows "ds_msqueue_pop sd free hp (Some d) A = (DS_ERROR_NOT_FOUND, Some d, A)"
  unfolding ms_pop_side [OF assms] using assms
  by (auto simp: ms_queue_def ms_max_retries_def numeral_eq_Suc ms_pop_loop_lkmm.simps(2) Let_def)

text \<open>
  Removing the front element: when the tail still points to the dummy it is moved first
  (one of the ten attempts), then the dummy is unlinked and released.
\<close>

lemma ms_pop_step:
  assumes "ms_next (ms_nodes A (ms_head (ms_heads A hp))) = q" "q \<noteq> NULL" "ms_tail (ms_heads A hp) \<noteq> ms_head (ms_heads A hp)"
  shows "ms_pop_loop_lkmm (Suc n) free hp d A = (DS_SUCCESS, ms_data (ms_nodes A q),
    ms_set_head hp \<lparr>ms_head = q, ms_tail = ms_tail (ms_heads A hp), ms_count = ms_count (ms_heads A hp) - 1\<rparr>
      (A\<lparr>ms_alloc := free (ms_head (ms_heads A hp)) (ms_alloc A)\<rparr>))"
  using assms by (cases "ms_heads A hp") (auto simp: ms_pop_loop_lkmm.simps(2) Let_def ms_set_head_def)

lemma ms_pop_help:
  assumes "ms_next (ms_nodes A (ms_head (ms_heads A hp))) = q" "q \<noteq> NULL" "ms_tail (ms_heads A hp) = ms_head (ms_heads A hp)"
  shows "ms_pop_loop_lkmm (Suc n) free hp d A =
    ms_pop_loop_lkmm n free hp d (ms_set_head hp ((ms_heads A hp)\<lparr>ms_tail := q\<rparr>) A)"
  using assms by (simp add: ms_pop_loop_lkmm.simps(2) Let_def)

lemma ms_pop_loop_front:
  assumes "ms_next (ms_nodes A (ms_head (ms_heads A hp))) = q" "q \<noteq> NULL" "q \<noteq> ms_head (ms_heads A hp)"
  shows "ms_pop_loop_lkmm ms_max_retries free hp d A = (DS_SUCCESS, ms_data (ms_nodes A q),
    ms_set_head hp \<lparr>ms_head = q,
        ms_tail = (if ms_tail (ms_heads A hp) = ms_head (ms_heads A hp) then q else ms_tail (ms_heads A hp)),
        ms_count = ms_count (ms_heads A hp) - 1\<rparr>
      (A\<lparr>ms_alloc := free (ms_head (ms_heads A hp)) (ms_alloc A)\<rparr>))"
proof (cases "ms_tail (ms_heads A hp) = ms_head (ms_heads A hp)")
  case False
  then show ?thesis using ms_pop_step [OF assms(1,2)] by (simp add: ms_max_retries_def numeral_eq_Suc)
next
  case True
  let ?B = "ms_set_head hp ((ms_heads A hp)\<lparr>ms_tail := q\<rparr>) A"
  have "ms_pop_loop_lkmm ms_max_retries free hp d A = ms_pop_loop_lkmm (Suc 8) free hp d ?B"
    using ms_pop_help [OF assms(1,2) True] by (simp add: ms_max_retries_def numeral_eq_Suc)
  then show ?thesis
    using ms_pop_step [of ?B hp q 8 free d] assms True by (simp add: ms_set_head_def)
qed

lemma ms_tail_ok_pop:
  assumes "ms_tail_ok t (h # q # qs)" "distinct (h # q # qs)"
  shows "ms_tail_ok (if t = h then q else t) (q # qs)"
  using assms by (cases qs rule: rev_cases) (auto simp: ms_tail_ok_def butlast_append)

context freeing_allocator
begin

lemma ms_pop_front:
  assumes q: "ms_queue ok used hp A (x # xs)"
  shows "\<exists>A'. ds_msqueue_pop sd free hp (Some d) A = (DS_SUCCESS, Some x, A') \<and> ms_queue ok used hp A' xs"
proof -
  let ?h = "ms_heads A hp"
  obtain as where hp: "hp \<noteq> NULL" and k: "ok (ms_alloc A)" and c: "ms_count ?h = of_nat (length (x # xs))"
    and s: "seg (ms_next \<circ> ms_nodes A) (ms_head ?h) (ms_head ?h # as) NULL"
    and t: "ms_tail_ok (ms_tail ?h) (ms_head ?h # as)" and m: "x # xs = map (ms_data \<circ> ms_nodes A) as"
    and u: "\<forall>a \<in> set (ms_head ?h # as). block a ms_elem_bytes \<subseteq> used (ms_alloc A)"
    using q by (rule ms_queueE)
  obtain b qs where as: "as = b # qs" using m by auto
  have n: "ms_next (ms_nodes A (ms_head ?h)) = b" "b \<noteq> NULL" "b \<noteq> ms_head ?h"
    using s seg_distinct [OF s] as by auto
  let ?A = "ms_set_head hp \<lparr>ms_head = b, ms_tail = (if ms_tail ?h = ms_head ?h then b else ms_tail ?h),
    ms_count = ms_count ?h - 1\<rparr> (A\<lparr>ms_alloc := free (ms_head ?h) (ms_alloc A)\<rparr>)"
  have "ds_msqueue_pop sd free hp (Some d) A = (DS_SUCCESS, Some x, ?A)"
    unfolding ms_pop_side [OF q] ms_pop_loop_front [OF n] using m as by simp
  moreover have "ms_queue ok used hp ?A xs"
    unfolding ms_queue_def using hp free_ok [OF k] c s m u free_used [OF k] as
      ms_tail_ok_pop [OF t [unfolded as]] seg_distinct [OF s]
    by (intro conjI exI [of _ qs]) auto
  ultimately show ?thesis by blast
qed

end

text \<open>Any allocator that keeps the contract makes the queue a first-in first-out lane.\<close>

sublocale freeing_allocator \<subseteq> msq: fifo_lane
  "\<lambda>x. ds_msqueue_insert pr alloc free hp (key x) (val x)"
  "ds_msqueue_pop co free hp (Some d)" "ms_queue ok used hp" "ms_room alloc"
  for pr co :: side and hp :: ptr and d :: ds_kv
proof unfold_locales
  fix A xs and x :: ds_kv
  assume "ms_queue ok used hp A xs" "ms_room alloc A"
  then show "\<exists>A'. ds_msqueue_insert pr alloc free hp (key x) (val x) A = (DS_SUCCESS, A') \<and>
      ms_queue ok used hp A' (xs @ [x])"
    unfolding ds_variant by (rule ms_insert_room)
next
  fix A xs and x :: ds_kv
  assume "ms_queue ok used hp A xs" "\<not> ms_room alloc A"
  then show "\<exists>e A'. ds_msqueue_insert pr alloc free hp (key x) (val x) A = (e, A') \<and> e \<noteq> DS_SUCCESS \<and>
      ms_queue ok used hp A' xs"
    unfolding ds_variant using ms_insert_nomem ds_error_not_success(3) by blast
next
  fix A
  assume "ms_queue ok used hp A []"
  then show "\<exists>out A'. ds_msqueue_pop co free hp (Some d) A = (DS_ERROR_NOT_FOUND, out, A') \<and>
      ms_queue ok used hp A' []"
    by (simp add: ms_pop_empty)
next
  fix A x xs
  assume "ms_queue ok used hp A (x # xs)"
  then show "\<exists>A'. ds_msqueue_pop co free hp (Some d) A = (DS_SUCCESS, Some x, A') \<and>
      ms_queue ok used hp A' xs"
    by (rule ms_pop_front)
qed

subsection \<open>Properties\<close>


text \<open>A queue whose dummy is the first block of a userspace arena.\<close>

definition ms_demo :: "user_alloc ms_arena" where
  "ms_demo =
     \<lparr>ms_heads = (\<lambda>_. \<lparr>ms_head = 0x100000001FE0, ms_tail = 0x100000001FE0, ms_count = 0\<rparr>),
      ms_nodes = (\<lambda>_. \<lparr>ms_next = 0, ms_data = zero_kv\<rparr>),
      ms_alloc = \<lparr>u_base = 0x100000001000, u_size = 0x4000, u_page_size = 4096, u_next_page_off = 4096,
        u_cur_page = 0x100000001000, u_cur_offset = 4064, u_lock = False, u_obj_cnt = (\<lambda>_. 1)\<rparr>\<rparr>"

text \<open>The same queue with one element whose inserter has not moved the tail yet.\<close>

definition ms_lagging :: "user_alloc ms_arena" where
  "ms_lagging =
     \<lparr>ms_heads = (\<lambda>_. \<lparr>ms_head = 0x100000001FE0, ms_tail = 0x100000001FE0, ms_count = 1\<rparr>),
      ms_nodes = (\<lambda>a. if a = 0x100000001FE0 then \<lparr>ms_next = 0x100000001FC0, ms_data = zero_kv\<rparr>
        else \<lparr>ms_next = 0, ms_data = \<lparr>key = 7, val = 70\<rparr>\<rparr>),
      ms_alloc = \<lparr>u_base = 0x100000001000, u_size = 0x4000, u_page_size = 4096, u_next_page_off = 4096,
        u_cur_page = 0x100000001000, u_cur_offset = 4032, u_lock = False, u_obj_cnt = (\<lambda>_. 2)\<rparr>\<rparr>"

lemma ms_demo_queue: "ms_queue user_ok user_used 0x1000 ms_demo []"
  by (simp add: ms_queue_def ms_demo_def user_ok_def user_used_def block_def ms_elem_bytes_def ms_tail_ok_def)

lemma ms_lagging_queue: "ms_queue user_ok user_used 0x1000 ms_lagging [\<lparr>key = 7, val = 70\<rparr>]"
  unfolding ms_queue_def
  by (intro conjI exI [of _ "[0x100000001FC0]"])
    (simp_all add: ms_lagging_def user_ok_def user_used_def block_def ms_elem_bytes_def ms_tail_ok_def)


subsection \<open>Initialisation, readers and the verifier\<close>

text \<open>
  Initialisation with the userspace allocator: a NULL queue is refused, an
  allocation failure is reported and nothing but the allocator changes, otherwise the
  queue is empty behind a fresh dummy.
\<close>

theorem ms_init_branches:
  assumes k: "user_ok (ms_alloc A)" and i: "ds_msqueue_init sd user_allocator hp A = (r, A')"
  shows "(if hp = NULL then r = DS_ERROR_INVALID \<and> A' = A
     else if fst (user_allocator ms_elem_bytes (ms_alloc A)) = NULL
       then r = DS_ERROR_NOMEM \<and> ms_heads A' = ms_heads A \<and> ms_nodes A' = ms_nodes A
     else r = DS_SUCCESS \<and> ms_queue user_ok user_used hp A' [])"
proof -
  obtain p al where a: "user_allocator ms_elem_bytes (ms_alloc A) = (p, al)" by fastforce
  have "p \<noteq> NULL \<Longrightarrow> block p ms_elem_bytes \<subseteq> user_used al" using ua.alloc_fresh [OF k a] by blast
  then show ?thesis
    using i a ua.alloc_ok [OF k a]
    by (cases "hp = NULL"; cases "p = NULL")
      (auto simp: ds_variant ds_msqueue_init_lkmm_def Let_def ms_queue_def ms_tail_ok_def)
qed

theorem ms_init_branches_witness:
  "\<exists>A'. ds_msqueue_init BPF user_allocator 0x1000 ms_demo = (DS_SUCCESS, A') \<and>
     ms_queue user_ok user_used 0x1000 A' []"
proof -
  obtain r A' where i: "ds_msqueue_init BPF user_allocator 0x1000 ms_demo = (r, A')" by fastforce
  have k: "user_ok (ms_alloc ms_demo)" using ms_demo_queue by (simp add: ms_queue_def)
  have "fst (user_allocator ms_elem_bytes (ms_alloc ms_demo)) \<noteq> NULL" by code_simp
  with ms_init_branches [OF k i] i show ?thesis by simp
qed

lemma ms_search_loop_seg:
  assumes "seg (ms_next \<circ> ms_nodes A) p qs NULL" and "0 \<le> i"
  shows "ms_search_loop i p k A =
    (if k \<in> key ` ms_data ` ms_nodes A ` set (take (nat (100000 - i)) qs) then DS_SUCCESS else DS_ERROR_NOT_FOUND)"
  using assms
proof (induction qs arbitrary: p i)
  case Nil
  then show ?case by (simp add: ms_search_loop.simps)
next
  case (Cons q qs)
  show ?case
  proof (cases "i < 100000")
    case True
    then have "nat (100000 - i) = Suc (nat (100000 - (i + 1)))" by simp
    then show ?thesis using Cons True by (simp add: ms_search_loop.simps [of i])
  qed (use Cons.prems in \<open>simp add: ms_search_loop.simps [of i]\<close>)
qed

lemma ms_iterate_loop_seg:
  "seg (ms_next \<circ> ms_nodes A) p qs NULL \<Longrightarrow>
   ms_iterate_loop n f p v c A = iterate_list f (take n (map (ms_data \<circ> ms_nodes A) qs)) v c"
proof (induction n arbitrary: p qs v c)
  case (Suc n)
  show ?case
  proof (cases qs)
    case (Cons q rs)
    then show ?thesis using Suc by (auto split: prod.split)
  qed (use Suc.prems in simp)
qed simp

text \<open>
  Reading the queue: search finds a key exactly when one of the first hundred
  thousand elements has it, and iteration visits the first ten elements only, in order,
  up to the first for which the callback asks to stop.
\<close>

theorem ms_readers:
  assumes q: "ms_queue ok used hp A xs"
  shows "ds_msqueue_search sd hp k A = (if k \<in> key ` set (take 100000 xs) then DS_SUCCESS else DS_ERROR_NOT_FOUND) \<and>
    ds_msqueue_iterate sd hp (Some f) c A = iterate_list f (take 10 xs) 0 c"
proof -
  let ?n = "ms_next (ms_nodes A (ms_head (ms_heads A hp)))"
  obtain qs where hp: "hp \<noteq> NULL" and s: "seg (ms_next \<circ> ms_nodes A) ?n qs NULL"
    and xs: "xs = map (ms_data \<circ> ms_nodes A) qs" using q by (auto elim!: ms_queueE)
  have "ds_msqueue_search sd hp k A = (if k \<in> key ` set (take 100000 xs) then DS_SUCCESS else DS_ERROR_NOT_FOUND)"
    using ms_search_loop_seg [OF s, of 0 k] hp
    by (simp add: ds_variant ds_msqueue_search_lkmm_def xs take_map image_comp comp_assoc)
  moreover have "ds_msqueue_iterate sd hp (Some f) c A = iterate_list f (take 10 xs) 0 c"
    using ms_iterate_loop_seg [OF s, of 10 f 0 c] hp s xs
    by (cases "?n = NULL") (auto simp: ds_variant ds_msqueue_iterate_lkmm_def Let_def seg_NULL_head)
  ultimately show ?thesis by blast
qed

theorem ms_readers_witness:
  "ds_msqueue_search BPF 0x1000 7 ms_lagging = DS_SUCCESS \<and>
   ds_msqueue_iterate USERSPACE 0x1000 (Some (\<lambda>k v c. (0, c + v))) 0 ms_lagging = (1, 70)"
  using ms_readers [OF ms_lagging_queue, of BPF 7 "\<lambda>k v (c :: u64). (0, c + v)" 0]
    ms_readers [OF ms_lagging_queue, of USERSPACE 7 "\<lambda>k v (c :: u64). (0, c + v)" 0]
  by simp

lemma ms_verify_loop_seg:
  assumes "seg (ms_next \<circ> ms_nodes A) p qs NULL" and "0 < i" "i \<le> 100000"
  shows "ms_verify_loop p t i fnd A =
    (fnd \<or> t \<in> set (take (100000 - i) qs), min (i + length qs) 100000)"
  using assms
proof (induction qs arbitrary: p i fnd)
  case Nil
  then show ?case by (simp add: ms_verify_loop.simps)
next
  case (Cons q qs)
  show ?case
  proof (cases "i < 100000")
    case True
    then have "100000 - i = Suc (100000 - Suc i)" by simp
    moreover have "ms_verify_loop p t i fnd A =
        ms_verify_loop (ms_next (ms_nodes A q)) t (Suc i) (if q = t then True else fnd) A"
      using Cons.prems True by (subst ms_verify_loop.simps) (simp add: Let_def)
    ultimately show ?thesis using Cons.IH [of _ "Suc i"] Cons.prems True by auto
  qed (use Cons.prems in \<open>auto simp: ms_verify_loop.simps [of _ _ 100000]\<close>)
qed

lemma ms_verify_loop_start:
  assumes s: "seg (ms_next \<circ> ms_nodes A) p qs NULL" and "qs \<noteq> []"
  shows "ms_verify_loop p t 0 False A =
    (t \<in> set (take 100000 qs), if length qs = 1 then 0 else min (length qs) 100000)"
proof -
  obtain q rs where q: "qs = q # rs" using assms(2) by (cases qs) auto
  let ?n = "ms_next (ms_nodes A q)"
  have "ms_verify_loop p t 0 False A = ms_verify_loop ?n t (if ?n \<noteq> NULL then 1 else 0) (q = t) A"
    using s q by (subst ms_verify_loop.simps) (simp add: Let_def)
  moreover have s': "seg (ms_next \<circ> ms_nodes A) ?n rs NULL" using s q by simp
  moreover have "take 100000 qs = q # take 99999 rs" using q by (simp add: take_Cons')
  moreover have "?n = NULL \<longleftrightarrow> rs = []" using s' by (cases rs) auto
  ultimately show ?thesis
    using ms_verify_loop_seg [OF s', of 1 t "q = t"] q
    by (cases "rs = []") (auto simp: ms_verify_loop.simps [of 0])
qed

lemma ms_tail_not_early:
  assumes "ms_tail_ok t qs" "distinct qs" "Suc n < length qs"
  shows "t \<notin> set (take n qs)"
proof -
  have "t \<in> set (drop n qs)"
  proof (rule ms_tail_ok_mem)
    show "ms_tail_ok t (drop n qs)" using assms(1,3) by (auto simp: ms_tail_ok_def butlast_drop)
  qed (use assms(3) in simp)
  then show ?thesis using set_take_disj_set_drop_if_distinct [OF assms(2), of n n] by blast
qed

text \<open>
  C38.  The verifier on a consistent queue.  Up to a hundred thousand elements it accepts,
  except that it reports corruption when the queue is not empty and the tail has not yet
  moved off the dummy; beyond a hundred thousand and one elements it reports corruption.
\<close>

theorem ms_verify_bounded:
  assumes q: "ms_queue ok used hp A xs"
  shows "(length xs \<le> 100000 \<longrightarrow> ds_msqueue_verify sd hp A =
      (if xs \<noteq> [] \<and> ms_tail (ms_heads A hp) = ms_head (ms_heads A hp) then DS_ERROR_CORRUPT * 2 else DS_SUCCESS)) \<and>
    (100001 < length xs \<longrightarrow> ds_msqueue_verify sd hp A = DS_ERROR_CORRUPT * 2)"
proof -
  let ?h = "ms_heads A hp"
  obtain qs where hp: "hp \<noteq> NULL" and c: "ms_count ?h = of_nat (length xs)"
    and s: "seg (ms_next \<circ> ms_nodes A) (ms_head ?h) (ms_head ?h # qs) NULL"
    and t: "ms_tail_ok (ms_tail ?h) (ms_head ?h # qs)" and xs: "xs = map (ms_data \<circ> ms_nodes A) qs"
    using q by (rule ms_queueE)
  have m: "ms_tail ?h \<in> set (ms_head ?h # qs)" using t by (rule ms_tail_ok_mem) simp
  have nn: "ms_head ?h \<noteq> NULL" "ms_tail ?h \<noteq> NULL" using s seg_not_null [OF s] m by auto
  have d: "distinct (ms_head ?h # qs)" using seg_distinct [OF s] .
  have s': "seg (ms_next \<circ> ms_nodes A) (ms_next (ms_nodes A (ms_head ?h))) qs NULL" using s by simp
  show ?thesis
  proof (cases "qs = []")
    case True
    then show ?thesis using s m hp nn xs by (simp add: ds_variant ds_msqueue_verify_lkmm_def Let_def)
  next
    case False
    define c0 where "c0 = (if length qs = 1 then 0 else min (length qs) 100000)"
    define cnt where "cnt = min (length qs) 100000 - 1"
    have adj: "(if 0 < c0 then c0 - 1 else c0) = cnt" "\<not> 100000 \<le> cnt" by (auto simp: c0_def cnt_def)
    have n: "ms_next (ms_nodes A (ms_head ?h)) \<noteq> NULL" using s' False by (cases qs) auto
    have v: "ds_msqueue_verify sd hp A = (if ms_tail ?h \<notin> set (take 100000 qs) then DS_ERROR_CORRUPT * 2
        else if (of_nat cnt :: u64) > of_nat (length qs) + 100 \<or> of_nat (length qs) > (of_nat cnt :: u64) + 100
          then DS_ERROR_CORRUPT * 3 else DS_SUCCESS)"
      using hp nn n c xs ms_verify_loop_start [OF s' False, of "ms_tail ?h", folded c0_def] adj
      by (simp add: ds_variant ds_msqueue_verify_lkmm_def Let_def)
    have cnt: "\<not> ((of_nat cnt :: u64) > of_nat (length qs) + 100 \<or> of_nat (length qs) > (of_nat cnt :: u64) + 100)"
      if "length qs \<le> 100000"
      using that unfolding cnt_def by (simp only: word_less_nat_alt unat_word_ariths unat_of_nat) auto
    have in1: "ms_tail ?h \<in> set (take 100000 qs) \<longleftrightarrow> ms_tail ?h \<noteq> ms_head ?h" if "length qs \<le> 100000"
      using that m d by auto
    have in2: "ms_tail ?h \<notin> set (take 100000 qs)" if "100001 < length qs"
      using ms_tail_not_early [OF t d, of 100001] that by simp
    show ?thesis
      using v cnt in1 in2 False xs by auto
  qed
qed

theorem ms_verify_bounded_witness:
  "ds_msqueue_verify BPF 0x1000 ms_lagging = DS_ERROR_CORRUPT * 2 \<and>
   ds_msqueue_verify USERSPACE 0x1000 ms_demo = DS_SUCCESS"
  using ms_verify_bounded [OF ms_lagging_queue, of BPF] ms_verify_bounded [OF ms_demo_queue, of USERSPACE]
  by (simp add: ms_lagging_def)

end
