(* ===== verification/UserTest.thy ===== *)
theory UserTest
  imports FollySpsc CkRingSpsc Vyukhov CkStackUpmc CkFifoSpsc Msqueue
begin

unbundle bit_operations_syntax

text \<open>
  The userspace tests of \<^verbatim>\<open>usertest/\<close>: the bump allocator that replaces the arena there
  (\<^verbatim>\<open>usertest_common.h\<close>), the producer and consumer threads and the main programs of the
  six tests, with what their exit status says about the structure under test.  Threads
  interleave between the operations on the structure and the counters, in any order;
  an operation itself is one step.
\<close>

subsection \<open>The bump allocator\<close>

definition USERTEST_ARENA_BYTES :: u64 where "USERTEST_ARENA_BYTES = 64 * 1024 * 1024"

text \<open>
  \<open>ut_mem\<close> is the block that \<^verbatim>\<open>posix_memalign\<close> returns (the process aborts when there is
  none), \<open>ut_ready\<close> the state of \<^verbatim>\<open>usertest_arena_once\<close>.
\<close>

record usertest_arena =
  ut_mem :: ptr
  ut_ready :: bool
  ut_base :: ptr
  ut_bytes :: u64
  ut_off :: u64

definition usertest_arena_init_once :: "usertest_arena \<Rightarrow> usertest_arena" where
  "usertest_arena_init_once s =
     (let bytes = USERTEST_ARENA_BYTES;
          align = 64;
          bytes = (if bytes mod align \<noteq> 0 then ((bytes + align - 1) div align) * align else bytes) in
      s\<lparr>ut_ready := True, ut_base := ut_mem s, ut_bytes := bytes, ut_off := 0\<rparr>)"

definition usertest_arena_alloc :: "usertest_arena allocator" where
  "usertest_arena_alloc sz s =
     (let align = 8 :: u64;
          n = (ucast sz + align - 1) AND NOT (align - 1);
          s = (if ut_ready s then s else usertest_arena_init_once s);
          off = ut_off s;
          s = s\<lparr>ut_off := off + n\<rparr> in
      if off + n > ut_bytes s then (NULL, s)
      else (ut_base s + off, s))"

definition usertest_arena_free :: "ptr \<Rightarrow> usertest_arena \<Rightarrow> usertest_arena" where
  "usertest_arena_free addr s = s"

definition usertest_fresh :: "ptr \<Rightarrow> usertest_arena" where
  "usertest_fresh mem = \<lparr>ut_mem = mem, ut_ready = False, ut_base = NULL, ut_bytes = 0, ut_off = 0\<rparr>"

subsection \<open>The shape of a test\<close>

text \<open>\<^verbatim>\<open>struct ctx\<close> without the structure under test.\<close>

record ut_ctx =
  ut_produced :: u64
  ut_consumed :: u64
  ut_ordering_failures :: u64
  ut_duplicate_keys :: u64
  ut_out_of_range_keys :: u64
  ut_seen_keys :: "nat \<Rightarrow> 8 word"
  ut_expected :: u64

text \<open>How a thread takes the result of an operation: done, to be retried, or the thread gives up.\<close>

datatype outcome = Accepted | Again | Failed

text \<open>
  What distinguishes the tests: the numbers of threads and items, the key of an item, the
  insert and the pop with the codes that are retried, what a consumer checks about an
  element (given its expected key), and the exit status.
\<close>

record 'q usertest =
  t_producers :: nat
  t_consumers :: nat
  t_items :: nat
  t_key :: "nat \<Rightarrow> nat \<Rightarrow> u64"
  t_try :: "nat \<Rightarrow> nat \<Rightarrow> u64 \<Rightarrow> u64 \<Rightarrow> 'q \<Rightarrow> outcome \<times> 'q"
  t_take :: "'q \<Rightarrow> outcome \<times> ds_kv \<times> 'q"
  t_examine :: "ds_kv \<Rightarrow> u64 \<Rightarrow> ut_ctx \<Rightarrow> u64 \<times> ut_ctx"
  t_status :: "ut_ctx \<Rightarrow> int"

text \<open>
  A producer before item \<open>i\<close>, trying to insert it with a time stamp, about to count and
  print it, or finished; a consumer (with its expected key) before its loop test, before a
  pop, about to count an element, about to print and check it, or finished.
\<close>

datatype producer = Pr_next nat | Pr_try nat u64 | Pr_count nat u64 | Pr_done | Pr_failed nat

datatype consumer = Co_check u64 | Co_pop u64 | Co_got u64 ds_kv | Co_note u64 ds_kv | Co_done | Co_failed

record 'q ut_state =
  us_q :: 'q
  us_ctx :: ut_ctx
  us_producers :: "producer list"
  us_consumers :: "consumer list"
  us_produced :: "ds_kv list"
  us_consumed :: "ds_kv list"

text \<open>
  One step of producer \<open>tid\<close> (\<open>now\<close> is what \<^verbatim>\<open>usertest_now_ns\<close> returns); \<open>us_produced\<close>
  and \<open>us_consumed\<close> are the elements the threads print.
\<close>

fun producer_thread :: "'q usertest \<Rightarrow> nat \<Rightarrow> u64 \<Rightarrow> producer \<Rightarrow> 'q ut_state \<Rightarrow> producer \<times> 'q ut_state" where
  "producer_thread t tid now (Pr_next i) s = (if i < t_items t then Pr_try i now else Pr_done, s)"
| "producer_thread t tid now (Pr_try i v) s =
     (let (rc, q) = t_try t tid i (t_key t tid i) v (us_q s); s = s\<lparr>us_q := q\<rparr> in
      case rc of Accepted \<Rightarrow> (Pr_count i v, s) | Again \<Rightarrow> (Pr_try i v, s) | Failed \<Rightarrow> (Pr_failed i, s))"
| "producer_thread t tid now (Pr_count i v) s =
     (Pr_next (Suc i), s\<lparr>us_ctx := (us_ctx s)\<lparr>ut_produced := ut_produced (us_ctx s) + 1\<rparr>,
        us_produced := us_produced s @ [\<lparr>key = t_key t tid i, val = v\<rparr>]\<rparr>)"
| "producer_thread t tid now Pr_done s = (Pr_done, s)"
| "producer_thread t tid now (Pr_failed i) s = (Pr_failed i, s)"

fun consumer_thread :: "'q usertest \<Rightarrow> consumer \<Rightarrow> 'q ut_state \<Rightarrow> consumer \<times> 'q ut_state" where
  "consumer_thread t (Co_check e) s =
     (if ut_consumed (us_ctx s) < ut_expected (us_ctx s) then Co_pop e else Co_done, s)"
| "consumer_thread t (Co_pop e) s =
     (let (rc, out, q) = t_take t (us_q s); s = s\<lparr>us_q := q\<rparr> in
      case rc of Accepted \<Rightarrow> (Co_got e out, s) | Again \<Rightarrow> (Co_check e, s) | Failed \<Rightarrow> (Co_failed, s))"
| "consumer_thread t (Co_got e out) s =
     (Co_note e out, s\<lparr>us_ctx := (us_ctx s)\<lparr>ut_consumed := ut_consumed (us_ctx s) + 1\<rparr>\<rparr>)"
| "consumer_thread t (Co_note e out) s =
     (let (e, c) = t_examine t out e (us_ctx s) in
      (Co_check e, s\<lparr>us_ctx := c, us_consumed := us_consumed s @ [out]\<rparr>))"
| "consumer_thread t Co_done s = (Co_done, s)"
| "consumer_thread t Co_failed s = (Co_failed, s)"

text \<open>A schedule says which thread makes the next step.\<close>

datatype ut_turn = U_producer nat u64 | U_consumer nat

fun usertest_turn :: "'q usertest \<Rightarrow> ut_turn \<Rightarrow> 'q ut_state \<Rightarrow> 'q ut_state" where
  "usertest_turn t (U_producer tid now) s =
     (if tid < length (us_producers s) then
        let (pc, s) = producer_thread t tid now (us_producers s ! tid) s in
        s\<lparr>us_producers := (us_producers s)[tid := pc]\<rparr>
      else s)"
| "usertest_turn t (U_consumer j) s =
     (if j < length (us_consumers s) then
        let (pc, s) = consumer_thread t (us_consumers s ! j) s in
        s\<lparr>us_consumers := (us_consumers s)[j := pc]\<rparr>
      else s)"

definition usertest_run :: "'q usertest \<Rightarrow> ut_turn list \<Rightarrow> 'q ut_state \<Rightarrow> 'q ut_state" where
  "usertest_run t ts s = fold (usertest_turn t) ts s"

definition usertest_start :: "'q usertest \<Rightarrow> 'q \<Rightarrow> 'q ut_state" where
  "usertest_start t q =
     \<lparr>us_q = q,
      us_ctx = \<lparr>ut_produced = 0, ut_consumed = 0, ut_ordering_failures = 0, ut_duplicate_keys = 0,
        ut_out_of_range_keys = 0, ut_seen_keys = (\<lambda>_. 0),
        ut_expected = of_nat (t_producers t) * of_nat (t_items t)\<rparr>,
      us_producers = replicate (t_producers t) (Pr_next 0),
      us_consumers = replicate (t_consumers t) (Co_check 1),
      us_produced = [], us_consumed = []\<rparr>"

definition producer_returned :: "producer \<Rightarrow> bool" where
  "producer_returned p \<longleftrightarrow> (case p of Pr_done \<Rightarrow> True | Pr_failed _ \<Rightarrow> True | _ \<Rightarrow> False)"

definition consumer_returned :: "consumer \<Rightarrow> bool" where
  "consumer_returned c \<longleftrightarrow> (case c of Co_done \<Rightarrow> True | Co_failed \<Rightarrow> True | _ \<Rightarrow> False)"

definition usertest_joined :: "'q ut_state \<Rightarrow> bool" where
  "usertest_joined s \<longleftrightarrow>
     list_all producer_returned (us_producers s) \<and> list_all consumer_returned (us_consumers s)"

text \<open>
  The main programs after initialisation: \<open>created\<close> says whether every
  \<^verbatim>\<open>pthread_create\<close> succeeded; no value while the joins wait.
\<close>

definition usertest_main :: "'q usertest \<Rightarrow> bool \<Rightarrow> ut_turn list \<Rightarrow> int \<times> 'q \<Rightarrow> int option" where
  "usertest_main t created ts init =
     (let (rc, q) = init in
      if rc \<noteq> DS_SUCCESS then Some 1
      else if \<not> created then Some 1
      else
        let s = usertest_run t ts (usertest_start t q) in
        if usertest_joined s then Some (t_status t (us_ctx s)) else None)"

subsection \<open>The six tests\<close>

text \<open>\<open>hp\<close> is the address of the structure in the context.\<close>

definition folly_usertest :: "ptr \<Rightarrow> 'a spsc_arena usertest" where
  "folly_usertest hp =
     \<lparr>t_producers = 1, t_consumers = 1, t_items = 2,
      t_key = (\<lambda>tid i. of_nat (i + 1)),
      t_try = (\<lambda>tid i k v q.
        let (rc, q) = ds_spsc_insert_c hp k v q in
        (if rc = DS_SUCCESS then Accepted else if rc \<noteq> DS_ERROR_FULL then Failed else Again, q)),
      t_take = (\<lambda>q.
        let (rc, out, q) = ds_spsc_delete_c hp (Some zero_kv) q in
        (if rc = DS_SUCCESS then Accepted else if rc \<noteq> DS_ERROR_NOT_FOUND then Failed else Again,
         the out, q)),
      t_examine = (\<lambda>out e c. (e, c)),
      t_status = (\<lambda>c. if ut_consumed c = ut_expected c then 0 else 1)\<rparr>"

definition folly_usertest_main :: "ptr \<Rightarrow> bool \<Rightarrow> ut_turn list \<Rightarrow> usertest_arena spsc_arena \<Rightarrow> int option" where
  "folly_usertest_main hp created ts A =
     usertest_main (folly_usertest hp) created ts (ds_spsc_init_c usertest_arena_alloc hp 64 A)"

text \<open>The check of the two tests that follow the order of the keys.\<close>

definition examine_order :: "ds_kv \<Rightarrow> u64 \<Rightarrow> ut_ctx \<Rightarrow> u64 \<times> ut_ctx" where
  "examine_order out expected_key c =
     (let c = (if key out \<noteq> expected_key
               then c\<lparr>ut_ordering_failures := ut_ordering_failures c + 1\<rparr> else c) in
      (expected_key + 1, c))"

definition status_order :: "ut_ctx \<Rightarrow> int" where
  "status_order c =
     (if ut_ordering_failures c \<noteq> 0 then 1
      else if ut_consumed c \<noteq> ut_expected c then 1
      else if ut_produced c \<noteq> ut_expected c then 1
      else 0)"

definition ckr_usertest :: "ptr \<Rightarrow> 'a ckr_arena usertest" where
  "ckr_usertest hp =
     \<lparr>t_producers = 1, t_consumers = 1, t_items = 2,
      t_key = (\<lambda>tid i. of_nat (i + 1)),
      t_try = (\<lambda>tid i k v q.
        let (rc, q) = ds_ck_ring_spsc_insert_c hp k v q in
        (if rc = DS_SUCCESS then Accepted else if rc \<noteq> DS_ERROR_FULL then Failed else Again, q)),
      t_take = (\<lambda>q.
        let (rc, out, q) = ds_ck_ring_spsc_pop USERSPACE hp (Some zero_kv) q in
        (if rc = DS_SUCCESS then Accepted else if rc \<noteq> DS_ERROR_NOT_FOUND then Failed else Again,
         the out, q)),
      t_examine = examine_order, t_status = status_order\<rparr>"

definition ckr_usertest_main :: "ptr \<Rightarrow> bool \<Rightarrow> ut_turn list \<Rightarrow> usertest_arena ckr_arena \<Rightarrow> int option" where
  "ckr_usertest_main hp created ts A =
     usertest_main (ckr_usertest hp) created ts (ds_ck_ring_spsc_init_c usertest_arena_alloc hp 64 A)"

definition cf_usertest :: "ptr \<Rightarrow> usertest_arena cf_arena usertest" where
  "cf_usertest hp =
     \<lparr>t_producers = 1, t_consumers = 1, t_items = 8,
      t_key = (\<lambda>tid i. of_nat (i + 1)),
      t_try = (\<lambda>tid i k v q.
        let (rc, q) = ds_ck_fifo_spsc_insert_c usertest_arena_alloc hp k v q in
        (if rc \<noteq> DS_SUCCESS then Failed else Accepted, q)),
      t_take = (\<lambda>q.
        let (rc, out, q) = ds_ck_fifo_spsc_delete_c hp (Some zero_kv) q in
        (if rc = DS_SUCCESS then Accepted else if rc \<noteq> DS_ERROR_NOT_FOUND then Failed else Again,
         the out, q)),
      t_examine = examine_order, t_status = status_order\<rparr>"

definition cf_usertest_main :: "ptr \<Rightarrow> bool \<Rightarrow> ut_turn list \<Rightarrow> usertest_arena cf_arena \<Rightarrow> int option" where
  "cf_usertest_main hp created ts A =
     usertest_main (cf_usertest hp) created ts (ds_ck_fifo_spsc_init_c usertest_arena_alloc hp A)"

definition vy_usertest :: "ptr \<Rightarrow> 'a vy_arena usertest" where
  "vy_usertest hp =
     \<lparr>t_producers = 2, t_consumers = 2, t_items = 2,
      t_key = (\<lambda>tid i. of_nat tid * 1000 + of_nat (i + 1)),
      t_try = (\<lambda>tid i k v q.
        let (rc, q) = ds_vyukhov_insert_c hp k v q in
        (if rc = DS_SUCCESS then Accepted
         else if rc \<noteq> DS_ERROR_NOMEM \<and> rc \<noteq> DS_ERROR_BUSY then Failed else Again, q)),
      t_take = (\<lambda>q.
        let (rc, out, q) = ds_vyukhov_pop_c hp (Some zero_kv) q in
        (if rc = DS_SUCCESS then Accepted
         else if rc = DS_ERROR_NOT_FOUND \<or> rc = DS_ERROR_BUSY then Again else Failed, the out, q)),
      t_examine = (\<lambda>out e c. (e, c)),
      t_status = (\<lambda>c. if ut_consumed c = ut_expected c then 0 else 1)\<rparr>"

definition vy_usertest_main :: "ptr \<Rightarrow> bool \<Rightarrow> ut_turn list \<Rightarrow> usertest_arena vy_arena \<Rightarrow> int option" where
  "vy_usertest_main hp created ts A =
     usertest_main (vy_usertest hp) created ts (ds_vyukhov_init_c usertest_arena_alloc hp 64 A)"

definition ms_usertest :: "ptr \<Rightarrow> usertest_arena ms_arena usertest" where
  "ms_usertest hp =
     \<lparr>t_producers = 2, t_consumers = 1, t_items = 10,
      t_key = (\<lambda>tid i. of_nat tid * 1000 + of_nat (i + 1)),
      t_try = (\<lambda>tid i k v q.
        let (rc, q) = ds_msqueue_insert_c usertest_arena_alloc usertest_arena_free hp k v q in
        (if rc \<noteq> DS_SUCCESS then Failed else Accepted, q)),
      t_take = (\<lambda>q.
        let (rc, out, q) = ds_msqueue_pop_c usertest_arena_free hp (Some zero_kv) q in
        (if rc = DS_SUCCESS then Accepted
         else if rc = DS_ERROR_NOT_FOUND \<or> rc = DS_ERROR_INVALID then Again else Failed, the out, q)),
      t_examine = (\<lambda>out e c. (e, c)),
      t_status = (\<lambda>c. if ut_consumed c = ut_expected c then 0 else 1)\<rparr>"

definition ms_usertest_main :: "ptr \<Rightarrow> bool \<Rightarrow> ut_turn list \<Rightarrow> usertest_arena ms_arena \<Rightarrow> int option" where
  "ms_usertest_main hp created ts A =
     usertest_main (ms_usertest hp) created ts (ds_msqueue_init_c usertest_arena_alloc hp A)"

text \<open>
  The stack test pushes entries of its own, \<^verbatim>\<open>&c->entries[tid][i]\<close> with the array at
  \<open>ep\<close>, and checks that every key arrives once.
\<close>

definition stack_test_entry :: "ptr \<Rightarrow> nat \<Rightarrow> nat \<Rightarrow> ptr" where
  "stack_test_entry ep tid i = ep + of_nat ((tid * 8 + i) * 24)"

definition examine_seen :: "ds_kv \<Rightarrow> u64 \<Rightarrow> ut_ctx \<Rightarrow> u64 \<times> ut_ctx" where
  "examine_seen out e c =
     (let producer_id = key out div 1000; item_id = key out mod 1000 in
      if producer_id \<ge> 3 \<or> item_id = 0 \<or> item_id > 8
      then (e, c\<lparr>ut_out_of_range_keys := ut_out_of_range_keys c + 1\<rparr>)
      else
        let linear_key = unat (producer_id * 8 + (item_id - 1));
            old = ut_seen_keys c linear_key;
            c = c\<lparr>ut_seen_keys := (ut_seen_keys c)(linear_key := old + 1)\<rparr> in
        (e, if old \<noteq> 0 then c\<lparr>ut_duplicate_keys := ut_duplicate_keys c + 1\<rparr> else c))"

definition st_usertest :: "nat \<Rightarrow> ptr \<Rightarrow> ptr \<Rightarrow> 'a st_arena usertest" where
  "st_usertest budget ep hp =
     \<lparr>t_producers = 3, t_consumers = 3, t_items = 8,
      t_key = (\<lambda>tid i. of_nat tid * 1000 + of_nat (i + 1)),
      t_try = (\<lambda>tid i k v q.
        let (pushed, q) = ds_ck_stack_upmc_trypush_upmc_c hp (stack_test_entry ep tid i) k v q in
        (if pushed then Accepted else Again, q)),
      t_take = (\<lambda>q.
        let (entry, q) = ds_ck_stack_upmc_pop_upmc_c budget hp q in
        if entry \<noteq> NULL then (Accepted, st_data (st_nodes q entry), q) else (Again, zero_kv, q)),
      t_examine = examine_seen,
      t_status = (\<lambda>c. if ut_duplicate_keys c \<noteq> 0 then 1 else if ut_out_of_range_keys c \<noteq> 0 then 1
        else if ut_consumed c = ut_expected c then 0 else 1)\<rparr>"

definition st_usertest_main :: "nat \<Rightarrow> ptr \<Rightarrow> ptr \<Rightarrow> bool \<Rightarrow> ut_turn list \<Rightarrow> 'a st_arena \<Rightarrow> int option" where
  "st_usertest_main budget ep hp created ts A =
     usertest_main (st_usertest budget ep hp) created ts (DS_SUCCESS, ds_ck_stack_upmc_init_c hp A)"

end
