(* ===== verification/Totals.thy ===== *)
theory Totals
  imports Main "HOL-Library.Multiset"
begin

text \<open>
  Totals over a list of threads, in numbers and in multisets, and how they change when one
  thread moves; shared by the interleaved models.
\<close>

definition tot :: "(nat \<Rightarrow> 'a \<Rightarrow> 'b :: comm_monoid_add) \<Rightarrow> 'a list \<Rightarrow> 'b" where
  "tot f ps = (\<Sum>j<length ps. f j (ps ! j))"

lemma tot_change:
  assumes "i < length ps" and "\<And>j. j < length ps \<Longrightarrow> j \<noteq> i \<Longrightarrow> g j (ps ! j) = f j (ps ! j)"
  shows "tot g (ps[i := p]) + f i (ps ! i) = tot f ps + g i p"
proof -
  have "(\<Sum>j \<in> {..<length ps} - {i}. g j (ps[i := p] ! j)) = (\<Sum>j \<in> {..<length ps} - {i}. f j (ps ! j))"
    using assms(2) by (intro sum.cong) auto
  with assms(1) show ?thesis
    by (simp add: tot_def sum.remove [where x = i] ac_simps)
qed

lemma tot_update:
  "i < length ps \<Longrightarrow> tot f (ps[i := p]) + f i (ps ! i) = tot f ps + f i p"
  by (rule tot_change) simp_all

lemma tot_same:
  fixes f :: "nat \<Rightarrow> 'a \<Rightarrow> 'b :: cancel_comm_monoid_add"
  shows "i < length ps \<Longrightarrow> f i p = f i (ps ! i) \<Longrightarrow> tot f (ps[i := p]) = tot f ps"
  using tot_update [of i ps f p] by simp

lemma tot_bound: "(\<And>j. j < length ps \<Longrightarrow> f j (ps ! j) \<le> (n :: nat)) \<Longrightarrow> tot f ps \<le> length ps * n"
  using sum_bounded_above [of "{..<length ps}" "\<lambda>j. f j (ps ! j)" n] by (simp add: tot_def)

lemma tot_full:
  assumes "tot f ps = length ps * n" and "\<And>j. j < length ps \<Longrightarrow> f j (ps ! j) \<le> (n :: nat)" and "i < length ps"
  shows "f i (ps ! i) = n"
proof (rule ccontr)
  assume "f i (ps ! i) \<noteq> n"
  then have "(\<Sum>j<length ps. f j (ps ! j)) < (\<Sum>j<length ps. n)"
    using assms(2,3) by (intro sum_strict_mono_ex1) (auto simp: le_less intro!: bexI [of _ i])
  then show False using assms(1) by (simp add: tot_def)
qed

lemma tot_zero: "(\<And>j. j < length ps \<Longrightarrow> f j (ps ! j) = 0) \<Longrightarrow> tot f ps = 0"
  by (simp add: tot_def)

lemma tot_replicate_zero: "(\<And>j. f j p = 0) \<Longrightarrow> tot f (replicate n p) = 0"
  by (simp add: tot_def)

lemma tot_member: "i < length ps \<Longrightarrow> f i (ps ! i) \<le> (tot f ps :: nat)"
  using member_le_sum [of i "{..<length ps}" "\<lambda>j. f j (ps ! j)"] by (simp add: tot_def)

lemma size_tot:
  fixes f :: "nat \<Rightarrow> 'a \<Rightarrow> 'b multiset"
  shows "size (tot f ps) = tot (\<lambda>j p. size (f j p)) ps"
proof -
  have "size (\<Sum>j<n. f j (ps ! j)) = (\<Sum>j<n. size (f j (ps ! j)))" for n by (induction n) simp_all
  then show ?thesis by (simp add: tot_def)
qed

lemma image_tot: "image_mset g (tot f ps) = tot (\<lambda>j p. image_mset g (f j p)) ps"
proof -
  have "image_mset g (\<Sum>j<n. f j (ps ! j)) = (\<Sum>j<n. image_mset g (f j (ps ! j)))" for n
    by (induction n) simp_all
  then show ?thesis by (simp add: tot_def)
qed

text \<open>A balance stays even when one entry of a total changes and the rest of the books follows.\<close>

lemma balance:
  fixes D :: "'b :: cancel_comm_monoid_add"
  assumes "D + P = C + X" and "P' + old = P + new" and "w + new = old + a" and "Y = a + X"
  shows "D + w + P' = C + Y"
proof -
  have "D + w + P' + old = D + w + (P' + old)" by (simp add: ac_simps)
  also have "\<dots> = (D + P) + (w + new)" by (simp add: assms(2) ac_simps)
  also have "\<dots> = C + Y + old" by (simp only: assms(1,3)) (simp add: assms(4) ac_simps)
  finally show ?thesis by simp
qed

lemma tot_others:
  assumes "i < length ps" and "f i (ps ! i) = (0 :: nat)" and "\<And>j. j < length ps \<Longrightarrow> f j (ps ! j) \<le> 1"
  shows "tot f ps \<le> length ps - 1"
proof -
  have "tot f ps = (\<Sum>j \<in> {..<length ps} - {i}. f j (ps ! j))"
    using assms(1,2) by (simp add: tot_def sum.remove [where x = i])
  also have "\<dots> \<le> of_nat (card ({..<length ps} - {i})) * 1" using assms(3) by (intro sum_bounded_above) auto
  finally show ?thesis using assms(1) by simp
qed

text \<open>A sum of a figure and a total stays right when one thread moves.\<close>

lemma sum_moves:
  fixes C :: "'b :: comm_ring_1"
  assumes "C + T = n" and "T' + a = T + b" and "C' + b - n' = C + a - n"
  shows "C' + T' = n'"
proof -
  have "C' + T' = (C' + b - n') + (T' + a) - a - b + n'" by (simp add: algebra_simps)
  also have "\<dots> = (C + T) - n + n'" unfolding assms(2,3) by (simp add: algebra_simps)
  finally show ?thesis using assms(1) by simp
qed

lemma mset_moves:
  fixes G :: "'b multiset"
  assumes "G + T = D" and "T' + a = T + b" and "G' + b + D = G + a + D'"
  shows "G' + T' = D'"
proof (rule multiset_eqI)
  fix x
  show "count (G' + T') x = count D' x"
    using arg_cong [OF assms(1), of "\<lambda>m. count m x"] arg_cong [OF assms(2), of "\<lambda>m. count m x"]
      arg_cong [OF assms(3), of "\<lambda>m. count m x"] by simp
qed

text \<open>Counting the threads with a property.\<close>

definition tally :: "('a \<Rightarrow> bool) \<Rightarrow> 'a list \<Rightarrow> nat" where
  "tally P ps = tot (\<lambda>_ p. of_bool (P p)) ps"

lemma tally_update:
  "i < length ps \<Longrightarrow> tally P (ps[i := p]) + of_bool (P (ps ! i)) = tally P ps + of_bool (P p)"
  unfolding tally_def by (rule tot_update)

lemma tally_some:
  assumes "0 < tally P ps"
  shows "\<exists>i < length ps. P (ps ! i)"
proof (rule ccontr)
  assume "\<not> ?thesis"
  then have "tally P ps = 0" unfolding tally_def by (intro tot_zero) auto
  with assms show False by simp
qed

lemma tally_pos: "i < length ps \<Longrightarrow> P (ps ! i) \<Longrightarrow> 0 < tally P ps"
  using tot_member [of i ps "\<lambda>_ p. of_bool (P p)"] by (simp add: tally_def)

lemma tally_one:
  assumes "tally P ps \<le> 1" and "i < length ps" "P (ps ! i)" and "j < length ps" "P (ps ! j)"
  shows "i = j"
proof (rule ccontr)
  assume "i \<noteq> j"
  have "sum (\<lambda>k. of_bool (P (ps ! k))) {i, j} \<le> (\<Sum>k<length ps. of_bool (P (ps ! k)) :: nat)"
    using assms(2,4) by (intro sum_mono2) auto
  then show False using assms \<open>i \<noteq> j\<close> by (simp add: tally_def tot_def)
qed

end
