(* ===== verification/UserTestRuns.thy ===== *)
theory UserTestRuns
  imports UserTest Totals
begin

text \<open>
  What the userspace tests establish.  Locale \<open>ut_lane\<close> states what a test relies on of the
  structure it drives: an insert adds the item once, a pop removes one element.  From it
  follows, for every schedule of the threads, that elements are conserved between the
  structure, the threads and the counters, and that a main program whose threads have
  been joined saw every element.
\<close>

subsection \<open>What the threads hold\<close>

text \<open>The number of items a producer has had accepted, and the number it has tried to the end.\<close>

fun pr_accepted :: "nat \<Rightarrow> producer \<Rightarrow> nat" where
  "pr_accepted n (Pr_next i) = i"
| "pr_accepted n (Pr_try i v) = i"
| "pr_accepted n (Pr_count i v) = Suc i"
| "pr_accepted n Pr_done = n"
| "pr_accepted n (Pr_failed i) = i"

fun pr_tried :: "nat \<Rightarrow> producer \<Rightarrow> nat" where
  "pr_tried n (Pr_failed i) = Suc i"
| "pr_tried n p = pr_accepted n p"

fun pr_ok :: "nat \<Rightarrow> producer \<Rightarrow> bool" where
  "pr_ok n (Pr_next i) \<longleftrightarrow> i \<le> n"
| "pr_ok n (Pr_try i v) \<longleftrightarrow> i < n"
| "pr_ok n (Pr_count i v) \<longleftrightarrow> i < n"
| "pr_ok n Pr_done \<longleftrightarrow> True"
| "pr_ok n (Pr_failed i) \<longleftrightarrow> i < n"

text \<open>Elements inserted and not yet counted, popped and not yet printed; counted and not yet printed.\<close>

fun pr_pending :: "(nat \<Rightarrow> nat \<Rightarrow> u64) \<Rightarrow> nat \<Rightarrow> producer \<Rightarrow> ds_kv list" where
  "pr_pending k tid (Pr_count i v) = [\<lparr>key = k tid i, val = v\<rparr>]"
| "pr_pending k tid _ = []"

fun co_pending :: "consumer \<Rightarrow> ds_kv list" where
  "co_pending (Co_got e d) = [d]"
| "co_pending (Co_note e d) = [d]"
| "co_pending _ = []"

fun co_noting :: "consumer \<Rightarrow> nat" where
  "co_noting (Co_note e d) = 1"
| "co_noting _ = 0"

definition tried_items :: "nat \<Rightarrow> producer list \<Rightarrow> (nat \<times> nat) set" where
  "tried_items n ps = {(tid, i). tid < length ps \<and> i < pr_tried n (ps ! tid)}"

lemma pr_accepted_le: "pr_ok n p \<Longrightarrow> pr_accepted n p \<le> n"
  by (cases p) auto

lemma tried_items_start: "tried_items n (replicate m (Pr_next 0)) = {}"
  by (simp add: tried_items_def)

lemma tried_items_same:
  "tid < length ps \<Longrightarrow> pr_tried n p = pr_tried n (ps ! tid) \<Longrightarrow> tried_items n (ps[tid := p]) = tried_items n ps"
  by (auto simp: tried_items_def nth_list_update split: if_splits)

lemma tried_items_Suc:
  "tid < length ps \<Longrightarrow> pr_tried n p = Suc (pr_tried n (ps ! tid)) \<Longrightarrow>
   tried_items n (ps[tid := p]) = insert (tid, pr_tried n (ps ! tid)) (tried_items n ps)"
  by (auto simp: tried_items_def nth_list_update split: if_splits)

subsection \<open>The invariant of a run\<close>

text \<open>
  \<open>ut_inv t rep s xs\<close>: the structure holds \<open>xs\<close>; what was inserted is what was printed by
  consumers, is in their hands or in \<open>xs\<close>; the keys inserted are those of the accepted
  items; the counters count; nobody leaves the loop before the expected number is reached.
\<close>

definition ut_inv :: "'q usertest \<Rightarrow> ((nat \<times> nat) set \<Rightarrow> 'q \<Rightarrow> ds_kv list \<Rightarrow> bool) \<Rightarrow>
    'q ut_state \<Rightarrow> ds_kv list \<Rightarrow> bool" where
  "ut_inv t rep s xs \<longleftrightarrow>
     rep (tried_items (t_items t) (us_producers s)) (us_q s) xs \<and>
     length (us_producers s) = t_producers t \<and> length (us_consumers s) = t_consumers t \<and>
     list_all (pr_ok (t_items t)) (us_producers s) \<and>
     mset (us_produced s) + tot (\<lambda>tid p. mset (pr_pending (t_key t) tid p)) (us_producers s) =
       mset (us_consumed s) + tot (\<lambda>_ c. mset (co_pending c)) (us_consumers s) + mset xs \<and>
     image_mset key (mset (us_produced s) + tot (\<lambda>tid p. mset (pr_pending (t_key t) tid p)) (us_producers s)) =
       tot (\<lambda>tid p. mset (map (t_key t tid) [0..<pr_accepted (t_items t) p])) (us_producers s) \<and>
     ut_produced (us_ctx s) = of_nat (length (us_produced s)) \<and>
     ut_consumed (us_ctx s) = of_nat (length (us_consumed s) + tot (\<lambda>_. co_noting) (us_consumers s)) \<and>
     ut_expected (us_ctx s) = of_nat (t_producers t * t_items t) \<and>
     (Co_done \<in> set (us_consumers s) \<longrightarrow> ut_expected (us_ctx s) \<le> ut_consumed (us_ctx s)) \<and>
     Co_failed \<notin> set (us_consumers s)"

text \<open>What the invariant says about a state, conjunct by conjunct.\<close>

lemma ut_invD:
  assumes "ut_inv t rep s xs"
  shows "rep (tried_items (t_items t) (us_producers s)) (us_q s) xs"
    and "length (us_producers s) = t_producers t" and "length (us_consumers s) = t_consumers t"
    and "list_all (pr_ok (t_items t)) (us_producers s)"
    and "mset (us_produced s) + tot (\<lambda>tid p. mset (pr_pending (t_key t) tid p)) (us_producers s) =
       mset (us_consumed s) + tot (\<lambda>_ c. mset (co_pending c)) (us_consumers s) + mset xs"
    and "image_mset key (mset (us_produced s) + tot (\<lambda>tid p. mset (pr_pending (t_key t) tid p)) (us_producers s)) =
       tot (\<lambda>tid p. mset (map (t_key t tid) [0..<pr_accepted (t_items t) p])) (us_producers s)"
    and "ut_produced (us_ctx s) = of_nat (length (us_produced s))"
    and "ut_consumed (us_ctx s) = of_nat (length (us_consumed s) + tot (\<lambda>_. co_noting) (us_consumers s))"
    and "ut_expected (us_ctx s) = of_nat (t_producers t * t_items t)"
    and "Co_done \<in> set (us_consumers s) \<longrightarrow> ut_expected (us_ctx s) \<le> ut_consumed (us_ctx s)"
    and "Co_failed \<notin> set (us_consumers s)"
  using assms unfolding ut_inv_def by blast+

locale ut_lane =
  fixes t :: "'q usertest" and rep :: "(nat \<times> nat) set \<Rightarrow> 'q \<Rightarrow> ds_kv list \<Rightarrow> bool"
  assumes try_law: "rep T q xs \<Longrightarrow> tid < t_producers t \<Longrightarrow> i < t_items t \<Longrightarrow> (tid, i) \<notin> T \<Longrightarrow>
      t_try t tid i (t_key t tid i) v q = (rc, q') \<Longrightarrow>
      (case rc of
         Accepted \<Rightarrow> \<exists>ys. mset ys = add_mset \<lparr>key = t_key t tid i, val = v\<rparr> (mset xs) \<and>
           rep (insert (tid, i) T) q' ys
       | Again \<Rightarrow> rep T q' xs
       | Failed \<Rightarrow> rep (insert (tid, i) T) q' xs)"
    and take_law: "rep T q xs \<Longrightarrow> t_take t q = (rc, d, q') \<Longrightarrow>
      (case rc of
         Accepted \<Rightarrow> \<exists>ys. mset xs = add_mset d (mset ys) \<and> rep T q' ys
       | Again \<Rightarrow> rep T q' xs
       | Failed \<Rightarrow> False)"
    and examine_frame: "t_examine t d e c = (e', c') \<Longrightarrow>
      ut_produced c' = ut_produced c \<and> ut_consumed c' = ut_consumed c \<and> ut_expected c' = ut_expected c"
    and few_items: "t_producers t * t_items t < 2 ^ 64"
begin

lemma start_inv: "rep {} q xs \<Longrightarrow> xs = [] \<Longrightarrow> ut_inv t rep (usertest_start t q) xs"
  by (auto simp: ut_inv_def usertest_start_def tried_items_start tot_replicate_zero list_all_length)

lemma producer_change:
  assumes inv: "ut_inv t rep s xs" and tid: "tid < length (us_producers s)"
    and rp: "rep (tried_items (t_items t) ((us_producers s)[tid := pc])) q ys" and ok: "pr_ok (t_items t) pc"
    and ys: "mset ys = mset added + mset xs"
    and pend: "mset new + mset (pr_pending (t_key t) tid pc) =
      mset (pr_pending (t_key t) tid (us_producers s ! tid)) + mset added"
    and acc: "mset (map (t_key t tid) [0..<pr_accepted (t_items t) pc]) =
      mset (map (t_key t tid) [0..<pr_accepted (t_items t) (us_producers s ! tid)]) + mset (map key added)"
  shows "ut_inv t rep (s\<lparr>us_q := q,
      us_ctx := (us_ctx s)\<lparr>ut_produced := ut_produced (us_ctx s) + of_nat (length new)\<rparr>,
      us_produced := us_produced s @ new, us_producers := (us_producers s)[tid := pc]\<rparr>) ys"
proof -
  note d = ut_invD [OF inv]
  let ?f = "\<lambda>tid p. mset (pr_pending (t_key t) tid p)"
  let ?g = "\<lambda>tid p. mset (map (t_key t tid) [0..<pr_accepted (t_items t) p])"
  let ?ps = "(us_producers s)[tid := pc]"
  have m: "mset (us_produced s) + mset new + tot ?f ?ps =
      mset (us_consumed s) + tot (\<lambda>_ c. mset (co_pending c)) (us_consumers s) + mset ys"
    by (rule balance [OF d(5) tot_update [OF tid, of ?f] pend ys])
  have "tot ?g ?ps = tot ?g (us_producers s) + mset (map key added)"
    using tot_update [OF tid, of ?g pc] acc by (simp add: ac_simps)
  moreover have "mset (us_produced s) + mset new + tot ?f ?ps =
      (mset (us_produced s) + tot ?f (us_producers s)) + mset added"
    by (rule balance [where X = "{#}", OF _ tot_update [OF tid, of ?f] pend]) simp_all
  ultimately have "image_mset key (mset (us_produced s) + mset new + tot ?f ?ps) = tot ?g ?ps"
    using d(6) by (simp only: image_mset_union mset_map)
  moreover have "list_all (pr_ok (t_items t)) ?ps"
    using d(4) ok tid by (auto simp: list_all_length nth_list_update)
  ultimately show ?thesis
    unfolding ut_inv_def using rp m d by simp
qed

lemma producer_inv:
  assumes inv: "ut_inv t rep s xs" and tid: "tid < length (us_producers s)"
  shows "\<exists>ys. ut_inv t rep (usertest_turn t (U_producer tid now) s) ys"
proof (cases "us_producers s ! tid")
  case (Pr_next i)
  have "i \<le> t_items t" using ut_invD(4) [OF inv] tid Pr_next by (auto simp: list_all_length)
  then show ?thesis
    using producer_change [OF inv tid, of "if i < t_items t then Pr_try i now else Pr_done" "us_q s" xs "[]" "[]"]
      ut_invD(1) [OF inv] tid Pr_next by (auto simp: tried_items_same)
next
  case (Pr_try i v)
  have i: "i < t_items t" using ut_invD(4) [OF inv] tid Pr_try by (auto simp: list_all_length)
  have new: "(tid, i) \<notin> tried_items (t_items t) (us_producers s)"
    using Pr_try by (simp add: tried_items_def)
  obtain rc q where st: "t_try t tid i (t_key t tid i) v (us_q s) = (rc, q)" by fastforce
  note law = try_law [OF ut_invD(1) [OF inv] _ i new st]
  have ins: "tried_items (t_items t) ((us_producers s)[tid := Pr_count i v]) =
      insert (tid, i) (tried_items (t_items t) (us_producers s))"
    "tried_items (t_items t) ((us_producers s)[tid := Pr_failed i]) =
      insert (tid, i) (tried_items (t_items t) (us_producers s))"
    using tried_items_Suc [OF tid] Pr_try by simp_all
  have same: "tried_items (t_items t) ((us_producers s)[tid := Pr_try i v]) = tried_items (t_items t) (us_producers s)"
    using tried_items_same [OF tid] Pr_try by simp
  show ?thesis
  proof (cases rc)
    case Accepted
    then obtain ys where "mset ys = add_mset \<lparr>key = t_key t tid i, val = v\<rparr> (mset xs)"
      "rep (insert (tid, i) (tried_items (t_items t) (us_producers s))) q ys"
      using law tid ut_invD(2) [OF inv] by auto
    then show ?thesis
      using producer_change [OF inv tid, of "Pr_count i v" q ys "[\<lparr>key = t_key t tid i, val = v\<rparr>]" "[]"]
        tid Pr_try st i Accepted by (auto simp: ins)
  next
    case Again
    then show ?thesis
      using producer_change [OF inv tid, of "Pr_try i v" q xs "[]" "[]"] law tid Pr_try st i ut_invD(2) [OF inv]
      by (auto simp: same)
  next
    case Failed
    then show ?thesis
      using producer_change [OF inv tid, of "Pr_failed i" q xs "[]" "[]"] law tid Pr_try st i ut_invD(2) [OF inv]
      by (auto simp: ins)
  qed
next
  case (Pr_count i v)
  have "i < t_items t" using ut_invD(4) [OF inv] tid Pr_count by (auto simp: list_all_length)
  then show ?thesis
    using producer_change [OF inv tid, of "Pr_next (Suc i)" "us_q s" xs "[]" "[\<lparr>key = t_key t tid i, val = v\<rparr>]"]
      ut_invD(1) [OF inv] tid Pr_count by (auto simp: tried_items_same)
next
  case Pr_done
  then have "(us_producers s)[tid := Pr_done] = us_producers s" using list_update_id by metis
  then show ?thesis using inv tid Pr_done by auto
next
  case (Pr_failed i)
  then have "(us_producers s)[tid := Pr_failed i] = us_producers s" using list_update_id by metis
  then show ?thesis using inv tid Pr_failed by auto
qed

text \<open>No more than the expected number of elements is ever taken, so the counters do not wrap.\<close>

lemma taken_bound:
  assumes "ut_inv t rep s xs"
  shows "length (us_consumed s) + tot (\<lambda>_ c. length (co_pending c)) (us_consumers s) + length xs =
      tot (\<lambda>_. pr_accepted (t_items t)) (us_producers s)"
    and "tot (\<lambda>_. pr_accepted (t_items t)) (us_producers s) \<le> t_producers t * t_items t"
    and "tot (\<lambda>_. co_noting) (us_consumers s) \<le> tot (\<lambda>_ c. length (co_pending c)) (us_consumers s)"
    and "unat (ut_consumed (us_ctx s)) = length (us_consumed s) + tot (\<lambda>_. co_noting) (us_consumers s)"
proof -
  note d = ut_invD [OF assms]
  show one: "length (us_consumed s) + tot (\<lambda>_ c. length (co_pending c)) (us_consumers s) + length xs =
      tot (\<lambda>_. pr_accepted (t_items t)) (us_producers s)"
    using arg_cong [OF d(5), of size] arg_cong [OF d(6), of size] by (simp add: size_tot)
  show two: "tot (\<lambda>_. pr_accepted (t_items t)) (us_producers s) \<le> t_producers t * t_items t"
    using d(2,4) by (auto simp: list_all_length intro!: order_trans [OF tot_bound] pr_accepted_le)
  have "co_noting c \<le> length (co_pending c)" for c by (cases c) auto
  then show three: "tot (\<lambda>_. co_noting) (us_consumers s) \<le> tot (\<lambda>_ c. length (co_pending c)) (us_consumers s)"
    unfolding tot_def by (intro sum_mono)
  have "length (us_consumed s) + tot (\<lambda>_. co_noting) (us_consumers s) < 2 ^ 64"
    using one two three few_items by linarith
  then show "unat (ut_consumed (us_ctx s)) = length (us_consumed s) + tot (\<lambda>_. co_noting) (us_consumers s)"
    by (simp only: d(8) unat_of_nat_u64)
qed

lemma consumer_change:
  assumes inv: "ut_inv t rep s xs" and j: "j < length (us_consumers s)"
    and rp: "rep (tried_items (t_items t) (us_producers s)) q ys"
    and ys: "mset (co_pending (us_consumers s ! j)) + mset xs = mset new + mset (co_pending cc) + mset ys"
    and ctx: "ut_produced c = ut_produced (us_ctx s)" "ut_expected c = ut_expected (us_ctx s)"
      "ut_consumed c = ut_consumed (us_ctx s) + of_nat n"
    and noted: "n + co_noting (us_consumers s ! j) = length new + co_noting cc"
    and stop: "cc = Co_done \<Longrightarrow> ut_expected (us_ctx s) \<le> ut_consumed (us_ctx s)"
    and fine: "cc \<noteq> Co_failed"
  shows "ut_inv t rep (s\<lparr>us_q := q, us_ctx := c, us_consumed := us_consumed s @ new,
      us_consumers := (us_consumers s)[j := cc]\<rparr>) ys"
proof -
  note d = ut_invD [OF inv] and b = taken_bound [OF inv]
  let ?f = "\<lambda>_ c. mset (co_pending c)" and ?g = "\<lambda>_. co_noting"
  let ?cs = "(us_consumers s)[j := cc]"
  have bal: "mset (us_consumed s @ new) + tot ?f ?cs + mset ys =
      mset (us_consumed s) + tot ?f (us_consumers s) + mset xs"
  proof (rule multiset_eqI)
    fix a
    show "count (mset (us_consumed s @ new) + tot ?f ?cs + mset ys) a =
        count (mset (us_consumed s) + tot ?f (us_consumers s) + mset xs) a"
      using arg_cong [OF tot_update [OF j, of ?f cc], of "\<lambda>m. count m a"] arg_cong [OF ys, of "\<lambda>m. count m a"]
      by simp
  qed
  have cnt: "length (us_consumed s @ new) + tot ?g ?cs = n + (length (us_consumed s) + tot ?g (us_consumers s))"
    using tot_update [OF j, of ?g cc] noted by simp
  have "co_noting c \<le> length (co_pending c)" for c by (cases c) auto
  then have "tot ?g ?cs \<le> size (tot ?f ?cs)" unfolding size_tot unfolding tot_def by (intro sum_mono) simp
  then have "length (us_consumed s @ new) + tot ?g ?cs < 2 ^ 64"
    using arg_cong [OF bal, of size] b(1,2) few_items by (simp add: size_tot)
  then have "unat (ut_consumed (us_ctx s) + of_nat n) = n + unat (ut_consumed (us_ctx s))"
    using cnt b(4) d(8) by (simp add: unat_of_nat_u64 flip: of_nat_add)
  then have mono: "ut_consumed (us_ctx s) \<le> ut_consumed c" by (simp add: ctx(3) word_le_nat_alt)
  have "Co_done \<in> set ?cs \<longrightarrow> ut_expected c \<le> ut_consumed c"
    using d(10) stop mono ctx(2) set_update_subset_insert [of "us_consumers s" j cc] by fastforce
  moreover have "ut_consumed c = of_nat (length (us_consumed s @ new) + tot ?g ?cs)"
    using d(8) ctx(3) cnt by (simp only: of_nat_add) (simp add: ac_simps)
  moreover have "Co_failed \<notin> set ?cs" using d(11) fine set_update_subset_insert [of "us_consumers s" j cc] by auto
  ultimately show ?thesis unfolding ut_inv_def using rp d(1-7,9) bal ctx(1,2) by simp
qed

lemma consumer_inv:
  assumes inv: "ut_inv t rep s xs" and j: "j < length (us_consumers s)"
  shows "\<exists>ys. ut_inv t rep (usertest_turn t (U_consumer j) s) ys"
proof (cases "us_consumers s ! j")
  case (Co_check e)
  show ?thesis
  proof (cases "ut_consumed (us_ctx s) < ut_expected (us_ctx s)")
    case True
    then show ?thesis
      using consumer_change [OF inv j ut_invD(1) [OF inv], of "[]" "Co_pop e" "us_ctx s" 0] j Co_check by auto
  next
    case False
    then show ?thesis
      using consumer_change [OF inv j ut_invD(1) [OF inv], of "[]" Co_done "us_ctx s" 0] j Co_check
      by (auto simp: not_less)
  qed
next
  case (Co_pop e)
  obtain rc d q where st: "t_take t (us_q s) = (rc, d, q)" by (metis prod_cases3)
  note law = take_law [OF ut_invD(1) [OF inv] st]
  show ?thesis
  proof (cases rc)
    case Accepted
    then obtain ys where "mset xs = add_mset d (mset ys)" "rep (tried_items (t_items t) (us_producers s)) q ys"
      using law by auto
    then show ?thesis
      using consumer_change [OF inv j, of q ys "[]" "Co_got e d" "us_ctx s" 0] j Co_pop st Accepted by auto
  next
    case Again
    then show ?thesis
      using consumer_change [OF inv j, of q xs "[]" "Co_check e" "us_ctx s" 0] j Co_pop st law by auto
  qed (use law in simp)
next
  case (Co_got e d)
  then show ?thesis
    using consumer_change [OF inv j ut_invD(1) [OF inv], of "[]" "Co_note e d"
        "(us_ctx s)\<lparr>ut_consumed := ut_consumed (us_ctx s) + 1\<rparr>" 1] j by auto
next
  case (Co_note e d)
  obtain e' c where ex: "t_examine t d e (us_ctx s) = (e', c)" by fastforce
  then show ?thesis
    using consumer_change [OF inv j ut_invD(1) [OF inv], of "[d]" "Co_check e'" c 0] examine_frame [OF ex] j Co_note
    by auto
next
  case Co_done
  then have "(us_consumers s)[j := Co_done] = us_consumers s" using list_update_id by metis
  then show ?thesis using inv j Co_done by auto
next
  case Co_failed
  then show ?thesis using ut_invD(11) [OF inv] nth_mem [OF j] by simp
qed

lemma turn_keeps: "ut_inv t rep s xs \<Longrightarrow> \<exists>ys. ut_inv t rep (usertest_turn t tu s) ys"
  using producer_inv consumer_inv by (cases tu) (auto simp del: usertest_turn.simps, auto)

lemma run_keeps: "ut_inv t rep s xs \<Longrightarrow> \<exists>ys. ut_inv t rep (usertest_run t ts s) ys"
proof (induction ts arbitrary: s xs)
  case (Cons tu ts)
  then show ?case using turn_keeps [OF Cons.prems, of tu] by (fastforce simp: usertest_run_def)
qed (auto simp: usertest_run_def)

text \<open>
  When every thread has returned, every item has been accepted, counted and delivered.
\<close>

lemma joined_complete:
  assumes inv: "ut_inv t rep s xs" and joined: "usertest_joined s" and some: "0 < t_consumers t"
  shows "xs = [] \<and> us_producers s = replicate (t_producers t) Pr_done \<and>
    mset (us_consumed s) = mset (us_produced s) \<and>
    image_mset key (mset (us_consumed s)) = (\<Sum>tid<t_producers t. mset (map (t_key t tid) [0..<t_items t])) \<and>
    ut_consumed (us_ctx s) = ut_expected (us_ctx s) \<and> ut_produced (us_ctx s) = ut_expected (us_ctx s)"
proof -
  note d = ut_invD [OF inv] and b = taken_bound [OF inv]
  let ?n = "t_producers t * t_items t"
  have cs: "us_consumers s ! j = Co_done" if "j < length (us_consumers s)" for j
  proof -
    have "consumer_returned (us_consumers s ! j)" using joined that by (simp add: usertest_joined_def list_all_length)
    then show ?thesis using d(11) nth_mem [OF that] by (cases "us_consumers s ! j") (auto simp: consumer_returned_def)
  qed
  have c0: "tot (\<lambda>_ c. mset (co_pending c)) (us_consumers s) = {#}"
    "tot (\<lambda>_ c. length (co_pending c)) (us_consumers s) = 0" "tot (\<lambda>_. co_noting) (us_consumers s) = 0"
    by (rule tot_zero, simp add: cs)+
  have "Co_done \<in> set (us_consumers s)" using some d(3) cs [of 0] nth_mem [of 0 "us_consumers s"] by auto
  then have "?n \<le> length (us_consumed s)"
    using d(9,10) b(4) few_items c0(3) by (simp add: word_le_nat_alt unat_of_nat_u64 flip: of_nat_mult)
  then have full: "tot (\<lambda>_. pr_accepted (t_items t)) (us_producers s) = ?n" and "length xs = 0"
    and len: "length (us_consumed s) = ?n"
    using b(1,2) c0(2) by linarith+
  then have xs: "xs = []" by simp
  have acc: "pr_accepted (t_items t) (us_producers s ! j) = t_items t" if "j < length (us_producers s)" for j
    using tot_full [of "\<lambda>_. pr_accepted (t_items t)" "us_producers s" "t_items t" j] full d(2,4) that
    by (auto simp: list_all_length intro: pr_accepted_le)
  have ps: "us_producers s ! j = Pr_done" if j: "j < length (us_producers s)" for j
  proof -
    have "producer_returned (us_producers s ! j)" "pr_ok (t_items t) (us_producers s ! j)"
      using joined d(4) j by (simp_all add: usertest_joined_def list_all_length)
    then show ?thesis using acc [OF j] by (cases "us_producers s ! j") (auto simp: producer_returned_def)
  qed
  then have fin: "us_producers s = replicate (t_producers t) Pr_done" using d(2) by (simp add: list_eq_iff_nth_eq)
  have p0: "tot (\<lambda>tid p. mset (pr_pending (t_key t) tid p)) (us_producers s) = {#}"
    by (rule tot_zero) (simp add: ps)
  have same: "mset (us_consumed s) = mset (us_produced s)" using d(5) c0(1) p0 xs by simp
  have "image_mset key (mset (us_produced s)) = (\<Sum>tid<t_producers t. mset (map (t_key t tid) [0..<t_items t]))"
    using d(6) p0 by (simp add: tot_def fin)
  moreover have "length (us_produced s) = ?n" using arg_cong [OF same, of size] len by simp
  ultimately show ?thesis using xs fin same len d(7,8,9) c0(3) by simp
qed

end

subsection \<open>Tests that count keys\<close>

text \<open>The keys of the accepted items, as a set.\<close>

lemma sum_keys:
  fixes n :: nat
  shows "(\<Sum>tid<n. mset (map (f tid) [0..<g tid])) = image_mset (\<lambda>(tid, i). f tid i) (mset_set (SIGMA tid:{..<n}. {..<g tid}))"
proof (induction n)
  case (Suc n)
  have "(SIGMA tid:{..<Suc n}. {..<g tid}) = (SIGMA tid:{..<n}. {..<g tid}) \<union> Pair n ` {..<g n}"
    by (auto simp: less_Suc_eq)
  moreover have "mset_set (Pair n ` {..<g n}) = image_mset (Pair n) (mset_set {..<g n})"
    by (simp add: image_mset_mset_set inj_on_def)
  moreover have "mset (map (f n) [0..<g n]) = image_mset (f n) (mset_set {..<g n})"
    by (simp add: atLeast0LessThan mset_map)
  moreover have "(SIGMA tid:{..<n}. {..<g tid}) \<inter> Pair n ` {..<g n} = {}" by auto
  ultimately show ?case using Suc by (simp add: mset_set_Union multiset.map_comp comp_def)
qed simp

text \<open>
  A test whose items have different keys delivers each key once; \<open>clean\<close> says what the
  checks have recorded after the elements printed so far.
\<close>

locale ut_counting = ut_lane +
  fixes clean :: "ds_kv list \<Rightarrow> ut_ctx \<Rightarrow> bool"
  assumes keys_differ: "inj_on (\<lambda>(tid, i). t_key t tid i) ({..<t_producers t} \<times> {..<t_items t})"
    and consumers: "0 < t_consumers t"
    and clean_start: "clean [] (us_ctx (usertest_start t q))"
    and clean_counters: "clean ps c \<Longrightarrow> clean ps (c\<lparr>ut_produced := n\<rparr>)" "clean ps c \<Longrightarrow> clean ps (c\<lparr>ut_consumed := n\<rparr>)"
    and clean_examine: "clean ps c \<Longrightarrow> tid < t_producers t \<Longrightarrow> i < t_items t \<Longrightarrow> key d = t_key t tid i \<Longrightarrow>
      key d \<notin> key ` set ps \<Longrightarrow> t_examine t d e c = (e', c') \<Longrightarrow> clean (ps @ [d]) c'"
    and clean_status: "clean ps c \<Longrightarrow> ut_consumed c = ut_expected c \<Longrightarrow> ut_produced c = ut_expected c \<Longrightarrow>
      t_status t c = 0"
begin

lemma key_fresh:
  assumes inv: "ut_inv t rep s xs" and j: "j < length (us_consumers s)" and c: "us_consumers s ! j = Co_note e d"
  shows "key d \<notin> key ` set (us_consumed s)" and "\<exists>tid<t_producers t. \<exists>i<t_items t. key d = t_key t tid i"
proof -
  note i = ut_invD [OF inv]
  let ?acc = "\<lambda>tid. pr_accepted (t_items t) (us_producers s ! tid)"
  let ?I = "SIGMA tid:{..<t_producers t}. {..<?acc tid}"
  let ?K = "(\<lambda>(tid, i). t_key t tid i) ` ?I"
  have acc: "?acc tid \<le> t_items t" if "tid < t_producers t" for tid
    using i(2,4) that by (auto simp: list_all_length intro: pr_accepted_le)
  then have sub: "?I \<subseteq> {..<t_producers t} \<times> {..<t_items t}" by fastforce
  obtain rest where "tot (\<lambda>_ c. mset (co_pending c)) (us_consumers s) = {#d#} + rest"
    using tot_update [OF j, of "\<lambda>_ c. mset (co_pending c)" Co_done] c by simp metis
  then have "image_mset key (mset (us_consumed s) + ({#d#} + rest) + mset xs) = mset_set ?K"
    using i(2,5,6) sum_keys [of "t_key t" ?acc "t_producers t"]
      image_mset_mset_set [OF inj_on_subset [OF keys_differ sub]] by (simp add: tot_def)
  then have k: "add_mset (key d) (image_mset key (mset (us_consumed s)) + image_mset key (rest + mset xs)) = mset_set ?K"
    by (simp add: ac_simps)
  have fin: "finite ?K" by simp
  show "key d \<notin> key ` set (us_consumed s)"
  proof
    assume "key d \<in> key ` set (us_consumed s)"
    then have "0 < count (image_mset key (mset (us_consumed s))) (key d)" by simp
    then have "Suc 0 < count (mset_set ?K) (key d)" by (simp flip: k)
    then show False using fin by (cases "key d \<in> ?K") simp_all
  qed
  have "key d \<in># mset_set ?K" by (simp flip: k)
  then have "key d \<in> ?K" using fin by simp
  then obtain tid i where "tid < t_producers t" "i < ?acc tid" "key d = t_key t tid i" by auto
  then show "\<exists>tid<t_producers t. \<exists>i<t_items t. key d = t_key t tid i" using acc less_le_trans by blast
qed

lemma turn_clean:
  assumes "ut_inv t rep s xs" and "clean (us_consumed s) (us_ctx s)"
  shows "clean (us_consumed (usertest_turn t tu s)) (us_ctx (usertest_turn t tu s))"
proof (cases tu)
  case (U_producer tid now)
  then show ?thesis
    using assms(2) clean_counters(1) [OF assms(2)]
    by (cases "us_producers s ! tid") (auto simp: split_def Let_def split: outcome.splits)
next
  case (U_consumer j)
  show ?thesis
  proof (cases "us_consumers s ! j")
    case (Co_note e d)
    then show ?thesis
      using U_consumer assms(2) key_fresh [OF assms(1) _ Co_note] clean_examine [OF assms(2)]
      by (auto simp: split_def Let_def prod_eq_iff)
  qed (use assms(2) clean_counters(2) [OF assms(2)] U_consumer in
      \<open>auto simp: split_def Let_def split: outcome.splits\<close>)
qed

lemma run_clean:
  assumes "ut_inv t rep s xs" and "clean (us_consumed s) (us_ctx s)"
  shows "clean (us_consumed (usertest_run t ts s)) (us_ctx (usertest_run t ts s))"
  using assms
proof (induction ts arbitrary: s xs)
  case (Cons tu ts)
  obtain ys where "ut_inv t rep (usertest_turn t tu s) ys" using turn_keeps [OF Cons.prems(1)] by blast
  from Cons.IH [OF this turn_clean [OF Cons.prems]] show ?case by (simp add: usertest_run_def)
qed (simp add: usertest_run_def)

text \<open>The main program returns 0 whenever it returns, and has seen every item once.\<close>

lemma main_passes:
  assumes "rep {} q []" and "usertest_main t True ts (DS_SUCCESS, q) = Some st"
    and "s = usertest_run t ts (usertest_start t q)"
  shows "st = 0 \<and> mset (us_consumed s) = mset (us_produced s) \<and>
    image_mset key (mset (us_consumed s)) = (\<Sum>tid<t_producers t. mset (map (t_key t tid) [0..<t_items t]))"
proof -
  note start = start_inv [OF assms(1) refl]
  obtain xs where inv: "ut_inv t rep s xs" using run_keeps [OF start] assms(3) by blast
  have j: "usertest_joined s" and st: "st = t_status t (us_ctx s)"
    using assms(2,3) by (auto simp: usertest_main_def Let_def split: if_splits)
  have "clean (us_consumed s) (us_ctx s)"
    unfolding assms(3) by (rule run_clean [OF start]) (simp add: usertest_start_def, rule clean_start [unfolded usertest_start_def, simplified])
  then show ?thesis using joined_complete [OF inv j consumers] clean_status st by auto
qed

end

subsection \<open>Tests that follow the order\<close>

text \<open>
  One producer and one consumer on a queue: elements arrive in the order of their keys.
  \<open>clean n e c\<close> says what the checks have recorded after \<open>n\<close> elements, with \<open>e\<close> the next
  key the consumer expects.
\<close>

locale ut_ordered =
  fixes t :: "'q usertest" and rep :: "(nat \<times> nat) set \<Rightarrow> 'q \<Rightarrow> ds_kv list \<Rightarrow> bool"
    and clean :: "nat \<Rightarrow> u64 \<Rightarrow> ut_ctx \<Rightarrow> bool"
  assumes single: "t_producers t = 1" "t_consumers t = 1"
    and keys: "t_key t 0 i = of_nat (i + 1)" and some_items: "t_items t < 2 ^ 64"
    and try_order: "rep T q xs \<Longrightarrow> tid < t_producers t \<Longrightarrow> i < t_items t \<Longrightarrow> (tid, i) \<notin> T \<Longrightarrow>
      t_try t tid i (t_key t tid i) v q = (rc, q') \<Longrightarrow>
      (case rc of
         Accepted \<Rightarrow> rep (insert (tid, i) T) q' (xs @ [\<lparr>key = t_key t tid i, val = v\<rparr>])
       | Again \<Rightarrow> rep T q' xs
       | Failed \<Rightarrow> rep (insert (tid, i) T) q' xs)"
    and take_order: "rep T q xs \<Longrightarrow> t_take t q = (rc, d, q') \<Longrightarrow>
      (case rc of
         Accepted \<Rightarrow> \<exists>ys. xs = d # ys \<and> rep T q' ys
       | Again \<Rightarrow> rep T q' xs
       | Failed \<Rightarrow> False)"
    and examine_counters: "t_examine t d e c = (e', c') \<Longrightarrow>
      ut_produced c' = ut_produced c \<and> ut_consumed c' = ut_consumed c \<and> ut_expected c' = ut_expected c"
    and clean_start: "clean 0 1 (us_ctx (usertest_start t q))"
    and clean_counters: "clean n e c \<Longrightarrow> clean n e (c\<lparr>ut_produced := m\<rparr>)" "clean n e c \<Longrightarrow> clean n e (c\<lparr>ut_consumed := m\<rparr>)"
    and clean_examine: "clean n e c \<Longrightarrow> key d = of_nat (n + 1) \<Longrightarrow> t_examine t d e c = (e', c') \<Longrightarrow>
      clean (Suc n) e' c'"
    and clean_status: "clean n e c \<Longrightarrow> ut_consumed c = ut_expected c \<Longrightarrow> ut_produced c = ut_expected c \<Longrightarrow>
      t_status t c = 0"

sublocale ut_ordered \<subseteq> ut_lane
proof
  fix T q xs tid i v rc q' and d :: ds_kv
  show "case rc of Accepted \<Rightarrow> \<exists>ys. mset ys = add_mset \<lparr>key = t_key t tid i, val = v\<rparr> (mset xs) \<and>
           rep (insert (tid, i) T) q' ys
       | Again \<Rightarrow> rep T q' xs | Failed \<Rightarrow> rep (insert (tid, i) T) q' xs"
    if "rep T q xs" "tid < t_producers t" "i < t_items t" "(tid, i) \<notin> T"
      "t_try t tid i (t_key t tid i) v q = (rc, q')"
    using try_order [OF that] by (cases rc) (auto intro!: exI [of _ "xs @ [\<lparr>key = t_key t tid i, val = v\<rparr>]"])
  show "case rc of Accepted \<Rightarrow> \<exists>ys. mset xs = add_mset d (mset ys) \<and> rep T q' ys
       | Again \<Rightarrow> rep T q' xs | Failed \<Rightarrow> False"
    if "rep T q xs" "t_take t q = (rc, d, q')"
    using take_order [OF that] by (auto split: outcome.splits)
qed (use examine_counters single some_items in auto)

text \<open>The consumer's expected key, while it is in its loop.\<close>

fun co_expects :: "consumer \<Rightarrow> u64 option" where
  "co_expects (Co_check e) = Some e"
| "co_expects (Co_pop e) = Some e"
| "co_expects (Co_got e d) = Some e"
| "co_expects (Co_note e d) = Some e"
| "co_expects _ = None"

definition order_inv :: "'q usertest \<Rightarrow> ((nat \<times> nat) set \<Rightarrow> 'q \<Rightarrow> ds_kv list \<Rightarrow> bool) \<Rightarrow>
    (nat \<Rightarrow> u64 \<Rightarrow> ut_ctx \<Rightarrow> bool) \<Rightarrow> 'q ut_state \<Rightarrow> producer \<Rightarrow> consumer \<Rightarrow> u64 \<Rightarrow> ds_kv list \<Rightarrow> bool" where
  "order_inv t rep clean s p c e xs \<longleftrightarrow> us_producers s = [p] \<and> us_consumers s = [c] \<and>
     rep ({0} \<times> {..<pr_tried (t_items t) p}) (us_q s) xs \<and> pr_ok (t_items t) p \<and>
     us_produced s @ pr_pending (t_key t) 0 p = us_consumed s @ co_pending c @ xs \<and>
     map key (us_consumed s @ co_pending c @ xs) = map (t_key t 0) [0..<pr_accepted (t_items t) p] \<and>
     clean (length (us_consumed s)) e (us_ctx s) \<and> (\<forall>e'. co_expects c = Some e' \<longrightarrow> e' = e)"

lemma tried_Suc: "{0} \<times> {..<Suc i} = insert (0, i) ({0 :: nat} \<times> {..<i})"
  by auto

context ut_ordered
begin

lemma order_producer:
  assumes inv: "order_inv t rep clean s p c e xs"
  shows "\<exists>p ys. order_inv t rep clean (usertest_turn t (U_producer tid now) s) p c e ys"
proof (cases "tid = 0")
  case False
  then show ?thesis using inv by (auto simp: order_inv_def)
next
  case True
  have e: "clean (length (us_consumed s)) e (us_ctx s)" using inv by (simp add: order_inv_def)
  show ?thesis
  proof (cases p)
    case (Pr_next i)
    then show ?thesis
      using inv True by (intro exI [of _ "if i < t_items t then Pr_try i now else Pr_done"] exI [of _ xs])
        (auto simp: order_inv_def)
  next
    case (Pr_try i v)
    obtain rc q where st: "t_try t 0 i (t_key t 0 i) v (us_q s) = (rc, q)" by fastforce
    have r: "rep ({0} \<times> {..<i}) (us_q s) xs" "i < t_items t" using inv Pr_try by (simp_all add: order_inv_def)
    note law = try_order [OF r(1) _ r(2) _ st]
    show ?thesis
    proof (cases rc)
      case Accepted
      then show ?thesis
        using inv Pr_try True st law single
        by (intro exI [of _ "Pr_count i v"] exI [of _ "xs @ [\<lparr>key = t_key t 0 i, val = v\<rparr>]"])
          (simp add: order_inv_def tried_Suc)
    next
      case Again
      then show ?thesis
        using inv Pr_try True st law single by (intro exI [of _ "Pr_try i v"] exI [of _ xs]) (simp add: order_inv_def)
    next
      case Failed
      then show ?thesis
        using inv Pr_try True st law single
        by (intro exI [of _ "Pr_failed i"] exI [of _ xs]) (simp add: order_inv_def tried_Suc)
    qed
  next
    case (Pr_count i v)
    then show ?thesis
      using inv True clean_counters(1) [OF e]
      by (intro exI [of _ "Pr_next (Suc i)"] exI [of _ xs]) (simp add: order_inv_def)
  qed (use inv True in \<open>auto simp: order_inv_def\<close>)
qed

lemma order_consumer:
  assumes inv: "order_inv t rep clean s p c e xs"
  shows "\<exists>c e ys. order_inv t rep clean (usertest_turn t (U_consumer j) s) p c e ys"
proof (cases "j = 0")
  case False
  then show ?thesis using inv by (auto simp: order_inv_def)
next
  case True
  have e: "clean (length (us_consumed s)) e (us_ctx s)" using inv by (simp add: order_inv_def)
  show ?thesis
  proof (cases c)
    case (Co_check e')
    then show ?thesis
      using inv True by (intro exI [of _ "if ut_consumed (us_ctx s) < ut_expected (us_ctx s) then Co_pop e else Co_done"]
        exI [of _ e] exI [of _ xs]) (auto simp: order_inv_def)
  next
    case (Co_pop e')
    obtain rc d q where st: "t_take t (us_q s) = (rc, d, q)" by (metis prod_cases3)
    have "rep ({0} \<times> {..<pr_tried (t_items t) p}) (us_q s) xs" using inv by (simp add: order_inv_def)
    note law = take_order [OF this st]
    show ?thesis
    proof (cases rc)
      case Accepted
      then obtain ys where "xs = d # ys" "rep ({0} \<times> {..<pr_tried (t_items t) p}) q ys" using law by auto
      then show ?thesis
        using inv Co_pop True st Accepted
        by (intro exI [of _ "Co_got e d"] exI [of _ e] exI [of _ ys]) (simp add: order_inv_def)
    next
      case Again
      then show ?thesis
        using inv Co_pop True st law
        by (intro exI [of _ "Co_check e"] exI [of _ e] exI [of _ xs]) (simp add: order_inv_def)
    qed (use law in simp)
  next
    case (Co_got e' d)
    then show ?thesis
      using inv True clean_counters(2) [OF e]
      by (intro exI [of _ "Co_note e d"] exI [of _ e] exI [of _ xs]) (simp add: order_inv_def)
  next
    case (Co_note e' d)
    obtain e'' c' where ex: "t_examine t d e (us_ctx s) = (e'', c')" by fastforce
    let ?n = "length (us_consumed s)" and ?m = "pr_accepted (t_items t) p"
    have m: "map key (us_consumed s @ d # xs) = map (t_key t 0) [0..<?m]"
      using inv Co_note by (simp add: order_inv_def)
    then have "?n < ?m" by (auto dest: arg_cong [of _ _ length])
    then have "key d = of_nat (?n + 1)" using arg_cong [OF m, of "\<lambda>l. l ! ?n"] by (simp add: nth_append keys)
    from clean_examine [OF e this ex] show ?thesis
      using inv Co_note True ex
      by (intro exI [of _ "Co_check e''"] exI [of _ e''] exI [of _ xs]) (simp add: order_inv_def)
  qed (use inv True in \<open>auto simp: order_inv_def\<close>)
qed

lemma order_run:
  "order_inv t rep clean s p c e xs \<Longrightarrow> \<exists>p c e ys. order_inv t rep clean (usertest_run t ts s) p c e ys"
proof (induction ts arbitrary: s p c e xs)
  case (Cons tu ts)
  have "\<exists>p c e ys. order_inv t rep clean (usertest_turn t tu s) p c e ys"
    using order_producer [OF Cons.prems] order_consumer [OF Cons.prems] by (cases tu) blast+
  with Cons.IH show ?case by (fastforce simp: usertest_run_def)
qed (auto simp: usertest_run_def)

text \<open>
  In every state the consumer has printed the first elements of what the producer
  inserted, in order, and no check has failed; a main program that returns, returns 0.
\<close>

lemma run_in_order:
  assumes "rep {} q []" and "s = usertest_run t ts (usertest_start t q)"
  shows "\<exists>ys. map key (us_consumed s @ ys) = map (t_key t 0) [0..<length (us_consumed s @ ys)]"
    and "usertest_main t True ts (DS_SUCCESS, q) = Some st \<Longrightarrow>
      st = 0 \<and> us_consumed s = us_produced s \<and> map key (us_consumed s) = map (t_key t 0) [0..<t_items t]"
proof -
  have "order_inv t rep clean (usertest_start t q) (Pr_next 0) (Co_check 1) 1 []"
    using assms(1) clean_start [of q] single by (simp add: order_inv_def usertest_start_def)
  then obtain p c e xs where o: "order_inv t rep clean s p c e xs" using order_run assms(2) by blast
  obtain zs where inv: "ut_inv t rep s zs" using run_keeps [OF start_inv [OF assms(1) refl]] assms(2) by blast
  have m: "map key (us_consumed s @ co_pending c @ xs) = map (t_key t 0) [0..<pr_accepted (t_items t) p]"
    using o unfolding order_inv_def by metis
  then show "\<exists>ys. map key (us_consumed s @ ys) = map (t_key t 0) [0..<length (us_consumed s @ ys)]"
    by (metis length_map length_upt minus_nat.diff_0)
  assume main: "usertest_main t True ts (DS_SUCCESS, q) = Some st"
  have j: "usertest_joined s" and st: "st = t_status t (us_ctx s)"
    using main assms(2) by (auto simp: usertest_main_def Let_def split: if_splits)
  have "consumer_returned c" using j o by (simp add: usertest_joined_def order_inv_def)
  then have c: "co_pending c = []" by (cases c) (auto simp: consumer_returned_def)
  note fin = joined_complete [OF inv j]
  have p: "p = Pr_done" using fin o single by (simp add: order_inv_def)
  have "xs = []" using fin o p c single by (auto simp: order_inv_def dest: mset_eq_length)
  then show "st = 0 \<and> us_consumed s = us_produced s \<and> map key (us_consumed s) = map (t_key t 0) [0..<t_items t]"
    using fin o p c m st clean_status single by (auto simp: order_inv_def)
qed

lemma main_in_order:
  assumes "rep {} q []" and "s = usertest_run t ts (usertest_start t q)"
  shows "(\<exists>ks. map key (us_consumed s) @ ks = map (\<lambda>i. of_nat (i + 1)) [0..<length (us_consumed s) + length ks]) \<and>
    (\<forall>st. usertest_main t True ts (DS_SUCCESS, q) = Some st \<longrightarrow>
       st = 0 \<and> us_consumed s = us_produced s \<and> map key (us_consumed s) = map (\<lambda>i. of_nat (i + 1)) [0..<t_items t])"
proof -
  have k: "t_key t 0 = (\<lambda>i. of_nat (i + 1))" using keys by blast
  obtain ys where "map key (us_consumed s @ ys) = map (t_key t 0) [0..<length (us_consumed s @ ys)]"
    using run_in_order(1) [OF assms] by blast
  then have "map key (us_consumed s) @ map key ys =
      map (\<lambda>i. of_nat (i + 1)) [0..<length (us_consumed s) + length (map key ys)]"
    by (simp add: k)
  then show ?thesis using run_in_order(2) [OF assms] k by metis
qed

end

end
