(* ===== verification/UserTestLive.thy ===== *)
theory UserTestLive
  imports UserTestRuns
begin

text \<open>
  The userspace tests finish.  Locale \<open>ut_live\<close> adds to \<open>ut_lane\<close> that an insert is accepted
  while fewer than all items are in the structure and that a pop of a structure with
  elements delivers one.  Then in any two rounds of turns in which every thread runs, the
  threads get further or have all returned, and enough rounds end the main program.
\<close>

subsection \<open>Progress\<close>

fun pr_steps :: "nat \<Rightarrow> producer \<Rightarrow> nat" where
  "pr_steps n (Pr_next i) = 3 * i"
| "pr_steps n (Pr_try i v) = 3 * i + 1"
| "pr_steps n (Pr_count i v) = 3 * i + 2"
| "pr_steps n Pr_done = 3 * n + 1"
| "pr_steps n (Pr_failed i) = 3 * i + 1"

fun co_steps :: "consumer \<Rightarrow> nat" where
  "co_steps (Co_got e d) = 1"
| "co_steps (Co_note e d) = 2"
| "co_steps Co_done = 1"
| "co_steps _ = 0"

text \<open>The steps that are not spinning: every one of them adds one.\<close>

definition ut_progress :: "'q usertest \<Rightarrow> 'q ut_state \<Rightarrow> nat" where
  "ut_progress t s = tot (\<lambda>_. pr_steps (t_items t)) (us_producers s) + tot (\<lambda>_. co_steps) (us_consumers s) +
     3 * length (us_consumed s)"

definition ut_steps :: "'q usertest \<Rightarrow> nat" where
  "ut_steps t = t_producers t * (3 * t_items t + 1) + t_consumers t * 2 + 3 * (t_producers t * t_items t)"

lemma co_steps_le: "co_steps c \<le> 2"
  by (cases c) simp_all

lemma pr_steps_le: "pr_ok n p \<Longrightarrow> pr_steps n p \<le> 3 * n + 1"
  by (cases p) auto

text \<open>The threads, and rounds in which each of them has a turn.\<close>

datatype ut_thread = T_producer nat | T_consumer nat

fun thread_of :: "ut_turn \<Rightarrow> ut_thread" where
  "thread_of (U_producer tid now) = T_producer tid"
| "thread_of (U_consumer j) = T_consumer j"

definition full_round :: "'q usertest \<Rightarrow> ut_turn list \<Rightarrow> bool" where
  "full_round t r \<longleftrightarrow> (\<forall>tid<t_producers t. T_producer tid \<in> thread_of ` set r) \<and>
     (\<forall>j<t_consumers t. T_consumer j \<in> thread_of ` set r)"

definition fair_schedule :: "'q usertest \<Rightarrow> nat \<Rightarrow> ut_turn list \<Rightarrow> bool" where
  "fair_schedule t n ts \<longleftrightarrow> (\<exists>rs. ts = concat rs \<and> n \<le> length rs \<and> list_all (full_round t) rs)"

lemma fair_replicate: "full_round t r \<Longrightarrow> fair_schedule t n (concat (replicate n r))"
  unfolding fair_schedule_def by (intro exI [of _ "replicate n r"]) (simp add: list_all_length)

text \<open>Producers have finished and consumers hold nothing; threads whose next turn is progress.\<close>

definition ut_calm :: "'q ut_state \<Rightarrow> bool" where
  "ut_calm s \<longleftrightarrow> (\<forall>p \<in> set (us_producers s). p = Pr_done) \<and> (\<forall>c \<in> set (us_consumers s). co_pending c = [])"

fun co_ready :: "ut_ctx \<Rightarrow> consumer \<Rightarrow> bool" where
  "co_ready c (Co_check e) \<longleftrightarrow> \<not> ut_consumed c < ut_expected c"
| "co_ready c (Co_pop e) \<longleftrightarrow> ut_consumed c < ut_expected c"
| "co_ready c _ \<longleftrightarrow> False"

fun ut_urgent :: "'q ut_state \<Rightarrow> ut_thread \<Rightarrow> bool" where
  "ut_urgent s (T_producer tid) \<longleftrightarrow> tid < length (us_producers s) \<and> us_producers s ! tid \<noteq> Pr_done"
| "ut_urgent s (T_consumer j) \<longleftrightarrow> j < length (us_consumers s) \<and>
     (co_pending (us_consumers s ! j) \<noteq> [] \<or> ut_calm s \<and> co_ready (us_ctx s) (us_consumers s ! j))"

text \<open>What a turn without progress leaves: only a consumer may have moved, between its loop test and the pop.\<close>

fun co_spin :: "ut_ctx \<Rightarrow> consumer \<Rightarrow> consumer \<Rightarrow> bool" where
  "co_spin c Co_done c' \<longleftrightarrow> c' = Co_done"
| "co_spin c (Co_check e) c' \<longleftrightarrow> ut_consumed c < ut_expected c \<and> c' = Co_pop e"
| "co_spin c (Co_pop e) c' \<longleftrightarrow> c' = Co_check e"
| "co_spin c _ c' \<longleftrightarrow> False"

definition ut_quiet :: "ut_turn \<Rightarrow> 'q ut_state \<Rightarrow> 'q ut_state \<Rightarrow> bool" where
  "ut_quiet tu s s' \<longleftrightarrow> us_ctx s' = us_ctx s \<and> us_producers s' = us_producers s \<and> us_consumed s' = us_consumed s \<and>
     (case tu of
        U_producer tid now \<Rightarrow> us_consumers s' = us_consumers s \<and>
          (tid < length (us_producers s) \<longrightarrow> us_producers s ! tid = Pr_done)
      | U_consumer j \<Rightarrow> (if j < length (us_consumers s)
          then \<exists>c. us_consumers s' = (us_consumers s)[j := c] \<and> co_spin (us_ctx s) (us_consumers s ! j) c
          else us_consumers s' = us_consumers s))"

lemma co_spin_pending: "co_spin x c c' \<Longrightarrow> co_pending c = [] \<and> co_pending c' = []"
  by (cases c) auto

lemma quiet_calm:
  assumes "ut_quiet tu s s'" and "ut_calm s"
  shows "ut_calm s'"
  using assms set_update_subset_insert
  by (fastforce simp: ut_quiet_def ut_calm_def split: ut_turn.splits if_splits dest: co_spin_pending)

lemma quiet_urgent:
  assumes "ut_quiet tu s s'" and "ut_urgent s x" and "thread_of tu \<noteq> x"
  shows "ut_urgent s' x"
proof (cases x)
  case (T_producer tid)
  then show ?thesis using assms by (auto simp: ut_quiet_def)
next
  case (T_consumer j)
  moreover have "us_consumers s' ! j = us_consumers s ! j" "length (us_consumers s') = length (us_consumers s)"
    using assms T_consumer by (auto simp: ut_quiet_def split: ut_turn.splits if_splits)
  ultimately show ?thesis using assms quiet_calm [OF assms(1)] by (auto simp: ut_quiet_def)
qed

lemma joined_turn: "usertest_joined s \<Longrightarrow> usertest_turn t tu s = s"
proof (cases tu)
  case (U_producer tid now)
  assume j: "usertest_joined s"
  show ?thesis
  proof (cases "tid < length (us_producers s)")
    case True
    then have "producer_returned (us_producers s ! tid)" using j by (simp add: usertest_joined_def list_all_length)
    moreover have "(us_producers s)[tid := us_producers s ! tid] = us_producers s" by simp
    ultimately show ?thesis using U_producer by (cases "us_producers s ! tid") (simp_all add: producer_returned_def)
  qed (simp add: U_producer)
next
  case (U_consumer k)
  assume j: "usertest_joined s"
  show ?thesis
  proof (cases "k < length (us_consumers s)")
    case True
    then have "consumer_returned (us_consumers s ! k)" using j by (simp add: usertest_joined_def list_all_length)
    moreover have "(us_consumers s)[k := us_consumers s ! k] = us_consumers s" by simp
    ultimately show ?thesis using U_consumer by (cases "us_consumers s ! k") (simp_all add: consumer_returned_def)
  qed (simp add: U_consumer)
qed

lemma joined_run: "usertest_joined s \<Longrightarrow> usertest_run t ts s = s"
  by (induction ts) (simp_all add: usertest_run_def joined_turn)

lemma run_Cons: "usertest_run t (tu # ts) s = usertest_run t ts (usertest_turn t tu s)"
  by (simp add: usertest_run_def)

lemma run_append: "usertest_run t (ts @ us) s = usertest_run t us (usertest_run t ts s)"
  by (simp add: usertest_run_def)

subsection \<open>Every round is progress\<close>

definition ut_alive :: "'q usertest \<Rightarrow> ((nat \<times> nat) set \<Rightarrow> 'q \<Rightarrow> ds_kv list \<Rightarrow> bool) \<Rightarrow> 'q ut_state \<Rightarrow> bool" where
  "ut_alive t rep s \<longleftrightarrow> (\<exists>xs. ut_inv t rep s xs) \<and> (\<forall>i. Pr_failed i \<notin> set (us_producers s))"

locale ut_live = ut_lane +
  assumes try_accepts: "rep T q xs \<Longrightarrow> tid < t_producers t \<Longrightarrow> i < t_items t \<Longrightarrow> (tid, i) \<notin> T \<Longrightarrow>
      length xs < t_producers t * t_items t \<Longrightarrow> fst (t_try t tid i (t_key t tid i) v q) = Accepted"
    and take_accepts: "rep T q xs \<Longrightarrow> xs \<noteq> [] \<Longrightarrow> fst (t_take t q) = Accepted"
    and some_consumer: "0 < t_consumers t"
begin

lemma insert_accepted:
  assumes inv: "ut_inv t rep s xs" and tid: "tid < length (us_producers s)" and p: "us_producers s ! tid = Pr_try i v"
  shows "fst (t_try t tid i (t_key t tid i) v (us_q s)) = Accepted"
proof -
  note d = ut_invD [OF inv] and b = taken_bound [OF inv]
  have i: "i < t_items t" using d(4) tid p by (auto simp: list_all_length)
  have "tot (\<lambda>_. pr_accepted (t_items t)) (us_producers s) \<noteq> t_producers t * t_items t"
    using tot_full [of "\<lambda>_. pr_accepted (t_items t)" "us_producers s" "t_items t" tid] d(2,4) tid p i
    by (auto simp: list_all_length intro: pr_accepted_le)
  then have "length xs < t_producers t * t_items t" using b(1,2) by linarith
  then show ?thesis using try_accepts [OF d(1) _ i] tid p d(2) by (simp add: tried_items_def)
qed

lemma live_turn:
  assumes "ut_alive t rep s"
  shows "ut_alive t rep (usertest_turn t tu s)"
proof -
  obtain xs where inv: "ut_inv t rep s xs" using assms by (auto simp: ut_alive_def)
  have "Pr_failed i \<notin> set (us_producers (usertest_turn t tu s))" for i
  proof (cases tu)
    case (U_producer tid now)
    show ?thesis
    proof (cases "tid < length (us_producers s)")
      case True
      have "us_producers s ! tid \<noteq> Pr_failed k" for k using assms nth_mem [OF True] by (metis ut_alive_def)
      then show ?thesis
        using assms True U_producer insert_accepted [OF inv True]
          set_update_subset_insert [of "us_producers s" tid]
        by (cases "us_producers s ! tid") (auto simp: ut_alive_def split_def Let_def dest!: subsetD [OF set_update_subset_insert])
    qed (use assms U_producer in \<open>simp add: ut_alive_def\<close>)
  next
    case (U_consumer j)
    then show ?thesis
      using assms by (cases "us_consumers s ! j") (auto simp: ut_alive_def split_def Let_def split: outcome.splits)
  qed
  then show ?thesis using turn_keeps [OF inv] by (auto simp: ut_alive_def)
qed

lemma live_run: "ut_alive t rep s \<Longrightarrow> ut_alive t rep (usertest_run t ts s)"
  by (induction ts arbitrary: s) (simp_all add: usertest_run_def live_turn)

lemma producer_progress:
  assumes "ut_alive t rep s" and "tid < length (us_producers s)" and "us_producers s ! tid \<noteq> Pr_done"
  shows "ut_progress t s < ut_progress t (usertest_turn t (U_producer tid now) s)"
proof -
  obtain xs where inv: "ut_inv t rep s xs" using assms by (auto simp: ut_alive_def)
  define p where "p = fst (producer_thread t tid now (us_producers s ! tid) s)"
  have "us_producers s ! tid \<noteq> Pr_failed k" for k using assms(1) nth_mem [OF assms(2)] by (metis ut_alive_def)
  moreover have "pr_ok (t_items t) (us_producers s ! tid)" using ut_invD(4) [OF inv] assms(2) by (simp add: list_all_length)
  ultimately have p: "pr_steps (t_items t) (us_producers s ! tid) < pr_steps (t_items t) p \<and>
      us_producers (usertest_turn t (U_producer tid now) s) = (us_producers s)[tid := p] \<and>
      us_consumers (usertest_turn t (U_producer tid now) s) = us_consumers s \<and>
      us_consumed (usertest_turn t (U_producer tid now) s) = us_consumed s"
    using assms(2,3) insert_accepted [OF inv assms(2)]
    by (cases "us_producers s ! tid") (auto simp: p_def split_def Let_def)
  then show ?thesis
    using tot_update [OF assms(2), of "\<lambda>_. pr_steps (t_items t)" p] by (simp add: ut_progress_def)
qed

lemma consumer_progress:
  assumes "ut_alive t rep s" and j: "j < length (us_consumers s)"
  shows "ut_progress t s < ut_progress t (usertest_turn t (U_consumer j) s) \<or>
    ut_progress t s = ut_progress t (usertest_turn t (U_consumer j) s) \<and>
      ut_quiet (U_consumer j) s (usertest_turn t (U_consumer j) s)"
proof -
  obtain xs where inv: "ut_inv t rep s xs" using assms by (auto simp: ut_alive_def)
  let ?s = "usertest_turn t (U_consumer j) s"
  define c where "c = fst (consumer_thread t (us_consumers s ! j) s)"
  obtain rc d q where st: "t_take t (us_q s) = (rc, d, q)" by (metis prod_cases3)
  have "rc \<noteq> Failed" using take_law [OF ut_invD(1) [OF inv] st] by auto
  moreover have "us_consumers s ! j \<noteq> Co_failed" using ut_invD(11) [OF inv] nth_mem [OF j] by metis
  ultimately have "us_producers ?s = us_producers s \<and> us_consumers ?s = (us_consumers s)[j := c] \<and>
      (co_steps (us_consumers s ! j) + 3 * length (us_consumed s) < co_steps c + 3 * length (us_consumed ?s) \<or>
       us_ctx ?s = us_ctx s \<and> us_consumed ?s = us_consumed s \<and> co_spin (us_ctx s) (us_consumers s ! j) c \<and>
       co_steps (us_consumers s ! j) = co_steps c)"
    using j st by (cases "us_consumers s ! j") (auto simp: c_def split_def Let_def split: outcome.splits)
  then show ?thesis
    using tot_update [OF j, of "\<lambda>_. co_steps" c] j by (auto simp: ut_progress_def ut_quiet_def)
qed

lemma turn_progress:
  assumes "ut_alive t rep s"
  shows "ut_progress t s < ut_progress t (usertest_turn t tu s) \<or>
    ut_progress t s = ut_progress t (usertest_turn t tu s) \<and> ut_quiet tu s (usertest_turn t tu s)"
proof (cases tu)
  case (U_producer tid now)
  show ?thesis
  proof (cases "tid < length (us_producers s)")
    case True
    then show ?thesis using producer_progress [OF assms True] list_update_id [of "us_producers s" tid] U_producer
      by (cases "us_producers s ! tid = Pr_done") (auto simp: ut_quiet_def simp del: list_update_id)
  qed (simp add: U_producer ut_quiet_def)
next
  case (U_consumer j)
  show ?thesis
  proof (cases "j < length (us_consumers s)")
    case True
    then show ?thesis using consumer_progress [OF assms True] U_consumer by simp
  qed (simp add: U_consumer ut_quiet_def)
qed

lemma run_progress: "ut_alive t rep s \<Longrightarrow> ut_progress t s \<le> ut_progress t (usertest_run t ts s)"
proof (induction ts arbitrary: s)
  case (Cons tu ts)
  then show ?case using Cons.IH [OF live_turn [OF Cons.prems, of tu]] turn_progress [OF Cons.prems, of tu]
    unfolding run_Cons by linarith
qed (simp add: usertest_run_def)

text \<open>In a calm state the structure holds what the consumers have not counted.\<close>

lemma calm_length:
  assumes inv: "ut_inv t rep s xs" and calm: "ut_calm s"
  shows "ut_consumed (us_ctx s) < ut_expected (us_ctx s) \<longleftrightarrow> xs \<noteq> []"
proof -
  note d = ut_invD [OF inv] and b = taken_bound [OF inv]
  have c: "co_pending (us_consumers s ! j) = []" if "j < length (us_consumers s)" for j
    using calm that by (simp add: ut_calm_def)
  have "co_noting x = 0" if "co_pending x = []" for x using that by (cases x) simp_all
  then have "tot (\<lambda>_ c. length (co_pending c)) (us_consumers s) = 0" "tot (\<lambda>_. co_noting) (us_consumers s) = 0"
    using c by (simp_all add: tot_def)
  moreover have "us_producers s ! j = Pr_done" if "j < length (us_producers s)" for j
    using calm that by (simp add: ut_calm_def)
  then have "tot (\<lambda>_. pr_accepted (t_items t)) (us_producers s) = t_producers t * t_items t"
    using d(2) by (simp add: tot_def)
  moreover have "unat (ut_expected (us_ctx s)) = t_producers t * t_items t"
    using d(9) few_items by (simp only: unat_of_nat_u64)
  ultimately have "length (us_consumed s) + length xs = unat (ut_expected (us_ctx s))"
    "unat (ut_consumed (us_ctx s)) = length (us_consumed s)"
    using b(1,4) by linarith+
  then show ?thesis by (cases xs) (simp_all add: word_less_nat_alt)
qed

lemma urgent_turn:
  assumes "ut_alive t rep s" and "ut_urgent s (thread_of tu)"
  shows "ut_progress t s < ut_progress t (usertest_turn t tu s)"
proof (cases tu)
  case (U_producer tid now)
  then show ?thesis using assms producer_progress by simp
next
  case (U_consumer j)
  obtain xs where inv: "ut_inv t rep s xs" using assms by (auto simp: ut_alive_def)
  have j: "j < length (us_consumers s)" using assms(2) U_consumer by simp
  have "\<not> ut_quiet (U_consumer j) s (usertest_turn t (U_consumer j) s)"
  proof
    assume q: "ut_quiet (U_consumer j) s (usertest_turn t (U_consumer j) s)"
    then obtain c where c: "us_consumers (usertest_turn t (U_consumer j) s) = (us_consumers s)[j := c]"
      "co_spin (us_ctx s) (us_consumers s ! j) c"
      using j by (auto simp: ut_quiet_def)
    then have u: "ut_calm s" "co_ready (us_ctx s) (us_consumers s ! j)"
      using assms(2) U_consumer co_spin_pending [OF c(2)] by auto
    then obtain e where e: "us_consumers s ! j = Co_pop e" "c = Co_check e" "ut_consumed (us_ctx s) < ut_expected (us_ctx s)"
      using c(2) by (cases "us_consumers s ! j") auto
    then have "fst (t_take t (us_q s)) = Accepted"
      using take_accepts [OF ut_invD(1) [OF inv]] calm_length [OF inv u(1)] by simp
    then have "us_consumers (usertest_turn t (U_consumer j) s) ! j \<noteq> Co_check e"
      using j e(1) by (auto simp: split_def Let_def)
    then show False using c(1) e(2) j by simp
  qed
  then show ?thesis using consumer_progress [OF assms(1) j] U_consumer by simp
qed

lemma urgent_run:
  assumes "ut_alive t rep s" and "ut_urgent s x"
  shows "ut_progress t s < ut_progress t (usertest_run t ts s) \<or>
    x \<notin> thread_of ` set ts \<and> ut_urgent (usertest_run t ts s) x"
  using assms
proof (induction ts arbitrary: s)
  case (Cons tu ts)
  note l = live_turn [OF Cons.prems(1), of tu]
  show ?case
  proof (cases "ut_progress t s < ut_progress t (usertest_turn t tu s)")
    case True
    then show ?thesis using run_progress [OF l, of ts] by (simp add: run_Cons)
  next
    case False
    then have q: "ut_progress t s = ut_progress t (usertest_turn t tu s)" "ut_quiet tu s (usertest_turn t tu s)"
      using turn_progress [OF Cons.prems(1), of tu] by auto
    have n: "thread_of tu \<noteq> x" using urgent_turn [OF Cons.prems(1)] Cons.prems(2) False by metis
    from Cons.IH [OF l quiet_urgent [OF q(2) Cons.prems(2) n]] show ?thesis using n q(1) by (auto simp: run_Cons)
  qed
qed (simp add: usertest_run_def)

text \<open>A consumer that is in its loop of a calm state is urgent after one turn at the latest.\<close>

lemma calm_run:
  assumes "ut_alive t rep s" and "ut_calm s" and "j < length (us_consumers s)" and "us_consumers s ! j \<noteq> Co_done"
    and "T_consumer j \<in> thread_of ` set ts"
  shows "ut_progress t s < ut_progress t (usertest_run t ts s) \<or> ut_urgent (usertest_run t ts s) (T_consumer j)"
  using assms
proof (induction ts arbitrary: s)
  case (Cons tu ts)
  let ?s = "usertest_turn t tu s"
  note l = live_turn [OF Cons.prems(1), of tu]
  show ?case
  proof (cases "ut_progress t s < ut_progress t ?s")
    case True
    then show ?thesis using run_progress [OF l, of ts] by (simp add: run_Cons)
  next
    case False
    then have q: "ut_progress t s = ut_progress t ?s" "ut_quiet tu s ?s"
      using turn_progress [OF Cons.prems(1), of tu] by auto
    note calm = quiet_calm [OF q(2) Cons.prems(2)]
    show ?thesis
    proof (cases "thread_of tu = T_consumer j")
      case True
      then have tu: "tu = U_consumer j" by (cases tu) auto
      then obtain c where c: "us_consumers ?s = (us_consumers s)[j := c]" "co_spin (us_ctx s) (us_consumers s ! j) c"
        "us_ctx ?s = us_ctx s"
        using q(2) Cons.prems(3) by (auto simp: ut_quiet_def)
      have "\<not> ut_urgent s (T_consumer j)" using urgent_turn [OF Cons.prems(1), of tu] False tu by (metis thread_of.simps(2))
      then have "co_ready (us_ctx s) c"
        using c(2) Cons.prems(2-4) by (cases "us_consumers s ! j") auto
      then have "ut_urgent ?s (T_consumer j)" using c calm Cons.prems(3) by simp
      from urgent_run [OF l this, of ts] show ?thesis using q(1) by (auto simp: run_Cons)
    next
      case other: False
      then have "us_consumers ?s ! j = us_consumers s ! j" "length (us_consumers ?s) = length (us_consumers s)"
        using q(2) by (auto simp: ut_quiet_def split: ut_turn.splits if_splits)
      then show ?thesis using Cons.IH [OF l calm] Cons.prems(3-5) other q(1) by (auto simp: run_Cons)
    qed
  qed
qed simp

lemma two_rounds:
  assumes l: "ut_alive t rep s" and nj: "\<not> usertest_joined s" and r: "full_round t r" "full_round t r'"
  shows "ut_progress t s < ut_progress t (usertest_run t (r @ r') s)"
proof -
  obtain xs where inv: "ut_inv t rep s xs" using l by (auto simp: ut_alive_def)
  note d = ut_invD [OF inv] and l' = live_run [OF l, of r]
  have thread: "x \<in> thread_of ` set r \<and> x \<in> thread_of ` set r'" if "ut_urgent s' x"
    "length (us_producers s') = t_producers t" "length (us_consumers s') = t_consumers t" for x and s' :: "'a ut_state"
    using that r by (cases x) (auto simp: full_round_def)
  show ?thesis
  proof (cases "\<exists>x. ut_urgent s x")
    case True
    then obtain x where x: "ut_urgent s x" by blast
    then have "ut_progress t s < ut_progress t (usertest_run t r s)"
      using urgent_run [OF l x, of r] thread [OF x d(2,3)] by blast
    then show ?thesis using run_progress [OF l', of r'] by (simp add: run_append)
  next
    case False
    have pd: "us_producers s ! k = Pr_done" if "k < length (us_producers s)" for k
      using False that by (metis ut_urgent.simps(1))
    have cp: "co_pending (us_consumers s ! k) = []" if "k < length (us_consumers s)" for k
      using False that by (metis ut_urgent.simps(2))
    have calm: "ut_calm s" using pd cp by (auto simp: ut_calm_def in_set_conv_nth)
    have "list_all producer_returned (us_producers s)" using pd by (simp add: list_all_length producer_returned_def)
    then obtain j where j: "j < length (us_consumers s)" "\<not> consumer_returned (us_consumers s ! j)"
      using nj by (auto simp: usertest_joined_def list_all_length)
    then have nd: "us_consumers s ! j \<noteq> Co_done" by (auto simp: consumer_returned_def)
    have "T_consumer j \<in> thread_of ` set r" "T_consumer j \<in> thread_of ` set r'"
      using r j(1) d(3) by (auto simp: full_round_def)
    then show ?thesis
      using calm_run [OF l calm j(1) nd, of r] urgent_run [OF l', of "T_consumer j" r'] run_progress [OF l', of r']
        run_progress [OF l, of r]
      by (auto simp: run_append)
  qed
qed

lemma progress_bound:
  assumes "ut_alive t rep s"
  shows "ut_progress t s \<le> ut_steps t"
proof -
  obtain xs where inv: "ut_inv t rep s xs" using assms by (auto simp: ut_alive_def)
  note d = ut_invD [OF inv] and b = taken_bound [OF inv]
  have "tot (\<lambda>_. pr_steps (t_items t)) (us_producers s) \<le> t_producers t * (3 * t_items t + 1)"
    unfolding d(2) [symmetric] using d(4) by (intro tot_bound pr_steps_le) (simp add: list_all_length)
  moreover have "tot (\<lambda>_. co_steps) (us_consumers s) \<le> t_consumers t * 2"
    unfolding d(3) [symmetric] by (intro tot_bound co_steps_le)
  ultimately show ?thesis using b(1,2) unfolding ut_progress_def ut_steps_def by linarith
qed

lemma rounds_finish:
  assumes "ut_alive t rep s" and "list_all (full_round t) rs" and "2 * m \<le> length rs"
  shows "usertest_joined (usertest_run t (concat rs) s) \<or>
    ut_progress t s + m \<le> ut_progress t (usertest_run t (concat rs) s)"
  using assms
proof (induction m arbitrary: rs s)
  case (Suc m)
  then obtain r r' rs' where rs: "rs = r # r' # rs'" by (cases rs; cases "tl rs") auto
  have r: "full_round t r" "full_round t r'" "list_all (full_round t) rs'" "2 * m \<le> length rs'"
    using Suc.prems rs by simp_all
  let ?s = "usertest_run t (r @ r') s"
  have eq: "usertest_run t (concat rs) s = usertest_run t (concat rs') ?s" by (simp add: rs run_append)
  show ?case
  proof (cases "usertest_joined s")
    case True
    then show ?thesis by (simp add: joined_run)
  next
    case False
    from Suc.IH [OF live_run [OF Suc.prems(1)] r(3,4), of "r @ r'"] two_rounds [OF Suc.prems(1) False r(1,2)]
    show ?thesis unfolding eq by linarith
  qed
qed (simp add: run_progress)

text \<open>Every schedule with enough full rounds ends with all threads joined.\<close>

lemma main_returns:
  assumes "rep {} q []" and "fair_schedule t (2 * Suc (ut_steps t)) ts"
  shows "\<exists>st. usertest_main t True ts (DS_SUCCESS, q) = Some st"
proof -
  obtain rs where rs: "ts = concat rs" "2 * Suc (ut_steps t) \<le> length rs" "list_all (full_round t) rs"
    using assms(2) by (auto simp: fair_schedule_def)
  have l: "ut_alive t rep (usertest_start t q)"
    using start_inv [OF assms(1) refl] by (auto simp: ut_alive_def) (simp add: usertest_start_def)
  have "usertest_joined (usertest_run t ts (usertest_start t q))"
    using rounds_finish [OF l rs(3,2)] progress_bound [OF live_run [OF l, of ts]] rs(1) by simp
  then show ?thesis by (simp add: usertest_main_def Let_def)
qed

end

subsection \<open>Tests on a queue\<close>

text \<open>
  A queue that gives elements back in order and refuses an item only while it holds \<open>cap\<close>
  or more elements, with room for all items of the test.
\<close>

locale ut_fifo =
  fixes t :: "'q usertest" and rep :: "(nat \<times> nat) set \<Rightarrow> 'q \<Rightarrow> ds_kv list \<Rightarrow> bool" and cap :: nat
  assumes try_fifo: "rep T q xs \<Longrightarrow> tid < t_producers t \<Longrightarrow> i < t_items t \<Longrightarrow> (tid, i) \<notin> T \<Longrightarrow>
      \<exists>q'. t_try t tid i (t_key t tid i) v q = (Accepted, q') \<and>
          rep (insert (tid, i) T) q' (xs @ [\<lparr>key = t_key t tid i, val = v\<rparr>]) \<or>
        cap \<le> length xs \<and> t_try t tid i (t_key t tid i) v q = (Again, q') \<and> rep T q' xs"
    and take_empty: "rep T q [] \<Longrightarrow> \<exists>d q'. t_take t q = (Again, d, q') \<and> rep T q' []"
    and take_front: "rep T q (x # xs) \<Longrightarrow> \<exists>q'. t_take t q = (Accepted, x, q') \<and> rep T q' xs"
    and examine_counters: "t_examine t d e c = (e', c') \<Longrightarrow>
      ut_produced c' = ut_produced c \<and> ut_consumed c' = ut_consumed c \<and> ut_expected c' = ut_expected c"
    and fits: "t_producers t * t_items t \<le> cap" and cap_small: "cap < 2 ^ 64"
    and served: "0 < t_consumers t"
begin

lemma try_cases:
  assumes "rep T q xs" and "tid < t_producers t" and "i < t_items t" and "(tid, i) \<notin> T"
    and "t_try t tid i (t_key t tid i) v q = (rc, q')"
  shows "case rc of Accepted \<Rightarrow> rep (insert (tid, i) T) q' (xs @ [\<lparr>key = t_key t tid i, val = v\<rparr>])
    | Again \<Rightarrow> rep T q' xs | Failed \<Rightarrow> False"
  using try_fifo [OF assms(1-4), of v] assms(5) by (auto split: if_splits)

lemma take_cases:
  assumes "rep T q xs" and "t_take t q = (rc, d, q')"
  shows "case rc of Accepted \<Rightarrow> \<exists>ys. xs = d # ys \<and> rep T q' ys | Again \<Rightarrow> rep T q' xs | Failed \<Rightarrow> False"
proof (cases xs)
  case Nil
  then show ?thesis using assms take_empty [of T q] by auto
next
  case (Cons x ys)
  then show ?thesis using assms take_front [of T q x ys] by auto
qed

lemma try_room:
  assumes "rep T q xs" and "tid < t_producers t" and "i < t_items t" and "(tid, i) \<notin> T"
    and "length xs < t_producers t * t_items t"
  shows "fst (t_try t tid i (t_key t tid i) v q) = Accepted"
  using try_fifo [OF assms(1-4), of v] assms(5) fits by auto

lemma take_some: "rep T q xs \<Longrightarrow> xs \<noteq> [] \<Longrightarrow> fst (t_take t q) = Accepted"
  using take_front by (cases xs) fastforce+

end

sublocale ut_fifo \<subseteq> ut_live t rep
proof
  fix T q xs tid i v rc q' and d :: ds_kv
  show "case rc of Accepted \<Rightarrow> \<exists>ys. mset ys = add_mset \<lparr>key = t_key t tid i, val = v\<rparr> (mset xs) \<and>
         rep (insert (tid, i) T) q' ys
       | Again \<Rightarrow> rep T q' xs | Failed \<Rightarrow> rep (insert (tid, i) T) q' xs"
    if "rep T q xs" "tid < t_producers t" "i < t_items t" "(tid, i) \<notin> T" "t_try t tid i (t_key t tid i) v q = (rc, q')"
    using try_cases [OF that] by (cases rc) (auto intro!: exI [of _ "xs @ [\<lparr>key = t_key t tid i, val = v\<rparr>]"])
  show "case rc of Accepted \<Rightarrow> \<exists>ys. mset xs = add_mset d (mset ys) \<and> rep T q' ys
       | Again \<Rightarrow> rep T q' xs | Failed \<Rightarrow> False"
    if "rep T q xs" "t_take t q = (rc, d, q')"
    using take_cases [OF that] by (auto split: outcome.splits)
  show "t_producers t * t_items t < 2 ^ 64" using fits cap_small by simp
qed (fact examine_counters served try_room take_some | rule examine_counters try_room take_some; assumption)+

text \<open>With one producer and one consumer the elements of such a queue arrive in the order of the keys.\<close>

locale ut_fifo_ordered = ut_fifo +
  fixes clean :: "nat \<Rightarrow> u64 \<Rightarrow> ut_ctx \<Rightarrow> bool"
  assumes single: "t_producers t = 1" "t_consumers t = 1" and keys: "t_key t 0 i = of_nat (i + 1)"
    and clean_start: "clean 0 1 (us_ctx (usertest_start t q))"
    and clean_counters: "clean n e c \<Longrightarrow> clean n e (c\<lparr>ut_produced := m\<rparr>)" "clean n e c \<Longrightarrow> clean n e (c\<lparr>ut_consumed := m\<rparr>)"
    and clean_examine: "clean n e c \<Longrightarrow> key d = of_nat (n + 1) \<Longrightarrow> t_examine t d e c = (e', c') \<Longrightarrow>
      clean (Suc n) e' c'"
    and clean_status: "clean n e c \<Longrightarrow> ut_consumed c = ut_expected c \<Longrightarrow> ut_produced c = ut_expected c \<Longrightarrow>
      t_status t c = 0"

sublocale ut_fifo_ordered \<subseteq> ordered: ut_ordered t rep clean
proof
  fix T q xs tid i v rc q' and d :: ds_kv
  show "case rc of Accepted \<Rightarrow> rep (insert (tid, i) T) q' (xs @ [\<lparr>key = t_key t tid i, val = v\<rparr>])
       | Again \<Rightarrow> rep T q' xs | Failed \<Rightarrow> rep (insert (tid, i) T) q' xs"
    if "rep T q xs" "tid < t_producers t" "i < t_items t" "(tid, i) \<notin> T" "t_try t tid i (t_key t tid i) v q = (rc, q')"
    using try_cases [OF that] by (cases rc) simp_all
  show "case rc of Accepted \<Rightarrow> \<exists>ys. xs = d # ys \<and> rep T q' ys | Again \<Rightarrow> rep T q' xs | Failed \<Rightarrow> False"
    if "rep T q xs" "t_take t q = (rc, d, q')"
    by (rule take_cases [OF that])
  show "t_items t < 2 ^ 64" using fits cap_small single by simp
qed (fact single keys clean_start clean_counters | rule examine_counters clean_examine clean_status; assumption)+

context ut_fifo_ordered
begin

text \<open>What every schedule shows, and that the fair ones finish.\<close>

lemma ordered_test:
  assumes "rep {} q []" and "s = usertest_run t ts (usertest_start t q)"
  shows "(\<exists>ks. map key (us_consumed s) @ ks = map (\<lambda>i. of_nat (i + 1)) [0..<length (us_consumed s) + length ks]) \<and>
    (\<forall>st. usertest_main t True ts (DS_SUCCESS, q) = Some st \<longrightarrow>
       st = 0 \<and> us_consumed s = us_produced s \<and> map key (us_consumed s) = map (\<lambda>i. of_nat (i + 1)) [0..<t_items t]) \<and>
    (fair_schedule t (2 * Suc (ut_steps t)) ts \<longrightarrow> (\<exists>st. usertest_main t True ts (DS_SUCCESS, q) = Some st))"
  using ordered.main_in_order [OF assms] main_returns [OF assms(1)] by blast

end

end
