(* ===== verification/UserTestCases.thy ===== *)
theory UserTestCases
  imports UserTestLive
begin

unbundle bit_operations_syntax

text \<open>
  The six userspace tests keep the contracts of \<open>UserTestRuns\<close>: the bump allocator, then for
  each test the interpretation and what its exit status means.
\<close>

subsection \<open>The bump allocator\<close>

definition bump_round :: "u32 \<Rightarrow> nat" where
  "bump_round n = (unat n + 7) div 8 * 8"

lemma unat_bump_round: "unat ((ucast n + 8 - 1 :: u64) AND NOT (8 - 1)) = bump_round n"
proof -
  have n: "unat (ucast n :: u64) = unat n" "unat n < 2 ^ 32" "unat (8 :: u64) = 8"
    using unsigned_less [of n, where 'a = nat] by (simp_all add: unat_ucast_u64)
  then have "unat (ucast n :: u64) + unat (8 :: u64) \<le> 2 ^ 64" by (simp only:) simp
  from unat_align_up [OF pow2_word_8 this]
  have "unat ((ucast n + 8 - 1 :: u64) AND NOT (8 - 1)) = (unat n + 8 - 1) div 8 * 8" by (simp only: n)
  then show ?thesis by (simp add: bump_round_def)
qed

lemma bump_round_bounds: "unat n \<le> bump_round n" "bump_round n < 2 ^ 33"
proof -
  have "unat n < 4294967296" using unsigned_less [of n, where 'a = nat] by simp
  moreover have "(unat n + 7) div 8 * 8 + (unat n + 7) mod 8 = unat n + 7" by (rule div_mult_mod_eq)
  moreover have "(unat n + 7) mod 8 < 8" by simp
  ultimately have "unat n \<le> (unat n + 7) div 8 * 8" "(unat n + 7) div 8 * 8 < 8589934592" by linarith+
  then show "unat n \<le> bump_round n" "bump_round n < 2 ^ 33" by (simp_all add: bump_round_def)
qed

text \<open>How far the allocator has got, and what holds as long as its offset has not run far past the end.\<close>

definition bump_pos :: "usertest_arena \<Rightarrow> nat" where
  "bump_pos s = (if ut_ready s then unat (ut_off s) else 0)"

definition bump_ok :: "usertest_arena \<Rightarrow> bool" where
  "bump_ok s \<longleftrightarrow> ut_mem s \<noteq> NULL \<and> unat (ut_mem s) + 2 ^ 26 < 2 ^ 64 \<and> bump_pos s < 2 ^ 63 \<and>
     (ut_ready s \<longrightarrow> ut_base s = ut_mem s \<and> ut_bytes s = USERTEST_ARENA_BYTES)"

definition bump_used :: "usertest_arena \<Rightarrow> nat set" where
  "bump_used s = {unat (ut_mem s) ..< unat (ut_mem s) + bump_pos s}"

lemma usertest_init_fields:
  "ut_mem (usertest_arena_init_once s) = ut_mem s" "ut_ready (usertest_arena_init_once s)"
  "ut_base (usertest_arena_init_once s) = ut_mem s"
  "ut_bytes (usertest_arena_init_once s) = USERTEST_ARENA_BYTES" "ut_off (usertest_arena_init_once s) = 0"
  by (simp_all add: usertest_arena_init_once_def USERTEST_ARENA_BYTES_def Let_def)

lemma bump_alloc:
  assumes ok: "bump_ok s" and a: "usertest_arena_alloc n s = (p, s')"
  shows "ut_mem s' = ut_mem s \<and> ut_ready s' \<and> ut_base s' = ut_mem s \<and> ut_bytes s' = USERTEST_ARENA_BYTES \<and>
    bump_pos s' = bump_pos s + bump_round n \<and>
    p = (if bump_pos s + bump_round n > 2 ^ 26 then NULL else ut_mem s + of_nat (bump_pos s))"
proof -
  define u where "u = (if ut_ready s then s else usertest_arena_init_once s)"
  define m where "m = (ucast n + 8 - 1 :: u64) AND NOT (8 - 1)"
  have u: "ut_mem u = ut_mem s" "ut_ready u" "ut_base u = ut_mem s" "ut_bytes u = USERTEST_ARENA_BYTES"
    "unat (ut_off u) = bump_pos s"
    using ok by (auto simp: u_def bump_ok_def bump_pos_def usertest_init_fields)
  have m: "unat m = bump_round n" by (simp only: m_def unat_bump_round)
  have lt: "bump_pos s + bump_round n < 2 ^ 64" using ok bump_round_bounds(2) [of n] by (simp add: bump_ok_def)
  then have sum: "unat (ut_off u + m) = bump_pos s + bump_round n"
    using unat_plus_u64 [of "ut_off u" m] by (simp only: m u(5))
  have cmp: "ut_off u + m > ut_bytes u \<longleftrightarrow> bump_pos s + bump_round n > 2 ^ 26"
    by (simp add: u(4) word_less_nat_alt sum USERTEST_ARENA_BYTES_def)
  have "usertest_arena_alloc n s = (let v = u\<lparr>ut_off := ut_off u + m\<rparr> in
      if ut_off u + m > ut_bytes u then (NULL, v) else (ut_base u + ut_off u, v))"
    by (simp add: usertest_arena_alloc_def u_def m_def Let_def)
  then have "s' = u\<lparr>ut_off := ut_off u + m\<rparr>" "p = (if ut_off u + m > ut_bytes u then NULL else ut_base u + ut_off u)"
    using a by (auto simp: Let_def split: if_splits)
  moreover have "ut_off u = of_nat (bump_pos s)" by (simp flip: u(5))
  ultimately show ?thesis using u sum cmp by (simp add: bump_pos_def)
qed

text \<open>
  An allocator with the same results that stops for good at \<open>2 ^ 62\<close>: the real one keeps
  advancing its offset on failures and would start over after \<open>2 ^ 64\<close> bytes of requests.
\<close>

definition capped_alloc :: "usertest_arena allocator" where
  "capped_alloc n s = (if bump_pos s < 2 ^ 62 then usertest_arena_alloc n s else (NULL, s))"

lemma bump_capped_ok:
  assumes "bump_ok s" and "capped_alloc n s = (p, s')"
  shows "bump_ok s'" and "bump_used s \<subseteq> bump_used s'"
  using assms bump_alloc [OF assms(1), of n p s'] bump_round_bounds(2) [of n]
  by (auto simp: capped_alloc_def bump_ok_def bump_used_def split: if_splits)

lemma bump_capped_block:
  assumes "bump_ok s" and "capped_alloc n s = (p, s')" and "p \<noteq> NULL"
  shows "unat p = unat (ut_mem s) + bump_pos s" and "bump_pos s + unat n \<le> bump_pos s'"
    and "bump_pos s' \<le> 2 ^ 26" and "ut_mem s' = ut_mem s"
proof -
  have a: "usertest_arena_alloc n s = (p, s')" using assms(2,3) by (simp add: capped_alloc_def split: if_splits)
  note b = bump_alloc [OF assms(1) a] and r = bump_round_bounds(1) [of n]
  show le: "bump_pos s' \<le> 2 ^ 26" "ut_mem s' = ut_mem s" "bump_pos s + unat n \<le> bump_pos s'"
    using b r assms(3) by (auto split: if_splits)
  have "p = ut_mem s + of_nat (bump_pos s)" using b assms(3) by (auto split: if_splits)
  moreover have "bump_pos s \<le> 2 ^ 26" using le by simp
  then have pos: "unat (of_nat (bump_pos s) :: u64) = bump_pos s" by (simp add: unat_of_nat_u64)
  then have "unat (ut_mem s) + unat (of_nat (bump_pos s) :: u64) < 2 ^ 64"
    using assms(1) le by (simp add: bump_ok_def)
  ultimately show "unat p = unat (ut_mem s) + bump_pos s" using unat_plus_u64 pos by metis
qed

interpretation bump: freeing_allocator capped_alloc bump_ok bump_used usertest_arena_free
proof unfold_locales
  fix s n p s'
  assume a: "bump_ok s" "capped_alloc n s = (p, s')"
  show "bump_ok s'" "bump_used s \<subseteq> bump_used s'" by (rule bump_capped_ok [OF a])+
  assume "p \<noteq> NULL"
  note b = bump_capped_block [OF a this]
  show "block p n \<inter> bump_used s = {} \<and> block p n \<subseteq> bump_used s'"
    using b by (auto simp: block_def bump_used_def)
  show "unat p + unat n \<le> 2 ^ 64" using b a(1) by (simp add: bump_ok_def)
qed (simp_all add: usertest_arena_free_def)

lemma bump_fresh:
  assumes "mem \<noteq> NULL" and "unat mem + 2 ^ 26 < 2 ^ 64"
  shows "bump_ok (usertest_fresh mem)" and "bump_pos (usertest_fresh mem) = 0"
  using assms by (simp_all add: bump_ok_def bump_pos_def usertest_fresh_def)

lemma bump_first:
  assumes "mem \<noteq> NULL" and "unat mem + 2 ^ 26 < 2 ^ 64" and "bump_round n \<le> 2 ^ 26"
  shows "\<exists>s. usertest_arena_alloc n (usertest_fresh mem) = (mem, s) \<and> bump_ok s \<and> bump_pos s = bump_round n \<and>
    block mem n \<subseteq> bump_used s"
proof -
  obtain p s where a: "usertest_arena_alloc n (usertest_fresh mem) = (p, s)" by fastforce
  have c: "capped_alloc n (usertest_fresh mem) = (p, s)" using a by (simp add: capped_alloc_def bump_fresh [OF assms(1,2)])
  note b = bump_alloc [OF bump_fresh(1) [OF assms(1,2)] a]
  have "p = mem" using b assms(3) by (simp add: bump_fresh [OF assms(1,2)]) (simp add: usertest_fresh_def)
  then show ?thesis
    using a b bump.alloc_ok [OF bump_fresh(1) [OF assms(1,2)] c] bump.alloc_fresh [OF bump_fresh(1) [OF assms(1,2)] c] assms(1)
    by (simp add: bump_fresh [OF assms(1,2)])
qed

subsection \<open>The rings\<close>

lemma spsc_insert_size:
  "ds_spsc_insert_lkmm hp k v A = (r, A') \<Longrightarrow> spsc_size (kv_heads A' hp) = spsc_size (kv_heads A hp)"
  by (auto simp: ds_spsc_insert_lkmm_def Let_def split: if_splits)

lemma spsc_delete_size:
  "ds_spsc_delete_lkmm hp d A = (r, x, A') \<Longrightarrow> spsc_size (kv_heads A' hp) = spsc_size (kv_heads A hp)"
  by (auto simp: ds_spsc_delete_lkmm_def Let_def split: if_splits)

interpretation folly_test: ut_fifo_ordered "folly_usertest hp"
  "\<lambda>T q xs. spsc_queue hp q xs \<and> spsc_size (kv_heads q hp) = 64" 63 "\<lambda>n e c. True" for hp
proof
  fix T xs tid i v and x :: ds_kv and q :: "'a spsc_arena"
  let ?t = "folly_usertest hp :: 'a spsc_arena usertest" and ?k = "t_key (folly_usertest hp :: 'a spsc_arena usertest) tid i"
  show "\<exists>q'. t_try ?t tid i ?k v q = (Accepted, q') \<and> spsc_queue hp q' (xs @ [\<lparr>key = ?k, val = v\<rparr>]) \<and> spsc_size (kv_heads q' hp) = 64 \<or>
      63 \<le> length xs \<and> t_try ?t tid i ?k v q = (Again, q') \<and> spsc_queue hp q' xs \<and> spsc_size (kv_heads q' hp) = 64"
    if q: "spsc_queue hp q xs \<and> spsc_size (kv_heads q hp) = 64"
  proof (cases "length xs < 63")
    case True
    then obtain q' where i: "ds_spsc_insert_lkmm hp ?k v q = (DS_SUCCESS, q')" "spsc_queue hp q' (xs @ [\<lparr>key = ?k, val = v\<rparr>])"
      using q spsc_insert_room [of hp q xs "\<lparr>key = ?k, val = v\<rparr>"] spsc_room_iff [of hp q xs] by auto
    then show ?thesis using q True spsc_insert_size [OF i(1)] by (simp add: folly_usertest_def ds_variant Let_def)
  next
    case False
    then show ?thesis
      using q spsc_insert_full [of hp q xs] spsc_room_iff [of hp q xs] by (simp add: folly_usertest_def ds_variant Let_def)
  qed
  show "\<exists>d q'. t_take (folly_usertest hp) q = (Again, d, q') \<and> spsc_queue hp q' [] \<and> spsc_size (kv_heads q' hp) = 64"
    if "spsc_queue hp q [] \<and> spsc_size (kv_heads q hp) = 64"
    using that spsc_delete_empty [of hp q "Some zero_kv"] by (simp add: folly_usertest_def ds_variant Let_def)
  show "\<exists>q'. t_take (folly_usertest hp) q = (Accepted, x, q') \<and> spsc_queue hp q' xs \<and> spsc_size (kv_heads q' hp) = 64"
    if q: "spsc_queue hp q (x # xs) \<and> spsc_size (kv_heads q hp) = 64"
  proof -
    obtain q' where i: "ds_spsc_delete_lkmm hp (Some zero_kv) q = (DS_SUCCESS, Some x, q')" "spsc_queue hp q' xs"
      using q spsc_delete_front [of hp q x xs "Some zero_kv"] by auto
    then show ?thesis using q spsc_delete_size [OF i(1)] by (simp add: folly_usertest_def ds_variant Let_def)
  qed
qed (auto simp: folly_usertest_def)

text \<open>
  C26.  The Folly test (\<^verbatim>\<open>usertest_folly_spsc.c\<close>): initialisation succeeds on a fresh
  test arena; under every schedule of the two threads the consumer prints the keys in
  order without gaps; a main program that returns, returns 0 and the consumer has
  printed exactly what the producer printed, the keys 1, 2; and every schedule with 32
  rounds in which both threads run makes it return.
\<close>

theorem folly_usertest_passes:
  assumes "mem \<noteq> NULL" and "unat mem + 2 ^ 26 < 2 ^ 64" and "kv_alloc A = usertest_fresh mem"
  shows "\<exists>q. ds_spsc_init_c usertest_arena_alloc hp 64 A = (DS_SUCCESS, q) \<and>
    (let s = usertest_run (folly_usertest hp) ts (usertest_start (folly_usertest hp) q) in
     (\<exists>ks. map key (us_consumed s) @ ks = map (\<lambda>i. of_nat (i + 1)) [0..<length (us_consumed s) + length ks]) \<and>
     (\<forall>st. folly_usertest_main hp True ts A = Some st \<longrightarrow>
        st = 0 \<and> us_consumed s = us_produced s \<and> map key (us_consumed s) = [1, 2]) \<and>
     (fair_schedule (folly_usertest hp :: usertest_arena spsc_arena usertest) 32 ts \<longrightarrow>
        (\<exists>st. folly_usertest_main hp True ts A = Some st)))"
proof -
  let ?t = "folly_usertest hp :: usertest_arena spsc_arena usertest"
  obtain r q where i: "ds_spsc_init_c usertest_arena_alloc hp 64 A = (r, q)" by fastforce
  obtain al where a: "usertest_arena_alloc (kv_bytes 64) (kv_alloc A) = (mem, al)"
    using bump_first [OF assms(1,2), of "kv_bytes 64"] assms(3) by (auto simp: bump_round_def kv_bytes_def)
  have q: "r = DS_SUCCESS" "spsc_queue hp q [] \<and> spsc_size (kv_heads q hp) = 64"
    using spsc_init_branches [of USERSPACE usertest_arena_alloc hp 64 A r q, OF _ a] i assms(1)
    by (simp_all add: ds_spsc_init_def)
  have k: "map (\<lambda>i. of_nat (i + 1)) [0..<t_items ?t] = [1, 2 :: u64]" "2 * Suc (ut_steps ?t) = 32"
    by (simp_all add: folly_usertest_def ut_steps_def upt_rec)
  show ?thesis
    using folly_test.ordered_test [OF q(2) refl, of ts, unfolded k]
    unfolding folly_usertest_main_def Let_def i q(1) by blast
qed

theorem folly_usertest_passes_witness:
  "folly_usertest_main 0x1000 True (concat (replicate 32 [U_producer 0 7, U_consumer 0]))
     \<lparr>kv_heads = \<lambda>_. \<lparr>spsc_write_idx = 0, spsc_read_idx = 0, spsc_size = 0, spsc_records = NULL\<rparr>,
      kv_mem = \<lambda>_. zero_kv, kv_alloc = usertest_fresh 0x10000\<rparr> = Some 0"
proof -
  have "fair_schedule (folly_usertest 0x1000 :: usertest_arena spsc_arena usertest) 32
      (concat (replicate 32 [U_producer 0 7, U_consumer 0]))"
    by (rule fair_replicate) (simp add: full_round_def folly_usertest_def)
  then show ?thesis
    using folly_usertest_passes [of "0x10000" "\<lparr>kv_heads = \<lambda>_. \<lparr>spsc_write_idx = 0, spsc_read_idx = 0, spsc_size = 0,
        spsc_records = NULL\<rparr>, kv_mem = \<lambda>_. zero_kv, kv_alloc = usertest_fresh 0x10000\<rparr>" "0x1000"
        "concat (replicate 32 [U_producer 0 7, U_consumer 0])"]
    unfolding Let_def by fastforce
qed

lemma ckr_insert_c: "ds_ck_ring_spsc_insert_c = ds_ck_ring_spsc_insert_lkmm"
  by (intro ext) (simp add: ds_ck_ring_spsc_insert_c_def ds_ck_ring_spsc_insert_lkmm_def)

lemma ckr_insert_capacity:
  "ds_ck_ring_spsc_insert_lkmm hp k v A = (r, A') \<Longrightarrow> ckr_capacity (kv_heads A' hp) = ckr_capacity (kv_heads A hp)"
  by (auto simp: ds_ck_ring_spsc_insert_lkmm_def Let_def split: if_splits)

lemma ckr_delete_capacity:
  "ds_ck_ring_spsc_delete_lkmm hp d A = (r, x, A') \<Longrightarrow> ckr_capacity (kv_heads A' hp) = ckr_capacity (kv_heads A hp)"
  by (auto simp: ds_ck_ring_spsc_delete_lkmm_def Let_def split: if_splits)

interpretation ckr_test: ut_fifo_ordered "ckr_usertest hp"
  "\<lambda>T q xs. ckr_queue hp q xs \<and> ckr_capacity (kv_heads q hp) = 64" 63
  "\<lambda>n e c. e = of_nat (n + 1) \<and> ut_ordering_failures c = 0" for hp
proof
  fix T xs tid i v and x :: ds_kv and q :: "'a ckr_arena"
  let ?t = "ckr_usertest hp :: 'a ckr_arena usertest" and ?k = "t_key (ckr_usertest hp :: 'a ckr_arena usertest) tid i"
  show "\<exists>q'. t_try ?t tid i ?k v q = (Accepted, q') \<and> ckr_queue hp q' (xs @ [\<lparr>key = ?k, val = v\<rparr>]) \<and> ckr_capacity (kv_heads q' hp) = 64 \<or>
      63 \<le> length xs \<and> t_try ?t tid i ?k v q = (Again, q') \<and> ckr_queue hp q' xs \<and> ckr_capacity (kv_heads q' hp) = 64"
    if q: "ckr_queue hp q xs \<and> ckr_capacity (kv_heads q hp) = 64"
  proof (cases "length xs < 63")
    case True
    then obtain q' where i: "ds_ck_ring_spsc_insert_lkmm hp ?k v q = (DS_SUCCESS, q')"
      "ckr_queue hp q' (xs @ [\<lparr>key = ?k, val = v\<rparr>])"
      using q ckr_insert_room [of hp q xs "\<lparr>key = ?k, val = v\<rparr>"] ckr_room_iff [of hp q xs] by auto
    then show ?thesis using q True ckr_insert_capacity [OF i(1)] by (simp add: ckr_usertest_def ckr_insert_c Let_def)
  next
    case False
    then show ?thesis
      using q ckr_insert_full [of hp q xs] ckr_room_iff [of hp q xs] by (simp add: ckr_usertest_def ckr_insert_c Let_def)
  qed
  show "\<exists>d q'. t_take (ckr_usertest hp) q = (Again, d, q') \<and> ckr_queue hp q' [] \<and> ckr_capacity (kv_heads q' hp) = 64"
    if "ckr_queue hp q [] \<and> ckr_capacity (kv_heads q hp) = 64"
    using that ckr_delete_empty [of hp q "Some zero_kv"] by (simp add: ckr_usertest_def ds_variant Let_def)
  show "\<exists>q'. t_take (ckr_usertest hp) q = (Accepted, x, q') \<and> ckr_queue hp q' xs \<and> ckr_capacity (kv_heads q' hp) = 64"
    if q: "ckr_queue hp q (x # xs) \<and> ckr_capacity (kv_heads q hp) = 64"
  proof -
    obtain q' where i: "ds_ck_ring_spsc_delete_lkmm hp (Some zero_kv) q = (DS_SUCCESS, Some x, q')" "ckr_queue hp q' xs"
      using q ckr_delete_front [of hp q x xs "Some zero_kv"] by auto
    then show ?thesis using q ckr_delete_capacity [OF i(1)] by (simp add: ckr_usertest_def ds_variant Let_def)
  qed
qed (auto simp: ckr_usertest_def examine_order_def status_order_def usertest_start_def)

text \<open>
  The Concurrency Kit ring test (\<^verbatim>\<open>usertest_ck_ring_spsc.c\<close>), with its check of
  the order: initialisation succeeds, the consumer prints the keys in order under every
  schedule, a main program that returns, returns 0, and it returns under every schedule
  with 32 rounds in which both threads run.
\<close>

theorem ckr_usertest_passes:
  assumes "mem \<noteq> NULL" and "unat mem + 2 ^ 26 < 2 ^ 64" and "kv_alloc A = usertest_fresh mem" and "hp \<noteq> NULL"
  shows "\<exists>q. ds_ck_ring_spsc_init_c usertest_arena_alloc hp 64 A = (DS_SUCCESS, q) \<and>
    (let s = usertest_run (ckr_usertest hp) ts (usertest_start (ckr_usertest hp) q) in
     (\<exists>ks. map key (us_consumed s) @ ks = map (\<lambda>i. of_nat (i + 1)) [0..<length (us_consumed s) + length ks]) \<and>
     (\<forall>st. ckr_usertest_main hp True ts A = Some st \<longrightarrow>
        st = 0 \<and> us_consumed s = us_produced s \<and> map key (us_consumed s) = [1, 2]) \<and>
     (fair_schedule (ckr_usertest hp :: usertest_arena ckr_arena usertest) 32 ts \<longrightarrow>
        (\<exists>st. ckr_usertest_main hp True ts A = Some st)))"
proof -
  let ?t = "ckr_usertest hp :: usertest_arena ckr_arena usertest"
  obtain r q where i: "ds_ck_ring_spsc_init_c usertest_arena_alloc hp 64 A = (r, q)" by fastforce
  obtain al where a: "usertest_arena_alloc (kv_bytes 64) (kv_alloc A) = (mem, al)"
    using bump_first [OF assms(1,2), of "kv_bytes 64"] assms(3) by (auto simp: bump_round_def kv_bytes_def)
  have q: "r = DS_SUCCESS" "ckr_queue hp q [] \<and> ckr_capacity (kv_heads q hp) = 64"
    using ckr_init_branches [of USERSPACE usertest_arena_alloc hp 64 A r q, OF _ a] i assms(1,4)
    by (simp_all add: ds_ck_ring_spsc_init_def ds_ck_ring_spsc_is_power_of_two_def)
  have k: "map (\<lambda>i. of_nat (i + 1)) [0..<t_items ?t] = [1, 2 :: u64]" "2 * Suc (ut_steps ?t) = 32"
    by (simp_all add: ckr_usertest_def ut_steps_def upt_rec)
  show ?thesis
    using ckr_test.ordered_test [OF q(2) refl, of ts, unfolded k]
    unfolding ckr_usertest_main_def Let_def i q(1) by blast
qed

theorem ckr_usertest_passes_witness:
  "ckr_usertest_main 0x1000 True (concat (replicate 32 [U_consumer 0, U_producer 0 7]))
     \<lparr>kv_heads = \<lambda>_. \<lparr>ckr_capacity = 0, ckr_mask = 0, ckr_c_head = 0, ckr_p_tail = 0, ckr_slots = NULL\<rparr>,
      kv_mem = \<lambda>_. zero_kv, kv_alloc = usertest_fresh 0x10000\<rparr> = Some 0"
proof -
  have "fair_schedule (ckr_usertest 0x1000 :: usertest_arena ckr_arena usertest) 32
      (concat (replicate 32 [U_consumer 0, U_producer 0 7]))"
    by (rule fair_replicate) (simp add: full_round_def ckr_usertest_def)
  then show ?thesis
    using ckr_usertest_passes [of "0x10000" "\<lparr>kv_heads = \<lambda>_. \<lparr>ckr_capacity = 0, ckr_mask = 0, ckr_c_head = 0,
        ckr_p_tail = 0, ckr_slots = NULL\<rparr>, kv_mem = \<lambda>_. zero_kv, kv_alloc = usertest_fresh 0x10000\<rparr>" "0x1000"
        "concat (replicate 32 [U_consumer 0, U_producer 0 7])"]
    unfolding Let_def by fastforce
qed

subsection \<open>The Vyukov queue\<close>

lemma vy_insert_c: "ds_vyukhov_insert_c = ds_vyukhov_insert_lkmm"
  by (intro ext) (simp add: ds_vyukhov_insert_c_def ds_vyukhov_insert_lkmm_def)

lemma vy_pop_c: "ds_vyukhov_pop_c = ds_vyukhov_pop_lkmm"
  by (intro ext) (simp add: ds_vyukhov_pop_c_def ds_vyukhov_pop_lkmm_def)

lemma vy_insert_loop_mask:
  "vy_buffer_mask (vy_heads (snd (vy_insert_loop n hp pos msk k v A)) hp) = vy_buffer_mask (vy_heads A hp)"
  by (induction n hp pos msk k v A rule: vy_insert_loop.induct)
    (auto simp: Let_def arena_atomic_cmpxchg_def vy_set_head_def vy_set_cell_def)

lemma vy_insert_mask:
  "ds_vyukhov_insert_lkmm hp k v A = (r, A') \<Longrightarrow> vy_buffer_mask (vy_heads A' hp) = vy_buffer_mask (vy_heads A hp)"
  using vy_insert_loop_mask [of DS_VYUKHOV_MAX_RETRIES hp "vy_enqueue_pos (vy_heads A hp)" "vy_buffer_mask (vy_heads A hp)" k v A]
  by (auto simp: ds_vyukhov_insert_lkmm_def split: if_splits)

lemma vy_pop_loop_mask:
  "vy_buffer_mask (vy_heads (snd (snd (vy_pop_loop n hp pos msk d A))) hp) = vy_buffer_mask (vy_heads A hp)"
  by (induction n hp pos msk d A rule: vy_pop_loop.induct)
    (auto simp: Let_def arena_atomic_cmpxchg_def vy_set_head_def vy_set_cell_def)

lemma vy_pop_mask:
  "ds_vyukhov_pop_lkmm hp (Some d) A = (r, x, A') \<Longrightarrow> vy_buffer_mask (vy_heads A' hp) = vy_buffer_mask (vy_heads A hp)"
  using vy_pop_loop_mask [of DS_VYUKHOV_MAX_RETRIES hp "vy_dequeue_pos (vy_heads A hp)" "vy_buffer_mask (vy_heads A hp)" d A]
  by (auto simp: ds_vyukhov_pop_lkmm_def split: if_splits)

text \<open>The keys \<^verbatim>\<open>tid * 1000 + i + 1\<close> of small tests are different.\<close>

lemma test_key_unat:
  assumes "tid < 3" and "i < (10 :: nat)"
  shows "unat (of_nat tid * 1000 + of_nat (i + 1) :: u64) = tid * 1000 + i + 1"
proof -
  have "(of_nat tid * 1000 + of_nat (i + 1) :: u64) = of_nat (tid * 1000 + i + 1)" by simp
  moreover have "tid * 1000 + i + 1 < 2 ^ 64" using assms by simp
  ultimately show ?thesis by (simp only: unat_of_nat_u64)
qed

lemma test_keys_differ:
  assumes "m \<le> 3" and "n \<le> (10 :: nat)"
  shows "inj_on (\<lambda>(tid, i). of_nat tid * 1000 + of_nat (i + 1) :: u64) ({..<m} \<times> {..<n})"
proof (rule inj_onI)
  fix x y
  assume xy: "x \<in> {..<m} \<times> {..<n}" "y \<in> {..<m} \<times> {..<n}"
    "((\<lambda>(tid, i). of_nat tid * 1000 + of_nat (i + 1)) x :: u64) = (\<lambda>(tid, i). of_nat tid * 1000 + of_nat (i + 1)) y"
  obtain tid i tid' i' where p: "x = (tid, i)" "y = (tid', i')" by fastforce
  have b: "tid < 3" "tid' < 3" "i < 10" "i' < 10" using xy(1,2) p assms by auto
  have e: "tid * 1000 + i + 1 = tid' * 1000 + i' + 1"
    using arg_cong [OF xy(3), of unat] p b test_key_unat [of tid i] test_key_unat [of tid' i'] by simp
  then have "tid = tid'" using b(3,4) by (cases tid tid' rule: linorder_cases) linarith+
  then show "x = y" using e p by simp
qed

interpretation vy_fifo: ut_fifo "vy_usertest hp" "\<lambda>T q xs. vy_queue hp q xs \<and> vy_cap (vy_heads q hp) = 64" 64 for hp
proof
  fix T xs tid i v and x :: ds_kv and q :: "'a vy_arena"
  let ?t = "vy_usertest hp :: 'a vy_arena usertest" and ?k = "t_key (vy_usertest hp :: 'a vy_arena usertest) tid i"
  show "\<exists>q'. t_try ?t tid i ?k v q = (Accepted, q') \<and> vy_queue hp q' (xs @ [\<lparr>key = ?k, val = v\<rparr>]) \<and> vy_cap (vy_heads q' hp) = 64 \<or>
      64 \<le> length xs \<and> t_try ?t tid i ?k v q = (Again, q') \<and> vy_queue hp q' xs \<and> vy_cap (vy_heads q' hp) = 64"
    if q: "vy_queue hp q xs \<and> vy_cap (vy_heads q hp) = 64"
  proof (cases "length xs < 64")
    case True
    then obtain q' where i: "ds_vyukhov_insert_lkmm hp ?k v q = (DS_SUCCESS, q')" "vy_queue hp q' (xs @ [\<lparr>key = ?k, val = v\<rparr>])"
      using q vy_insert_room [of hp q xs "\<lparr>key = ?k, val = v\<rparr>"] vy_room_iff [of hp q xs] by auto
    then show ?thesis using q True vy_insert_mask [OF i(1)] by (simp add: vy_usertest_def vy_insert_c Let_def vy_cap_def)
  next
    case False
    then show ?thesis
      using q vy_insert_full [of hp q xs] vy_room_iff [of hp q xs] by (simp add: vy_usertest_def vy_insert_c Let_def)
  qed
  show "\<exists>d q'. t_take (vy_usertest hp) q = (Again, d, q') \<and> vy_queue hp q' [] \<and> vy_cap (vy_heads q' hp) = 64"
    if "vy_queue hp q [] \<and> vy_cap (vy_heads q hp) = 64"
    using that vy_pop_empty [of hp q zero_kv] by (simp add: vy_usertest_def vy_pop_c Let_def)
  show "\<exists>q'. t_take (vy_usertest hp) q = (Accepted, x, q') \<and> vy_queue hp q' xs \<and> vy_cap (vy_heads q' hp) = 64"
    if q: "vy_queue hp q (x # xs) \<and> vy_cap (vy_heads q hp) = 64"
  proof -
    obtain q' where i: "ds_vyukhov_pop_lkmm hp (Some zero_kv) q = (DS_SUCCESS, Some x, q')" "vy_queue hp q' xs"
      using q vy_pop_front [of hp q x xs zero_kv] by auto
    then show ?thesis using q vy_pop_mask [OF i(1)] by (simp add: vy_usertest_def vy_pop_c Let_def vy_cap_def)
  qed
qed (auto simp: vy_usertest_def)

interpretation vy_test: ut_counting "vy_usertest hp" "\<lambda>T q xs. vy_queue hp q xs \<and> vy_cap (vy_heads q hp) = 64"
  "\<lambda>ps c. True" for hp
  by unfold_locales (use test_keys_differ [of 2 2] in \<open>simp_all add: vy_usertest_def\<close>)

text \<open>
  The Vyukov test (\<^verbatim>\<open>usertest_vyukhov.c\<close>), two producers and two consumers:
  initialisation succeeds, a main program that returns, returns 0 with the consumers
  having printed together exactly what the producers printed, every key once, and it
  returns under every schedule with 62 rounds in which every thread runs.
\<close>

theorem vy_usertest_passes:
  assumes "mem \<noteq> NULL" and "unat mem + 2 ^ 26 < 2 ^ 64" and "vy_alloc A = usertest_fresh mem" and "hp \<noteq> NULL"
  shows "\<exists>q. ds_vyukhov_init_c usertest_arena_alloc hp 64 A = (DS_SUCCESS, q) \<and>
    (let s = usertest_run (vy_usertest hp) ts (usertest_start (vy_usertest hp) q) in
     (\<forall>st. vy_usertest_main hp True ts A = Some st \<longrightarrow>
        st = 0 \<and> mset (us_consumed s) = mset (us_produced s) \<and>
        image_mset key (mset (us_consumed s)) = {#1, 2, 1001, 1002#}) \<and>
     (fair_schedule (vy_usertest hp :: usertest_arena vy_arena usertest) 62 ts \<longrightarrow>
        (\<exists>st. vy_usertest_main hp True ts A = Some st)))"
proof -
  let ?t = "vy_usertest hp :: usertest_arena vy_arena usertest"
  obtain r q where i: "ds_vyukhov_init_c usertest_arena_alloc hp 64 A = (r, q)" by fastforce
  obtain al where a: "usertest_arena_alloc (vy_bytes 64) (vy_alloc A) = (mem, al)"
    using bump_first [OF assms(1,2), of "vy_bytes 64"] assms(3) by (auto simp: bump_round_def vy_bytes_def)
  have q: "r = DS_SUCCESS" "vy_queue hp q [] \<and> vy_cap (vy_heads q hp) = 64"
    using vy_init_branches [of USERSPACE usertest_arena_alloc hp 64 A r q, OF _ a] i assms(1,4)
    by (simp_all add: ds_vyukhov_init_def pow2_word_def)
  have k: "(\<Sum>tid<t_producers ?t. mset (map (t_key ?t tid) [0..<t_items ?t])) = {#1, 2, 1001, 1002#}"
    "2 * Suc (ut_steps ?t) = 62"
    by (simp_all add: vy_usertest_def ut_steps_def upt_rec numeral_2_eq_2 lessThan_Suc)
  show ?thesis
    using vy_test.main_passes [OF q(2) _ refl, of ts, unfolded k] vy_fifo.main_returns [OF q(2), of ts, unfolded k]
    unfolding vy_usertest_main_def Let_def i q(1) by blast
qed

theorem vy_usertest_passes_witness:
  "vy_usertest_main 0x1000 True (concat (replicate 62 [U_consumer 0, U_consumer 1, U_producer 1 7, U_producer 0 8]))
     \<lparr>vy_heads = \<lambda>_. \<lparr>vy_enqueue_pos = 0, vy_dequeue_pos = 0, vy_buffer_mask = 0, vy_buffer = NULL, vy_count = 0\<rparr>,
      vy_cells = \<lambda>_. \<lparr>vy_sequence = 0, vy_data = zero_kv\<rparr>, vy_alloc = usertest_fresh 0x10000\<rparr> = Some 0"
proof -
  let ?r = "[U_consumer 0, U_consumer 1, U_producer 1 7, U_producer 0 8]"
  have "fair_schedule (vy_usertest 0x1000 :: usertest_arena vy_arena usertest) 62 (concat (replicate 62 ?r))"
    by (rule fair_replicate) (auto simp: full_round_def vy_usertest_def numeral_2_eq_2 less_Suc_eq)
  then show ?thesis
    using vy_usertest_passes [of "0x10000" "\<lparr>vy_heads = \<lambda>_. \<lparr>vy_enqueue_pos = 0, vy_dequeue_pos = 0, vy_buffer_mask = 0,
        vy_buffer = NULL, vy_count = 0\<rparr>, vy_cells = \<lambda>_. \<lparr>vy_sequence = 0, vy_data = zero_kv\<rparr>,
        vy_alloc = usertest_fresh 0x10000\<rparr>" "0x1000" "concat (replicate 62 ?r)"]
    unfolding Let_def by fastforce
qed
end
