(* ===== verification/UserTestLinked.thy ===== *)
theory UserTestLinked
  imports UserTestCases
begin

text \<open>
  The userspace tests of the linked structures: the stack, whose entries lie in the
  context of the test, and the two queues that allocate their nodes.
\<close>

subsection \<open>The stack\<close>

lemma stack_entry_unat:
  assumes "unat ep + 576 \<le> 2 ^ 64" and "tid < 3" and "i < 8"
  shows "unat (stack_test_entry ep tid i) = unat ep + (tid * 8 + i) * 24"
proof -
  have "(tid * 8 + i) * 24 < 576" using assms(2,3) by simp
  then have "unat (of_nat ((tid * 8 + i) * 24) :: u64) = (tid * 8 + i) * 24" by (intro unat_of_nat_u64) simp
  then show ?thesis
    using assms(1) \<open>(tid * 8 + i) * 24 < 576\<close> unat_plus_u64 [of ep "of_nat ((tid * 8 + i) * 24)"]
    unfolding stack_test_entry_def by linarith
qed

lemma stack_entry_inj:
  assumes "unat ep + 576 \<le> 2 ^ 64" and "tid < 3" "i < 8" "tid' < 3" "i' < 8"
    and "stack_test_entry ep tid i = stack_test_entry ep tid' i'"
  shows "(tid, i) = (tid', i')"
proof -
  have "tid * 8 + i = tid' * 8 + i'"
    using arg_cong [OF assms(6), of unat] stack_entry_unat [OF assms(1)] assms(2-5) by simp
  moreover from this have "tid = tid'" using assms(3,5) by (cases tid tid' rule: linorder_cases) linarith+
  ultimately show ?thesis by simp
qed

text \<open>The entries on the stack are entries of the items that were pushed.\<close>

definition st_test_rep :: "ptr \<Rightarrow> ptr \<Rightarrow> (nat \<times> nat) set \<Rightarrow> 'a st_arena \<Rightarrow> ds_kv list \<Rightarrow> bool" where
  "st_test_rep ep hp T q xs \<longleftrightarrow> hp \<noteq> NULL \<and> ep \<noteq> NULL \<and> unat ep + 576 \<le> 2 ^ 64 \<and> T \<subseteq> {..<3} \<times> {..<8} \<and>
     (\<exists>es. seg (st_next \<circ> st_nodes q) (st_head (st_heads q hp)) es NULL \<and> xs = map (st_data \<circ> st_nodes q) es \<and>
        set es \<subseteq> (\<lambda>(tid, i). stack_test_entry ep tid i) ` T)"

lemma st_trypush_now:
  assumes "hp \<noteq> NULL" "entry \<noteq> NULL"
  shows "ds_ck_stack_upmc_trypush_upmc_c hp entry k v A =
    (True, st_set_head hp \<lparr>st_head = entry, st_count = st_count (st_heads A hp) + 1\<rparr>
      (st_set_node entry \<lparr>st_next = st_head (st_heads A hp), st_data = \<lparr>key = k, val = v\<rparr>\<rparr> A))"
  using assms
  by (cases "st_heads A hp"; cases "st_nodes A entry")
     (simp add: ds_ck_stack_upmc_trypush_upmc_c_def Let_def st_set_head_def st_set_node_def arena_atomic_cmpxchg_def)

lemma st_test_push:
  assumes r: "st_test_rep ep hp T q xs" and b: "tid < 3" "i < 8" and new: "(tid, i) \<notin> T"
  shows "\<exists>q'. t_try (st_usertest n ep hp) tid i k v q = (Accepted, q') \<and>
    st_test_rep ep hp (insert (tid, i) T) q' (\<lparr>key = k, val = v\<rparr> # xs)"
proof -
  obtain es where es: "seg (st_next \<circ> st_nodes q) (st_head (st_heads q hp)) es NULL"
    "xs = map (st_data \<circ> st_nodes q) es" "set es \<subseteq> (\<lambda>(tid, i). stack_test_entry ep tid i) ` T"
    and h: "hp \<noteq> NULL" "ep \<noteq> NULL" "unat ep + 576 \<le> 2 ^ 64" "T \<subseteq> {..<3} \<times> {..<8}"
    using r by (auto simp: st_test_rep_def)
  let ?e = "stack_test_entry ep tid i"
  have "0 < unat ?e" using stack_entry_unat [OF h(3) b] h(2) by (simp add: unat_gt_0)
  then have e: "?e \<noteq> NULL" by auto
  have "?e \<notin> (\<lambda>(tid, i). stack_test_entry ep tid i) ` T"
    using stack_entry_inj [OF h(3) b] h(4) new by fastforce
  then have f: "?e \<notin> set es" using es(3) by blast
  let ?q = "st_set_head hp \<lparr>st_head = ?e, st_count = st_count (st_heads q hp) + 1\<rparr>
      (st_set_node ?e \<lparr>st_next = st_head (st_heads q hp), st_data = \<lparr>key = k, val = v\<rparr>\<rparr> q)"
  have "st_test_rep ep hp (insert (tid, i) T) ?q (\<lparr>key = k, val = v\<rparr> # xs)"
    unfolding st_test_rep_def using h b es e f
    by (auto simp: st_set_head_def st_set_node_def intro!: exI [of _ "?e # es"])
  then show ?thesis by (simp add: st_usertest_def st_trypush_now [OF h(1) e])
qed

lemma st_test_pop:
  assumes r: "st_test_rep ep hp T q xs"
  shows "\<exists>q'. if xs = [] then t_take (st_usertest (Suc n) ep hp) q = (Again, zero_kv, q)
    else t_take (st_usertest (Suc n) ep hp) q = (Accepted, hd xs, q') \<and> st_test_rep ep hp T q' (tl xs)"
proof -
  obtain es where es: "seg (st_next \<circ> st_nodes q) (st_head (st_heads q hp)) es NULL"
    "xs = map (st_data \<circ> st_nodes q) es" "set es \<subseteq> (\<lambda>(tid, i). stack_test_entry ep tid i) ` T"
    and h: "hp \<noteq> NULL" "ep \<noteq> NULL" "unat ep + 576 \<le> 2 ^ 64" "T \<subseteq> {..<3} \<times> {..<8}"
    using r by (auto simp: st_test_rep_def)
  have p: "ds_ck_stack_upmc_pop_upmc_c (Suc n) hp q = (let h = st_heads q hp in
     if st_head h = NULL then (NULL, q)
     else (st_head h, st_set_head hp \<lparr>st_head = st_next (st_nodes q (st_head h)), st_count = st_count h - 1\<rparr> q))"
    using st_pop_now [OF h(1), of n q] by (simp add: ds_ck_stack_upmc_pop_upmc_c_def ds_ck_stack_upmc_pop_upmc_lkmm_def)
  show ?thesis
  proof (cases es)
    case Nil
    then show ?thesis using es(1,2) by (simp add: st_usertest_def p)
  next
    case (Cons e es')
    then have e: "st_head (st_heads q hp) = e" "e \<noteq> NULL" "seg (st_next \<circ> st_nodes q) (st_next (st_nodes q e)) es' NULL"
      using es(1) by auto
    let ?q = "st_set_head hp \<lparr>st_head = st_next (st_nodes q e), st_count = st_count (st_heads q hp) - 1\<rparr> q"
    have "st_test_rep ep hp T ?q (map (st_data \<circ> st_nodes q) es')"
      unfolding st_test_rep_def using h e es(3) Cons by (auto simp: st_set_head_def intro!: exI [of _ es'])
    then show ?thesis using e es(2) Cons by (auto simp: st_usertest_def p Let_def st_set_head_def)
  qed
qed

text \<open>The check for duplicates: nothing recorded, and only keys that were printed are marked as seen.\<close>

definition st_test_clean :: "ds_kv list \<Rightarrow> ut_ctx \<Rightarrow> bool" where
  "st_test_clean ps c \<longleftrightarrow> ut_duplicate_keys c = 0 \<and> ut_out_of_range_keys c = 0 \<and>
     (\<forall>n. ut_seen_keys c n \<noteq> 0 \<longrightarrow>
        (\<exists>tid<3. \<exists>i<8. n = tid * 8 + i \<and> of_nat tid * 1000 + of_nat (i + 1) \<in> key ` set ps))"

lemma test_key_parts:
  assumes "tid < 3" and "i < (8 :: nat)"
  defines "k \<equiv> of_nat tid * 1000 + of_nat (i + 1) :: u64"
  shows "unat (k div 1000) = tid" and "unat (k mod 1000) = i + 1"
    and "unat (k div 1000 * 8 + (k mod 1000 - 1)) = tid * 8 + i"
proof -
  have k: "unat k = tid * 1000 + i + 1" unfolding k_def using assms(1,2) by (intro test_key_unat) simp_all
  have m: "(tid * 1000 + i + 1) div 1000 = tid" "(tid * 1000 + i + 1) mod 1000 = i + 1"
    using assms(2) by simp_all
  show d: "unat (k div 1000) = tid" "unat (k mod 1000) = i + 1"
    using k m by (simp_all add: unat_div unat_mod)
  have "of_nat (unat (k div 1000)) = k div 1000" "of_nat (unat (k mod 1000)) = k mod 1000" by simp_all
  then have "k div 1000 = of_nat tid" "k mod 1000 = of_nat (i + 1)" by (simp_all only: d)
  then have "k div 1000 * 8 + (k mod 1000 - 1) = of_nat (tid * 8 + i)" by simp
  moreover have "tid * 8 + i < 2 ^ 64" using assms(1,2) by simp
  ultimately show "unat (k div 1000 * 8 + (k mod 1000 - 1)) = tid * 8 + i" by (simp only: unat_of_nat_u64)
qed

lemma examine_seen_clean:
  assumes c: "st_test_clean ps c" and b: "tid < 3" "i < 8" and k: "key d = of_nat tid * 1000 + of_nat (i + 1)"
    and new: "key d \<notin> key ` set ps" and ex: "examine_seen d e c = (e', c')"
  shows "st_test_clean (ps @ [d]) c'"
proof -
  note p = test_key_parts [OF b, folded k]
  have range: "\<not> (key d div 1000 \<ge> 3 \<or> key d mod 1000 = 0 \<or> key d mod 1000 > 8)"
  proof -
    have "key d mod 1000 \<noteq> 0" using p(2) by (metis add_is_0 one_neq_zero unsigned_0)
    moreover have "\<not> 3 \<le> key d div 1000" "\<not> 8 < key d mod 1000"
      using p(1,2) b by (simp_all add: word_le_nat_alt word_less_nat_alt)
    ultimately show ?thesis by blast
  qed
  have "tid' = tid \<and> i' = i" if "tid * 8 + i = tid' * 8 + i'" "i' < 8" for tid' i'
    using that b(2) by (cases tid tid' rule: linorder_cases) auto
  then have old: "ut_seen_keys c (tid * 8 + i) = 0" using c new k unfolding st_test_clean_def by metis
  have "c' = c\<lparr>ut_seen_keys := (ut_seen_keys c)(tid * 8 + i := 1)\<rparr>"
    using ex range old by (simp add: examine_seen_def Let_def p(3))
  then have c': "ut_duplicate_keys c' = 0" "ut_out_of_range_keys c' = 0" "ut_seen_keys c' = (ut_seen_keys c)(tid * 8 + i := 1)"
    using c by (simp_all add: st_test_clean_def)
  have "\<exists>tid'<3. \<exists>i'<8. n = tid' * 8 + i' \<and> of_nat tid' * 1000 + of_nat (i' + 1) \<in> key ` set (ps @ [d])"
    if "ut_seen_keys c' n \<noteq> 0" for n
  proof (cases "n = tid * 8 + i")
    case True
    moreover have "of_nat tid * 1000 + of_nat (i + 1) \<in> key ` set (ps @ [d])" using k by simp
    ultimately show ?thesis using b by blast
  next
    case False
    then have "ut_seen_keys c n \<noteq> 0" using that c'(3) by simp
    then obtain tid' i' where "tid' < 3" "i' < 8" "n = tid' * 8 + i'"
      "of_nat tid' * 1000 + of_nat (i' + 1) \<in> key ` set ps"
      using c unfolding st_test_clean_def by blast
    then show ?thesis by (metis UnI1 image_Un set_append)
  qed
  then show ?thesis using c'(1,2) unfolding st_test_clean_def by blast
qed

interpretation st_test: ut_counting "st_usertest (Suc n) ep hp" "st_test_rep ep hp" st_test_clean for n ep hp
proof
  fix T xs tid i v rc ps c e e' c' and d :: ds_kv and q q' :: "'a st_arena"
  let ?t = "st_usertest (Suc n) ep hp :: 'a st_arena usertest"
  have t: "t_producers ?t = 3" "t_items ?t = 8" by (simp_all add: st_usertest_def)
  show "case rc of Accepted \<Rightarrow> \<exists>ys. mset ys = add_mset \<lparr>key = t_key ?t tid i, val = v\<rparr> (mset xs) \<and>
         st_test_rep ep hp (insert (tid, i) T) q' ys
       | Again \<Rightarrow> st_test_rep ep hp T q' xs | Failed \<Rightarrow> st_test_rep ep hp (insert (tid, i) T) q' xs"
    if "st_test_rep ep hp T q xs" "tid < t_producers ?t" "i < t_items ?t" "(tid, i) \<notin> T"
      "t_try ?t tid i (t_key ?t tid i) v q = (rc, q')"
    using st_test_push [OF that(1) that(2,3) [unfolded t] that(4), of "Suc n" "t_key ?t tid i" v] that(5)
    by (auto intro!: exI [of _ "\<lparr>key = t_key ?t tid i, val = v\<rparr> # xs"])
  show "case rc of Accepted \<Rightarrow> \<exists>ys. mset xs = add_mset d (mset ys) \<and> st_test_rep ep hp T q' ys
       | Again \<Rightarrow> st_test_rep ep hp T q' xs | Failed \<Rightarrow> False"
    if "st_test_rep ep hp T q xs" "t_take ?t q = (rc, d, q')"
    using st_test_pop [OF that(1), of n] that by (cases xs) auto
  show "st_test_clean (ps @ [d]) c'"
    if "st_test_clean ps c" "tid < t_producers ?t" "i < t_items ?t" "key d = t_key ?t tid i"
      "key d \<notin> key ` set ps" "t_examine ?t d e c = (e', c')"
    using examine_seen_clean [OF that(1), of tid i d e e' c'] that by (simp add: st_usertest_def)
  show "inj_on (\<lambda>(tid, i). t_key ?t tid i) ({..<t_producers ?t} \<times> {..<t_items ?t})"
    using test_keys_differ [of 3 8] by (simp add: st_usertest_def)
  show "ut_produced c' = ut_produced c \<and> ut_consumed c' = ut_consumed c \<and> ut_expected c' = ut_expected c"
    if "t_examine ?t d e c = (e', c')"
    using that by (auto simp: st_usertest_def examine_seen_def Let_def split: if_splits)
qed (auto simp: st_usertest_def st_test_clean_def usertest_start_def)

interpretation st_test: ut_live "st_usertest (Suc n) ep hp" "st_test_rep ep hp" for n ep hp
proof
  fix T xs tid i v and q :: "'a st_arena"
  let ?t = "st_usertest (Suc n) ep hp :: 'a st_arena usertest"
  have t: "t_producers ?t = 3" "t_items ?t = 8" by (simp_all add: st_usertest_def)
  show "fst (t_try ?t tid i (t_key ?t tid i) v q) = Accepted"
    if "st_test_rep ep hp T q xs" "tid < t_producers ?t" "i < t_items ?t" "(tid, i) \<notin> T"
    using st_test_push [OF that(1) that(2,3) [unfolded t] that(4), of "Suc n" "t_key ?t tid i" v] by fastforce
  show "fst (t_take ?t q) = Accepted" if "st_test_rep ep hp T q xs" "xs \<noteq> []"
    using st_test_pop [OF that(1), of n] that by auto
qed (simp add: st_usertest_def)



subsection \<open>The Concurrency Kit fifo\<close>

text \<open>
  An insert asks the allocator at most once; while the bump allocator has not been asked
  for \<open>2 ^ 62\<close> bytes it answers like the capped one.
\<close>

lemma cf_recycle_alloc: "cf_alloc (snd (ds_ck_fifo_spsc_recycle_lkmm hp A)) = cf_alloc A"
  by (simp add: ds_ck_fifo_spsc_recycle_lkmm_def Let_def)

lemma cf_insert_allocs:
  "alloc cf_entry_bytes (cf_alloc A) = alloc' cf_entry_bytes (cf_alloc A) \<Longrightarrow>
   ds_ck_fifo_spsc_insert_lkmm alloc hp k v A = ds_ck_fifo_spsc_insert_lkmm alloc' hp k v A"
  using cf_recycle_alloc [of hp A] by (simp add: ds_ck_fifo_spsc_insert_lkmm_def Let_def split_def)

lemma cf_init_allocs:
  "alloc cf_entry_bytes (cf_alloc A) = alloc' cf_entry_bytes (cf_alloc A) \<Longrightarrow>
   ds_ck_fifo_spsc_init_lkmm alloc hp A = ds_ck_fifo_spsc_init_lkmm alloc' hp A"
  by (simp add: ds_ck_fifo_spsc_init_lkmm_def)

lemma cf_insert_alloc_state:
  assumes "ds_ck_fifo_spsc_insert_lkmm alloc hp k v A = (r, A')"
  shows "cf_alloc A' = cf_alloc A \<or> cf_alloc A' = snd (alloc cf_entry_bytes (cf_alloc A))"
  using assms cf_recycle_alloc [of hp A]
  by (auto simp: ds_ck_fifo_spsc_insert_lkmm_def ds_ck_fifo_spsc_enqueue_lkmm_def Let_def split_def split: if_splits)

lemma cf_delete_alloc:
  "ds_ck_fifo_spsc_delete_lkmm hp (Some d) A = (r, x, A') \<Longrightarrow> cf_alloc A' = cf_alloc A"
  by (auto simp: ds_ck_fifo_spsc_delete_lkmm_def ds_ck_fifo_spsc_dequeue_lkmm_def Let_def split: if_splits option.splits)

text \<open>Small requests at the start of the block succeed and advance it by the rounded size.\<close>

lemma bump_small:
  assumes ok: "bump_ok s" and small: "bump_pos s + bump_round n \<le> 2 ^ 26"
  shows "capped_alloc n s = usertest_arena_alloc n s" and "fst (capped_alloc n s) \<noteq> NULL"
    and "bump_pos (snd (capped_alloc n s)) = bump_pos s + bump_round n"
proof -
  show c: "capped_alloc n s = usertest_arena_alloc n s" using small by (simp add: capped_alloc_def)
  obtain p s' where a: "usertest_arena_alloc n s = (p, s')" by fastforce
  note b = bump_alloc [OF ok a]
  show "bump_pos (snd (capped_alloc n s)) = bump_pos s + bump_round n" using b by (simp add: c a)
  have p: "p = ut_mem s + of_nat (bump_pos s)" using b small by simp
  have m: "ut_mem s \<noteq> NULL" "unat (ut_mem s) + 2 ^ 26 < 2 ^ 64" using ok by (simp_all add: bump_ok_def)
  have "unat (of_nat (bump_pos s) :: u64) = bump_pos s" using small by (simp add: unat_of_nat_u64)
  then have "unat p = unat (ut_mem s) + bump_pos s"
    using unat_plus_u64 [of "ut_mem s" "of_nat (bump_pos s)"] m small p by simp
  then have "unat p \<noteq> 0" using m(1) by (simp add: unat_eq_zero)
  then show "fst (capped_alloc n s) \<noteq> NULL" by (auto simp: c a)
qed

text \<open>The tests use at most 64 bytes per item.\<close>

definition cf_test_rep :: "ptr \<Rightarrow> (nat \<times> nat) set \<Rightarrow> usertest_arena cf_arena \<Rightarrow> ds_kv list \<Rightarrow> bool" where
  "cf_test_rep hp T q xs \<longleftrightarrow> cf_queue bump_ok bump_used hp q xs \<and> T \<subseteq> {..<1} \<times> {..<8} \<and>
     bump_pos (cf_alloc q) \<le> (card T + 1) * 64"

lemma card_test_items:
  assumes "T \<subseteq> {..<m} \<times> {..<n}" and "x \<notin> T" and "x \<in> {..<m} \<times> {..<n}"
  shows "card (insert x T) = card T + 1" and "card T < m * n"
proof -
  have f: "finite T" using assms(1) finite_subset by blast
  then show "card (insert x T) = card T + 1" using assms(2) by simp
  moreover have "card (insert x T) \<le> card ({..<m} \<times> {..<n})" using assms(1,3) by (intro card_mono) auto
  ultimately show "card T < m * n" by simp
qed

lemma cf_test_insert:
  assumes r: "cf_test_rep hp T q xs" and b: "tid < 1" "i < 8" and new: "(tid, i) \<notin> T"
  shows "\<exists>q'. t_try (cf_usertest hp) tid i k v q = (Accepted, q') \<and>
    cf_test_rep hp (insert (tid, i) T) q' (xs @ [\<lparr>key = k, val = v\<rparr>])"
proof -
  have q: "cf_queue bump_ok bump_used hp q xs" and T: "T \<subseteq> {..<1} \<times> {..<8}"
    and p: "bump_pos (cf_alloc q) \<le> (card T + 1) * 64" using r by (simp_all add: cf_test_rep_def)
  have c: "card (insert (tid, i) T) = card T + 1" "card T < 8" using card_test_items [OF T new] b by simp_all
  have ok: "bump_ok (cf_alloc q)" using q by (simp add: cf_queue_def)
  have n: "bump_round cf_entry_bytes = 32" by (simp add: bump_round_def cf_entry_bytes_def)
  have "bump_pos (cf_alloc q) + bump_round cf_entry_bytes \<le> 2 ^ 26" using p c(2) by (simp add: n)
  note s = bump_small [OF ok this]
  have "cf_room capped_alloc hp q" using s(2) by (simp add: cf_room_def)
  then obtain q' where i: "ds_ck_fifo_spsc_insert_lkmm capped_alloc hp k v q = (DS_SUCCESS, q')"
    "cf_queue bump_ok bump_used hp q' (xs @ [\<lparr>key = k, val = v\<rparr>])"
    using bump.cf_insert_room [OF q, of "\<lparr>key = k, val = v\<rparr>"] by auto
  have "bump_pos (cf_alloc q') \<le> (card (insert (tid, i) T) + 1) * 64"
    using cf_insert_alloc_state [OF i(1)] s(3) p c by (auto simp: n)
  then have "cf_test_rep hp (insert (tid, i) T) q' (xs @ [\<lparr>key = k, val = v\<rparr>])"
    using i(2) T b by (simp add: cf_test_rep_def)
  moreover have "ds_ck_fifo_spsc_insert_lkmm usertest_arena_alloc hp k v q = (DS_SUCCESS, q')"
    using cf_insert_allocs [of capped_alloc q usertest_arena_alloc hp k v] s(1) i(1) by simp
  ultimately show ?thesis by (simp add: cf_usertest_def cf_insert_variants)
qed

interpretation cf_test: ut_fifo_ordered "cf_usertest hp" "cf_test_rep hp" 8
  "\<lambda>n e c. e = of_nat (n + 1) \<and> ut_ordering_failures c = 0" for hp
proof
  fix T q xs tid i v and x :: ds_kv
  let ?t = "cf_usertest hp"
  show "\<exists>q'. t_try ?t tid i (t_key ?t tid i) v q = (Accepted, q') \<and>
        cf_test_rep hp (insert (tid, i) T) q' (xs @ [\<lparr>key = t_key ?t tid i, val = v\<rparr>]) \<or>
      8 \<le> length xs \<and> t_try ?t tid i (t_key ?t tid i) v q = (Again, q') \<and> cf_test_rep hp T q' xs"
    if "cf_test_rep hp T q xs" "tid < t_producers ?t" "i < t_items ?t" "(tid, i) \<notin> T"
    using cf_test_insert [OF that(1) _ _ that(4)] that(2,3) by (fastforce simp: cf_usertest_def)
  show "\<exists>d q'. t_take ?t q = (Again, d, q') \<and> cf_test_rep hp T q' []" if "cf_test_rep hp T q []"
    using that cf_delete_empty [of bump_ok bump_used hp q "Some zero_kv"]
    by (simp add: cf_usertest_def cf_delete_variants cf_test_rep_def)
  show "\<exists>q'. t_take ?t q = (Accepted, x, q') \<and> cf_test_rep hp T q' xs" if r: "cf_test_rep hp T q (x # xs)"
  proof -
    obtain q' where d: "ds_ck_fifo_spsc_delete_lkmm hp (Some zero_kv) q = (DS_SUCCESS, Some x, q')"
      "cf_queue bump_ok bump_used hp q' xs"
      using r cf_delete_front [of bump_ok bump_used hp q x xs "Some zero_kv"] by (auto simp: cf_test_rep_def)
    then show ?thesis
      using r cf_delete_alloc [OF d(1)] by (simp add: cf_usertest_def cf_delete_variants cf_test_rep_def)
  qed
qed (auto simp: cf_usertest_def examine_order_def status_order_def usertest_start_def)

text \<open>
  C25.  The Concurrency Kit fifo test (\<^verbatim>\<open>usertest_ck_fifo_spsc.c\<close>), with its check of
  the order: every insert finds memory or an entry to recycle, the consumer prints the
  keys in order under every schedule, a main program that returns, returns 0 after all
  eight keys, and it returns under every schedule with 104 rounds in which both threads
  run.
\<close>

theorem cf_usertest_passes:
  assumes "mem \<noteq> NULL" and "unat mem + 2 ^ 26 < 2 ^ 64" and "cf_alloc A = usertest_fresh mem" and "hp \<noteq> NULL"
  shows "\<exists>q. ds_ck_fifo_spsc_init_c usertest_arena_alloc hp A = (DS_SUCCESS, q) \<and>
    (let s = usertest_run (cf_usertest hp) ts (usertest_start (cf_usertest hp) q) in
     (\<exists>ks. map key (us_consumed s) @ ks = map (\<lambda>i. of_nat (i + 1)) [0..<length (us_consumed s) + length ks]) \<and>
     (\<forall>st. cf_usertest_main hp True ts A = Some st \<longrightarrow>
        st = 0 \<and> us_consumed s = us_produced s \<and> map key (us_consumed s) = [1, 2, 3, 4, 5, 6, 7, 8]) \<and>
     (fair_schedule (cf_usertest hp) 104 ts \<longrightarrow> (\<exists>st. cf_usertest_main hp True ts A = Some st)))"
proof -
  note fresh = bump_fresh [OF assms(1,2)]
  have n: "bump_round cf_entry_bytes = 32" by (simp add: bump_round_def cf_entry_bytes_def)
  have "bump_ok (cf_alloc A)" "bump_pos (cf_alloc A) = 0" using fresh assms(3) by simp_all
  note s = bump_small [OF this(1), of cf_entry_bytes, unfolded this(2) n, simplified]
  obtain q where q: "ds_ck_fifo_spsc_init_lkmm capped_alloc hp A = (DS_SUCCESS, q)" "cf_queue bump_ok bump_used hp q []"
    using bump.cf_init_success [OF assms(4), of A] fresh assms(3) s(2) by (metis prod.collapse)
  have i: "ds_ck_fifo_spsc_init_c usertest_arena_alloc hp A = (DS_SUCCESS, q)"
    using cf_init_allocs [of capped_alloc A usertest_arena_alloc hp] q(1) s(1) by (simp add: cf_init_variants)
  have "cf_alloc q = snd (capped_alloc cf_entry_bytes (cf_alloc A))"
    using q(1) assms(4) by (auto simp: ds_ck_fifo_spsc_init_lkmm_def ds_ck_fifo_spsc_fifo_init_lkmm_def Let_def split_def
        split: if_splits)
  then have r: "cf_test_rep hp {} q []" using q(2) s(3) by (simp add: cf_test_rep_def)
  have k: "map (\<lambda>i. of_nat (i + 1)) [0..<t_items (cf_usertest hp)] = [1, 2, 3, 4, 5, 6, 7, 8 :: u64]"
    "2 * Suc (ut_steps (cf_usertest hp)) = 104"
    by (simp_all add: cf_usertest_def ut_steps_def upt_rec)
  show ?thesis
    using cf_test.ordered_test [OF r refl, of ts, unfolded k]
    unfolding cf_usertest_main_def Let_def i by blast
qed

theorem cf_usertest_passes_witness:
  "cf_usertest_main 0x1000 True (concat (replicate 104 [U_consumer 0, U_producer 0 7]))
     \<lparr>cf_heads = \<lambda>_. \<lparr>cf_head = NULL, cf_tail = NULL, cf_head_snapshot = NULL, cf_garbage = NULL\<rparr>,
      cf_nodes = \<lambda>_. \<lparr>cf_value = NULL, cf_next = NULL, cf_kv = zero_kv\<rparr>, cf_alloc = usertest_fresh 0x10000\<rparr> = Some 0"
proof -
  have "fair_schedule (cf_usertest 0x1000) 104 (concat (replicate 104 [U_consumer 0, U_producer 0 7]))"
    by (rule fair_replicate) (simp add: full_round_def cf_usertest_def)
  then show ?thesis
    using cf_usertest_passes [of "0x10000" "\<lparr>cf_heads = \<lambda>_. \<lparr>cf_head = NULL, cf_tail = NULL, cf_head_snapshot = NULL,
        cf_garbage = NULL\<rparr>, cf_nodes = \<lambda>_. \<lparr>cf_value = NULL, cf_next = NULL, cf_kv = zero_kv\<rparr>,
        cf_alloc = usertest_fresh 0x10000\<rparr>" "0x1000" "concat (replicate 104 [U_consumer 0, U_producer 0 7])"]
    unfolding Let_def by fastforce
qed

subsection \<open>The Michael-Scott queue\<close>

lemma ms_add_loop_alloc: "ms_alloc (snd (ms_add_loop n e hp A)) = ms_alloc A"
  by (induction n arbitrary: A) (simp_all add: ms_add_loop.simps(2) Let_def split_def)

lemma ms_add_node_alloc: "ms_alloc (snd (msqueue_add_node_lkmm e hp A)) = ms_alloc A"
  using ms_add_loop_alloc [of ms_max_retries e hp A]
  by (auto simp: msqueue_add_node_lkmm_def Let_def split_def split: option.splits prod.splits)

lemma ms_insert_allocs:
  "alloc ms_elem_bytes (ms_alloc A) = alloc' ms_elem_bytes (ms_alloc A) \<Longrightarrow>
   ds_msqueue_insert_lkmm alloc free hp k v A = ds_msqueue_insert_lkmm alloc' free hp k v A"
  by (simp add: ds_msqueue_insert_lkmm_def)

lemma ms_init_allocs:
  "alloc ms_elem_bytes (ms_alloc A) = alloc' ms_elem_bytes (ms_alloc A) \<Longrightarrow>
   ds_msqueue_init_lkmm alloc hp A = ds_msqueue_init_lkmm alloc' hp A"
  by (simp add: ds_msqueue_init_lkmm_def)

lemma ms_insert_alloc_state:
  assumes "ds_msqueue_insert_lkmm alloc free hp k v A = (DS_SUCCESS, A')" and "hp \<noteq> NULL"
  shows "ms_alloc A' = snd (alloc ms_elem_bytes (ms_alloc A))"
proof -
  obtain p al where a: "alloc ms_elem_bytes (ms_alloc A) = (p, al)" by fastforce
  define B where "B = ms_set_node p ((ms_nodes A p)\<lparr>ms_data := \<lparr>key = k, val = v\<rparr>, ms_next := NULL\<rparr>) (A\<lparr>ms_alloc := al\<rparr>)"
  obtain r C where C: "msqueue_add_node_lkmm p hp B = (r, C)" by fastforce
  have "ms_alloc C = al" using ms_add_node_alloc [of p hp B] C by (simp add: B_def)
  then show ?thesis
    using assms a C by (auto simp: ds_msqueue_insert_lkmm_def Let_def B_def split: if_splits)
qed

lemma ms_pop_loop_alloc: "ms_alloc (snd (snd (ms_pop_loop_c n usertest_arena_free hp d A))) = ms_alloc A"
  by (induction n arbitrary: d A) (simp_all add: ms_pop_loop_c.simps(2) Let_def split_def usertest_arena_free_def)

lemma ms_pop_alloc:
  "ds_msqueue_pop_c usertest_arena_free hp (Some d) A = (r, x, A') \<Longrightarrow> ms_alloc A' = ms_alloc A"
  using ms_pop_loop_alloc [of ms_max_retries hp d A]
  by (auto simp: ds_msqueue_pop_c_def Let_def split_def split: if_splits)

definition ms_test_rep :: "ptr \<Rightarrow> (nat \<times> nat) set \<Rightarrow> usertest_arena ms_arena \<Rightarrow> ds_kv list \<Rightarrow> bool" where
  "ms_test_rep hp T q xs \<longleftrightarrow> ms_queue bump_ok bump_used hp q xs \<and> T \<subseteq> {..<2} \<times> {..<10} \<and>
     bump_pos (ms_alloc q) \<le> (card T + 1) * 64"

lemma ms_test_insert:
  assumes r: "ms_test_rep hp T q xs" and b: "tid < 2" "i < 10" and new: "(tid, i) \<notin> T"
  shows "\<exists>q'. t_try (ms_usertest hp) tid i k v q = (Accepted, q') \<and>
    ms_test_rep hp (insert (tid, i) T) q' (xs @ [\<lparr>key = k, val = v\<rparr>])"
proof -
  have q: "ms_queue bump_ok bump_used hp q xs" and T: "T \<subseteq> {..<2} \<times> {..<10}"
    and p: "bump_pos (ms_alloc q) \<le> (card T + 1) * 64" using r by (simp_all add: ms_test_rep_def)
  have c: "card (insert (tid, i) T) = card T + 1" "card T < 20" using card_test_items [OF T new] b by simp_all
  have ok: "bump_ok (ms_alloc q)" and hp: "hp \<noteq> NULL" using q by (simp_all add: ms_queue_def)
  have n: "bump_round ms_elem_bytes = 24" by (simp add: bump_round_def ms_elem_bytes_def)
  have "bump_pos (ms_alloc q) + bump_round ms_elem_bytes \<le> 2 ^ 26" using p c(2) by (simp add: n)
  note s = bump_small [OF ok this]
  have "ms_room capped_alloc q" using s(2) by (simp add: ms_room_def)
  then obtain q' where i: "ds_msqueue_insert_lkmm capped_alloc usertest_arena_free hp k v q = (DS_SUCCESS, q')"
    "ms_queue bump_ok bump_used hp q' (xs @ [\<lparr>key = k, val = v\<rparr>])"
    using bump.ms_insert_room [OF q, of usertest_arena_free "\<lparr>key = k, val = v\<rparr>"] by auto
  have "bump_pos (ms_alloc q') \<le> (card (insert (tid, i) T) + 1) * 64"
    using ms_insert_alloc_state [OF i(1) hp] s(3) p c by (auto simp: n)
  then have "ms_test_rep hp (insert (tid, i) T) q' (xs @ [\<lparr>key = k, val = v\<rparr>])"
    using i(2) T b by (simp add: ms_test_rep_def)
  moreover have "ds_msqueue_insert_lkmm usertest_arena_alloc usertest_arena_free hp k v q = (DS_SUCCESS, q')"
    using ms_insert_allocs [of capped_alloc q usertest_arena_alloc usertest_arena_free hp k v] s(1) i(1) by simp
  ultimately show ?thesis by (simp add: ms_usertest_def ms_insert_variants)
qed

interpretation ms_fifo: ut_fifo "ms_usertest hp" "ms_test_rep hp" 20 for hp
proof
  fix T q xs tid i v and x :: ds_kv
  let ?t = "ms_usertest hp"
  show "\<exists>q'. t_try ?t tid i (t_key ?t tid i) v q = (Accepted, q') \<and>
        ms_test_rep hp (insert (tid, i) T) q' (xs @ [\<lparr>key = t_key ?t tid i, val = v\<rparr>]) \<or>
      20 \<le> length xs \<and> t_try ?t tid i (t_key ?t tid i) v q = (Again, q') \<and> ms_test_rep hp T q' xs"
    if "ms_test_rep hp T q xs" "tid < t_producers ?t" "i < t_items ?t" "(tid, i) \<notin> T"
    using ms_test_insert [OF that(1) _ _ that(4)] that(2,3) by (fastforce simp: ms_usertest_def)
  have pop: "ds_msqueue_pop_c = ds_msqueue_pop USERSPACE" by (intro ext) (simp add: ds_msqueue_pop_def)
  show "\<exists>d q'. t_take ?t q = (Again, d, q') \<and> ms_test_rep hp T q' []" if "ms_test_rep hp T q []"
    using that ms_pop_empty [of bump_ok bump_used hp q USERSPACE usertest_arena_free zero_kv]
    by (simp add: ms_usertest_def pop ms_test_rep_def)
  show "\<exists>q'. t_take ?t q = (Accepted, x, q') \<and> ms_test_rep hp T q' xs" if r: "ms_test_rep hp T q (x # xs)"
  proof -
    obtain q' where d: "ds_msqueue_pop_c usertest_arena_free hp (Some zero_kv) q = (DS_SUCCESS, Some x, q')"
      "ms_queue bump_ok bump_used hp q' xs"
      using r bump.ms_pop_front [of hp q x xs USERSPACE zero_kv] by (auto simp: ms_test_rep_def pop)
    then show ?thesis using r ms_pop_alloc [OF d(1)] by (simp add: ms_usertest_def ms_test_rep_def)
  qed
qed (auto simp: ms_usertest_def)

interpretation ms_test: ut_counting "ms_usertest hp" "ms_test_rep hp" "\<lambda>ps c. True" for hp
  by unfold_locales (use test_keys_differ [of 2 10] in \<open>simp_all add: ms_usertest_def\<close>)



end
