(* ===== verification/RoundTrips.thy ===== *)
theory RoundTrips
  imports UserTestCases IoUring Kcov
begin

text \<open>
  Round trips through the structures of fixed size: whatever list of elements fits is
  accepted element by element and comes back in order (in reverse order from the kcov
  buffer).  The contracts of \<open>LaneContracts\<close> say that nothing is lost; here it is counted
  how much an empty structure takes.
\<close>

subsection \<open>Structures with a capacity\<close>

locale sized_lane =
  fixes ins :: "ds_kv \<Rightarrow> 's \<Rightarrow> int \<times> 's" and pop :: "'s \<Rightarrow> int \<times> ds_kv option \<times> 's"
    and rep :: "'s \<Rightarrow> ds_kv list \<Rightarrow> bool" and cap :: "'s \<Rightarrow> nat" and put :: "ds_kv \<Rightarrow> ds_kv list \<Rightarrow> ds_kv list"
  assumes ins_fits: "rep s xs \<Longrightarrow> length xs < cap s \<Longrightarrow>
      \<exists>s'. ins x s = (DS_SUCCESS, s') \<and> rep s' (put x xs) \<and> cap s' = cap s"
    and pop_some: "rep s (x # xs) \<Longrightarrow> \<exists>s'. pop s = (DS_SUCCESS, Some x, s') \<and> rep s' xs"
    and put_length: "length (put x xs) = Suc (length xs)"
begin

lemma fill:
  "rep s xs \<Longrightarrow> length xs + length ys \<le> cap s \<Longrightarrow>
   \<exists>s'. lane_run ins pop (map LInsert ys @ ops) s =
     (map (\<lambda>y. EvIns y DS_SUCCESS) ys @ fst (lane_run ins pop ops s'), snd (lane_run ins pop ops s')) \<and>
     rep s' (fold put ys xs)"
proof (induction ys arbitrary: s xs)
  case (Cons y ys)
  then obtain s1 where s1: "ins y s = (DS_SUCCESS, s1)" "rep s1 (put y xs)" "cap s1 = cap s"
    using ins_fits [of s xs y] by auto
  have "length (put y xs) + length ys \<le> cap s1" using Cons.prems(2) s1(3) put_length by simp
  from Cons.IH [OF s1(2) this] s1(1) show ?case by auto
qed auto

lemma drain:
  "rep s xs \<Longrightarrow>
   \<exists>s'. lane_run ins pop (replicate (length xs) LPop) s = (map (\<lambda>x. EvPop DS_SUCCESS (Some x)) xs, s') \<and> rep s' []"
proof (induction xs arbitrary: s)
  case (Cons x xs)
  then obtain s1 where s1: "pop s = (DS_SUCCESS, Some x, s1)" "rep s1 xs" using pop_some by blast
  from Cons.IH [OF s1(2)] s1(1) show ?case by auto
qed auto

lemma fold_put_length: "length (fold put ys xs) = length ys + length xs"
  by (induction ys arbitrary: xs) (simp_all add: put_length)

lemma round_trip:
  assumes "rep s []" and "length ys \<le> cap s"
  shows "\<exists>s'. lane_run ins pop (map LInsert ys @ replicate (length ys) LPop) s =
      (map (\<lambda>y. EvIns y DS_SUCCESS) ys @ map (\<lambda>x. EvPop DS_SUCCESS (Some x)) (fold put ys []), s') \<and> rep s' []"
proof -
  obtain s1 where s1: "lane_run ins pop (map LInsert ys @ replicate (length ys) LPop) s =
      (map (\<lambda>y. EvIns y DS_SUCCESS) ys @ fst (lane_run ins pop (replicate (length ys) LPop) s1),
       snd (lane_run ins pop (replicate (length ys) LPop) s1))" "rep s1 (fold put ys [])"
    using fill [of s "[]" ys "replicate (length ys) LPop"] assms by auto
  from drain [OF s1(2)] s1(1) show ?thesis by (auto simp: fold_put_length)
qed

end

lemma fold_queue: "fold (\<lambda>x xs. xs @ [x]) ys xs = xs @ ys"
  by (induction ys arbitrary: xs) simp_all

lemma fold_stack: "fold (#) ys xs = rev ys @ xs"
  by (induction ys arbitrary: xs) simp_all

subsection \<open>The instances\<close>

interpretation spsc_sized: sized_lane "\<lambda>x. ds_spsc_insert pr hp (key x) (val x)" "ds_spsc_pop co hp (Some d)"
  "spsc_queue hp" "\<lambda>A. unat (spsc_size (kv_heads A hp)) - 1" "\<lambda>x xs. xs @ [x]" for pr co :: side and hp d
proof
  fix A :: "'a spsc_arena" and xs and x :: ds_kv
  show "\<exists>A'. ds_spsc_insert pr hp (key x) (val x) A = (DS_SUCCESS, A') \<and> spsc_queue hp A' (xs @ [x]) \<and>
      unat (spsc_size (kv_heads A' hp)) - 1 = unat (spsc_size (kv_heads A hp)) - 1"
    if "spsc_queue hp A xs" "length xs < unat (spsc_size (kv_heads A hp)) - 1"
    using spsc_insert_room [OF that(1), of x] spsc_room_iff [OF that(1)] that(2) spsc_insert_size
    unfolding ds_variant by (metis less_diff_conv)
  show "\<exists>A'. ds_spsc_pop co hp (Some d) A = (DS_SUCCESS, Some x, A') \<and> spsc_queue hp A' xs"
    if "spsc_queue hp A (x # xs)"
    using spsc_delete_front [OF that, of "Some d"] by (simp add: ds_variant)
qed simp

interpretation ckr_sized: sized_lane "\<lambda>x. ds_ck_ring_spsc_insert pr hp (key x) (val x)" "ds_ck_ring_spsc_pop co hp (Some d)"
  "ckr_queue hp" "\<lambda>A. unat (ckr_capacity (kv_heads A hp)) - 1" "\<lambda>x xs. xs @ [x]" for pr co :: side and hp d
proof
  fix A :: "'a ckr_arena" and xs and x :: ds_kv
  show "\<exists>A'. ds_ck_ring_spsc_insert pr hp (key x) (val x) A = (DS_SUCCESS, A') \<and> ckr_queue hp A' (xs @ [x]) \<and>
      unat (ckr_capacity (kv_heads A' hp)) - 1 = unat (ckr_capacity (kv_heads A hp)) - 1"
    if "ckr_queue hp A xs" "length xs < unat (ckr_capacity (kv_heads A hp)) - 1"
    using ckr_insert_room [OF that(1), of x] ckr_room_iff [OF that(1)] that(2) ckr_insert_capacity
    unfolding ds_variant by (metis less_diff_conv)
  show "\<exists>A'. ds_ck_ring_spsc_pop co hp (Some d) A = (DS_SUCCESS, Some x, A') \<and> ckr_queue hp A' xs"
    if "ckr_queue hp A (x # xs)"
    using ckr_delete_front [OF that, of "Some d"] by (simp add: ds_variant)
qed simp

lemma iou_insert_entries:
  "ds_io_uring_insert_lkmm hp k v A = (r, A') \<Longrightarrow> iou_ring_entries (kv_heads A' hp) = iou_ring_entries (kv_heads A hp)"
  by (auto simp: ds_io_uring_insert_lkmm_def Let_def split: if_splits)

interpretation iou_sized: sized_lane "\<lambda>x. ds_io_uring_insert pr hp (key x) (val x)" "ds_io_uring_pop co hp (Some d)"
  "iou_queue hp" "\<lambda>A. unat (iou_ring_entries (kv_heads A hp))" "\<lambda>x xs. xs @ [x]" for pr co :: side and hp d
proof
  fix A :: "'a iou_arena" and xs and x :: ds_kv
  show "\<exists>A'. ds_io_uring_insert pr hp (key x) (val x) A = (DS_SUCCESS, A') \<and> iou_queue hp A' (xs @ [x]) \<and>
      unat (iou_ring_entries (kv_heads A' hp)) = unat (iou_ring_entries (kv_heads A hp))"
    if q: "iou_queue hp A xs" "length xs < unat (iou_ring_entries (kv_heads A hp))"
  proof -
    have "iou_room hp A" using iou_queue_length [OF q(1)] q(2) by (simp add: iou_room_def word_less_nat_alt)
    from iou_insert_room [OF q(1) this, of x] iou_insert_entries show ?thesis unfolding ds_variant by metis
  qed
  show "\<exists>A'. ds_io_uring_pop co hp (Some d) A = (DS_SUCCESS, Some x, A') \<and> iou_queue hp A' xs"
    if "iou_queue hp A (x # xs)"
    using iou_pop_front [OF that, of "Some d"] by (simp add: ds_variant)
qed simp

interpretation vy_sized: sized_lane "\<lambda>x. ds_vyukhov_insert pr hp (key x) (val x)" "ds_vyukhov_pop co hp (Some d)"
  "vy_queue hp" "\<lambda>A. vy_cap (vy_heads A hp)" "\<lambda>x xs. xs @ [x]" for pr co :: side and hp d
proof
  fix A :: "'a vy_arena" and xs and x :: ds_kv
  show "\<exists>A'. ds_vyukhov_insert pr hp (key x) (val x) A = (DS_SUCCESS, A') \<and> vy_queue hp A' (xs @ [x]) \<and>
      vy_cap (vy_heads A' hp) = vy_cap (vy_heads A hp)"
    if "vy_queue hp A xs" "length xs < vy_cap (vy_heads A hp)"
    using vy_insert_room [OF that(1), of x] vy_room_iff [OF that(1)] that(2) vy_insert_mask
    unfolding ds_variant vy_cap_def by metis
  show "\<exists>A'. ds_vyukhov_pop co hp (Some d) A = (DS_SUCCESS, Some x, A') \<and> vy_queue hp A' xs"
    if "vy_queue hp A (x # xs)"
    using vy_pop_front [OF that, of d] by (simp add: ds_variant)
qed simp

lemma kc_insert_size:
  "ds_kcov_insert_lkmm hp k v A = (r, A') \<Longrightarrow> kc_size (kc_heads A' hp) = kc_size (kc_heads A hp)"
  by (auto simp: ds_kcov_insert_lkmm_def kc_set_word_def Let_def split: if_splits)

interpretation kc_sized: sized_lane "\<lambda>x. ds_kcov_insert pr hp (key x) (val x)" "ds_kcov_pop co hp (Some d)"
  "kc_stack hp" "\<lambda>A. (unat (kc_size (kc_heads A hp)) - 1) div 2" "(#)" for pr co :: side and hp d
proof
  fix A :: "'a kc_arena" and xs and x :: ds_kv
  show "\<exists>A'. ds_kcov_insert pr hp (key x) (val x) A = (DS_SUCCESS, A') \<and> kc_stack hp A' (x # xs) \<and>
      (unat (kc_size (kc_heads A' hp)) - 1) div 2 = (unat (kc_size (kc_heads A hp)) - 1) div 2"
    if q: "kc_stack hp A xs" "length xs < (unat (kc_size (kc_heads A hp)) - 1) div 2"
  proof -
    have "kc_room hp A" using kc_room_iff [OF q(1)] q(2) by linarith
    from kc_insert_room [OF q(1) this, of x] kc_insert_size show ?thesis unfolding ds_variant by metis
  qed
  show "\<exists>A'. ds_kcov_pop co hp (Some d) A = (DS_SUCCESS, Some x, A') \<and> kc_stack hp A' xs"
    if "kc_stack hp A (x # xs)"
    using kc_pop_top [OF that, of "Some d"] by (auto simp: ds_variant)
qed simp

subsection \<open>The property\<close>

definition round_trip_ops :: "ds_kv list \<Rightarrow> lane_op list" where
  "round_trip_ops ys = map LInsert ys @ replicate (length ys) LPop"

definition round_trip_events :: "ds_kv list \<Rightarrow> ds_kv list \<Rightarrow> lane_event list" where
  "round_trip_events ys zs = map (\<lambda>y. EvIns y DS_SUCCESS) ys @ map (\<lambda>x. EvPop DS_SUCCESS (Some x)) zs"

text \<open>
  C27.  Round trips: an empty Folly ring, Concurrency Kit ring, io_uring-style ring,
  Vyukov queue or kcov buffer accepts any list of elements up to its capacity (one slot of
  the first two rings stays unused, a kcov entry takes two words after the counter), as
  many pops give exactly these elements back, in order (from the kcov buffer in reverse
  order), and the structure is empty again.
\<close>

theorem sized_round_trips:
  shows "(spsc_queue hp A [] \<and> length ys < unat (spsc_size (kv_heads A hp)) \<longrightarrow>
      (\<exists>A'. lane_run (\<lambda>x. ds_spsc_insert pr hp (key x) (val x)) (ds_spsc_pop co hp (Some d)) (round_trip_ops ys) A =
        (round_trip_events ys ys, A') \<and> spsc_queue hp A' [])) \<and>
    (ckr_queue hp B [] \<and> length ys < unat (ckr_capacity (kv_heads B hp)) \<longrightarrow>
      (\<exists>B'. lane_run (\<lambda>x. ds_ck_ring_spsc_insert pr hp (key x) (val x)) (ds_ck_ring_spsc_pop co hp (Some d))
        (round_trip_ops ys) B = (round_trip_events ys ys, B') \<and> ckr_queue hp B' [])) \<and>
    (iou_queue hp C [] \<and> length ys \<le> unat (iou_ring_entries (kv_heads C hp)) \<longrightarrow>
      (\<exists>C'. lane_run (\<lambda>x. ds_io_uring_insert pr hp (key x) (val x)) (ds_io_uring_pop co hp (Some d)) (round_trip_ops ys) C =
        (round_trip_events ys ys, C') \<and> iou_queue hp C' [])) \<and>
    (vy_queue hp D [] \<and> length ys \<le> vy_cap (vy_heads D hp) \<longrightarrow>
      (\<exists>D'. lane_run (\<lambda>x. ds_vyukhov_insert pr hp (key x) (val x)) (ds_vyukhov_pop co hp (Some d)) (round_trip_ops ys) D =
        (round_trip_events ys ys, D') \<and> vy_queue hp D' [])) \<and>
    (kc_stack hp E [] \<and> 1 + 2 * length ys \<le> unat (kc_size (kc_heads E hp)) \<longrightarrow>
      (\<exists>E'. lane_run (\<lambda>x. ds_kcov_insert pr hp (key x) (val x)) (ds_kcov_pop co hp (Some d)) (round_trip_ops ys) E =
        (round_trip_events ys (rev ys), E') \<and> kc_stack hp E' []))"
proof -
  have a: "length ys \<le> unat (spsc_size (kv_heads A hp)) - 1" if "length ys < unat (spsc_size (kv_heads A hp))"
    using that by linarith
  have b: "length ys \<le> unat (ckr_capacity (kv_heads B hp)) - 1" if "length ys < unat (ckr_capacity (kv_heads B hp))"
    using that by linarith
  have e: "length ys \<le> (unat (kc_size (kc_heads E hp)) - 1) div 2" if "1 + 2 * length ys \<le> unat (kc_size (kc_heads E hp))"
    using that by linarith
  note trips = spsc_sized.round_trip [OF _ a, of pr co d] ckr_sized.round_trip [OF _ b, of pr co d]
    iou_sized.round_trip [of hp C ys pr co d] vy_sized.round_trip [of hp D ys pr co d]
    kc_sized.round_trip [OF _ e, of pr co d]
  show ?thesis
    unfolding round_trip_ops_def round_trip_events_def
    using trips [unfolded fold_queue fold_stack append_Nil append_Nil2] by blast
qed

theorem sized_round_trips_witness:
  "(\<exists>A'. lane_run (\<lambda>x. ds_spsc_insert BPF 0x1000 (key x) (val x)) (ds_spsc_pop USERSPACE 0x1000 (Some zero_kv))
      [LInsert \<lparr>key = 1, val = 10\<rparr>, LPop] (spsc_demo ()) =
      ([EvIns \<lparr>key = 1, val = 10\<rparr> DS_SUCCESS, EvPop DS_SUCCESS (Some \<lparr>key = 1, val = 10\<rparr>)], A')) \<and>
   (\<exists>E'. lane_run (\<lambda>x. ds_kcov_insert BPF 0x1000 (key x) (val x)) (ds_kcov_pop USERSPACE 0x1000 (Some zero_kv))
      [LInsert \<lparr>key = 1, val = 10\<rparr>, LPop] (kc_demo ()) =
      ([EvIns \<lparr>key = 1, val = 10\<rparr> DS_SUCCESS, EvPop DS_SUCCESS (Some \<lparr>key = 1, val = 10\<rparr>)], E'))"
proof -
  let ?ys = "[\<lparr>key = 1, val = 10\<rparr>]"
  have "length ?ys < unat (spsc_size (kv_heads (spsc_demo ()) 0x1000))" "1 + 2 * length ?ys \<le> unat (kc_size (kc_heads (kc_demo ()) 0x1000))"
    by (simp_all add: spsc_demo_def kc_demo_def)
  with sized_round_trips [of "0x1000" "spsc_demo ()" ?ys BPF USERSPACE zero_kv "ckr_demo ()" "iou_demo ()" "vy_demo ()" "kc_demo ()"]
  show ?thesis
    using spsc_demo_queue [of "()"] kc_demo_stack [of "()"] by (auto simp: round_trip_ops_def round_trip_events_def)
qed

end
