(* ===== verification/StackThreads.thy ===== *)
theory StackThreads
  imports CkStackUpmc Totals
begin

text \<open>
  The Concurrency Kit stack with any number of threads at work at once.  Push
  (\<^verbatim>\<open>ds_ck_stack_upmc_push_upmc\<close>) and pop (\<^verbatim>\<open>ds_ck_stack_upmc_pop\<close>) are cut into steps that
  make one access to the shared arena each, and a schedule interleaves the steps of the
  threads in any order, on sequentially consistent memory.
\<close>

subsection \<open>One access at a time\<close>

text \<open>
  Where a thread is.  In a push of an entry with its element: about to store the key, the
  value, to load the head, to link the entry to the head last seen, to exchange, to count.
  In a pop: about to load the head, the next pointer of the head last seen, to exchange, to
  count, to copy key and value of the entry taken.
\<close>

datatype st_pc =
    S_idle
  | S_key ptr ds_kv
  | S_val ptr ds_kv
  | S_load ptr ds_kv
  | S_link ptr ds_kv ptr
  | S_cas ptr ds_kv ptr
  | S_count
  | S_phead
  | S_pnext ptr
  | S_pcas ptr ptr
  | S_pcount ptr
  | S_pkey ptr
  | S_pval ptr u64

text \<open>What a step shows: an exchange that succeeded or failed, a stack found empty (also by an
  exchange that failed, \<open>N_lost\<close>), an element returned.\<close>

datatype st_note = N_none | N_push ds_kv | N_pop ds_kv | N_empty | N_failed | N_lost | N_got ds_kv

definition st_push_call :: "ptr \<Rightarrow> ptr \<Rightarrow> ds_kv \<Rightarrow> st_pc" where
  "st_push_call hp entry x = (if hp = NULL \<or> entry = NULL then S_idle else S_key entry x)"

definition st_pop_call :: "ptr \<Rightarrow> st_pc" where
  "st_pop_call hp = (if hp = NULL then S_idle else S_phead)"

text \<open>The loop test of pop.\<close>

definition st_pop_test :: "ptr \<Rightarrow> st_pc \<times> st_note" where
  "st_pop_test head = (if head \<noteq> NULL then (S_pnext head, N_none) else (S_idle, N_empty))"

fun st_step :: "ptr \<Rightarrow> st_pc \<Rightarrow> 'a st_arena \<Rightarrow> st_pc \<times> st_note \<times> 'a st_arena" where
  "st_step hp S_idle A = (S_idle, N_none, A)"
| "st_step hp (S_key entry x) A =
     (S_val entry x, N_none,
      st_set_node entry ((st_nodes A entry)\<lparr>st_data := (st_data (st_nodes A entry))\<lparr>key := key x\<rparr>\<rparr>) A)"
| "st_step hp (S_val entry x) A =
     (S_load entry x, N_none,
      st_set_node entry ((st_nodes A entry)\<lparr>st_data := (st_data (st_nodes A entry))\<lparr>val := val x\<rparr>\<rparr>) A)"
| "st_step hp (S_load entry x) A = (S_link entry x (st_head (st_heads A hp)), N_none, A)"
| "st_step hp (S_link entry x head) A =
     (S_cas entry x head, N_none, st_set_node entry ((st_nodes A entry)\<lparr>st_next := head\<rparr>) A)"
| "st_step hp (S_cas entry x head) A =
     (let (observed, new_head) = arena_atomic_cmpxchg (st_head (st_heads A hp)) head entry;
          A = st_set_head hp ((st_heads A hp)\<lparr>st_head := new_head\<rparr>) A in
      if observed = head then (S_count, N_push x, A) else (S_link entry x observed, N_failed, A))"
| "st_step hp S_count A =
     (S_idle, N_none, st_set_head hp ((st_heads A hp)\<lparr>st_count := st_count (st_heads A hp) + 1\<rparr>) A)"
| "st_step hp S_phead A = (let (pc, ev) = st_pop_test (st_head (st_heads A hp)) in (pc, ev, A))"
| "st_step hp (S_pnext head) A = (S_pcas head (st_next (st_nodes A head)), N_none, A)"
| "st_step hp (S_pcas head next) A =
     (let (observed, new_head) = arena_atomic_cmpxchg (st_head (st_heads A hp)) head next;
          A = st_set_head hp ((st_heads A hp)\<lparr>st_head := new_head\<rparr>) A in
      if observed = head then (S_pcount head, N_pop (st_data (st_nodes A head)), A)
      else (let (pc, ev) = st_pop_test observed in (pc, if ev = N_empty then N_lost else N_failed, A)))"
| "st_step hp (S_pcount head) A =
     (S_pkey head, N_none, st_set_head hp ((st_heads A hp)\<lparr>st_count := st_count (st_heads A hp) - 1\<rparr>) A)"
| "st_step hp (S_pkey head) A = (S_pval head (key (st_data (st_nodes A head))), N_none, A)"
| "st_step hp (S_pval head k) A = (S_idle, N_got \<lparr>key = k, val = val (st_data (st_nodes A head))\<rparr>, A)"

subsection \<open>Threads\<close>

text \<open>
  The system: the arena, where each thread is, the entries that pushes were called with so
  far, the exchanges that succeeded as a history of stack operations, the number of those
  that failed, and the elements that pops returned.
\<close>

record 'a st_sys =
  sy_arena :: "'a st_arena"
  sy_pcs :: "st_pc list"
  sy_used :: "ptr set"
  sy_lin :: "lane_event list"
  sy_fails :: nat
  sy_got :: "ds_kv list"

datatype st_act = A_push nat ptr ds_kv | A_pop nat | A_step nat

text \<open>What a note adds to the three records.\<close>

fun note_lin :: "st_note \<Rightarrow> lane_event list" where
  "note_lin (N_push x) = [EvIns x DS_SUCCESS]"
| "note_lin (N_pop x) = [EvPop DS_SUCCESS (Some x)]"
| "note_lin N_empty = [EvPop DS_ERROR_NOT_FOUND None]"
| "note_lin N_lost = [EvPop DS_ERROR_NOT_FOUND None]"
| "note_lin _ = []"

fun note_fails :: "st_note \<Rightarrow> nat" where
  "note_fails N_failed = 1"
| "note_fails N_lost = 1"
| "note_fails _ = 0"

fun note_got :: "st_note \<Rightarrow> ds_kv list" where
  "note_got (N_got x) = [x]"
| "note_got _ = []"

text \<open>
  An idle thread may call push with an entry that was not used before, or pop; any thread
  may make a step.  Other turns do nothing.
\<close>

fun st_turn :: "ptr \<Rightarrow> st_act \<Rightarrow> 'a st_sys \<Rightarrow> 'a st_sys" where
  "st_turn hp (A_push i entry x) s =
     (if i < length (sy_pcs s) \<and> sy_pcs s ! i = S_idle \<and> entry \<notin> sy_used s
      then s\<lparr>sy_pcs := (sy_pcs s)[i := st_push_call hp entry x], sy_used := insert entry (sy_used s)\<rparr>
      else s)"
| "st_turn hp (A_pop i) s =
     (if i < length (sy_pcs s) \<and> sy_pcs s ! i = S_idle
      then s\<lparr>sy_pcs := (sy_pcs s)[i := st_pop_call hp]\<rparr> else s)"
| "st_turn hp (A_step i) s =
     (if i < length (sy_pcs s) then
        let (pc, ev, A) = st_step hp (sy_pcs s ! i) (sy_arena s) in
        s\<lparr>sy_arena := A, sy_pcs := (sy_pcs s)[i := pc], sy_lin := sy_lin s @ note_lin ev,
          sy_fails := sy_fails s + note_fails ev, sy_got := sy_got s @ note_got ev\<rparr>
      else s)"

definition st_threads :: "ptr \<Rightarrow> st_act list \<Rightarrow> 'a st_sys \<Rightarrow> 'a st_sys" where
  "st_threads hp acts s = fold (st_turn hp) acts s"

definition st_sys_start :: "nat \<Rightarrow> 'a st_arena \<Rightarrow> 'a st_sys" where
  "st_sys_start n A = \<lparr>sy_arena = A, sy_pcs = replicate n S_idle, sy_used = {}, sy_lin = [], sy_fails = 0, sy_got = []\<rparr>"

subsection \<open>The invariant\<close>

text \<open>The entry a thread is pushing; what a thread knows, with \<open>L\<close> the entries that were linked so far.\<close>

fun pc_entry :: "st_pc \<Rightarrow> ptr option" where
  "pc_entry (S_key e x) = Some e"
| "pc_entry (S_val e x) = Some e"
| "pc_entry (S_load e x) = Some e"
| "pc_entry (S_link e x h) = Some e"
| "pc_entry (S_cas e x h) = Some e"
| "pc_entry _ = None"

fun st_local :: "ptr set \<Rightarrow> (ptr \<Rightarrow> ds_ck_stack_upmc_entry) \<Rightarrow> st_pc \<Rightarrow> bool" where
  "st_local L m (S_val e x) \<longleftrightarrow> key (st_data (m e)) = key x"
| "st_local L m (S_load e x) \<longleftrightarrow> st_data (m e) = x"
| "st_local L m (S_link e x h) \<longleftrightarrow> st_data (m e) = x"
| "st_local L m (S_cas e x h) \<longleftrightarrow> st_data (m e) = x \<and> st_next (m e) = h"
| "st_local L m (S_pnext h) \<longleftrightarrow> h \<in> L"
| "st_local L m (S_pcas h n) \<longleftrightarrow> h \<in> L \<and> st_next (m h) = n"
| "st_local L m (S_pcount h) \<longleftrightarrow> h \<in> L"
| "st_local L m (S_pkey h) \<longleftrightarrow> h \<in> L"
| "st_local L m (S_pval h k) \<longleftrightarrow> h \<in> L \<and> k = key (st_data (m h))"
| "st_local L m _ \<longleftrightarrow> True"

text \<open>The elements taken and not yet returned; the counter updates that are still to come.\<close>

fun pc_taken :: "(ptr \<Rightarrow> ds_ck_stack_upmc_entry) \<Rightarrow> st_pc \<Rightarrow> ds_kv multiset" where
  "pc_taken m (S_pcount h) = {#st_data (m h)#}"
| "pc_taken m (S_pkey h) = {#st_data (m h)#}"
| "pc_taken m (S_pval h k) = {#st_data (m h)#}"
| "pc_taken m _ = {#}"

fun pc_plus :: "st_pc \<Rightarrow> u64" where
  "pc_plus S_count = 1"
| "pc_plus (S_pcount h) = - 1"
| "pc_plus _ = 0"

definition st_inv :: "ptr \<Rightarrow> 'a st_sys \<Rightarrow> ptr set \<Rightarrow> ptr list \<Rightarrow> bool" where
  "st_inv hp s L es \<longleftrightarrow>
     (let m = st_nodes (sy_arena s); h = st_heads (sy_arena s) hp in
      seg (st_next \<circ> m) (st_head h) es NULL \<and> set es \<subseteq> L \<and> L \<subseteq> sy_used s \<and> NULL \<notin> L \<and>
      stack_replay [] (sy_lin s) = Some (map (st_data \<circ> m) es) \<and>
      (\<forall>i < length (sy_pcs s). st_local L m (sy_pcs s ! i)) \<and>
      (\<forall>i < length (sy_pcs s). \<forall>e. pc_entry (sy_pcs s ! i) = Some e \<longrightarrow> e \<in> sy_used s - L - {NULL}) \<and>
      (\<forall>i < length (sy_pcs s). \<forall>j < length (sy_pcs s). \<forall>e. i \<noteq> j \<longrightarrow>
         pc_entry (sy_pcs s ! i) = Some e \<longrightarrow> pc_entry (sy_pcs s ! j) \<noteq> Some e) \<and>
      st_count h + tot (\<lambda>_. pc_plus) (sy_pcs s) = of_nat (length es) \<and>
      mset (sy_got s) + tot (\<lambda>_. pc_taken m) (sy_pcs s) = mset (delivered (sy_lin s)))"

lemma st_invD:
  assumes "st_inv hp s L es"
  shows "seg (st_next \<circ> st_nodes (sy_arena s)) (st_head (st_heads (sy_arena s) hp)) es NULL"
    and "set es \<subseteq> L" and "L \<subseteq> sy_used s" and "NULL \<notin> L"
    and "stack_replay [] (sy_lin s) = Some (map (st_data \<circ> st_nodes (sy_arena s)) es)"
    and "i < length (sy_pcs s) \<Longrightarrow> st_local L (st_nodes (sy_arena s)) (sy_pcs s ! i)"
    and "i < length (sy_pcs s) \<Longrightarrow> pc_entry (sy_pcs s ! i) = Some e \<Longrightarrow> e \<in> sy_used s - L - {NULL}"
    and "i < length (sy_pcs s) \<Longrightarrow> j < length (sy_pcs s) \<Longrightarrow> i \<noteq> j \<Longrightarrow> pc_entry (sy_pcs s ! i) = Some e \<Longrightarrow>
      pc_entry (sy_pcs s ! j) \<noteq> Some e"
    and "st_count (st_heads (sy_arena s) hp) + tot (\<lambda>_. pc_plus) (sy_pcs s) = of_nat (length es)"
    and "mset (sy_got s) + tot (\<lambda>_. pc_taken (st_nodes (sy_arena s))) (sy_pcs s) = mset (delivered (sy_lin s))"
  using assms unfolding st_inv_def Let_def by blast+

text \<open>What a thread knows does not change when the nodes it knows about do not.\<close>

lemma st_local_frame:
  assumes "st_local L m pc" and "\<And>a. a \<in> L \<Longrightarrow> m' a = m a" and "\<And>e. pc_entry pc = Some e \<Longrightarrow> m' e = m e" and "L \<subseteq> L'"
  shows "st_local L' m' pc" and "pc_taken m' pc = pc_taken m pc"
  using assms by (cases pc; auto)+

text \<open>Replaying one more event.\<close>

lemma stack_replay_snoc:
  "stack_replay xs (evs @ [ev]) = (case stack_replay xs evs of None \<Rightarrow> None | Some ys \<Rightarrow> stack_replay ys [ev])"
  by (simp only: stack_replay_is_lane_replay lane_replay_append)

text \<open>
  A turn of thread \<open>i\<close>: it changes at most the node it pushes, the head, and adds to the
  linked entries at most that node.
\<close>

lemma st_inv_turn:
  assumes inv: "st_inv hp s L es" and i: "i < length (sy_pcs s)"
    and node: "\<And>a. pc_entry (sy_pcs s ! i) \<noteq> Some a \<Longrightarrow> st_nodes A a = st_nodes (sy_arena s) a"
    and chain: "seg (st_next \<circ> st_nodes A) (st_head (st_heads A hp)) es' NULL" "set es' \<subseteq> L'"
    and linked: "L \<subseteq> L'" "L' \<subseteq> L \<union> set_option (pc_entry (sy_pcs s ! i))"
    and lin: "stack_replay [] lin = Some (map (st_data \<circ> st_nodes A) es')"
    and pc: "st_local L' (st_nodes A) pc" "\<And>e. pc_entry pc = Some e \<Longrightarrow> pc_entry (sy_pcs s ! i) = Some e \<and> e \<notin> L'"
    and plus: "st_count (st_heads A hp) + pc_plus pc - of_nat (length es') =
      st_count (st_heads (sy_arena s) hp) + pc_plus (sy_pcs s ! i) - of_nat (length es)"
    and got: "mset got + pc_taken (st_nodes A) pc + mset (delivered (sy_lin s)) =
      mset (sy_got s) + pc_taken (st_nodes (sy_arena s)) (sy_pcs s ! i) + mset (delivered lin)"
  shows "st_inv hp (s\<lparr>sy_arena := A, sy_pcs := (sy_pcs s)[i := pc], sy_lin := lin, sy_fails := f, sy_got := got\<rparr>) L' es'"
proof -
  note d = st_invD [OF inv]
  let ?m = "st_nodes (sy_arena s)" and ?m' = "st_nodes A" and ?ps = "sy_pcs s"
  have L: "?m' a = ?m a" if "a \<in> L" for a using node [of a] d(7) [OF i, of a] that by blast
  have other: "?m' e = ?m e" if "j < length ?ps" "j \<noteq> i" "pc_entry (?ps ! j) = Some e" for j e
    using node [of e] d(8) [OF that(1) i that(2,3)] by blast
  have fresh: "e \<notin> L'" if "j < length ?ps" "j \<noteq> i" "pc_entry (?ps ! j) = Some e" for j e
    using linked(2) d(7) [OF that(1,3)] d(8) [OF that(1) i that(2,3)] by auto
  have loc: "st_local L' ?m' (?ps[i := pc] ! j)" if "j < length ?ps" for j
    using st_local_frame(1) [OF d(6) [OF that] L _ linked(1)] other [OF that] pc(1) i
    by (cases "j = i") auto
  have taken: "pc_taken ?m' (?ps ! j) = pc_taken ?m (?ps ! j)" if "j < length ?ps" "j \<noteq> i" for j
    using st_local_frame(2) [OF d(6) [OF that(1)] L _ linked(1)] other [OF that] by blast
  have sub: "L' \<subseteq> sy_used s" "NULL \<notin> L'"
    using linked(2) d(3,4) d(7) [OF i] by (cases "pc_entry (?ps ! i)"; force)+
  have ent: "e \<in> sy_used s - L' - {NULL}" if "j < length ?ps" "pc_entry (?ps[i := pc] ! j) = Some e" for j e
    using that pc(2) [of e] d(7) [OF i, of e] d(7) [OF that(1), of e] fresh [OF that(1), of e] i by (cases "j = i") auto
  have dist: "pc_entry (?ps[i := pc] ! k) \<noteq> Some e"
    if "j < length ?ps" "k < length ?ps" "j \<noteq> k" "pc_entry (?ps[i := pc] ! j) = Some e" for j k e
    using that pc(2) [of e] d(8) [of j k e] i by (cases "j = i"; cases "k = i") auto
  have c: "st_count (st_heads A hp) + tot (\<lambda>_. pc_plus) (?ps[i := pc]) = of_nat (length es')"
    by (rule sum_moves [OF d(9) tot_update [OF i] plus])
  have t: "tot (\<lambda>_. pc_taken ?m') (?ps[i := pc]) + pc_taken ?m (?ps ! i) = tot (\<lambda>_. pc_taken ?m) ?ps + pc_taken ?m' pc"
    by (rule tot_change [OF i]) (rule taken)
  have g: "mset got + tot (\<lambda>_. pc_taken ?m') (?ps[i := pc]) = mset (delivered lin)"
    by (rule mset_moves [OF d(10) t got])
  show ?thesis
    unfolding st_inv_def Let_def using chain lin sub loc ent dist c g by simp
qed

text \<open>Steps on the node being pushed, which nobody else sees.\<close>

lemma seg_private:
  assumes "seg (st_next \<circ> m) p es q" and "e \<notin> set es"
  shows "seg (st_next \<circ> m(e := v)) p es q" and "map (st_data \<circ> m(e := v)) es = map (st_data \<circ> m) es"
  using assms by (simp_all add: seg_comp_upd map_comp_upd)

lemma st_private_step:
  assumes inv: "st_inv hp s L es" and i: "i < length (sy_pcs s)" and e: "pc_entry (sy_pcs s ! i) = Some e"
    and pc: "pc_entry pc = Some e" "st_local L ((st_nodes (sy_arena s))(e := v)) pc"
    and quiet: "pc_plus (sy_pcs s ! i) = 0" "pc_plus pc = 0" "pc_taken (st_nodes (sy_arena s)) (sy_pcs s ! i) = {#}"
      "pc_taken ((st_nodes (sy_arena s))(e := v)) pc = {#}"
  shows "st_inv hp (s\<lparr>sy_arena := st_set_node e v (sy_arena s), sy_pcs := (sy_pcs s)[i := pc],
      sy_lin := sy_lin s, sy_fails := f, sy_got := sy_got s\<rparr>) L es"
proof -
  note d = st_invD [OF inv]
  have n: "e \<notin> set es" "e \<notin> L" using d(2) d(7) [OF i e] by auto
  show ?thesis
    using d(1-5) n pc quiet e seg_private [OF d(1) n(1), of v]
    by (intro st_inv_turn [OF inv i, where L' = L]) (auto simp: st_set_node_def)
qed

text \<open>Steps that change nothing shared but the counter.\<close>

lemma st_reading_step:
  assumes inv: "st_inv hp s L es" and i: "i < length (sy_pcs s)"
    and A: "st_nodes A = st_nodes (sy_arena s)" "st_head (st_heads A hp) = st_head (st_heads (sy_arena s) hp)"
      "st_count (st_heads A hp) + pc_plus pc = st_count (st_heads (sy_arena s) hp) + pc_plus (sy_pcs s ! i)"
    and pc: "pc_entry pc \<in> {None, pc_entry (sy_pcs s ! i)}" "st_local L (st_nodes (sy_arena s)) pc"
    and ev: "lin = [] \<or> (es = [] \<and> lin = [EvPop DS_ERROR_NOT_FOUND None])"
    and got: "mset got + pc_taken (st_nodes (sy_arena s)) pc = pc_taken (st_nodes (sy_arena s)) (sy_pcs s ! i)"
  shows "st_inv hp (s\<lparr>sy_arena := A, sy_pcs := (sy_pcs s)[i := pc],
      sy_lin := sy_lin s @ lin, sy_fails := f, sy_got := sy_got s @ got\<rparr>) L es"
proof -
  note d = st_invD [OF inv]
  have lin: "stack_replay [] (sy_lin s @ lin) = Some (map (st_data \<circ> st_nodes A) es)" "delivered lin = []"
    using d(5) ev A(1) by (auto simp: stack_replay_snoc)
  have e: "pc_entry (sy_pcs s ! i) = Some e \<and> e \<notin> L" if "pc_entry pc = Some e" for e
    using pc(1) that d(7) [OF i, of e] by auto
  show ?thesis
    using d(1-4) A pc(2) lin e got
    by (intro st_inv_turn [OF inv i, where L' = L]) (auto simp: ac_simps)
qed

lemma kv_complete: "key d = key x \<Longrightarrow> d\<lparr>val := val x\<rparr> = (x :: ds_kv)"
  by (cases d; cases x) simp

text \<open>The two exchanges that succeed.\<close>

lemma st_push_exchange:
  assumes inv: "st_inv hp s L es" and i: "i < length (sy_pcs s)" and c: "sy_pcs s ! i = S_cas e x h"
    and h: "st_head (st_heads (sy_arena s) hp) = h"
  shows "st_inv hp (s\<lparr>sy_arena := st_set_head hp ((st_heads (sy_arena s) hp)\<lparr>st_head := e\<rparr>) (sy_arena s),
      sy_pcs := (sy_pcs s)[i := S_count], sy_lin := sy_lin s @ [EvIns x DS_SUCCESS], sy_fails := f, sy_got := sy_got s\<rparr>)
    (insert e L) (e # es)"
proof -
  note d = st_invD [OF inv]
  have e: "e \<noteq> NULL" "st_data (st_nodes (sy_arena s) e) = x" "st_next (st_nodes (sy_arena s) e) = h"
    using d(6,7) [OF i] c by auto
  show ?thesis
    using d(1-5) e h c by (intro st_inv_turn [OF inv i]) (auto simp: stack_replay_snoc)
qed

lemma st_pop_exchange:
  assumes inv: "st_inv hp s L es" and i: "i < length (sy_pcs s)" and c: "sy_pcs s ! i = S_pcas h n"
    and h: "st_head (st_heads (sy_arena s) hp) = h"
  shows "st_inv hp (s\<lparr>sy_arena := st_set_head hp ((st_heads (sy_arena s) hp)\<lparr>st_head := n\<rparr>) (sy_arena s),
      sy_pcs := (sy_pcs s)[i := S_pcount h],
      sy_lin := sy_lin s @ [EvPop DS_SUCCESS (Some (st_data (st_nodes (sy_arena s) h)))], sy_fails := f,
      sy_got := sy_got s\<rparr>) L (tl es)"
proof -
  note d = st_invD [OF inv]
  have l: "h \<in> L" "st_next (st_nodes (sy_arena s) h) = n" using d(6) [OF i] c by auto
  then have "h \<noteq> NULL" using d(4) by blast
  then obtain es' where es: "es = h # es'" "seg (st_next \<circ> st_nodes (sy_arena s)) n es' NULL"
    using d(1) h l(2) by (cases es) auto
  show ?thesis
    using d(2-5) l es c by (intro st_inv_turn [OF inv i]) (auto simp: stack_replay_snoc)
qed

lemma st_step_inv:
  assumes inv: "st_inv hp s L es" and i: "i < length (sy_pcs s)"
  shows "\<exists>L es. st_inv hp (st_turn hp (A_step i) s) L es"
proof -
  note d = st_invD [OF inv] and l = st_invD(6) [OF inv i]
  let ?A = "sy_arena s" and ?h = "st_head (st_heads (sy_arena s) hp)"
  have es: "?h = NULL \<longleftrightarrow> es = []" "?h \<noteq> NULL \<Longrightarrow> ?h \<in> L"
    using d(1,2) by (cases es; auto)+
  show ?thesis
  proof (cases "sy_pcs s ! i")
    case S_idle
    then show ?thesis using i st_reading_step [OF inv i, of ?A S_idle "[]" "[]" "sy_fails s"] by auto
  next
    case (S_key e x)
    show ?thesis
      using i st_private_step [OF inv i _ _, of e "S_val e x"
          "(st_nodes ?A e)\<lparr>st_data := (st_data (st_nodes ?A e))\<lparr>key := key x\<rparr>\<rparr>" "sy_fails s"] S_key by auto
  next
    case (S_val e x)
    show ?thesis
      using i l st_private_step [OF inv i _ _, of e "S_load e x"
          "(st_nodes ?A e)\<lparr>st_data := (st_data (st_nodes ?A e))\<lparr>val := val x\<rparr>\<rparr>" "sy_fails s"] S_val
      by (auto simp: kv_complete)
  next
    case (S_load e x)
    then show ?thesis using i l st_reading_step [OF inv i, of ?A "S_link e x ?h" "[]" "[]" "sy_fails s"] by auto
  next
    case (S_link e x h)
    show ?thesis
      using i l st_private_step [OF inv i _ _, of e "S_cas e x h" "(st_nodes ?A e)\<lparr>st_next := h\<rparr>" "sy_fails s"] S_link by auto
  next
    case (S_cas e x h)
    show ?thesis
    proof (cases "?h = h")
      case True
      then show ?thesis using i st_push_exchange [OF inv i S_cas True, of "sy_fails s"] S_cas by (auto simp: Let_def)
    next
      case False
      then show ?thesis
        using i l S_cas st_reading_step [OF inv i, of "st_set_head hp (st_heads ?A hp) ?A" "S_link e x ?h" "[]" "[]" "sy_fails s + 1"]
        by (auto simp: Let_def arena_atomic_cmpxchg_def)
    qed
  next
    case S_count
    then show ?thesis
      using i st_reading_step [OF inv i, of "st_set_head hp ((st_heads ?A hp)\<lparr>st_count := st_count (st_heads ?A hp) + 1\<rparr>) ?A"
          S_idle "[]" "[]" "sy_fails s"] by auto
  next
    case S_phead
    then show ?thesis
      using i es st_reading_step [OF inv i, of ?A "S_pnext ?h" "[]" "[]" "sy_fails s"]
        st_reading_step [OF inv i, of ?A S_idle "[EvPop DS_ERROR_NOT_FOUND None]" "[]" "sy_fails s"]
      by (auto simp: st_pop_test_def)
  next
    case (S_pnext h)
    then show ?thesis
      using i l st_reading_step [OF inv i, of ?A "S_pcas h (st_next (st_nodes ?A h))" "[]" "[]" "sy_fails s"] by auto
  next
    case (S_pcas h n)
    show ?thesis
    proof (cases "?h = h")
      case True
      then show ?thesis using i st_pop_exchange [OF inv i S_pcas True, of "sy_fails s"] S_pcas by (auto simp: Let_def)
    next
      case False
      then show ?thesis
        using i es S_pcas st_reading_step [OF inv i, of "st_set_head hp (st_heads ?A hp) ?A" "S_pnext ?h" "[]" "[]" "sy_fails s + 1"]
          st_reading_step [OF inv i, of "st_set_head hp (st_heads ?A hp) ?A" S_idle "[EvPop DS_ERROR_NOT_FOUND None]" "[]" "sy_fails s + 1"]
        by (auto simp: Let_def arena_atomic_cmpxchg_def st_pop_test_def)
    qed
  next
    case (S_pcount h)
    then show ?thesis
      using i l st_reading_step [OF inv i, of "st_set_head hp ((st_heads ?A hp)\<lparr>st_count := st_count (st_heads ?A hp) - 1\<rparr>) ?A"
          "S_pkey h" "[]" "[]" "sy_fails s"] by auto
  next
    case (S_pkey h)
    then show ?thesis
      using i l st_reading_step [OF inv i, of ?A "S_pval h (key (st_data (st_nodes ?A h)))" "[]" "[]" "sy_fails s"] by auto
  next
    case (S_pval h k)
    then show ?thesis
      using i l st_reading_step [OF inv i, of ?A S_idle "[]" "[\<lparr>key = k, val = val (st_data (st_nodes ?A h))\<rparr>]" "sy_fails s"]
      by auto
  qed
qed

lemma st_turn_inv:
  assumes inv: "st_inv hp s L es" and hp: "hp \<noteq> NULL"
  shows "\<exists>L es. st_inv hp (st_turn hp a s) L es"
proof (cases a)
  case (A_push i e x)
  show ?thesis
  proof (cases "i < length (sy_pcs s) \<and> sy_pcs s ! i = S_idle \<and> e \<notin> sy_used s")
    case True
    note d = st_invD [OF inv]
    let ?ps = "(sy_pcs s)[i := st_push_call hp e x]"
    have pc: "st_push_call hp e x = (if e = NULL then S_idle else S_key e x)" using hp by (simp add: st_push_call_def)
    have same: "tot (\<lambda>_. pc_plus) ?ps = tot (\<lambda>_. pc_plus) (sy_pcs s)"
      "tot (\<lambda>_. pc_taken m) ?ps = tot (\<lambda>_. pc_taken m) (sy_pcs s)" for m
      using True by (auto simp: pc intro!: tot_same)
    have ent: "pc_entry (sy_pcs s ! j) \<noteq> Some e" if "j < length (sy_pcs s)" for j
      using d(7) [OF that, of e] True by auto
    have "st_inv hp (st_turn hp a s) L es"
      unfolding st_inv_def Let_def A_push using True d(1-5) d(9,10) same
      by (auto simp: pc nth_list_update dest: d(6) d(7) d(8) ent split: if_splits)
    then show ?thesis by blast
  qed (use inv A_push in auto)
next
  case (A_pop i)
  show ?thesis
  proof (cases "i < length (sy_pcs s) \<and> sy_pcs s ! i = S_idle")
    case True
    then have "st_inv hp (s\<lparr>sy_arena := sy_arena s, sy_pcs := (sy_pcs s)[i := S_phead], sy_lin := sy_lin s @ [],
        sy_fails := sy_fails s, sy_got := sy_got s @ []\<rparr>) L es"
      by (intro st_reading_step [OF inv]) auto
    then show ?thesis using True A_pop hp by (auto simp: st_pop_call_def)
  qed (use inv A_pop in auto)
next
  case (A_step i)
  then show ?thesis using st_step_inv [OF inv, of i] inv by (cases "i < length (sy_pcs s)") auto
qed

lemma st_threads_inv:
  "st_inv hp s L es \<Longrightarrow> hp \<noteq> NULL \<Longrightarrow> \<exists>L es. st_inv hp (st_threads hp acts s) L es"
proof (induction acts arbitrary: s L es)
  case (Cons a acts)
  obtain L' es' where "st_inv hp (st_turn hp a s) L' es'" using st_turn_inv [OF Cons.prems] by blast
  from Cons.IH [OF this Cons.prems(2)] show ?case by (simp add: st_threads_def)
qed (auto simp: st_threads_def)

lemma st_start_inv:
  "st_head (st_heads A hp) = NULL \<Longrightarrow> st_count (st_heads A hp) = 0 \<Longrightarrow> st_inv hp (st_sys_start n A) {} []"
  by (simp add: st_inv_def st_sys_start_def tot_replicate_zero)

subsection \<open>Properties\<close>

text \<open>
  C17.  The stack is linearisable under any number of threads: whatever the schedule of
  their accesses, the successful exchanges and the pops that found the stack empty, in the
  order in which they happened, are a history of an abstract stack that ends with the
  elements now reached from the head; what pops have returned are elements this history
  delivered, each at most as often as it was delivered and, when no call is in progress,
  all of them, and the counter is then the number of elements.  Entries are pushed at most
  once each, as the allocators and the tests ensure.
\<close>

theorem st_threads_lifo:
  assumes "hp \<noteq> NULL"
  shows "let s = st_threads hp acts (st_sys_start n (ds_ck_stack_upmc_init sd hp A)) in
    \<exists>es. seg (st_next \<circ> st_nodes (sy_arena s)) (st_head (st_heads (sy_arena s) hp)) es NULL \<and>
      stack_replay [] (sy_lin s) = Some (map (st_data \<circ> st_nodes (sy_arena s)) es) \<and>
      mset (accepted (sy_lin s)) = mset (delivered (sy_lin s)) + mset (map (st_data \<circ> st_nodes (sy_arena s)) es) \<and>
      mset (sy_got s) \<subseteq># mset (delivered (sy_lin s)) \<and>
      (list_all (\<lambda>pc. pc = S_idle) (sy_pcs s) \<longrightarrow>
         mset (sy_got s) = mset (delivered (sy_lin s)) \<and>
         st_count (st_heads (sy_arena s) hp) = of_nat (length es))"
proof -
  let ?s = "st_threads hp acts (st_sys_start n (ds_ck_stack_upmc_init sd hp A))"
  have "st_inv hp (st_sys_start n (ds_ck_stack_upmc_init sd hp A)) {} []"
    using assms by (intro st_start_inv) (simp_all add: ds_variant ds_ck_stack_upmc_init_lkmm_def Let_def)
  then obtain L es where inv: "st_inv hp ?s L es" using st_threads_inv assms by blast
  note d = st_invD [OF inv]
  have m: "mset (accepted (sy_lin ?s)) = mset (delivered (sy_lin ?s)) + mset (map (st_data \<circ> st_nodes (sy_arena ?s)) es)"
    using lane_replay_mset [of "(#)" "[]" "sy_lin ?s"] d(5) by (simp add: stack_replay_is_lane_replay)
  have "mset (sy_got ?s) = mset (delivered (sy_lin ?s)) \<and> st_count (st_heads (sy_arena ?s) hp) = of_nat (length es)"
    if "list_all (\<lambda>pc. pc = S_idle) (sy_pcs ?s)"
    using d(9,10) that by (simp add: tot_def list_all_length)
  then show ?thesis
    unfolding Let_def using d(1,5) m mset_subset_eq_add_left [of "mset (sy_got ?s)"] d(10) by metis
qed

text \<open>
  Two pushes whose exchanges collide, then a pop, in a run of two threads.
\<close>

theorem st_threads_lifo_witness:
  "let s = st_threads 0x1000 ([A_push 0 0x2000 \<lparr>key = 1, val = 10\<rparr>, A_push 1 0x3000 \<lparr>key = 2, val = 20\<rparr>] @
        concat (replicate 5 [A_step 0, A_step 1]) @ replicate 3 (A_step 1) @ [A_step 0, A_pop 0] @ replicate 6 (A_step 0))
        (st_sys_start 2 (ds_ck_stack_upmc_init BPF 0x1000
          \<lparr>st_heads = \<lambda>_. \<lparr>st_head = 5, st_count = 7\<rparr>, st_nodes = \<lambda>_. \<lparr>st_next = 0, st_data = zero_kv\<rparr>, st_alloc = ()\<rparr>)) in
   sy_got s = [\<lparr>key = 2, val = 20\<rparr>] \<and> sy_fails s = 1 \<and> st_count (st_heads (sy_arena s) 0x1000) = 1 \<and>
   accepted (sy_lin s) = [\<lparr>key = 1, val = 10\<rparr>, \<lparr>key = 2, val = 20\<rparr>] \<and> mset (sy_got s) = mset (delivered (sy_lin s))"
proof -
  let ?acts = "[A_push 0 0x2000 \<lparr>key = 1, val = 10\<rparr>, A_push 1 0x3000 \<lparr>key = 2, val = 20\<rparr>] @
        concat (replicate 5 [A_step 0, A_step 1]) @ replicate 3 (A_step 1) @ [A_step 0, A_pop 0] @ replicate 6 (A_step 0)"
  let ?A = "\<lparr>st_heads = \<lambda>_. \<lparr>st_head = 5, st_count = 7\<rparr>, st_nodes = \<lambda>_. \<lparr>st_next = 0, st_data = zero_kv\<rparr>, st_alloc = ()\<rparr>"
  let ?s = "st_threads 0x1000 ?acts (st_sys_start 2 (ds_ck_stack_upmc_init BPF 0x1000 ?A))"
  define s where "s = ?s"
  have e: "sy_got s = [\<lparr>key = 2, val = 20\<rparr>] \<and> sy_fails s = 1 \<and> sy_pcs s = [S_idle, S_idle] \<and>
      st_count (st_heads (sy_arena s) 0x1000) = 1 \<and> accepted (sy_lin s) = [\<lparr>key = 1, val = 10\<rparr>, \<lparr>key = 2, val = 20\<rparr>]"
    unfolding s_def by code_simp
  have "mset (sy_got s) = mset (delivered (sy_lin s))"
    using st_threads_lifo [of "0x1000" ?acts 2 BPF ?A, folded s_def, unfolded Let_def] e by auto
  then show ?thesis using e unfolding s_def Let_def by blast
qed

subsection \<open>Progress\<close>

text \<open>The head a thread has seen and will compare with; whether it is out of date.\<close>

fun pc_seen :: "st_pc \<Rightarrow> ptr option" where
  "pc_seen (S_link e x h) = Some h"
| "pc_seen (S_cas e x h) = Some h"
| "pc_seen (S_pnext h) = Some h"
| "pc_seen (S_pcas h n) = Some h"
| "pc_seen _ = None"

definition pc_stale :: "ptr \<Rightarrow> st_pc \<Rightarrow> nat" where
  "pc_stale h pc = (if pc_seen pc \<in> {None, Some h} then 0 else 1)"

definition st_charged :: "ptr \<Rightarrow> 'a st_sys \<Rightarrow> bool" where
  "st_charged hp s \<longleftrightarrow>
     sy_fails s + tot (\<lambda>_. pc_stale (st_head (st_heads (sy_arena s) hp))) (sy_pcs s) \<le>
       (length (sy_pcs s) - 1) * (length (accepted (sy_lin s)) + length (delivered (sy_lin s)))"

text \<open>A turn without a successful exchange does not add to failures and threads out of date.\<close>

lemma charged_quiet:
  assumes c: "st_charged hp s" and i: "i < length (sy_pcs s)"
    and A: "st_head (st_heads A hp) = st_head (st_heads (sy_arena s) hp)"
    and le: "f + pc_stale (st_head (st_heads A hp)) pc \<le> pc_stale (st_head (st_heads A hp)) (sy_pcs s ! i)"
    and ev: "accepted lin = []" "delivered lin = []"
  shows "st_charged hp (s\<lparr>sy_arena := A, sy_pcs := (sy_pcs s)[i := pc], sy_lin := sy_lin s @ lin,
      sy_fails := sy_fails s + f, sy_got := got\<rparr>)"
  using c le tot_update [OF i, of "\<lambda>_. pc_stale (st_head (st_heads A hp))" pc] by (simp add: st_charged_def A ev)

lemma charged_exchange:
  assumes c: "st_charged hp s" and i: "i < length (sy_pcs s)" and pc: "pc_seen pc = None"
    and ev: "length (accepted lin) + length (delivered lin) = 1"
  shows "st_charged hp (s\<lparr>sy_arena := A, sy_pcs := (sy_pcs s)[i := pc], sy_lin := sy_lin s @ lin,
      sy_fails := sy_fails s + 0, sy_got := got\<rparr>)"
proof -
  let ?k = "length (accepted (sy_lin s)) + length (delivered (sy_lin s))" and ?n = "length (sy_pcs s) - 1"
  have "tot (\<lambda>_. pc_stale (st_head (st_heads A hp))) ((sy_pcs s)[i := pc]) \<le> ?n"
    using tot_others [of i "(sy_pcs s)[i := pc]"] i pc by (simp add: pc_stale_def)
  moreover have "sy_fails s \<le> ?n * ?k" using c by (simp add: st_charged_def)
  moreover have "?n * (?k + (length (accepted lin) + length (delivered lin))) = ?n * ?k + ?n" by (simp only: ev) (simp add: algebra_simps)
  ultimately show ?thesis by (simp add: st_charged_def algebra_simps)
qed

lemma charged_turn:
  assumes "st_charged hp s"
  shows "st_charged hp (st_turn hp a s)"
proof (cases a)
  case (A_push i e x)
  then show ?thesis
    using assms tot_same [of i "sy_pcs s" "\<lambda>_. pc_stale (st_head (st_heads (sy_arena s) hp))" "st_push_call hp e x"]
    by (auto simp: st_charged_def st_push_call_def pc_stale_def)
next
  case (A_pop i)
  then show ?thesis
    using assms tot_same [of i "sy_pcs s" "\<lambda>_. pc_stale (st_head (st_heads (sy_arena s) hp))" "st_pop_call hp"]
    by (auto simp: st_charged_def st_pop_call_def pc_stale_def)
next
  case (A_step i)
  show ?thesis
  proof (cases "i < length (sy_pcs s)")
    case i: True
    obtain pc ev A where st: "st_step hp (sy_pcs s ! i) (sy_arena s) = (pc, ev, A)" by (metis prod_cases3)
    have "pc_seen pc = None \<and> length (accepted (note_lin ev)) + length (delivered (note_lin ev)) = 1 \<and> note_fails ev = 0 \<or>
      st_head (st_heads A hp) = st_head (st_heads (sy_arena s) hp) \<and>
      note_fails ev + pc_stale (st_head (st_heads A hp)) pc \<le> pc_stale (st_head (st_heads A hp)) (sy_pcs s ! i) \<and>
      accepted (note_lin ev) = [] \<and> delivered (note_lin ev) = []"
      using st by (cases "sy_pcs s ! i")
        (auto simp: Let_def arena_atomic_cmpxchg_def st_pop_test_def pc_stale_def split: if_splits)
    then show ?thesis
      using charged_exchange [OF assms i, where pc = pc and lin = "note_lin ev" and A = A and got = "sy_got s @ note_got ev"]
        charged_quiet [OF assms i, where A = A and f = "note_fails ev" and pc = pc and lin = "note_lin ev"
          and got = "sy_got s @ note_got ev"] A_step i st by auto
  qed (use assms A_step in simp)
qed

text \<open>
  C18.  The stack is lock-free: under every schedule of \<open>n\<close> threads, the number of failed
  exchanges is at most \<open>n - 1\<close> times the number of successful ones, so threads keep each
  other from finishing only by finishing themselves.
\<close>

theorem st_threads_lock_free:
  "sy_fails (st_threads hp acts (st_sys_start n A)) \<le> (n - 1) *
     (length (accepted (sy_lin (st_threads hp acts (st_sys_start n A)))) +
      length (delivered (sy_lin (st_threads hp acts (st_sys_start n A)))))"
proof -
  have "st_charged hp (st_threads hp acts s) \<and> length (sy_pcs (st_threads hp acts s)) = length (sy_pcs s)"
    if "st_charged hp s" for s :: "'a st_sys"
    using that
  proof (induction acts arbitrary: s)
    case (Cons a acts)
    have "length (sy_pcs (st_turn hp a s)) = length (sy_pcs s)" by (cases a) (auto simp: split_def Let_def)
    then show ?case using Cons.IH [OF charged_turn [OF Cons.prems, of a]] by (simp add: st_threads_def)
  qed (simp add: st_threads_def)
  moreover have "st_charged hp (st_sys_start n A)" by (simp add: st_charged_def st_sys_start_def tot_replicate_zero pc_stale_def)
  ultimately have "st_charged hp (st_threads hp acts (st_sys_start n A))"
    "length (sy_pcs (st_threads hp acts (st_sys_start n A))) = n" by (auto simp: st_sys_start_def)
  then show ?thesis unfolding st_charged_def by simp
qed

subsection \<open>Without interference\<close>

text \<open>Run alone, the steps of a call add up to the operation.\<close>

lemma st_threads_Cons: "st_threads hp (a # acts) s = st_threads hp acts (st_turn hp a s)"
  by (simp add: st_threads_def)

lemma st_alone_push:
  assumes "hp \<noteq> NULL" and "e \<noteq> NULL" and "e \<notin> sy_used s" and "i < length (sy_pcs s)" and "sy_pcs s ! i = S_idle"
    and "s' = st_threads hp (A_push i e x # replicate 6 (A_step i)) s"
  shows "sy_arena s' = ds_ck_stack_upmc_push_upmc sd (Suc b) hp e (key x) (val x) (sy_arena s)"
    and "sy_pcs s' = sy_pcs s" and "sy_fails s' = sy_fails s"
proof -
  have pcs: "(sy_pcs s)[i := S_idle] = sy_pcs s" using assms(5) list_update_id by metis
  have x: "(st_data (st_nodes (sy_arena s) e))\<lparr>key := key x, val := val x\<rparr> = x" by (simp add: kv_complete)
  have r: "replicate 6 (A_step i) = [A_step i, A_step i, A_step i, A_step i, A_step i, A_step i]"
    by (simp add: eval_nat_numeral)
  show "sy_arena s' = ds_ck_stack_upmc_push_upmc sd (Suc b) hp e (key x) (val x) (sy_arena s)"
    "sy_pcs s' = sy_pcs s" "sy_fails s' = sy_fails s"
    unfolding assms(6) r ds_variant st_push_now [OF assms(1,2)] using assms(1-5) x
    by (simp_all add: st_threads_Cons st_threads_def st_push_call_def Let_def st_set_head_def st_set_node_def pcs)
       (cases x; cases "st_heads (sy_arena s) hp"; cases "st_nodes (sy_arena s) e"; simp)+
qed

lemma st_alone_pop:
  assumes "hp \<noteq> NULL" and "i < length (sy_pcs s)" and "sy_pcs s ! i = S_idle" and "st_head (st_heads (sy_arena s) hp) \<noteq> NULL"
    and "s' = st_threads hp (A_pop i # replicate 6 (A_step i)) s"
  shows "\<exists>x. ds_ck_stack_upmc_pop sd (Suc b) hp (Some d) (sy_arena s) = (DS_SUCCESS, Some x, sy_arena s') \<and>
    sy_got s' = sy_got s @ [x]"
    and "sy_pcs s' = sy_pcs s" and "sy_fails s' = sy_fails s"
proof -
  have pcs: "(sy_pcs s)[i := S_idle] = sy_pcs s" using assms(3) list_update_id by metis
  have r: "replicate 6 (A_step i) = [A_step i, A_step i, A_step i, A_step i, A_step i, A_step i]"
    by (simp add: eval_nat_numeral)
  show "\<exists>x. ds_ck_stack_upmc_pop sd (Suc b) hp (Some d) (sy_arena s) = (DS_SUCCESS, Some x, sy_arena s') \<and>
    sy_got s' = sy_got s @ [x]" "sy_pcs s' = sy_pcs s" "sy_fails s' = sy_fails s"
    unfolding assms(5) r ds_variant using assms(1-4)
    by (simp_all add: st_threads_Cons st_threads_def st_pop_call_def st_pop_test_def Let_def st_set_head_def pcs
        ds_ck_stack_upmc_pop_lkmm_def st_pop_now [OF assms(1)])
       (cases "st_heads (sy_arena s) hp"; cases d; cases "st_data (st_nodes (sy_arena s) (st_head (st_heads (sy_arena s) hp)))"; simp)?
qed

end
