(* ===== verification/VyukhovThreads.thy ===== *)
theory VyukhovThreads
  imports Vyukhov Totals
begin

text \<open>
  Vyukov's queue with any number of producers and consumers at work at once.  Insert and pop
  of \<^verbatim>\<open>include/ds_vyukhov.h\<close> are cut into steps that make one access to the shared arena
  each, and a schedule interleaves the steps of the threads in any order, on sequentially
  consistent memory.  Buffer address and mask are written by the initialisation only, so
  that reading them is no step of its own.
\<close>

subsection \<open>One access at a time\<close>

text \<open>
  Where an insert is: about to load the enqueue position; to load the sequence number of
  the cell of the position last seen, \<open>r\<close> attempts having failed; to exchange the position;
  to load it again; then, owning the cell, to store key, value and sequence number and to
  count.  Likewise for a pop, which reads key and value.
\<close>

datatype ins_pc =
    E_pos
  | E_seq u64 nat
  | E_cas u64 nat
  | E_again nat
  | E_key u64
  | E_val u64
  | E_pub u64
  | E_count

datatype pop_pc =
    D_pos
  | D_seq u64 nat
  | D_cas u64 nat
  | D_again nat
  | D_key u64
  | D_val u64 u64
  | D_pub u64 ds_kv
  | D_count ds_kv

datatype vq_thread = T_idle | T_ins ds_kv ins_pc | T_pop pop_pc

text \<open>
  What a step shows: a position taken by an insert or a pop (with the element in the cell),
  a failed attempt, the three ways to give up, and the return of an insert or a pop.
\<close>

datatype vq_note =
  Q_none | Q_ins ds_kv | Q_pop ds_kv | Q_retry | Q_full | Q_empty | Q_busy | Q_done | Q_got ds_kv

text \<open>The end of an attempt that failed: the position is loaded again and the retries are counted.\<close>

definition vq_ins_retry :: "ds_kv \<Rightarrow> u64 \<Rightarrow> nat \<Rightarrow> vq_thread \<times> vq_note" where
  "vq_ins_retry x pos retries =
     (if retries < DS_VYUKHOV_MAX_RETRIES then (T_ins x (E_seq pos retries), Q_none) else (T_idle, Q_busy))"

definition vq_pop_retry :: "u64 \<Rightarrow> nat \<Rightarrow> vq_thread \<times> vq_note" where
  "vq_pop_retry pos retries =
     (if retries < DS_VYUKHOV_MAX_RETRIES then (T_pop (D_seq pos retries), Q_none) else (T_idle, Q_busy))"

fun vq_insert_step :: "ptr \<Rightarrow> ds_kv \<Rightarrow> ins_pc \<Rightarrow> 'a vy_arena \<Rightarrow> vq_thread \<times> vq_note \<times> 'a vy_arena" where
  "vq_insert_step hp x E_pos A =
     (let (t, ev) = vq_ins_retry x (vy_enqueue_pos (vy_heads A hp)) 0 in (t, ev, A))"
| "vq_insert_step hp x (E_seq pos retries) A =
     (let seq = vy_sequence (vy_cells A (vy_at (vy_heads A hp) pos));
          dif = seq - pos in
      if sint dif = 0 then (T_ins x (E_cas pos retries), Q_none, A)
      else if sint dif < 0 then (T_idle, Q_full, A)
      else (T_ins x (E_again retries), Q_retry, A))"
| "vq_insert_step hp x (E_cas pos retries) A =
     (let (old_pos, enq) = arena_atomic_cmpxchg (vy_enqueue_pos (vy_heads A hp)) pos (pos + 1);
          A = vy_set_head hp ((vy_heads A hp)\<lparr>vy_enqueue_pos := enq\<rparr>) A in
      if old_pos = pos then (T_ins x (E_key pos), Q_ins x, A)
      else (T_ins x (E_again retries), Q_retry, A))"
| "vq_insert_step hp x (E_again retries) A =
     (let (t, ev) = vq_ins_retry x (vy_enqueue_pos (vy_heads A hp)) (retries + 1) in (t, ev, A))"
| "vq_insert_step hp x (E_key pos) A =
     (let cell = vy_at (vy_heads A hp) pos; c = vy_cells A cell in
      (T_ins x (E_val pos), Q_none, vy_set_cell cell (c\<lparr>vy_data := (vy_data c)\<lparr>key := key x\<rparr>\<rparr>) A))"
| "vq_insert_step hp x (E_val pos) A =
     (let cell = vy_at (vy_heads A hp) pos; c = vy_cells A cell in
      (T_ins x (E_pub pos), Q_none, vy_set_cell cell (c\<lparr>vy_data := (vy_data c)\<lparr>val := val x\<rparr>\<rparr>) A))"
| "vq_insert_step hp x (E_pub pos) A =
     (let cell = vy_at (vy_heads A hp) pos; c = vy_cells A cell in
      (T_ins x E_count, Q_none, vy_set_cell cell (c\<lparr>vy_sequence := pos + 1\<rparr>) A))"
| "vq_insert_step hp x E_count A =
     (T_idle, Q_done, vy_set_head hp ((vy_heads A hp)\<lparr>vy_count := vy_count (vy_heads A hp) + 1\<rparr>) A)"

fun vq_pop_step :: "ptr \<Rightarrow> pop_pc \<Rightarrow> 'a vy_arena \<Rightarrow> vq_thread \<times> vq_note \<times> 'a vy_arena" where
  "vq_pop_step hp D_pos A =
     (let (t, ev) = vq_pop_retry (vy_dequeue_pos (vy_heads A hp)) 0 in (t, ev, A))"
| "vq_pop_step hp (D_seq pos retries) A =
     (let seq = vy_sequence (vy_cells A (vy_at (vy_heads A hp) pos));
          dif = seq - (pos + 1) in
      if sint dif = 0 then (T_pop (D_cas pos retries), Q_none, A)
      else if sint dif < 0 then (T_idle, Q_empty, A)
      else (T_pop (D_again retries), Q_retry, A))"
| "vq_pop_step hp (D_cas pos retries) A =
     (let (old_pos, deq) = arena_atomic_cmpxchg (vy_dequeue_pos (vy_heads A hp)) pos (pos + 1);
          A = vy_set_head hp ((vy_heads A hp)\<lparr>vy_dequeue_pos := deq\<rparr>) A in
      if old_pos = pos then (T_pop (D_key pos), Q_pop (vy_data (vy_cells A (vy_at (vy_heads A hp) pos))), A)
      else (T_pop (D_again retries), Q_retry, A))"
| "vq_pop_step hp (D_again retries) A =
     (let (t, ev) = vq_pop_retry (vy_dequeue_pos (vy_heads A hp)) (retries + 1) in (t, ev, A))"
| "vq_pop_step hp (D_key pos) A =
     (T_pop (D_val pos (key (vy_data (vy_cells A (vy_at (vy_heads A hp) pos))))), Q_none, A)"
| "vq_pop_step hp (D_val pos k) A =
     (T_pop (D_pub pos \<lparr>key = k, val = val (vy_data (vy_cells A (vy_at (vy_heads A hp) pos)))\<rparr>), Q_none, A)"
| "vq_pop_step hp (D_pub pos d) A =
     (let cell = vy_at (vy_heads A hp) pos; c = vy_cells A cell in
      (T_pop (D_count d), Q_none,
       vy_set_cell cell (c\<lparr>vy_sequence := pos + vy_buffer_mask (vy_heads A hp) + 1\<rparr>) A))"
| "vq_pop_step hp (D_count d) A =
     (T_idle, Q_got d, vy_set_head hp ((vy_heads A hp)\<lparr>vy_count := vy_count (vy_heads A hp) - 1\<rparr>) A)"

subsection \<open>Threads\<close>

text \<open>
  The system: the arena, where each thread is, the positions taken as a history of queue
  operations, the number of failed attempts and of calls that gave up after too many of
  them, and the elements that pops returned.
\<close>

record 'a vq_sys =
  vq_arena :: "'a vy_arena"
  vq_threads :: "vq_thread list"
  vq_lin :: "lane_event list"
  vq_retries :: nat
  vq_busy :: nat
  vq_got :: "ds_kv list"

datatype vq_act = C_insert nat ds_kv | C_pop nat | C_step nat

fun vq_note_events :: "vq_note \<Rightarrow> lane_event list" where
  "vq_note_events (Q_ins x) = [EvIns x DS_SUCCESS]"
| "vq_note_events (Q_pop x) = [EvPop DS_SUCCESS (Some x)]"
| "vq_note_events _ = []"

fun vq_note_got :: "vq_note \<Rightarrow> ds_kv list" where
  "vq_note_got (Q_got x) = [x]"
| "vq_note_got _ = []"

fun vq_step :: "ptr \<Rightarrow> vq_thread \<Rightarrow> 'a vy_arena \<Rightarrow> vq_thread \<times> vq_note \<times> 'a vy_arena" where
  "vq_step hp T_idle A = (T_idle, Q_none, A)"
| "vq_step hp (T_ins x pc) A = vq_insert_step hp x pc A"
| "vq_step hp (T_pop pc) A = vq_pop_step hp pc A"

text \<open>The guards at the entry of the calls.\<close>

definition vq_insert_call :: "ptr \<Rightarrow> ds_kv \<Rightarrow> 'a vy_arena \<Rightarrow> vq_thread" where
  "vq_insert_call hp x A = (if hp = NULL \<or> vy_buffer (vy_heads A hp) = NULL then T_idle else T_ins x E_pos)"

definition vq_pop_call :: "ptr \<Rightarrow> 'a vy_arena \<Rightarrow> vq_thread" where
  "vq_pop_call hp A = (if hp = NULL \<or> vy_buffer (vy_heads A hp) = NULL then T_idle else T_pop D_pos)"

text \<open>An idle thread may call insert or pop; any thread may make a step.  Other turns do nothing.\<close>

fun vq_turn :: "ptr \<Rightarrow> vq_act \<Rightarrow> 'a vq_sys \<Rightarrow> 'a vq_sys" where
  "vq_turn hp (C_insert i x) s =
     (if i < length (vq_threads s) \<and> vq_threads s ! i = T_idle
      then s\<lparr>vq_threads := (vq_threads s)[i := vq_insert_call hp x (vq_arena s)]\<rparr> else s)"
| "vq_turn hp (C_pop i) s =
     (if i < length (vq_threads s) \<and> vq_threads s ! i = T_idle
      then s\<lparr>vq_threads := (vq_threads s)[i := vq_pop_call hp (vq_arena s)]\<rparr> else s)"
| "vq_turn hp (C_step i) s =
     (if i < length (vq_threads s) then
        let (t, ev, A) = vq_step hp (vq_threads s ! i) (vq_arena s) in
        s\<lparr>vq_arena := A, vq_threads := (vq_threads s)[i := t], vq_lin := vq_lin s @ vq_note_events ev,
          vq_retries := vq_retries s + of_bool (ev = Q_retry), vq_busy := vq_busy s + of_bool (ev = Q_busy),
          vq_got := vq_got s @ vq_note_got ev\<rparr>
      else s)"

definition vq_run :: "ptr \<Rightarrow> vq_act list \<Rightarrow> 'a vq_sys \<Rightarrow> 'a vq_sys" where
  "vq_run hp acts s = fold (vq_turn hp) acts s"

definition vq_start :: "nat \<Rightarrow> 'a vy_arena \<Rightarrow> 'a vq_sys" where
  "vq_start n A = \<lparr>vq_arena = A, vq_threads = replicate n T_idle, vq_lin = [], vq_retries = 0, vq_busy = 0, vq_got = []\<rparr>"

subsection \<open>Positions\<close>

text \<open>The position whose cell a thread is filling or reading.\<close>

fun pos_in :: "vq_thread \<Rightarrow> nat option" where
  "pos_in (T_ins x (E_key pos)) = Some (unat pos)"
| "pos_in (T_ins x (E_val pos)) = Some (unat pos)"
| "pos_in (T_ins x (E_pub pos)) = Some (unat pos)"
| "pos_in _ = None"

fun pos_out :: "vq_thread \<Rightarrow> nat option" where
  "pos_out (T_pop (D_key pos)) = Some (unat pos)"
| "pos_out (T_pop (D_val pos k)) = Some (unat pos)"
| "pos_out (T_pop (D_pub pos d)) = Some (unat pos)"
| "pos_out _ = None"

text \<open>
  With \<open>N\<close> cells, \<open>D\<close> positions taken by pops, \<open>xs\<close> the elements of the positions taken by
  inserts: a cell with sequence number \<open>q\<close> waits for position \<open>q\<close>, or holds the element of
  the position before.
\<close>

definition cell_inv :: "nat \<Rightarrow> nat \<Rightarrow> ds_kv list \<Rightarrow> nat \<Rightarrow> nat \<Rightarrow> ds_kv \<Rightarrow> bool" where
  "cell_inv N D xs c q d \<longleftrightarrow>
     q mod N = c \<and> D \<le> q \<and> q < D + N \<and> length xs \<le> q + N \<or>
     (\<exists>p. q = Suc p \<and> p mod N = c \<and> p < length xs \<and> length xs \<le> p + N \<and> d = xs ! p)"

text \<open>What a thread knows; \<open>Q\<close> and \<open>dat\<close> are the sequence number and the element of each cell.\<close>

fun vq_local :: "nat \<Rightarrow> nat \<Rightarrow> ds_kv list \<Rightarrow> (nat \<Rightarrow> nat) \<Rightarrow> (nat \<Rightarrow> ds_kv) \<Rightarrow> vq_thread \<Rightarrow> bool" where
  "vq_local N D xs Q dat (T_ins x (E_seq pos r)) \<longleftrightarrow> unat pos \<le> length xs"
| "vq_local N D xs Q dat (T_ins x (E_cas pos r)) \<longleftrightarrow>
     unat pos < length xs \<or> unat pos = length xs \<and> Q (unat pos mod N) = unat pos"
| "vq_local N D xs Q dat (T_ins x (E_key pos)) \<longleftrightarrow> unat pos < length xs \<and> xs ! unat pos = x"
| "vq_local N D xs Q dat (T_ins x (E_val pos)) \<longleftrightarrow>
     unat pos < length xs \<and> xs ! unat pos = x \<and> key (dat (unat pos mod N)) = key x"
| "vq_local N D xs Q dat (T_ins x (E_pub pos)) \<longleftrightarrow>
     unat pos < length xs \<and> xs ! unat pos = x \<and> dat (unat pos mod N) = x"
| "vq_local N D xs Q dat (T_pop (D_seq pos r)) \<longleftrightarrow> unat pos \<le> D"
| "vq_local N D xs Q dat (T_pop (D_cas pos r)) \<longleftrightarrow>
     unat pos < D \<or> unat pos = D \<and> Q (unat pos mod N) = Suc (unat pos)"
| "vq_local N D xs Q dat (T_pop (D_key pos)) \<longleftrightarrow> unat pos < D"
| "vq_local N D xs Q dat (T_pop (D_val pos k)) \<longleftrightarrow> unat pos < D \<and> k = key (xs ! unat pos)"
| "vq_local N D xs Q dat (T_pop (D_pub pos d)) \<longleftrightarrow> unat pos < D \<and> d = xs ! unat pos"
| "vq_local N D xs Q dat _ \<longleftrightarrow> True"

text \<open>The counter updates still to come, and the elements taken and not yet returned.\<close>

fun vq_plus :: "vq_thread \<Rightarrow> u64" where
  "vq_plus (T_ins x (E_key pos)) = 1"
| "vq_plus (T_ins x (E_val pos)) = 1"
| "vq_plus (T_ins x (E_pub pos)) = 1"
| "vq_plus (T_ins x E_count) = 1"
| "vq_plus (T_pop (D_key pos)) = - 1"
| "vq_plus (T_pop (D_val pos k)) = - 1"
| "vq_plus (T_pop (D_pub pos d)) = - 1"
| "vq_plus (T_pop (D_count d)) = - 1"
| "vq_plus _ = 0"

fun vq_taken :: "ds_kv list \<Rightarrow> vq_thread \<Rightarrow> ds_kv multiset" where
  "vq_taken xs (T_pop (D_key pos)) = {#xs ! unat pos#}"
| "vq_taken xs (T_pop (D_val pos k)) = {#xs ! unat pos#}"
| "vq_taken xs (T_pop (D_pub pos d)) = {#xs ! unat pos#}"
| "vq_taken xs (T_pop (D_count d)) = {#d#}"
| "vq_taken xs _ = {#}"

text \<open>
  The invariant on positions: each position that was taken and whose cell does not yet show
  it has exactly one thread at work on it.
\<close>

definition vq_core ::
  "nat \<Rightarrow> nat \<Rightarrow> ds_kv list \<Rightarrow> (nat \<Rightarrow> nat) \<Rightarrow> (nat \<Rightarrow> ds_kv) \<Rightarrow> u64 \<Rightarrow> ds_kv list \<Rightarrow> vq_thread list \<Rightarrow> bool" where
  "vq_core N D xs Q dat cnt got ts \<longleftrightarrow>
     2 \<le> N \<and> D \<le> length xs \<and> length xs \<le> D + N \<and>
     (\<forall>c < N. cell_inv N D xs c (Q c) (dat c)) \<and>
     (\<forall>j < length ts. vq_local N D xs Q dat (ts ! j)) \<and>
     (\<forall>p. tally (\<lambda>t. pos_in t = Some p) ts = of_bool (p < length xs \<and> Q (p mod N) = p)) \<and>
     (\<forall>p. tally (\<lambda>t. pos_out t = Some p) ts = of_bool (p < D \<and> Q (p mod N) = Suc p)) \<and>
     cnt + tot (\<lambda>_. vq_plus) ts = of_nat (length xs) - of_nat D \<and>
     mset got + tot (\<lambda>_. vq_taken xs) ts = mset (take D xs)"

lemma vq_coreD:
  assumes "vq_core N D xs Q dat cnt got ts"
  shows "2 \<le> N" and "D \<le> length xs" and "length xs \<le> D + N"
    and "c < N \<Longrightarrow> cell_inv N D xs c (Q c) (dat c)"
    and "j < length ts \<Longrightarrow> vq_local N D xs Q dat (ts ! j)"
    and "tally (\<lambda>t. pos_in t = Some p) ts = of_bool (p < length xs \<and> Q (p mod N) = p)"
    and "tally (\<lambda>t. pos_out t = Some p) ts = of_bool (p < D \<and> Q (p mod N) = Suc p)"
    and "cnt + tot (\<lambda>_. vq_plus) ts = of_nat (length xs) - of_nat D"
    and "mset got + tot (\<lambda>_. vq_taken xs) ts = mset (take D xs)"
  using assms unfolding vq_core_def by blast+

lemma vq_working:
  assumes "vq_core N D xs Q dat cnt got ts" and "j < length ts"
  shows "pos_in (ts ! j) = Some p \<Longrightarrow> p < length xs \<and> Q (p mod N) = p"
    and "pos_out (ts ! j) = Some p \<Longrightarrow> p < D \<and> Q (p mod N) = Suc p"
    and "pos_in (ts ! j) = Some p \<Longrightarrow> k < length ts \<Longrightarrow> pos_in (ts ! k) = Some p \<Longrightarrow> k = j"
  using tally_pos [OF assms(2), of "\<lambda>t. pos_in t = Some p"] tally_pos [OF assms(2), of "\<lambda>t. pos_out t = Some p"]
    vq_coreD(6,7) [OF assms(1), of p] tally_one [OF _ _ _ assms(2), of "\<lambda>t. pos_in t = Some p" k]
  by (auto simp: of_bool_def split: if_splits)

lemma Suc_mod_neq: "2 \<le> N \<Longrightarrow> Suc p mod N \<noteq> p mod N" "2 \<le> N \<Longrightarrow> p mod N \<noteq> Suc p mod N"
  by (simp_all add: mod_Suc)

lemma vq_local_frame:
  assumes "vq_local N D xs Q dat t" and "D \<le> D'" and "xs' = xs @ zs" and "D \<le> length xs"
    and "\<And>p. Q (p mod N) = p \<Longrightarrow> Q' (p mod N) = p \<or> p < length xs'"
    and "\<And>p. Q (p mod N) = Suc p \<Longrightarrow> Q' (p mod N) = Suc p \<or> p < D'"
    and "\<And>p. pos_in t = Some p \<Longrightarrow> dat' (p mod N) = dat (p mod N)"
  shows "vq_local N D' xs' Q' dat' t" and "vq_taken xs' t = vq_taken xs t"
proof -
  show "vq_local N D' xs' Q' dat' t"
  proof (cases t)
    case (T_ins x pc)
    then show ?thesis using assms by (cases pc) (auto simp: nth_append)
  next
    case (T_pop pc)
    then show ?thesis using assms by (cases pc) (auto simp: nth_append)
  qed simp
  show "vq_taken xs' t = vq_taken xs t"
  proof (cases t)
    case (T_pop pc)
    then show ?thesis using assms(1,3,4) by (cases pc) (auto simp: nth_append)
  qed simp_all
qed

text \<open>A turn of thread \<open>i\<close>.\<close>

lemma vq_core_turn:
  assumes core: "vq_core N D xs Q dat cnt got ts" and i: "i < length ts"
    and D: "D \<le> D'" "D' \<le> length xs'" and xs: "xs' = xs @ zs" "length xs' \<le> D' + N"
    and cells: "\<And>c. c < N \<Longrightarrow> cell_inv N D' xs' c (Q' c) (dat' c)"
    and Q: "\<And>p. Q (p mod N) = p \<Longrightarrow> Q' (p mod N) = p \<or> p < length xs'"
      "\<And>p. Q (p mod N) = Suc p \<Longrightarrow> Q' (p mod N) = Suc p \<or> p < D'"
    and dat: "\<And>c. dat' c \<noteq> dat c \<Longrightarrow> \<exists>p. pos_in (ts ! i) = Some p \<and> c = p mod N"
    and loc: "vq_local N D' xs' Q' dat' t"
    and ins: "\<And>p. of_bool (p < length xs' \<and> Q' (p mod N) = p) + of_bool (pos_in (ts ! i) = Some p) =
      of_bool (p < length xs \<and> Q (p mod N) = p) + (of_bool (pos_in t = Some p) :: nat)"
    and outs: "\<And>p. of_bool (p < D' \<and> Q' (p mod N) = Suc p) + of_bool (pos_out (ts ! i) = Some p) =
      of_bool (p < D \<and> Q (p mod N) = Suc p) + (of_bool (pos_out t = Some p) :: nat)"
    and plus: "cnt' + vq_plus t - (of_nat (length xs') - of_nat D') = cnt + vq_plus (ts ! i) - (of_nat (length xs) - of_nat D)"
    and taken: "mset got' + vq_taken xs' t + mset (take D xs) = mset got + vq_taken xs (ts ! i) + mset (take D' xs')"
  shows "vq_core N D' xs' Q' dat' cnt' got' (ts[i := t])"
proof -
  note d = vq_coreD [OF core]
  have fr: "vq_local N D' xs' Q' dat' (ts ! j)" "vq_taken xs' (ts ! j) = vq_taken xs (ts ! j)"
    if "j < length ts" "j \<noteq> i" for j
  proof -
    have "dat' (p mod N) = dat (p mod N)" if "pos_in (ts ! j) = Some p" for p
      using dat [of "p mod N"] vq_working(1) [OF core \<open>j < length ts\<close> that] vq_working(1) [OF core i]
        vq_working(3) [OF core \<open>j < length ts\<close> that i] \<open>j \<noteq> i\<close> by metis
    then show "vq_local N D' xs' Q' dat' (ts ! j)" "vq_taken xs' (ts ! j) = vq_taken xs (ts ! j)"
      using vq_local_frame [OF d(5) [OF that(1)] D(1) xs(1) d(2), of Q' dat'] Q by blast+
  qed
  have local: "vq_local N D' xs' Q' dat' (ts[i := t] ! j)" if "j < length ts" for j
    using fr(1) [OF that] loc i by (cases "j = i") auto
  have t1: "tally (\<lambda>t. pos_in t = Some p) (ts[i := t]) = of_bool (p < length xs' \<and> Q' (p mod N) = p)" for p
    using tally_update [OF i, of "\<lambda>t. pos_in t = Some p" t] ins [of p] d(6) [of p] by linarith
  have t2: "tally (\<lambda>t. pos_out t = Some p) (ts[i := t]) = of_bool (p < D' \<and> Q' (p mod N) = Suc p)" for p
    using tally_update [OF i, of "\<lambda>t. pos_out t = Some p" t] outs [of p] d(7) [of p] by linarith
  have c: "cnt' + tot (\<lambda>_. vq_plus) (ts[i := t]) = of_nat (length xs') - of_nat D'"
    by (rule sum_moves [OF d(8) tot_update [OF i] plus])
  have g: "mset got' + tot (\<lambda>_. vq_taken xs') (ts[i := t]) = mset (take D' xs')"
    by (rule mset_moves [OF d(9) tot_change [OF i, where g = "\<lambda>_. vq_taken xs'" and f = "\<lambda>_. vq_taken xs"] taken]) (rule fr(2))
  show ?thesis unfolding vq_core_def using d(1) D(2) xs(2) cells local t1 t2 c g by simp
qed

subsection \<open>The moves\<close>

lemma cell_waiting: "cell_inv N D xs (q mod N) q d \<Longrightarrow> 2 \<le> N \<Longrightarrow> D \<le> q \<and> q < D + N \<and> length xs \<le> q + N"
  by (auto simp: cell_inv_def Suc_mod_neq)

lemma cell_holding:
  "cell_inv N D xs (p mod N) (Suc p) d \<Longrightarrow> 2 \<le> N \<Longrightarrow> p < length xs \<and> length xs \<le> p + N \<and> d = xs ! p"
  by (auto simp: cell_inv_def Suc_mod_neq)

text \<open>Steps that change neither cells nor positions.\<close>

lemma vq_core_move:
  assumes core: "vq_core N D xs Q dat cnt got ts" and i: "i < length ts"
    and t: "vq_local N D xs Q dat t" "pos_in t = pos_in (ts ! i)" "pos_out t = pos_out (ts ! i)"
    and plus: "cnt' + vq_plus t = cnt + vq_plus (ts ! i)"
    and taken: "mset got' + vq_taken xs t = mset got + vq_taken xs (ts ! i)"
  shows "vq_core N D xs Q dat cnt' got' (ts[i := t])"
  using vq_coreD(2-4) [OF core] t plus taken by (intro vq_core_turn [OF core i, where zs = "[]"]) auto

text \<open>Storing into the cell one fills.\<close>

lemma vq_core_write:
  assumes core: "vq_core N D xs Q dat cnt got ts" and i: "i < length ts"
    and p: "pos_in (ts ! i) = Some p" "pos_in t = Some p" "pos_out t = pos_out (ts ! i)"
    and t: "vq_local N D xs Q (dat(p mod N := v)) t" "vq_plus t = vq_plus (ts ! i)" "vq_taken xs t = vq_taken xs (ts ! i)"
  shows "vq_core N D xs Q (dat(p mod N := v)) cnt got (ts[i := t])"
proof -
  note d = vq_coreD [OF core]
  have q: "Q (p mod N) = p" using vq_working(1) [OF core i p(1)] by simp
  have "cell_inv N D xs c (Q c) ((dat(p mod N := v)) c)" if "c < N" for c
    using d(4) [OF that] cell_waiting [of N D xs p "dat c"] d(1) q by (auto simp: cell_inv_def)
  then show ?thesis
    using d(2,3) p t by (intro vq_core_turn [OF core i, where zs = "[]"]) (auto split: if_splits)
qed

text \<open>Taking the next position for an insert; showing the element.\<close>

lemma vq_core_take_in:
  assumes core: "vq_core N D xs Q dat cnt got ts" and i: "i < length ts"
    and q: "Q (length xs mod N) = length xs"
    and old: "pos_in (ts ! i) = None" "vq_plus (ts ! i) = 0" "vq_taken xs (ts ! i) = {#}" "pos_out t = pos_out (ts ! i)"
    and t: "vq_local N D (xs @ [x]) Q dat t" "pos_in t = Some (length xs)" "vq_plus t = 1" "vq_taken (xs @ [x]) t = {#}"
  shows "vq_core N D (xs @ [x]) Q dat cnt got (ts[i := t])"
proof -
  note d = vq_coreD [OF core]
  have N: "0 < N" "length xs mod N < N" using d(1) by simp_all
  have w: "length xs < D + N" using cell_waiting [of N D xs "length xs" "dat (length xs mod N)"] d(4) [OF N(2)] q d(1) by simp
  have "cell_inv N D (xs @ [x]) c (Q c) (dat c)" if "c < N" for c
  proof (cases "c = length xs mod N")
    case True
    then show ?thesis using q w d(1,2) by (simp add: cell_inv_def)
  next
    case False
    have "length xs \<noteq> q + N" if "q mod N = c" for q using False that by auto
    then show ?thesis using d(4) [OF that] by (auto simp: cell_inv_def nth_append Suc_le_eq le_neq_implies_less)
  qed
  then show ?thesis
    using d(2) w t old q
    by (intro vq_core_turn [OF core i, where zs = "[x]"]) (auto simp: less_Suc_eq)
qed

lemma vq_core_show:
  assumes core: "vq_core N D xs Q dat cnt got ts" and i: "i < length ts"
    and p: "pos_in (ts ! i) = Some p" "dat (p mod N) = xs ! p"
    and t: "vq_local N D xs (Q(p mod N := Suc p)) dat t" "pos_in t = None" "pos_out t = pos_out (ts ! i)"
      "vq_plus t = vq_plus (ts ! i)" "vq_taken xs t = vq_taken xs (ts ! i)"
  shows "vq_core N D xs (Q(p mod N := Suc p)) dat cnt got (ts[i := t])"
proof -
  note d = vq_coreD [OF core]
  have w: "p < length xs" "Q (p mod N) = p" using vq_working(1) [OF core i p(1)] by simp_all
  have b: "D \<le> p" "length xs \<le> p + N"
    using cell_waiting [of N D xs p "dat (p mod N)"] d(4) [of "p mod N"] w(2) d(1) by simp_all
  have s: "Suc r mod N \<noteq> r mod N" "r mod N \<noteq> Suc r mod N" for r using Suc_mod_neq [OF d(1)] .
  have "cell_inv N D xs c ((Q(p mod N := Suc p)) c) (dat c)" if "c < N" for c
    using d(4) [OF that] w b p(2) by (auto simp: cell_inv_def)
  then show ?thesis
    using d(2,3) t w b s p(1) by (intro vq_core_turn [OF core i, where zs = "[]"]) (auto split: if_splits)
qed

text \<open>Taking the next position for a pop; releasing the cell for the next round.\<close>

lemma vq_core_take_out:
  assumes core: "vq_core N D xs Q dat cnt got ts" and i: "i < length ts"
    and q: "Q (D mod N) = Suc D"
    and old: "pos_out (ts ! i) = None" "vq_plus (ts ! i) = 0" "vq_taken xs (ts ! i) = {#}" "pos_in t = pos_in (ts ! i)"
    and t: "vq_local N (Suc D) xs Q dat t" "pos_out t = Some D" "vq_plus t = - 1" "vq_taken xs t = {#xs ! D#}"
  shows "D < length xs" and "dat (D mod N) = xs ! D" and "vq_core N (Suc D) xs Q dat cnt got (ts[i := t])"
proof -
  note d = vq_coreD [OF core]
  have N: "D mod N < N" using d(1) by simp
  have w: "D < length xs" "length xs \<le> D + N" "dat (D mod N) = xs ! D"
    using cell_holding [of N D xs D "dat (D mod N)"] d(4) [OF N] q d(1) by simp_all
  then show "D < length xs" "dat (D mod N) = xs ! D" by simp_all
  have s: "Suc r mod N \<noteq> r mod N" "r mod N \<noteq> Suc r mod N" for r using Suc_mod_neq [OF d(1)] .
  have "cell_inv N (Suc D) xs c (Q c) (dat c)" if c: "c < N" for c
  proof (cases "c = D mod N")
    case True
    then show ?thesis using q w by (simp add: cell_inv_def)
  next
    case False
    then have "D \<noteq> r" if "r mod N = c" for r using that by auto
    then show ?thesis using d(4) [OF c] by (auto simp: cell_inv_def Suc_le_eq le_neq_implies_less)
  qed
  then show "vq_core N (Suc D) xs Q dat cnt got (ts[i := t])"
    using d(2,3) w t old q
    by (intro vq_core_turn [OF core i, where zs = "[]"]) (auto simp: less_Suc_eq take_Suc_conv_app_nth)
qed

lemma vq_core_release:
  assumes core: "vq_core N D xs Q dat cnt got ts" and i: "i < length ts"
    and p: "pos_out (ts ! i) = Some p"
    and t: "vq_local N D xs (Q(p mod N := p + N)) dat t" "pos_out t = None" "pos_in t = pos_in (ts ! i)"
      "vq_plus t = vq_plus (ts ! i)" "vq_taken xs t = vq_taken xs (ts ! i)"
  shows "vq_core N D xs (Q(p mod N := p + N)) dat cnt got (ts[i := t])"
proof -
  note d = vq_coreD [OF core]
  have w: "p < D" "Q (p mod N) = Suc p" using vq_working(2) [OF core i p] by simp_all
  have b: "length xs \<le> p + N" using cell_holding [of N D xs p "dat (p mod N)"] d(4) [of "p mod N"] w(2) d(1) by simp
  have s: "Suc r mod N \<noteq> r mod N" "r mod N \<noteq> Suc r mod N" for r using Suc_mod_neq [OF d(1)] .
  have s': "p + N \<noteq> Suc r" if "r mod N = p mod N" for r using s(1) [of r] that by (metis mod_add_self2)
  have "cell_inv N D xs c ((Q(p mod N := p + N)) c) (dat c)" if "c < N" for c
    using d(2) d(4) [OF that] w b by (auto simp: cell_inv_def)
  then show ?thesis
    using d(2,3) t w b s s' p by (intro vq_core_turn [OF core i, where zs = "[]"]) (auto split: if_splits, metis)
qed

end
