(* ===== verification/VyukhovThreadRuns.thy ===== *)
theory VyukhovThreadRuns
  imports VyukhovThreads
begin

text \<open>
  Runs of \<open>VyukhovThreads\<close>: the invariant of the arena, that every step of every thread keeps
  it, and what follows for all schedules: first in, first out, what the failing answers mean,
  and progress.
\<close>

subsection \<open>The invariant of the arena\<close>

text \<open>Sequence numbers and elements of the cells, by index.\<close>

definition vq_seqs :: "ptr \<Rightarrow> 'a vy_arena \<Rightarrow> nat \<Rightarrow> nat" where
  "vq_seqs hp A c = (let h = vy_heads A hp in
     if c < vy_cap h then unat (vy_sequence (vy_cells A (vy_cell (vy_buffer h) (of_nat c)))) else 0)"

definition vq_data :: "ptr \<Rightarrow> 'a vy_arena \<Rightarrow> nat \<Rightarrow> ds_kv" where
  "vq_data hp A c = (let h = vy_heads A hp in
     if c < vy_cap h then vy_data (vy_cells A (vy_cell (vy_buffer h) (of_nat c))) else zero_kv)"

definition vq_inv :: "ptr \<Rightarrow> 'a vq_sys \<Rightarrow> bool" where
  "vq_inv hp s \<longleftrightarrow>
     (let A = vq_arena s; h = vy_heads A hp; xs = accepted (vq_lin s); D = length (delivered (vq_lin s)) in
      hp \<noteq> NULL \<and> vy_wf h \<and> vy_enqueue_pos h = of_nat (length xs) \<and> vy_dequeue_pos h = of_nat D \<and>
      queue_replay [] (vq_lin s) = Some (drop D xs) \<and>
      vq_core (vy_cap h) D xs (vq_seqs hp A) (vq_data hp A) (vy_count h) (vq_got s) (vq_threads s))"

lemma vq_invD:
  assumes "vq_inv hp s"
  shows "hp \<noteq> NULL" and "vy_wf (vy_heads (vq_arena s) hp)"
    and "vy_enqueue_pos (vy_heads (vq_arena s) hp) = of_nat (length (accepted (vq_lin s)))"
    and "vy_dequeue_pos (vy_heads (vq_arena s) hp) = of_nat (length (delivered (vq_lin s)))"
    and "queue_replay [] (vq_lin s) = Some (drop (length (delivered (vq_lin s))) (accepted (vq_lin s)))"
    and "vq_core (vy_cap (vy_heads (vq_arena s) hp)) (length (delivered (vq_lin s))) (accepted (vq_lin s))
      (vq_seqs hp (vq_arena s)) (vq_data hp (vq_arena s)) (vy_count (vy_heads (vq_arena s) hp)) (vq_got s) (vq_threads s)"
  using assms unfolding vq_inv_def Let_def by blast+

lemma vy_at_index:
  assumes "vy_wf h"
  shows "vy_at h pos = vy_cell (vy_buffer h) (of_nat (unat pos mod vy_cap h))"
proof -
  have "unat (pos AND vy_buffer_mask h) = unat pos mod vy_cap h" using vy_masked [OF assms, of 0 pos] by simp
  from arg_cong [OF this, of "of_nat :: nat \<Rightarrow> u64"] show ?thesis by (simp add: vy_at_def)
qed

lemma vy_at_same:
  assumes w: "vy_wf h" and c: "c < vy_cap h"
  shows "vy_cell (vy_buffer h) (of_nat c) = vy_at h pos \<longleftrightarrow> c = unat pos mod vy_cap h"
proof -
  have b: "0 < vy_cap h" "vy_cap h \<le> 2 ^ 32" using w by (simp_all add: vy_wf_def)
  then have "c < 2 ^ 32" "unat pos mod vy_cap h < 2 ^ 32"
    using c mod_less_divisor [OF b(1), of "unat pos"] by linarith+
  then show ?thesis unfolding vy_at_index [OF w] by (rule vy_cell_of_nat)
qed

lemma vq_view_heads [simp]:
  "vq_seqs hp (vy_set_head hp ((vy_heads A hp)\<lparr>vy_enqueue_pos := v\<rparr>) A) = vq_seqs hp A"
  "vq_seqs hp (vy_set_head hp ((vy_heads A hp)\<lparr>vy_dequeue_pos := v\<rparr>) A) = vq_seqs hp A"
  "vq_seqs hp (vy_set_head hp ((vy_heads A hp)\<lparr>vy_count := v\<rparr>) A) = vq_seqs hp A"
  "vq_data hp (vy_set_head hp ((vy_heads A hp)\<lparr>vy_enqueue_pos := v\<rparr>) A) = vq_data hp A"
  "vq_data hp (vy_set_head hp ((vy_heads A hp)\<lparr>vy_dequeue_pos := v\<rparr>) A) = vq_data hp A"
  "vq_data hp (vy_set_head hp ((vy_heads A hp)\<lparr>vy_count := v\<rparr>) A) = vq_data hp A"
  by (simp_all add: vq_seqs_def vq_data_def Let_def fun_eq_iff)

lemma vq_view_cell:
  assumes w: "vy_wf (vy_heads A hp)"
  shows "vq_seqs hp (vy_set_cell (vy_at (vy_heads A hp) pos) c A) =
      (vq_seqs hp A)(unat pos mod vy_cap (vy_heads A hp) := unat (vy_sequence c))"
    and "vq_data hp (vy_set_cell (vy_at (vy_heads A hp) pos) c A) =
      (vq_data hp A)(unat pos mod vy_cap (vy_heads A hp) := vy_data c)"
    and "vq_seqs hp A (unat pos mod vy_cap (vy_heads A hp)) = unat (vy_sequence (vy_cells A (vy_at (vy_heads A hp) pos)))"
    and "vq_data hp A (unat pos mod vy_cap (vy_heads A hp)) = vy_data (vy_cells A (vy_at (vy_heads A hp) pos))"
proof -
  have "0 < vy_cap (vy_heads A hp)" using w by (simp add: vy_wf_def)
  then have m: "unat pos mod vy_cap (vy_heads A hp) < vy_cap (vy_heads A hp)" by simp
  show "vq_seqs hp (vy_set_cell (vy_at (vy_heads A hp) pos) c A) =
      (vq_seqs hp A)(unat pos mod vy_cap (vy_heads A hp) := unat (vy_sequence c))"
    "vq_data hp (vy_set_cell (vy_at (vy_heads A hp) pos) c A) =
      (vq_data hp A)(unat pos mod vy_cap (vy_heads A hp) := vy_data c)"
    using vy_at_same [OF w, of _ pos] m by (auto simp: vq_seqs_def vq_data_def Let_def fun_eq_iff)
  show "vq_seqs hp A (unat pos mod vy_cap (vy_heads A hp)) = unat (vy_sequence (vy_cells A (vy_at (vy_heads A hp) pos)))"
    "vq_data hp A (unat pos mod vy_cap (vy_heads A hp)) = vy_data (vy_cells A (vy_at (vy_heads A hp) pos))"
    using m by (simp_all add: vq_seqs_def vq_data_def Let_def vy_at_index [OF w])
qed

text \<open>The sequence numbers stay small.\<close>

lemma cell_inv_bound: "cell_inv N D xs c q d \<Longrightarrow> D \<le> length xs \<Longrightarrow> q \<le> length xs + N"
  by (auto simp: cell_inv_def)

lemma vq_seq_bound:
  assumes inv: "vq_inv hp s" and small: "length (accepted (vq_lin s)) < 2 ^ 62"
  shows "unat (vy_sequence (vy_cells (vq_arena s) (vy_at (vy_heads (vq_arena s) hp) pos))) < 2 ^ 63"
proof -
  note d = vq_invD [OF inv]
  let ?N = "vy_cap (vy_heads (vq_arena s) hp)"
  have N: "0 < ?N" "?N \<le> 2 ^ 32" using d(2) by (simp_all add: vy_wf_def)
  have "vq_seqs hp (vq_arena s) (unat pos mod ?N) \<le> length (accepted (vq_lin s)) + ?N"
    using cell_inv_bound [OF vq_coreD(4) [OF d(6)] vq_coreD(2) [OF d(6)]] N(1) by simp
  then show ?thesis using small N(2) by (simp add: vq_view_cell(3) [OF d(2)])
qed

subsection \<open>Every step keeps the invariant\<close>

lemma vq_replay_snoc:
  "queue_replay xs (evs @ [ev]) = (case queue_replay xs evs of None \<Rightarrow> None | Some ys \<Rightarrow> queue_replay ys [ev])"
  by (simp only: queue_replay_is_lane_replay lane_replay_append)

lemma vq_inv_counts [simp]:
  "vq_inv hp (vq_busy_update f s) = vq_inv hp s" "vq_inv hp (vq_retries_update f s) = vq_inv hp s"
  "vq_inv hp (vq_got_update g (vq_busy_update f s)) = vq_inv hp (vq_got_update g s)"
  "vq_inv hp (vq_got_update g (vq_retries_update f s)) = vq_inv hp (vq_got_update g s)"
  by (simp_all add: vq_inv_def Let_def)

text \<open>A step that leaves cells, positions and history alone.\<close>

lemma vq_inv_move:
  assumes inv: "vq_inv hp s" and i: "i < length (vq_threads s)"
    and t: "vq_local (vy_cap (vy_heads (vq_arena s) hp)) (length (delivered (vq_lin s))) (accepted (vq_lin s))
      (vq_seqs hp (vq_arena s)) (vq_data hp (vq_arena s)) t"
      "pos_in t = pos_in (vq_threads s ! i)" "pos_out t = pos_out (vq_threads s ! i)"
    and plus: "cnt + vq_plus t = vy_count (vy_heads (vq_arena s) hp) + vq_plus (vq_threads s ! i)"
    and taken: "mset got + vq_taken (accepted (vq_lin s)) t = vq_taken (accepted (vq_lin s)) (vq_threads s ! i)"
  shows "vq_inv hp (s\<lparr>vq_arena := vy_set_head hp ((vy_heads (vq_arena s) hp)\<lparr>vy_count := cnt\<rparr>) (vq_arena s),
      vq_threads := (vq_threads s)[i := t], vq_got := vq_got s @ got\<rparr>)"
proof -
  note d = vq_invD [OF inv]
  have "vq_core (vy_cap (vy_heads (vq_arena s) hp)) (length (delivered (vq_lin s))) (accepted (vq_lin s))
      (vq_seqs hp (vq_arena s)) (vq_data hp (vq_arena s)) cnt (vq_got s @ got) ((vq_threads s)[i := t])"
    using taken by (intro vq_core_move [OF d(6) i t plus]) (simp add: ac_simps)
  then show ?thesis unfolding vq_inv_def Let_def using d(1-5) by simp
qed

lemma vq_inv_read:
  assumes "vq_inv hp s" and "i < length (vq_threads s)"
    and "vq_local (vy_cap (vy_heads (vq_arena s) hp)) (length (delivered (vq_lin s))) (accepted (vq_lin s))
      (vq_seqs hp (vq_arena s)) (vq_data hp (vq_arena s)) t"
      "pos_in t = pos_in (vq_threads s ! i)" "pos_out t = pos_out (vq_threads s ! i)" "vq_plus t = vq_plus (vq_threads s ! i)"
      "vq_taken (accepted (vq_lin s)) t = vq_taken (accepted (vq_lin s)) (vq_threads s ! i)"
  shows "vq_inv hp (s\<lparr>vq_threads := (vq_threads s)[i := t]\<rparr>)"
proof -
  have "(vy_heads (vq_arena s) hp)\<lparr>vy_count := vy_count (vy_heads (vq_arena s) hp)\<rparr> = vy_heads (vq_arena s) hp" by simp
  then show ?thesis
    using vq_inv_move [OF assms(1-5), of "vy_count (vy_heads (vq_arena s) hp)" "[]"] assms(6,7) by simp
qed

text \<open>A step that changes a cell.\<close>

lemma vq_inv_cell:
  assumes inv: "vq_inv hp s"
    and core: "vq_core (vy_cap (vy_heads (vq_arena s) hp)) (length (delivered (vq_lin s))) (accepted (vq_lin s))
      ((vq_seqs hp (vq_arena s))(unat pos mod vy_cap (vy_heads (vq_arena s) hp) := unat (vy_sequence c)))
      ((vq_data hp (vq_arena s))(unat pos mod vy_cap (vy_heads (vq_arena s) hp) := vy_data c))
      (vy_count (vy_heads (vq_arena s) hp)) (vq_got s) ts"
  shows "vq_inv hp (s\<lparr>vq_arena := vy_set_cell (vy_at (vy_heads (vq_arena s) hp) pos) c (vq_arena s), vq_threads := ts\<rparr>)"
  unfolding vq_inv_def Let_def using vq_invD [OF inv] core by (simp add: vq_view_cell)

text \<open>The answers of the comparisons with the sequence number.\<close>

lemma vq_compare:
  assumes inv: "vq_inv hp s" and i: "i < length (vq_threads s)" and small: "length (accepted (vq_lin s)) < 2 ^ 62"
  shows "vq_threads s ! i = T_ins x (E_seq pos r) \<Longrightarrow>
      sint (vy_sequence (vy_cells (vq_arena s) (vy_at (vy_heads (vq_arena s) hp) pos)) - pos) =
      int (vq_seqs hp (vq_arena s) (unat pos mod vy_cap (vy_heads (vq_arena s) hp))) - int (unat pos)"
    and "vq_threads s ! i = T_pop (D_seq pos r) \<Longrightarrow>
      sint (vy_sequence (vy_cells (vq_arena s) (vy_at (vy_heads (vq_arena s) hp) pos)) - (pos + 1)) =
      int (vq_seqs hp (vq_arena s) (unat pos mod vy_cap (vy_heads (vq_arena s) hp))) - int (Suc (unat pos))"
proof -
  note l = vq_coreD(5) [OF vq_invD(6) [OF inv] i] and D = vq_coreD(2) [OF vq_invD(6) [OF inv]]
  let ?q = "vy_sequence (vy_cells (vq_arena s) (vy_at (vy_heads (vq_arena s) hp) pos))"
  have q: "unat ?q < 2 ^ 63" by (rule vq_seq_bound [OF inv small])
  show "sint (?q - pos) = int (vq_seqs hp (vq_arena s) (unat pos mod vy_cap (vy_heads (vq_arena s) hp))) - int (unat pos)"
    if "vq_threads s ! i = T_ins x (E_seq pos r)"
  proof -
    have "unat pos < 2 ^ 63" using that l small by simp
    then show ?thesis unfolding vq_view_cell(3) [OF vq_invD(2) [OF inv]] by (rule sint_diff_u64 [OF q])
  qed
  show "sint (?q - (pos + 1)) = int (vq_seqs hp (vq_arena s) (unat pos mod vy_cap (vy_heads (vq_arena s) hp))) - int (Suc (unat pos))"
    if "vq_threads s ! i = T_pop (D_seq pos r)"
  proof -
    have p: "unat pos < 2 ^ 62" using that l small D by simp
    then have s: "unat (pos + 1) = Suc (unat pos)" by (intro unat_Suc_u64) simp
    then have "unat (pos + 1) < 2 ^ 63" using p by simp
    then show ?thesis unfolding vq_view_cell(3) [OF vq_invD(2) [OF inv]] s [symmetric] by (rule sint_diff_u64 [OF q])
  qed
qed

lemma vq_insert_inv:
  assumes inv: "vq_inv hp s" and i: "i < length (vq_threads s)" and small: "length (accepted (vq_lin s)) < 2 ^ 62"
    and pc: "vq_threads s ! i = T_ins x pc"
  shows "vq_inv hp (vq_turn hp (C_step i) s)"
proof -
  note d = vq_invD [OF inv] and l = vq_coreD(5) [OF vq_invD(6) [OF inv] i]
  let ?A = "vq_arena s" and ?h = "vy_heads (vq_arena s) hp" and ?xs = "accepted (vq_lin s)"
  have E: "unat (vy_enqueue_pos ?h) = length ?xs" using small by (simp add: d(3) unat_of_nat_u64)
  show ?thesis
  proof (cases pc)
    case E_pos
    then show ?thesis
      using i pc E vq_inv_read [OF inv i, of "T_ins x (E_seq (vy_enqueue_pos ?h) 0)"]
      by (simp add: vq_ins_retry_def DS_VYUKHOV_MAX_RETRIES_def)
  next
    case (E_seq pos r)
    let ?q = "vy_sequence (vy_cells ?A (vy_at ?h pos))"
    have p: "unat pos \<le> length ?xs" using l pc E_seq by simp
    have "vq_seqs hp ?A (unat pos mod vy_cap ?h) = unat pos" if "sint (?q - pos) = 0"
      using that vq_compare(1) [OF inv i small pc [unfolded E_seq]] by linarith
    then have "vq_inv hp (s\<lparr>vq_threads := (vq_threads s)[i := T_ins x (E_cas pos r)]\<rparr>)" if "sint (?q - pos) = 0"
      using that pc E_seq p by (intro vq_inv_read [OF inv i]) auto
    then show ?thesis
      using i pc E_seq vq_inv_read [OF inv i, of T_idle] vq_inv_read [OF inv i, of "T_ins x (E_again r)"] by (simp add: Let_def)
  next
    case (E_cas pos r)
    show ?thesis
    proof (cases "vy_enqueue_pos ?h = pos")
      case True
      have "vq_core (vy_cap ?h) (length (delivered (vq_lin s))) (?xs @ [x]) (vq_seqs hp ?A) (vq_data hp ?A) (vy_count ?h)
          (vq_got s) ((vq_threads s)[i := T_ins x (E_key pos)])"
        using l pc E_cas E True by (intro vq_core_take_in [OF d(6) i]) auto
      then have "vq_inv hp (s\<lparr>vq_arena := vy_set_head hp (?h\<lparr>vy_enqueue_pos := pos + 1\<rparr>) ?A,
          vq_threads := (vq_threads s)[i := T_ins x (E_key pos)], vq_lin := vq_lin s @ [EvIns x DS_SUCCESS]\<rparr>)"
        unfolding vq_inv_def Let_def using d(1-5) True vq_coreD(2) [OF d(6)] by (simp add: vq_replay_snoc)
      then show ?thesis using i pc E_cas True by (simp add: Let_def)
    next
      case False
      then show ?thesis
        using i pc E_cas vq_inv_read [OF inv i, of "T_ins x (E_again r)"] by (auto simp: Let_def arena_atomic_cmpxchg_def)
    qed
  next
    case (E_again r)
    then show ?thesis
      using i pc E vq_inv_read [OF inv i, of "T_ins x (E_seq (vy_enqueue_pos ?h) (Suc r))"] vq_inv_read [OF inv i, of T_idle]
      by (simp add: vq_ins_retry_def)
  next
    case (E_key pos)
    let ?c = "vy_cells ?A (vy_at ?h pos)"
    have "vq_core (vy_cap ?h) (length (delivered (vq_lin s))) ?xs (vq_seqs hp ?A)
        ((vq_data hp ?A)(unat pos mod vy_cap ?h := (vy_data ?c)\<lparr>key := key x\<rparr>)) (vy_count ?h) (vq_got s)
        ((vq_threads s)[i := T_ins x (E_val pos)])"
      using l pc E_key by (intro vq_core_write [OF d(6) i]) auto
    then show ?thesis
      using i pc E_key vq_inv_cell [OF inv, of pos "?c\<lparr>vy_data := (vy_data ?c)\<lparr>key := key x\<rparr>\<rparr>"]
      by (simp add: Let_def flip: vq_view_cell(3) [OF d(2)])
  next
    case (E_val pos)
    let ?c = "vy_cells ?A (vy_at ?h pos)"
    have "(vy_data ?c)\<lparr>val := val x\<rparr> = x"
      using l pc E_val by (cases x; cases "vy_data ?c") (simp add: vq_view_cell(4) [OF d(2)])
    then have "vq_core (vy_cap ?h) (length (delivered (vq_lin s))) ?xs (vq_seqs hp ?A)
        ((vq_data hp ?A)(unat pos mod vy_cap ?h := (vy_data ?c)\<lparr>val := val x\<rparr>)) (vy_count ?h) (vq_got s)
        ((vq_threads s)[i := T_ins x (E_pub pos)])"
      using l pc E_val by (intro vq_core_write [OF d(6) i]) auto
    then show ?thesis
      using i pc E_val vq_inv_cell [OF inv, of pos "?c\<lparr>vy_data := (vy_data ?c)\<lparr>val := val x\<rparr>\<rparr>"]
      by (simp add: Let_def flip: vq_view_cell(3) [OF d(2)])
  next
    case (E_pub pos)
    let ?c = "vy_cells ?A (vy_at ?h pos)"
    have "unat (pos + 1) = Suc (unat pos)" using l pc E_pub small by (intro unat_Suc_u64) simp
    moreover have "vq_core (vy_cap ?h) (length (delivered (vq_lin s))) ?xs
        ((vq_seqs hp ?A)(unat pos mod vy_cap ?h := Suc (unat pos))) (vq_data hp ?A) (vy_count ?h) (vq_got s)
        ((vq_threads s)[i := T_ins x E_count])"
      using l pc E_pub by (intro vq_core_show [OF d(6) i]) auto
    ultimately show ?thesis
      using i pc E_pub vq_inv_cell [OF inv, of pos "?c\<lparr>vy_sequence := pos + 1\<rparr>"]
      by (simp add: Let_def flip: vq_view_cell(4) [OF d(2)])
  next
    case E_count
    then show ?thesis
      using i pc vq_inv_move [OF inv i, of T_idle "vy_count ?h + 1" "[]"] by simp
  qed
qed

lemma vq_pop_inv:
  assumes inv: "vq_inv hp s" and i: "i < length (vq_threads s)" and small: "length (accepted (vq_lin s)) < 2 ^ 62"
    and pc: "vq_threads s ! i = T_pop pc"
  shows "vq_inv hp (vq_turn hp (C_step i) s)"
proof -
  note d = vq_invD [OF inv] and l = vq_coreD(5) [OF vq_invD(6) [OF inv] i] and c = vq_coreD [OF vq_invD(6) [OF inv]]
  let ?A = "vq_arena s" and ?h = "vy_heads (vq_arena s) hp" and ?xs = "accepted (vq_lin s)"
    and ?D = "length (delivered (vq_lin s))"
  have D: "unat (vy_dequeue_pos ?h) = ?D" using small c(2) by (simp add: d(4) unat_of_nat_u64)
  have shown: "vy_data (vy_cells ?A (vy_at ?h pos)) = ?xs ! unat pos" if "pos_out (vq_threads s ! i) = Some (unat pos)" for pos
    using vq_working(2) [OF d(6) i that] cell_holding [OF _ c(1), of ?D ?xs "unat pos" "vy_data (vy_cells ?A (vy_at ?h pos))"]
      c(4) [of "unat pos mod vy_cap ?h"] c(1) by (simp add: vq_view_cell(4) [OF d(2)])
  show ?thesis
  proof (cases pc)
    case D_pos
    then show ?thesis
      using i pc D vq_inv_read [OF inv i, of "T_pop (D_seq (vy_dequeue_pos ?h) 0)"]
      by (simp add: vq_pop_retry_def DS_VYUKHOV_MAX_RETRIES_def)
  next
    case (D_seq pos r)
    let ?q = "vy_sequence (vy_cells ?A (vy_at ?h pos))"
    have p: "unat pos \<le> ?D" using l pc D_seq by simp
    have "vq_seqs hp ?A (unat pos mod vy_cap ?h) = Suc (unat pos)" if "sint (?q - (pos + 1)) = 0"
      using that vq_compare(2) [OF inv i small pc [unfolded D_seq]] by linarith
    then have "vq_inv hp (s\<lparr>vq_threads := (vq_threads s)[i := T_pop (D_cas pos r)]\<rparr>)" if "sint (?q - (pos + 1)) = 0"
      using that pc D_seq p by (intro vq_inv_read [OF inv i]) auto
    then show ?thesis
      using i pc D_seq vq_inv_read [OF inv i, of T_idle] vq_inv_read [OF inv i, of "T_pop (D_again r)"] by (simp add: Let_def)
  next
    case (D_cas pos r)
    show ?thesis
    proof (cases "vy_dequeue_pos ?h = pos")
      case True
      have q: "vq_seqs hp ?A (?D mod vy_cap ?h) = Suc ?D" using l pc D_cas D True by auto
      have t: "?D < length ?xs" "vq_data hp ?A (?D mod vy_cap ?h) = ?xs ! ?D"
        "vq_core (vy_cap ?h) (Suc ?D) ?xs (vq_seqs hp ?A) (vq_data hp ?A) (vy_count ?h)
          (vq_got s) ((vq_threads s)[i := T_pop (D_key pos)])"
        using vq_core_take_out [OF d(6) i q, of "T_pop (D_key pos)"] pc D_cas D True by simp_all
      then have x: "vy_data (vy_cells ?A (vy_at ?h pos)) = ?xs ! ?D"
        using D True by (simp flip: vq_view_cell(4) [OF d(2)])
      have "drop ?D ?xs = ?xs ! ?D # drop (Suc ?D) ?xs" using t(1) by (simp add: Cons_nth_drop_Suc)
      then have "vq_inv hp (s\<lparr>vq_arena := vy_set_head hp (?h\<lparr>vy_dequeue_pos := pos + 1\<rparr>) ?A,
          vq_threads := (vq_threads s)[i := T_pop (D_key pos)], vq_lin := vq_lin s @ [EvPop DS_SUCCESS (Some (?xs ! ?D))]\<rparr>)"
        unfolding vq_inv_def Let_def using d(1-5) True t(3) by (simp add: vq_replay_snoc)
      then show ?thesis using i pc D_cas True x by (simp add: Let_def)
    next
      case False
      then show ?thesis
        using i pc D_cas vq_inv_read [OF inv i, of "T_pop (D_again r)"] by (auto simp: Let_def arena_atomic_cmpxchg_def)
    qed
  next
    case (D_again r)
    then show ?thesis
      using i pc D vq_inv_read [OF inv i, of "T_pop (D_seq (vy_dequeue_pos ?h) (Suc r))"] vq_inv_read [OF inv i, of T_idle]
      by (simp add: vq_pop_retry_def)
  next
    case (D_key pos)
    then show ?thesis
      using i pc l shown [of pos] vq_inv_read [OF inv i, of "T_pop (D_val pos (key (?xs ! unat pos)))"] by simp
  next
    case (D_val pos k)
    have "\<lparr>key = key (?xs ! unat pos), val = val (?xs ! unat pos)\<rparr> = ?xs ! unat pos" by simp
    then show ?thesis
      using i pc l shown [of pos] D_val vq_inv_read [OF inv i, of "T_pop (D_pub pos (?xs ! unat pos))"] by simp
  next
    case (D_pub pos x)
    let ?c = "vy_cells ?A (vy_at ?h pos)"
    have N: "vy_cap ?h \<le> 2 ^ 32" using d(2) by (simp add: vy_wf_def)
    have p: "unat pos < 2 ^ 62" using l pc D_pub small c(2) by simp
    have "unat (pos + of_nat (vy_cap ?h)) = unat pos + vy_cap ?h"
      using p N unat_plus_u64 [of pos "of_nat (vy_cap ?h)"] by (simp add: unat_of_nat_u64)
    then have "unat (pos + vy_buffer_mask ?h + 1) = unat pos + vy_cap ?h" by (simp add: vy_cap_word add.assoc)
    moreover have "vq_core (vy_cap ?h) ?D ?xs ((vq_seqs hp ?A)(unat pos mod vy_cap ?h := unat pos + vy_cap ?h))
        (vq_data hp ?A) (vy_count ?h) (vq_got s) ((vq_threads s)[i := T_pop (D_count x)])"
      using l pc D_pub by (intro vq_core_release [OF d(6) i]) auto
    ultimately show ?thesis
      using i pc D_pub vq_inv_cell [OF inv, of pos "?c\<lparr>vy_sequence := pos + vy_buffer_mask ?h + 1\<rparr>"]
      by (simp add: Let_def flip: vq_view_cell(4) [OF d(2)])
  next
    case (D_count x)
    then show ?thesis
      using i pc vq_inv_move [OF inv i, of T_idle "vy_count ?h - 1" "[x]"] by simp
  qed
qed

lemma vq_turn_inv:
  assumes inv: "vq_inv hp s" and small: "length (accepted (vq_lin s)) < 2 ^ 62"
  shows "vq_inv hp (vq_turn hp a s)"
proof (cases a)
  case (C_insert i x)
  then show ?thesis
    using inv vq_inv_read [OF inv, of i "T_ins x E_pos"] vq_inv_read [OF inv, of i T_idle] by (auto simp: vq_insert_call_def)
next
  case (C_pop i)
  then show ?thesis
    using inv vq_inv_read [OF inv, of i "T_pop D_pos"] vq_inv_read [OF inv, of i T_idle] by (auto simp: vq_pop_call_def)
next
  case (C_step i)
  show ?thesis
  proof (cases "i < length (vq_threads s)")
    case i: True
    show ?thesis
    proof (cases "vq_threads s ! i")
      case T_idle
      then have "(vq_threads s)[i := T_idle] = vq_threads s" by (metis list_update_id)
      then show ?thesis using C_step T_idle inv i by simp
    next
      case (T_ins x pc)
      show ?thesis unfolding C_step by (rule vq_insert_inv [OF inv i small T_ins])
    next
      case (T_pop pc)
      show ?thesis unfolding C_step by (rule vq_pop_inv [OF inv i small T_pop])
    qed
  qed (use inv C_step in simp)
qed

text \<open>A turn takes at most one position for an insert.\<close>

lemma vq_turn_accepts: "length (accepted (vq_lin (vq_turn hp a s))) \<le> Suc (length (accepted (vq_lin s)))"
proof -
  have "length (accepted (vq_note_events ev)) \<le> 1" for ev by (cases ev) simp_all
  then show ?thesis by (cases a) (auto simp: split_def Let_def)
qed

lemma vq_turn_length: "length (vq_threads (vq_turn hp a s)) = length (vq_threads s)"
  by (cases a) (auto simp: split_def Let_def)

lemma vq_run_Cons: "vq_run hp (a # acts) s = vq_run hp acts (vq_turn hp a s)"
  by (simp add: vq_run_def)

text \<open>Properties that turns keep, along a run.\<close>

lemma vq_run_keeps:
  assumes "vq_inv hp s" "P s" and "length (accepted (vq_lin s)) + length acts < 2 ^ 62"
    and "\<And>s a. vq_inv hp s \<Longrightarrow> P s \<Longrightarrow> length (accepted (vq_lin s)) < 2 ^ 62 \<Longrightarrow> P (vq_turn hp a s)"
  shows "vq_inv hp (vq_run hp acts s) \<and> P (vq_run hp acts s)"
  using assms(1-3)
proof (induction acts arbitrary: s)
  case (Cons a acts)
  have b: "length (accepted (vq_lin s)) < 2 ^ 62" using Cons.prems(3) by simp
  have "length (accepted (vq_lin (vq_turn hp a s))) + length acts < 2 ^ 62"
    using Cons.prems(3) vq_turn_accepts [of hp a s] by simp
  from Cons.IH [OF vq_turn_inv [OF Cons.prems(1) b] assms(4) [OF Cons.prems(1,2) b] this] show ?case by (simp add: vq_run_Cons)
qed (simp add: vq_run_def)

lemma vq_run_length: "length (vq_threads (vq_run hp acts s)) = length (vq_threads s)"
  by (induction acts arbitrary: s) (simp_all add: vq_run_Cons vq_turn_length, simp add: vq_run_def)

text \<open>An empty queue that starts from position 0.\<close>

lemma tally_replicate_none: "\<not> P p \<Longrightarrow> tally P (replicate n p) = 0"
  by (simp add: tally_def tot_replicate_zero)

lemma vq_start_inv:
  assumes q: "vy_queue hp A []" and p: "vy_dequeue_pos (vy_heads A hp) = 0"
  shows "vq_inv hp (vq_start n A)"
proof -
  let ?h = "vy_heads A hp"
  have w: "vy_wf ?h" and h: "hp \<noteq> NULL" using vy_queueD(1,2) [OF q] by simp_all
  have b: "2 \<le> vy_cap ?h" "vy_cap ?h \<le> 2 ^ 32" using w by (simp_all add: vy_wf_def)
  have "vq_seqs hp A c = c" if "c < vy_cap ?h" for c
  proof -
    have u: "unat (of_nat c :: u64) = c" using that b(2) by (intro unat_of_nat_u64) simp
    have "vy_at ?h (of_nat c) = vy_cell (vy_buffer ?h) (of_nat c)" using that u by (simp add: vy_at_index [OF w])
    then have "vy_sequence (vy_cells A (vy_cell (vy_buffer ?h) (of_nat c))) = of_nat c"
      using vy_queueD(6) [OF q that] p by (simp add: vy_cell_ok_def)
    then show ?thesis using that u by (simp add: vq_seqs_def Let_def)
  qed
  then have "vq_core (vy_cap ?h) 0 [] (vq_seqs hp A) (vq_data hp A) (vy_count ?h) [] (replicate n T_idle)"
    using b(1) q by (simp add: vq_core_def cell_inv_def tally_replicate_none tot_replicate_zero vy_queue_def Let_def)
  then show ?thesis using q h w p by (simp add: vq_inv_def vq_start_def Let_def vy_queue_def)
qed

lemma vq_init_inv:
  assumes "ds_vyukhov_init sd alloc hp cap A = (DS_SUCCESS, A')"
  shows "vq_inv hp (vq_start n A')" and "vy_cap (vy_heads A' hp) = unat cap"
proof -
  obtain p al where a: "alloc (vy_bytes cap) (vy_alloc A) = (p, al)" by fastforce
  have q: "vy_queue hp A' []" "vy_cap (vy_heads A' hp) = unat cap"
    using vy_init_branches [OF assms a] by (auto simp: ds_codes split: if_splits)
  have "vy_dequeue_pos (vy_heads A' hp) = 0"
    using assms by (auto simp: ds_variant ds_vyukhov_init_lkmm_def Let_def vy_init_loop_frame ds_codes split: if_splits prod.splits)
  with q show "vq_inv hp (vq_start n A')" "vy_cap (vy_heads A' hp) = unat cap" by (simp_all add: vq_start_inv)
qed

subsection \<open>What the sequence numbers tell\<close>

text \<open>A cell that is behind the position of an insert: the queue is full, or the cell is still being read.\<close>

lemma vq_full_reason:
  assumes core: "vq_core N D xs Q dat cnt got ts" and "p \<le> length xs" and q: "Q (p mod N) < p"
  shows "length xs = D + N \<or> (\<exists>j < length ts. pos_out (ts ! j) = Some (length xs - N))"
proof -
  note d = vq_coreD [OF core]
  have "cell_inv N D xs (p mod N) (Q (p mod N)) (dat (p mod N))" using d(1) by (intro d(4)) simp
  then consider "Q (p mod N) mod N = p mod N" "D \<le> Q (p mod N)" "length xs \<le> Q (p mod N) + N"
    | r where "Q (p mod N) = Suc r" "r mod N = p mod N" "length xs \<le> r + N"
    by (auto simp: cell_inv_def)
  then show ?thesis
  proof cases
    case 1
    then show ?thesis using mod_gap [OF 1(1) q] d(3) assms(2) by linarith
  next
    case 2
    then have r: "length xs = r + N" "p = length xs" using mod_gap [OF 2(2)] q assms(2) by linarith+
    show ?thesis
    proof (cases "r < D")
      case True
      then have "0 < tally (\<lambda>t. pos_out t = Some r) ts" using d(7) [of r] 2 by simp
      from tally_some [OF this] show ?thesis using r by auto
    qed (use r d(3) in linarith)
  qed
qed

text \<open>A cell that is behind the position of a pop: the queue is empty, or its front is still being stored.\<close>

lemma vq_empty_reason:
  assumes core: "vq_core N D xs Q dat cnt got ts" and "p \<le> D" and q: "Q (p mod N) \<le> p"
  shows "length xs = D \<or> (\<exists>j < length ts. pos_in (ts ! j) = Some D)"
proof -
  note d = vq_coreD [OF core]
  have "cell_inv N D xs (p mod N) (Q (p mod N)) (dat (p mod N))" using d(1) by (intro d(4)) simp
  then consider "D \<le> Q (p mod N)" | r where "Q (p mod N) = Suc r" "r mod N = p mod N" "length xs \<le> r + N"
    by (auto simp: cell_inv_def)
  then show ?thesis
  proof cases
    case 1
    then have "p = D" "Q (p mod N) = p" using q assms(2) by simp_all
    then have "tally (\<lambda>t. pos_in t = Some D) ts = of_bool (D < length xs)" using d(6) [of D] by simp
    then show ?thesis using tally_some [of "\<lambda>t. pos_in t = Some D" ts] d(2) by (cases "D < length xs") auto
  next
    case 2
    then show ?thesis using mod_gap [OF 2(2)] q assms(2) d(2) by linarith
  qed
qed

text \<open>A cell that is ahead: the position is out of date.\<close>

lemma vq_ahead:
  assumes core: "vq_core N D xs Q dat cnt got ts"
  shows "p \<le> length xs \<Longrightarrow> p < Q (p mod N) \<Longrightarrow> p < length xs" and "p \<le> D \<Longrightarrow> Suc p < Q (p mod N) \<Longrightarrow> p < D"
proof -
  note d = vq_coreD [OF core]
  have c: "cell_inv N D xs (p mod N) (Q (p mod N)) (dat (p mod N))" using d(1) by (intro d(4)) simp
  show "p < length xs" if "p \<le> length xs" "p < Q (p mod N)"
    using c that mod_gap [of p N "Q (p mod N)"] d(2) by (auto simp: cell_inv_def)
  show "p < D" if "p \<le> D" "Suc p < Q (p mod N)"
    using c that mod_gap [of p N "Q (p mod N)"] mod_gap [of p N "Q (p mod N) - 1"] d(3) by (auto simp: cell_inv_def)
qed

text \<open>With no thread at work, the cells show the queue.\<close>

lemma vq_settled:
  assumes core: "vq_core N D xs Q dat cnt got ts" and idle: "list_all (\<lambda>t. t = T_idle) ts" and i: "i < N"
  shows "Q ((D + i) mod N) = D + i + of_bool (D + i < length xs)"
    and "D + i < length xs \<Longrightarrow> dat ((D + i) mod N) = xs ! (D + i)"
proof -
  note d = vq_coreD [OF core]
  let ?c = "(D + i) mod N"
  have "cell_inv N D xs ?c (Q ?c) (dat ?c)" using d(1) by (intro d(4)) simp
  moreover have "tally P ts = 0" if "\<not> P T_idle" for P
    using tally_some [of P ts] idle that by (cases "tally P ts = 0") (auto simp: list_all_length)
  then have free: "\<not> (p < length xs \<and> Q (p mod N) = p)" "\<not> (p < D \<and> Q (p mod N) = Suc p)" for p
    using d(6) [of p] d(7) [of p] by (simp_all add: of_bool_def split: if_splits)
  ultimately have "Q ?c = D + i + of_bool (D + i < length xs) \<and> (D + i < length xs \<longrightarrow> dat ?c = xs ! (D + i))"
  proof (unfold cell_inv_def, elim disjE exE conjE)
    assume a: "Q ?c mod N = ?c" "D \<le> Q ?c" "Q ?c < D + N"
    have "Q ?c = D + i" using i by (intro same_position [OF a]) simp_all
    then show ?thesis using free(1) [of "D + i"] by simp
  next
    fix p assume a: "Q ?c = Suc p" "p mod N = ?c" "p < length xs" "dat ?c = xs ! p"
    have "D \<le> p" using free(2) [of p] a by simp
    then have "p = D + i" using i d(3) a by (intro same_position [OF a(2), where D = D]) simp_all
    then show ?thesis using a by simp
  qed
  then show "Q ?c = D + i + of_bool (D + i < length xs)" "D + i < length xs \<Longrightarrow> dat ?c = xs ! (D + i)" by blast+
qed

lemma vq_quiet_queue:
  assumes inv: "vq_inv hp s" and small: "length (accepted (vq_lin s)) < 2 ^ 62"
    and idle: "list_all (\<lambda>t. t = T_idle) (vq_threads s)"
  shows "vy_queue hp (vq_arena s) (drop (length (delivered (vq_lin s))) (accepted (vq_lin s)))"
    and "mset (vq_got s) = mset (delivered (vq_lin s))"
proof -
  note d = vq_invD [OF inv] and c = vq_coreD [OF vq_invD(6) [OF inv]]
  let ?A = "vq_arena s" and ?h = "vy_heads (vq_arena s) hp" and ?xs = "accepted (vq_lin s)"
    and ?D = "length (delivered (vq_lin s))"
  have N: "vy_cap ?h \<le> 2 ^ 32" using d(2) by (simp add: vy_wf_def)
  have zero: "tot (\<lambda>_. f) (vq_threads s) = 0" if "f T_idle = 0" for f :: "vq_thread \<Rightarrow> 'b :: comm_monoid_add"
    using idle that by (intro tot_zero) (auto simp: list_all_length)
  have "vy_cell_ok (vy_dequeue_pos ?h) (drop ?D ?xs) i (vy_cells ?A (vy_at ?h (vy_dequeue_pos ?h + of_nat i)))"
    if i: "i < vy_cap ?h" for i
  proof -
    let ?p = "vy_dequeue_pos ?h + of_nat i"
    have pw: "?p = of_nat (?D + i)" by (simp add: d(4))
    have p: "unat ?p = ?D + i" unfolding pw using small c(2) i N by (intro unat_of_nat_u64) simp
    have q: "unat (vy_sequence (vy_cells ?A (vy_at ?h ?p))) = ?D + i + of_bool (?D + i < length ?xs)"
      and v: "?D + i < length ?xs \<Longrightarrow> vy_data (vy_cells ?A (vy_at ?h ?p)) = ?xs ! (?D + i)"
      using vq_settled [OF d(6) idle i] vq_view_cell(3,4) [OF d(2), of ?p] by (simp_all only: p)
    have "vy_sequence (vy_cells ?A (vy_at ?h ?p)) = of_nat (?D + i + of_bool (?D + i < length ?xs))"
      using q by (metis of_nat_unat ucast_id)
    then show ?thesis using v c(2) by (auto simp: vy_cell_ok_def d(4) of_bool_def less_diff_conv add.commute)
  qed
  moreover have "vy_count ?h = of_nat (length (drop ?D ?xs))"
    using c(2) c(8) zero [of vq_plus] by simp
  ultimately show "vy_queue hp ?A (drop ?D ?xs)"
    using d(1-4) c(2,3) by (simp add: vy_queue_def Let_def)
  have "delivered (vq_lin s) = take ?D ?xs"
    using queue_replay_fifo [OF d(5)] by (metis append_Nil append_take_drop_id append_same_eq)
  then show "mset (vq_got s) = mset (delivered (vq_lin s))"
    using c(9) zero [of "vq_taken ?xs"] by simp
qed

lemma vq_cap_turn: "vy_cap (vy_heads (vq_arena (vq_turn hp a s)) hp) = vy_cap (vy_heads (vq_arena s) hp)"
proof (cases a)
  case (C_step i)
  have "vy_cap (vy_heads (snd (snd (vq_step hp t B))) hp) = vy_cap (vy_heads B hp)" for t and B :: "'a vy_arena"
  proof (cases t)
    case (T_ins x pc)
    then show ?thesis by (cases pc) (auto simp: Let_def split_def arena_atomic_cmpxchg_def)
  next
    case (T_pop pc)
    then show ?thesis by (cases pc) (auto simp: Let_def split_def arena_atomic_cmpxchg_def)
  qed simp
  then show ?thesis using C_step by (simp add: split_def Let_def)
qed auto

text \<open>Every run after an initialisation.\<close>

lemma vq_init_run:
  assumes "ds_vyukhov_init sd alloc hp cap A = (DS_SUCCESS, A')" and "length acts < 2 ^ 62"
    and "s = vq_run hp acts (vq_start n A')"
  shows "vq_inv hp s" and "length (accepted (vq_lin s)) < 2 ^ 62" and "vy_cap (vy_heads (vq_arena s) hp) = unat cap"
    and "length (vq_threads s) = n"
proof -
  have "vq_inv hp s \<and> vy_cap (vy_heads (vq_arena s) hp) = unat cap" unfolding assms(3)
    using vq_init_inv [OF assms(1)] assms(2)
    by (intro vq_run_keeps) (simp_all add: vq_cap_turn, simp_all add: vq_start_def)
  then show "vq_inv hp s" "vy_cap (vy_heads (vq_arena s) hp) = unat cap" by simp_all
  have "length (accepted (vq_lin (vq_run hp acts s))) \<le> length (accepted (vq_lin s)) + length acts" for s :: "'a vq_sys"
  proof (induction acts arbitrary: s)
    case (Cons a acts)
    show ?case using Cons.IH [of "vq_turn hp a s"] vq_turn_accepts [of hp a s] by (simp add: vq_run_Cons)
  qed (simp add: vq_run_def)
  from this [of "vq_start n A'"] show "length (accepted (vq_lin s)) < 2 ^ 62"
    using assms(2) by (simp add: assms(3)) (simp add: vq_start_def)
  show "length (vq_threads s) = n" by (simp add: assms(3) vq_run_length) (simp add: vq_start_def)
qed

text \<open>Only one step of each operation reports a full or an empty queue.\<close>

lemma vq_step_full:
  assumes "vq_step hp u B = (t, Q_full, B')"
  obtains x pos r where "u = T_ins x (E_seq pos r)" "sint (vy_sequence (vy_cells B (vy_at (vy_heads B hp) pos)) - pos) < 0"
proof (cases u)
  case (T_ins x pc)
  then show ?thesis
    using assms that by (cases pc) (auto simp: Let_def split_def vq_ins_retry_def split: if_splits)
next
  case (T_pop pc)
  then show ?thesis using assms by (cases pc) (auto simp: Let_def split_def vq_pop_retry_def split: if_splits)
qed (use assms in simp)

lemma vq_step_empty:
  assumes "vq_step hp u B = (t, Q_empty, B')"
  obtains pos r where "u = T_pop (D_seq pos r)" "sint (vy_sequence (vy_cells B (vy_at (vy_heads B hp) pos)) - (pos + 1)) < 0"
proof (cases u)
  case (T_ins x pc)
  then show ?thesis using assms by (cases pc) (auto simp: Let_def split_def vq_ins_retry_def split: if_splits)
next
  case (T_pop pc)
  then show ?thesis
    using assms that by (cases pc) (auto simp: Let_def split_def vq_pop_retry_def split: if_splits)
qed (use assms in simp)

lemma vq_answers:
  assumes inv: "vq_inv hp s" and small: "length (accepted (vq_lin s)) < 2 ^ 62" and i: "i < length (vq_threads s)"
    and step: "vq_step hp (vq_threads s ! i) (vq_arena s) = (t, ev, B)"
  shows "ev = Q_full \<Longrightarrow> length (accepted (vq_lin s)) = length (delivered (vq_lin s)) + vy_cap (vy_heads (vq_arena s) hp) \<or>
      (\<exists>j < length (vq_threads s). pos_out (vq_threads s ! j) =
        Some (length (accepted (vq_lin s)) - vy_cap (vy_heads (vq_arena s) hp)))"
    and "ev = Q_empty \<Longrightarrow> length (accepted (vq_lin s)) = length (delivered (vq_lin s)) \<or>
      (\<exists>j < length (vq_threads s). pos_in (vq_threads s ! j) = Some (length (delivered (vq_lin s))))"
proof -
  note core = vq_invD(6) [OF inv] and l = vq_coreD(5) [OF vq_invD(6) [OF inv] i]
  show "length (accepted (vq_lin s)) = length (delivered (vq_lin s)) + vy_cap (vy_heads (vq_arena s) hp) \<or>
      (\<exists>j < length (vq_threads s). pos_out (vq_threads s ! j) =
        Some (length (accepted (vq_lin s)) - vy_cap (vy_heads (vq_arena s) hp)))" if ans: "ev = Q_full"
  proof -
    obtain x pos r where t: "vq_threads s ! i = T_ins x (E_seq pos r)"
      "sint (vy_sequence (vy_cells (vq_arena s) (vy_at (vy_heads (vq_arena s) hp) pos)) - pos) < 0"
      by (rule vq_step_full [OF step [unfolded ans]])
    have "vq_seqs hp (vq_arena s) (unat pos mod vy_cap (vy_heads (vq_arena s) hp)) < unat pos"
      using vq_compare(1) [OF inv i small t(1)] t(2) by linarith
    then show ?thesis using l t(1) by (intro vq_full_reason [OF core]) simp_all
  qed
  show "length (accepted (vq_lin s)) = length (delivered (vq_lin s)) \<or>
      (\<exists>j < length (vq_threads s). pos_in (vq_threads s ! j) = Some (length (delivered (vq_lin s))))" if ans: "ev = Q_empty"
  proof -
    obtain pos r where t: "vq_threads s ! i = T_pop (D_seq pos r)"
      "sint (vy_sequence (vy_cells (vq_arena s) (vy_at (vy_heads (vq_arena s) hp) pos)) - (pos + 1)) < 0"
      by (rule vq_step_empty [OF step [unfolded ans]])
    have "vq_seqs hp (vq_arena s) (unat pos mod vy_cap (vy_heads (vq_arena s) hp)) \<le> unat pos"
      using vq_compare(2) [OF inv i small t(1)] t(2) by linarith
    then show ?thesis using l t(1) by (intro vq_empty_reason [OF core, of "unat pos"]) simp_all
  qed
qed

subsection \<open>Properties\<close>

text \<open>
  C10.  Vyukov's queue is a FIFO under any number of producers and consumers: whatever the
  schedule of their accesses, the positions taken, in the order in which they were taken,
  are a history of an abstract queue that never holds more elements than the capacity, so
  that the elements taken by pops followed by those still in the queue are the elements
  inserted, in order.  Pops return elements so taken, each at most as often as it was taken;
  when no call is in progress they have returned all of them and the arena represents the
  queue, counter included, as the operations leave it when they run alone.
\<close>

theorem vq_threads_fifo:
  assumes "ds_vyukhov_init sd alloc hp cap A = (DS_SUCCESS, A')" and "length acts < 2 ^ 62"
  shows "let s = vq_run hp acts (vq_start n A') in
    \<exists>ys. queue_replay [] (vq_lin s) = Some ys \<and> accepted (vq_lin s) = delivered (vq_lin s) @ ys \<and> length ys \<le> unat cap \<and>
      mset (vq_got s) \<subseteq># mset (delivered (vq_lin s)) \<and>
      (list_all (\<lambda>t. t = T_idle) (vq_threads s) \<longrightarrow>
         mset (vq_got s) = mset (delivered (vq_lin s)) \<and> vy_queue hp (vq_arena s) ys)"
proof -
  let ?s = "vq_run hp acts (vq_start n A')"
  have r: "vq_inv hp ?s" "length (accepted (vq_lin ?s)) < 2 ^ 62" "vy_cap (vy_heads (vq_arena ?s) hp) = unat cap"
    using vq_init_run [OF assms refl] by blast+
  note d = vq_invD [OF r(1)] and c = vq_coreD [OF vq_invD(6) [OF r(1)]]
  have t: "delivered (vq_lin ?s) = take (length (delivered (vq_lin ?s))) (accepted (vq_lin ?s))"
    using queue_replay_fifo [OF d(5)] by (metis append_Nil append_take_drop_id append_same_eq)
  have "mset (vq_got ?s) \<subseteq># mset (delivered (vq_lin ?s))"
    using c(9) mset_subset_eq_add_left [of "mset (vq_got ?s)"] by (metis t)
  moreover have "length (drop (length (delivered (vq_lin ?s))) (accepted (vq_lin ?s))) \<le> unat cap" using c(3) r(3) by simp
  ultimately show ?thesis
    unfolding Let_def using d(5) queue_replay_fifo [OF d(5)] vq_quiet_queue [OF r(1,2)] by (intro exI conjI impI) auto
qed

text \<open>
  C11.  What the failing answers mean while others are at work: an insert that reports a full
  queue has seen it hold as many elements as its capacity, or the cell it needs is still
  being read by a pop that took it; a pop that reports an empty queue has seen it empty, or
  its front element is still being stored by the insert that took the position.
\<close>

theorem vq_threads_failures:
  assumes "ds_vyukhov_init sd alloc hp cap A = (DS_SUCCESS, A')" and "length acts < 2 ^ 62"
    and "s = vq_run hp acts (vq_start n A')" and "i < n" and "vq_step hp (vq_threads s ! i) (vq_arena s) = (t, ev, B)"
    and "queue_replay [] (vq_lin s) = Some ys"
  shows "(ev = Q_full \<longrightarrow> length ys = unat cap \<or>
      (\<exists>j < n. pos_out (vq_threads s ! j) = Some (length (accepted (vq_lin s)) - unat cap))) \<and>
    (ev = Q_empty \<longrightarrow> ys = [] \<or> (\<exists>j < n. pos_in (vq_threads s ! j) = Some (length (delivered (vq_lin s)))))"
proof -
  have r: "vq_inv hp s" "length (accepted (vq_lin s)) < 2 ^ 62" "vy_cap (vy_heads (vq_arena s) hp) = unat cap"
    "length (vq_threads s) = n"
    using vq_init_run [OF assms(1-3)] by blast+
  have ys: "length ys = length (accepted (vq_lin s)) - length (delivered (vq_lin s))"
    using vq_invD(5) [OF r(1)] assms(6) by simp
  note w = vq_answers [OF r(1,2), of i t ev B] vq_coreD(2) [OF vq_invD(6) [OF r(1)]]
  have "length ys = unat cap \<or> (\<exists>j < n. pos_out (vq_threads s ! j) = Some (length (accepted (vq_lin s)) - unat cap))"
    if "ev = Q_full" using w that assms(4,5) ys r(3,4) by auto
  moreover have "ys = [] \<or> (\<exists>j < n. pos_in (vq_threads s ! j) = Some (length (delivered (vq_lin s))))"
    if "ev = Q_empty" using w that assms(4,5) ys r(4) by auto
  ultimately show ?thesis by blast
qed

subsection \<open>Progress\<close>

text \<open>Whether the position a thread has seen is out of date, and the failed attempts of its call.\<close>

fun pos_stale :: "ds_vyukhov_head \<Rightarrow> vq_thread \<Rightarrow> nat" where
  "pos_stale h (T_ins x (E_seq pos r)) = of_bool (pos \<noteq> vy_enqueue_pos h)"
| "pos_stale h (T_ins x (E_cas pos r)) = of_bool (pos \<noteq> vy_enqueue_pos h)"
| "pos_stale h (T_pop (D_seq pos r)) = of_bool (pos \<noteq> vy_dequeue_pos h)"
| "pos_stale h (T_pop (D_cas pos r)) = of_bool (pos \<noteq> vy_dequeue_pos h)"
| "pos_stale h _ = 0"

fun vq_attempts :: "vq_thread \<Rightarrow> nat" where
  "vq_attempts (T_ins x (E_seq pos r)) = r"
| "vq_attempts (T_ins x (E_cas pos r)) = r"
| "vq_attempts (T_ins x (E_again r)) = Suc r"
| "vq_attempts (T_pop (D_seq pos r)) = r"
| "vq_attempts (T_pop (D_cas pos r)) = r"
| "vq_attempts (T_pop (D_again r)) = Suc r"
| "vq_attempts _ = 0"

definition vq_charged :: "ptr \<Rightarrow> 'a vq_sys \<Rightarrow> bool" where
  "vq_charged hp s \<longleftrightarrow>
     vq_retries s + tot (\<lambda>_. pos_stale (vy_heads (vq_arena s) hp)) (vq_threads s) \<le>
       (length (vq_threads s) - 1) * (length (accepted (vq_lin s)) + length (delivered (vq_lin s))) \<and>
     DS_VYUKHOV_MAX_RETRIES * vq_busy s + tot (\<lambda>_. vq_attempts) (vq_threads s) \<le> vq_retries s"

lemma pos_stale_le: "pos_stale h t \<le> 1"
  by (cases "(h, t)" rule: pos_stale.cases) simp_all

text \<open>A failed attempt was made with a position out of date.\<close>

lemma vq_retry_stale:
  assumes inv: "vq_inv hp s" and small: "length (accepted (vq_lin s)) < 2 ^ 62" and i: "i < length (vq_threads s)"
  shows "vq_threads s ! i = T_ins x (E_seq pos r) \<Longrightarrow>
      0 < sint (vy_sequence (vy_cells (vq_arena s) (vy_at (vy_heads (vq_arena s) hp) pos)) - pos) \<Longrightarrow>
      pos \<noteq> vy_enqueue_pos (vy_heads (vq_arena s) hp)"
    and "vq_threads s ! i = T_pop (D_seq pos r) \<Longrightarrow>
      0 < sint (vy_sequence (vy_cells (vq_arena s) (vy_at (vy_heads (vq_arena s) hp) pos)) - (pos + 1)) \<Longrightarrow>
      pos \<noteq> vy_dequeue_pos (vy_heads (vq_arena s) hp)"
proof -
  note core = vq_invD(6) [OF inv] and l = vq_coreD(5) [OF vq_invD(6) [OF inv] i] and D = vq_coreD(2) [OF vq_invD(6) [OF inv]]
  let ?Q = "vq_seqs hp (vq_arena s) (unat pos mod vy_cap (vy_heads (vq_arena s) hp))"
    and ?q = "vy_sequence (vy_cells (vq_arena s) (vy_at (vy_heads (vq_arena s) hp) pos))"
  show "pos \<noteq> vy_enqueue_pos (vy_heads (vq_arena s) hp)" if t: "vq_threads s ! i = T_ins x (E_seq pos r)" "0 < sint (?q - pos)"
  proof -
    have "unat pos < ?Q" using vq_compare(1) [OF inv i small t(1)] t(2) by linarith
    then have "unat pos < length (accepted (vq_lin s))" using vq_ahead(1) [OF core] l t(1) by simp
    then show ?thesis using small by (auto simp: vq_invD(3) [OF inv] unat_of_nat_u64)
  qed
  show "pos \<noteq> vy_dequeue_pos (vy_heads (vq_arena s) hp)" if t: "vq_threads s ! i = T_pop (D_seq pos r)" "0 < sint (?q - (pos + 1))"
  proof -
    have "Suc (unat pos) < ?Q" using vq_compare(2) [OF inv i small t(1)] t(2) by linarith
    then have "unat pos < length (delivered (vq_lin s))" using vq_ahead(2) [OF core] l t(1) by simp
    then show ?thesis using small D by (auto simp: vq_invD(4) [OF inv] unat_of_nat_u64)
  qed
qed

text \<open>
  A step takes a position, or leaves the positions alone; then it fails only with a position
  out of date, and sees the current one afterwards.
\<close>

lemma vq_step_charge:
  assumes inv: "vq_inv hp s" and small: "length (accepted (vq_lin s)) < 2 ^ 62" and i: "i < length (vq_threads s)"
    and step: "vq_step hp (vq_threads s ! i) (vq_arena s) = (t, ev, B)"
  shows "DS_VYUKHOV_MAX_RETRIES * of_bool (ev = Q_busy) + vq_attempts t \<le> vq_attempts (vq_threads s ! i) + of_bool (ev = Q_retry)"
    and "pos_stale (vy_heads B hp) t = 0 \<and> length (accepted (vq_note_events ev)) + length (delivered (vq_note_events ev)) = 1 \<and>
        ev \<noteq> Q_retry \<or>
      (\<forall>u. pos_stale (vy_heads B hp) u = pos_stale (vy_heads (vq_arena s) hp) u) \<and> vq_note_events ev = [] \<and>
        of_bool (ev = Q_retry) + pos_stale (vy_heads B hp) t \<le> pos_stale (vy_heads (vq_arena s) hp) (vq_threads s ! i)"
proof -
  let ?u = "vq_threads s ! i"
  have same: "pos_stale (h\<lparr>vy_count := v\<rparr>) u = pos_stale h u" for h v u
    by (cases "(h, u)" rule: pos_stale.cases) simp_all
  have "DS_VYUKHOV_MAX_RETRIES * of_bool (ev = Q_busy) + vq_attempts t \<le> vq_attempts ?u + of_bool (ev = Q_retry) \<and>
    (pos_stale (vy_heads B hp) t = 0 \<and> length (accepted (vq_note_events ev)) + length (delivered (vq_note_events ev)) = 1 \<and>
        ev \<noteq> Q_retry \<or>
      (\<forall>u. pos_stale (vy_heads B hp) u = pos_stale (vy_heads (vq_arena s) hp) u) \<and> vq_note_events ev = [] \<and>
        of_bool (ev = Q_retry) + pos_stale (vy_heads B hp) t \<le> pos_stale (vy_heads (vq_arena s) hp) ?u)"
  proof (cases ?u)
    case (T_ins x pc)
    then show ?thesis
      using step vq_retry_stale(1) [OF inv small i, of x]
      by (cases pc) (auto simp: Let_def split_def arena_atomic_cmpxchg_def vq_ins_retry_def same
          linorder_not_less le_less split: if_splits)
  next
    case (T_pop pc)
    then show ?thesis
      using step vq_retry_stale(2) [OF inv small i]
      by (cases pc) (auto simp: Let_def split_def arena_atomic_cmpxchg_def vq_pop_retry_def same
          linorder_not_less le_less split: if_splits)
  qed (use step in simp)
  then show "DS_VYUKHOV_MAX_RETRIES * of_bool (ev = Q_busy) + vq_attempts t \<le> vq_attempts ?u + of_bool (ev = Q_retry)"
    "pos_stale (vy_heads B hp) t = 0 \<and> length (accepted (vq_note_events ev)) + length (delivered (vq_note_events ev)) = 1 \<and>
        ev \<noteq> Q_retry \<or>
      (\<forall>u. pos_stale (vy_heads B hp) u = pos_stale (vy_heads (vq_arena s) hp) u) \<and> vq_note_events ev = [] \<and>
        of_bool (ev = Q_retry) + pos_stale (vy_heads B hp) t \<le> pos_stale (vy_heads (vq_arena s) hp) ?u" by blast+
qed

lemma vq_charged_turn:
  assumes inv: "vq_inv hp s" and charged: "vq_charged hp s" and small: "length (accepted (vq_lin s)) < 2 ^ 62"
  shows "vq_charged hp (vq_turn hp a s)"
proof (cases a)
  case (C_insert i x)
  then show ?thesis
    using charged tot_same [of i "vq_threads s" "\<lambda>_. pos_stale (vy_heads (vq_arena s) hp)" "vq_insert_call hp x (vq_arena s)"]
      tot_same [of i "vq_threads s" "\<lambda>_. vq_attempts" "vq_insert_call hp x (vq_arena s)"]
    by (auto simp: vq_charged_def vq_insert_call_def)
next
  case (C_pop i)
  then show ?thesis
    using charged tot_same [of i "vq_threads s" "\<lambda>_. pos_stale (vy_heads (vq_arena s) hp)" "vq_pop_call hp (vq_arena s)"]
      tot_same [of i "vq_threads s" "\<lambda>_. vq_attempts" "vq_pop_call hp (vq_arena s)"]
    by (auto simp: vq_charged_def vq_pop_call_def)
next
  case (C_step i)
  show ?thesis
  proof (cases "i < length (vq_threads s)")
    case i: True
    let ?ts = "vq_threads s" and ?h = "vy_heads (vq_arena s) hp" and ?n = "length (vq_threads s) - 1"
    let ?k = "length (accepted (vq_lin s)) + length (delivered (vq_lin s))"
    obtain t ev B where st: "vq_step hp (?ts ! i) (vq_arena s) = (t, ev, B)" by (metis prod_cases3)
    let ?k' = "length (accepted (vq_note_events ev)) + length (delivered (vq_note_events ev))"
    note c = vq_step_charge [OF inv small i st]
    have b: "DS_VYUKHOV_MAX_RETRIES * (vq_busy s + of_bool (ev = Q_busy)) + tot (\<lambda>_. vq_attempts) (?ts[i := t]) \<le>
        vq_retries s + of_bool (ev = Q_retry)"
      using c(1) charged tot_update [OF i, of "\<lambda>_. vq_attempts" t] by (simp add: vq_charged_def add_mult_distrib2)
    have "vq_retries s + of_bool (ev = Q_retry) + tot (\<lambda>_. pos_stale (vy_heads B hp)) (?ts[i := t]) \<le> ?n * (?k + ?k')"
      using c(2)
    proof (elim disjE conjE)
      assume e: "pos_stale (vy_heads B hp) t = 0" "?k' = 1" "ev \<noteq> Q_retry"
      have "tot (\<lambda>_. pos_stale (vy_heads B hp)) (?ts[i := t]) \<le> ?n"
        using tot_others [of i "?ts[i := t]" "\<lambda>_. pos_stale (vy_heads B hp)"] i e(1) pos_stale_le by simp
      moreover have "vq_retries s \<le> ?n * ?k" using charged by (simp add: vq_charged_def)
      moreover have "?n * (?k + ?k') = ?n * ?k + ?n" by (simp only: e(2)) (simp add: algebra_simps)
      ultimately show ?thesis using e(3) by simp
    next
      assume e: "\<forall>u. pos_stale (vy_heads B hp) u = pos_stale ?h u" "vq_note_events ev = []"
        "of_bool (ev = Q_retry) + pos_stale (vy_heads B hp) t \<le> pos_stale ?h (?ts ! i)"
      have "pos_stale (vy_heads B hp) = pos_stale ?h" using e(1) by (simp add: fun_eq_iff)
      then show ?thesis
        using e(2,3) charged tot_update [OF i, of "\<lambda>_. pos_stale ?h" t] by (simp add: vq_charged_def)
    qed
    then show ?thesis using C_step i st b by (simp add: vq_charged_def algebra_simps)
  qed (use charged C_step in simp)
qed

text \<open>
  C12.  Progress of Vyukov's queue: under every schedule of \<open>n\<close> threads the number of failed
  attempts is at most \<open>n - 1\<close> times the number of positions taken, so a call fails to advance
  only because others advance; and since a call gives up with \<^verbatim>\<open>DS_ERROR_BUSY\<close> only after
  100 failed attempts, there are at most \<open>(n - 1) / 100\<close> such answers for each position taken,
  and none at all with a single thread.
\<close>

theorem vq_threads_progress:
  assumes "ds_vyukhov_init sd alloc hp cap A = (DS_SUCCESS, A')" and "length acts < 2 ^ 62"
    and "s = vq_run hp acts (vq_start n A')"
  shows "vq_retries s \<le> (n - 1) * (length (accepted (vq_lin s)) + length (delivered (vq_lin s))) \<and>
    100 * vq_busy s \<le> (n - 1) * (length (accepted (vq_lin s)) + length (delivered (vq_lin s)))"
proof -
  have "vq_charged hp (vq_start n A')" by (simp add: vq_charged_def vq_start_def tot_replicate_zero)
  then have "vq_charged hp s"
    using vq_run_keeps [where P = "vq_charged hp", OF vq_init_inv(1) [OF assms(1), of n] _ _ vq_charged_turn, of acts] assms(2)
    by (simp add: assms(3)) (simp add: vq_start_def)
  then show ?thesis
    using vq_init_run(4) [OF assms] by (simp add: vq_charged_def DS_VYUKHOV_MAX_RETRIES_def)
qed

subsection \<open>Runs\<close>

text \<open>
  Two producers and a consumer on a queue of two cells.  Both producers see position 0; the
  second takes it and, before it stores anything, the first, whose exchange fails, takes
  position 1 and finishes.  The consumer is told that the queue is empty although an element
  has been inserted, then gets the elements in the order of their positions.
\<close>

definition vq_demo_acts :: "vq_act list" where
  "vq_demo_acts =
     [C_insert 0 \<lparr>key = 1, val = 10\<rparr>, C_insert 1 \<lparr>key = 2, val = 20\<rparr>] @ [C_step 0, C_step 1, C_step 0, C_step 1] @
     [C_step 1] @ replicate 8 (C_step 0) @ [C_pop 2] @ replicate 2 (C_step 2) @
     replicate 4 (C_step 1) @ [C_pop 2] @ replicate 7 (C_step 2)"

definition vq_demo :: "nat \<Rightarrow> unit vq_sys" where
  "vq_demo k = vq_run 0x1000 (take k vq_demo_acts)
     (vq_start 3 (snd (ds_vyukhov_init USERSPACE (\<lambda>_ a. (0x2000, a)) 0x1000 2 (vy_demo ()))))"

lemma vq_demo_init:
  "ds_vyukhov_init USERSPACE (\<lambda>_ a. (0x2000, a)) 0x1000 2 (vy_demo ()) =
     (DS_SUCCESS, snd (ds_vyukhov_init USERSPACE (\<lambda>_ a. (0x2000, a)) 0x1000 2 (vy_demo ())))"
proof -
  have "fst (ds_vyukhov_init USERSPACE (\<lambda>_ a. (0x2000, a)) 0x1000 2 (vy_demo ())) = DS_SUCCESS" by code_simp
  then show ?thesis by (metis prod.collapse)
qed

lemma vq_demo_short: "length (take k vq_demo_acts) < 2 ^ 62"
  by (rule le_less_trans [of _ "length vq_demo_acts"]) (simp, simp add: vq_demo_acts_def)

theorem vq_threads_fifo_witness:
  "vy_queue 0x1000 (vq_arena (vq_demo 100)) [\<lparr>key = 1, val = 10\<rparr>] \<and> vq_got (vq_demo 100) = [\<lparr>key = 2, val = 20\<rparr>]"
proof -
  define s where "s = vq_demo 100"
  have e: "vq_got s = [\<lparr>key = 2, val = 20\<rparr>] \<and> vq_threads s = [T_idle, T_idle, T_idle] \<and>
      accepted (vq_lin s) = [\<lparr>key = 2, val = 20\<rparr>, \<lparr>key = 1, val = 10\<rparr>] \<and> delivered (vq_lin s) = [\<lparr>key = 2, val = 20\<rparr>]"
    unfolding s_def by code_simp
  show ?thesis
    using vq_threads_fifo [OF vq_demo_init vq_demo_short [of 100], of 3, folded vq_demo_def, folded s_def] e
    unfolding s_def [symmetric] Let_def by auto
qed

theorem vq_threads_failures_witness:
  "vq_threads (vq_demo 17) ! 2 = T_pop (D_seq 0 0) \<and>
   fst (snd (vq_step 0x1000 (vq_threads (vq_demo 17) ! 2) (vq_arena (vq_demo 17)))) = Q_empty \<and>
   length (accepted (vq_lin (vq_demo 17))) = 2 \<and> pos_in (vq_threads (vq_demo 17) ! 1) = Some 0 \<and>
   (\<exists>j < 3. pos_in (vq_threads (vq_demo 17) ! j) = Some (length (delivered (vq_lin (vq_demo 17)))))"
proof -
  define s where "s = vq_demo 17"
  have e: "vq_threads s ! 2 = T_pop (D_seq 0 0) \<and> fst (snd (vq_step 0x1000 (vq_threads s ! 2) (vq_arena s))) = Q_empty \<and>
      length (accepted (vq_lin s)) = 2 \<and> pos_in (vq_threads s ! 1) = Some 0 \<and>
      queue_replay [] (vq_lin s) = Some [\<lparr>key = 2, val = 20\<rparr>, \<lparr>key = 1, val = 10\<rparr>]"
    unfolding s_def by code_simp
  then obtain t B where st: "vq_step 0x1000 (vq_threads s ! 2) (vq_arena s) = (t, Q_empty, B)" by (metis prod.collapse)
  have "\<exists>j < 3. pos_in (vq_threads s ! j) = Some (length (delivered (vq_lin s)))"
    using vq_threads_failures [OF vq_demo_init vq_demo_short [of 17] _ _ st, of 3] e
    unfolding s_def vq_demo_def by simp
  then show ?thesis using e unfolding s_def by blast
qed

theorem vq_threads_progress_witness:
  "vq_retries (vq_demo 100) = 1 \<and> vq_busy (vq_demo 100) = 0 \<and> length (accepted (vq_lin (vq_demo 100))) = 2 \<and>
   length (delivered (vq_lin (vq_demo 100))) = 1 \<and> vq_retries (vq_demo 100) \<le> 2 * 3"
proof -
  define s where "s = vq_demo 100"
  have e: "vq_retries s = 1 \<and> vq_busy s = 0 \<and> length (accepted (vq_lin s)) = 2 \<and> length (delivered (vq_lin s)) = 1"
    unfolding s_def by code_simp
  have "vq_retries s \<le> 2 * 3"
    using vq_threads_progress [OF vq_demo_init vq_demo_short [of 100] s_def [unfolded vq_demo_def]] e by simp
  then show ?thesis using e unfolding s_def by blast
qed

subsection \<open>Without interference\<close>

text \<open>Run alone, the steps of a call that succeeds add up to the operation.\<close>

lemma vq_alone_insert:
  assumes q: "vy_queue hp (vq_arena s) xs" and r: "vy_room hp (vq_arena s)"
    and i: "i < length (vq_threads s)" "vq_threads s ! i = T_idle"
    and s': "s' = vq_run hp (C_insert i x # replicate 7 (C_step i)) s"
  shows "ds_vyukhov_insert sd hp (key x) (val x) (vq_arena s) = (DS_SUCCESS, vq_arena s')"
    and "vq_threads s' = vq_threads s" and "vq_lin s' = vq_lin s @ [EvIns x DS_SUCCESS]"
proof -
  let ?A = "vq_arena s" and ?h = "vy_heads (vq_arena s) hp"
  note d = vy_queueD [OF q]
  have n: "length xs < vy_cap ?h" using vy_room_iff [OF q] r by simp
  have pcs: "(vq_threads s)[i := T_idle] = vq_threads s" using i(2) list_update_id by metis
  have seq: "vy_sequence (vy_cells ?A (vy_at ?h (vy_enqueue_pos ?h))) = vy_enqueue_pos ?h"
    using d(6) [OF n] by (simp add: d(5) vy_cell_ok_def)
  have steps: "replicate 7 (C_step i) = [C_step i, C_step i, C_step i, C_step i, C_step i, C_step i, C_step i]"
    by (simp add: eval_nat_numeral)
  have x: "d\<lparr>key := key x, val := val x\<rparr> = \<lparr>key = key x, val = val x\<rparr>" for d :: ds_kv by (cases d) simp
  show "ds_vyukhov_insert sd hp (key x) (val x) ?A = (DS_SUCCESS, vq_arena s')"
    "vq_threads s' = vq_threads s" "vq_lin s' = vq_lin s @ [EvIns x DS_SUCCESS]"
    unfolding s' steps ds_variant using d(1,3) i seq pcs
    by (simp_all add: vq_run_Cons vq_run_def vq_insert_call_def vq_ins_retry_def DS_VYUKHOV_MAX_RETRIES_def
        ds_vyukhov_insert_lkmm_def numeral_eq_Suc Let_def vy_at_def [symmetric] vy_set_head_def vy_set_cell_def x)
qed

lemma vq_alone_pop:
  assumes q: "vy_queue hp (vq_arena s) (x # xs)"
    and i: "i < length (vq_threads s)" "vq_threads s ! i = T_idle"
    and s': "s' = vq_run hp (C_pop i # replicate 7 (C_step i)) s"
  shows "ds_vyukhov_pop sd hp (Some d) (vq_arena s) = (DS_SUCCESS, Some x, vq_arena s')"
    and "vq_threads s' = vq_threads s" and "vq_got s' = vq_got s @ [x]"
proof -
  let ?A = "vq_arena s" and ?h = "vy_heads (vq_arena s) hp"
  note v = vy_queueD [OF q]
  have n: "0 < vy_cap ?h" using v(2) by (simp add: vy_wf_def)
  have pcs: "(vq_threads s)[i := T_idle] = vq_threads s" using i(2) list_update_id by metis
  have seq: "vy_sequence (vy_cells ?A (vy_at ?h (vy_dequeue_pos ?h))) = vy_dequeue_pos ?h + 1"
    "vy_data (vy_cells ?A (vy_at ?h (vy_dequeue_pos ?h))) = x"
    using v(6) [OF n] by (simp_all add: vy_cell_ok_def)
  have steps: "replicate 7 (C_step i) = [C_step i, C_step i, C_step i, C_step i, C_step i, C_step i, C_step i]"
    by (simp add: eval_nat_numeral)
  show "ds_vyukhov_pop sd hp (Some d) ?A = (DS_SUCCESS, Some x, vq_arena s')"
    "vq_threads s' = vq_threads s" "vq_got s' = vq_got s @ [x]"
    unfolding s' steps ds_variant using v(1,3) i seq pcs
    by (simp_all add: vq_run_Cons vq_run_def vq_pop_call_def vq_pop_retry_def DS_VYUKHOV_MAX_RETRIES_def
        ds_vyukhov_pop_lkmm_def numeral_eq_Suc Let_def vy_at_def [symmetric] vy_set_head_def vy_set_cell_def)
qed

end
