(* ===== verification/CkFifoThreads.thy ===== *)
theory CkFifoThreads
  imports CkFifoSpsc SpscThreads
begin

text \<open>
  The Concurrency Kit queue with its producer and its consumer at work at once.  Insert and
  pop of \<^verbatim>\<open>include/ds_ck_fifo_spsc.h\<close> are cut into steps that make one access each to memory
  that both sides use (the head pointer and the entries), and a schedule interleaves the
  steps in any order, on sequentially consistent memory.  The fields \<open>garbage\<close>,
  \<open>head_snapshot\<close> and \<open>tail\<close> are used by the producer alone.  What is delicate here is that
  the producer writes again to entries the consumer has read, while the consumer publishes
  the new head before it reads the payload.
\<close>

subsection \<open>One access at a time\<close>

text \<open>
  Where the producer is in an insert of an element: about to enter; to take a new snapshot of
  the head; to take the oldest consumed entry; to allocate one; to store key and value, the
  payload pointer and the next pointer of its entry; to link it; to move the tail.
\<close>

datatype cf_prod =
    F_idle
  | F_enter ds_kv
  | F_snap ds_kv
  | F_take ds_kv
  | F_alloc ds_kv
  | F_key ds_kv ptr
  | F_val ds_kv ptr
  | F_value ds_kv ptr
  | F_null ds_kv ptr
  | F_link ds_kv ptr
  | F_tail ds_kv ptr

text \<open>
  Where the consumer is in a pop, with its output buffer: about to load the head, the next
  pointer, the payload pointer; to publish the head; to copy key and value of the payload.
\<close>

datatype cf_cons =
    G_idle
  | G_enter ds_kv
  | G_next ds_kv ptr
  | G_value ds_kv ptr
  | G_pub ds_kv ptr ptr
  | G_key ds_kv ptr
  | G_val ds_kv ptr

text \<open>
  A step of an insert gives the next position, the event it stands for in the history of the
  queue, the element and the code when the call returns, and the arena.
\<close>

fun cf_insert_step :: "'a allocator \<Rightarrow> ptr \<Rightarrow> cf_prod \<Rightarrow> 'a cf_arena \<Rightarrow>
    cf_prod \<times> lane_event list \<times> (ds_kv \<times> int) list \<times> 'a cf_arena" where
  "cf_insert_step bpf_arena_alloc hp F_idle A = (F_idle, [], [], A)"
| "cf_insert_step bpf_arena_alloc hp (F_enter x) A =
     (if hp = NULL then (F_idle, [], [(x, DS_ERROR_INVALID)], A)
      else (if cf_head_snapshot (cf_heads A hp) = cf_garbage (cf_heads A hp) then F_snap x else F_take x, [], [], A))"
| "cf_insert_step bpf_arena_alloc hp (F_snap x) A =
     (let A = cf_set_head hp ((cf_heads A hp)\<lparr>cf_head_snapshot := cf_head (cf_heads A hp)\<rparr>) A in
      (if cf_head_snapshot (cf_heads A hp) = cf_garbage (cf_heads A hp) then F_alloc x else F_take x, [], [], A))"
| "cf_insert_step bpf_arena_alloc hp (F_take x) A =
     (let garbage = cf_garbage (cf_heads A hp) in
      (if garbage = NULL then F_alloc x else F_key x garbage, [], [],
       cf_set_head hp ((cf_heads A hp)\<lparr>cf_garbage := cf_next (cf_nodes A garbage)\<rparr>) A))"
| "cf_insert_step bpf_arena_alloc hp (F_alloc x) A =
     (let (entry, al) = bpf_arena_alloc cf_entry_bytes (cf_alloc A);
          A = A\<lparr>cf_alloc := al\<rparr> in
      if entry = NULL then (F_idle, [EvIns x DS_ERROR_NOMEM], [(x, DS_ERROR_NOMEM)], A)
      else (F_key x entry, [], [], A))"
| "cf_insert_step bpf_arena_alloc hp (F_key x entry) A =
     (F_val x entry, [], [],
      cf_set_node entry ((cf_nodes A entry)\<lparr>cf_kv := (cf_kv (cf_nodes A entry))\<lparr>key := key x\<rparr>\<rparr>) A)"
| "cf_insert_step bpf_arena_alloc hp (F_val x entry) A =
     (F_value x entry, [], [],
      cf_set_node entry ((cf_nodes A entry)\<lparr>cf_kv := (cf_kv (cf_nodes A entry))\<lparr>val := val x\<rparr>\<rparr>) A)"
| "cf_insert_step bpf_arena_alloc hp (F_value x entry) A =
     (F_null x entry, [], [], cf_set_node entry ((cf_nodes A entry)\<lparr>cf_value := cf_payload entry\<rparr>) A)"
| "cf_insert_step bpf_arena_alloc hp (F_null x entry) A =
     (F_link x entry, [], [], cf_set_node entry ((cf_nodes A entry)\<lparr>cf_next := NULL\<rparr>) A)"
| "cf_insert_step bpf_arena_alloc hp (F_link x entry) A =
     (let tail = cf_tail (cf_heads A hp) in
      (F_tail x entry, [EvIns x DS_SUCCESS], [], cf_set_node tail ((cf_nodes A tail)\<lparr>cf_next := entry\<rparr>) A))"
| "cf_insert_step bpf_arena_alloc hp (F_tail x entry) A =
     (F_idle, [], [(x, DS_SUCCESS)], cf_set_head hp ((cf_heads A hp)\<lparr>cf_tail := entry\<rparr>) A)"

text \<open>A step of a pop, likewise; the history records what the entry at the new head holds.\<close>

fun cf_pop_step :: "ptr \<Rightarrow> cf_cons \<Rightarrow> 'a cf_arena \<Rightarrow>
    cf_cons \<times> lane_event list \<times> (int \<times> ds_kv) list \<times> 'a cf_arena" where
  "cf_pop_step hp G_idle A = (G_idle, [], [], A)"
| "cf_pop_step hp (G_enter d) A =
     (if hp = NULL then (G_idle, [], [(DS_ERROR_INVALID, d)], A)
      else (G_next d (cf_head (cf_heads A hp)), [], [], A))"
| "cf_pop_step hp (G_next d head) A =
     (let entry = cf_next (cf_nodes A head) in
      if entry = NULL then (G_idle, [EvPop DS_ERROR_NOT_FOUND None], [(DS_ERROR_NOT_FOUND, d)], A)
      else (G_value d entry, [], [], A))"
| "cf_pop_step hp (G_value d entry) A = (G_pub d entry (cf_value (cf_nodes A entry)), [], [], A)"
| "cf_pop_step hp (G_pub d entry payload) A =
     (let B = cf_set_head hp ((cf_heads A hp)\<lparr>cf_head := entry\<rparr>) A;
          ev = EvPop DS_SUCCESS (Some (cf_kv (cf_nodes A entry))) in
      if payload = NULL then (G_idle, [ev], [(DS_ERROR_CORRUPT, d)], B)
      else (G_key d payload, [ev], [], B))"
| "cf_pop_step hp (G_key d payload) A = (G_val (d\<lparr>key := key (cf_payload_kv payload A)\<rparr>) payload, [], [], A)"
| "cf_pop_step hp (G_val d payload) A =
     (G_idle, [], [(DS_SUCCESS, d\<lparr>val := val (cf_payload_kv payload A)\<rparr>)], A)"

subsection \<open>The two threads\<close>

record 'a cf_sys =
  cy_arena :: "'a cf_arena"
  cy_prod :: cf_prod
  cy_cons :: cf_cons
  cy_lin :: "lane_event list"
  cy_inserts :: "(ds_kv \<times> int) list"
  cy_pops :: "(int \<times> ds_kv) list"

fun cf_turn :: "'a allocator \<Rightarrow> ptr \<Rightarrow> turn \<Rightarrow> 'a cf_sys \<Rightarrow> 'a cf_sys" where
  "cf_turn alloc hp (T_insert x) s = (if cy_prod s = F_idle then s\<lparr>cy_prod := F_enter x\<rparr> else s)"
| "cf_turn alloc hp (T_pop d) s = (if cy_cons s = G_idle then s\<lparr>cy_cons := G_enter d\<rparr> else s)"
| "cf_turn alloc hp T_prod s =
     (let (pc, evs, ret, A) = cf_insert_step alloc hp (cy_prod s) (cy_arena s) in
      s\<lparr>cy_arena := A, cy_prod := pc, cy_lin := cy_lin s @ evs, cy_inserts := cy_inserts s @ ret\<rparr>)"
| "cf_turn alloc hp T_cons s =
     (let (pc, evs, ret, A) = cf_pop_step hp (cy_cons s) (cy_arena s) in
      s\<lparr>cy_arena := A, cy_cons := pc, cy_lin := cy_lin s @ evs, cy_pops := cy_pops s @ ret\<rparr>)"

definition cf_schedule :: "'a allocator \<Rightarrow> ptr \<Rightarrow> turn list \<Rightarrow> 'a cf_sys \<Rightarrow> 'a cf_sys" where
  "cf_schedule alloc hp ts s = fold (cf_turn alloc hp) ts s"

definition cf_sys_start :: "'a cf_arena \<Rightarrow> 'a cf_sys" where
  "cf_sys_start A = \<lparr>cy_arena = A, cy_prod = F_idle, cy_cons = G_idle, cy_lin = [], cy_inserts = [], cy_pops = []\<rparr>"

text \<open>The elements of the inserts that returned success, and those the successful pops returned.\<close>

definition ins_ok :: "(ds_kv \<times> int) list \<Rightarrow> ds_kv list" where
  "ins_ok rs = map fst (filter (\<lambda>r. snd r = DS_SUCCESS) rs)"

definition pop_ok :: "(int \<times> ds_kv) list \<Rightarrow> ds_kv list" where
  "pop_ok rs = map snd (filter (\<lambda>r. fst r = DS_SUCCESS) rs)"

lemma ret_ok_simps [simp]:
  "ins_ok [] = []" "ins_ok (rs @ rs') = ins_ok rs @ ins_ok rs'" "ins_ok [(x, c)] = (if c = DS_SUCCESS then [x] else [])"
  "pop_ok [] = []" "pop_ok (ps @ ps') = pop_ok ps @ pop_ok ps'" "pop_ok [(c, x)] = (if c = DS_SUCCESS then [x] else [])"
  by (simp_all add: ins_ok_def pop_ok_def)

subsection \<open>The invariant\<close>

text \<open>
  \<open>cs\<close> is the whole chain from \<open>garbage\<close>.  An entry the producer owns is outside of it and
  lies in memory the allocator handed out; the tail points to the last entry of the chain
  except between the link and the store of the tail.
\<close>

definition cf_own :: "nat set \<Rightarrow> ptr list \<Rightarrow> ptr \<Rightarrow> bool" where
  "cf_own us cs e \<longleftrightarrow> e \<noteq> NULL \<and> e \<notin> set cs \<and> block e cf_entry_bytes \<subseteq> us \<and> unat e + 32 \<le> 2 ^ 64"

fun cfp_entry :: "cf_prod \<Rightarrow> ptr option" where
  "cfp_entry (F_key x e) = Some e"
| "cfp_entry (F_val x e) = Some e"
| "cfp_entry (F_value x e) = Some e"
| "cfp_entry (F_null x e) = Some e"
| "cfp_entry (F_link x e) = Some e"
| "cfp_entry _ = None"

fun cfp_local :: "ds_ck_fifo_spsc \<Rightarrow> (ptr \<Rightarrow> ds_ck_fifo_spsc_entry) \<Rightarrow> ptr list \<Rightarrow> cf_prod \<Rightarrow> bool" where
  "cfp_local h m cs (F_take x) \<longleftrightarrow> cf_tail h = last cs \<and> cf_head_snapshot h \<noteq> cf_garbage h"
| "cfp_local h m cs (F_val x e) \<longleftrightarrow> cf_tail h = last cs \<and> key (cf_kv (m e)) = key x"
| "cfp_local h m cs (F_value x e) \<longleftrightarrow> cf_tail h = last cs \<and> cf_kv (m e) = x"
| "cfp_local h m cs (F_null x e) \<longleftrightarrow> cf_tail h = last cs \<and> cf_kv (m e) = x \<and> cf_value (m e) = cf_payload e"
| "cfp_local h m cs (F_link x e) \<longleftrightarrow>
     cf_tail h = last cs \<and> cf_kv (m e) = x \<and> cf_value (m e) = cf_payload e \<and> cf_next (m e) = NULL"
| "cfp_local h m cs (F_tail x e) \<longleftrightarrow> e = last cs"
| "cfp_local h m cs _ \<longleftrightarrow> cf_tail h = last cs"

definition cfp_ok where
  "cfp_ok us h m cs pp \<longleftrightarrow> cfp_local h m cs pp \<and> pred_option (cf_own us cs) (cfp_entry pp)"

text \<open>What the consumer knows: the entries it holds are the stub at the head and the front.\<close>

fun cfc_ok :: "ds_ck_fifo_spsc \<Rightarrow> (ptr \<Rightarrow> ds_ck_fifo_spsc_entry) \<Rightarrow> ptr list \<Rightarrow> cf_cons \<Rightarrow> bool" where
  "cfc_ok h m qs (G_next d a) \<longleftrightarrow> a = cf_head h"
| "cfc_ok h m qs (G_value d e) \<longleftrightarrow> qs \<noteq> [] \<and> e = hd qs"
| "cfc_ok h m qs (G_pub d e v) \<longleftrightarrow> qs \<noteq> [] \<and> e = hd qs \<and> v = cf_payload e"
| "cfc_ok h m qs (G_key d v) \<longleftrightarrow> v = cf_payload (cf_head h)"
| "cfc_ok h m qs (G_val d v) \<longleftrightarrow> v = cf_payload (cf_head h) \<and> key d = key (cf_kv (m (cf_head h)))"
| "cfc_ok h m qs _ \<longleftrightarrow> True"

text \<open>The element linked whose insert has not returned, the one taken whose pop has not returned.\<close>

fun cf_linked :: "cf_prod \<Rightarrow> ds_kv list" where
  "cf_linked (F_tail x e) = [x]"
| "cf_linked _ = []"

fun cf_taken :: "ds_ck_fifo_spsc \<Rightarrow> (ptr \<Rightarrow> ds_ck_fifo_spsc_entry) \<Rightarrow> cf_cons \<Rightarrow> ds_kv list" where
  "cf_taken h m (G_key d v) = [cf_kv (m (cf_head h))]"
| "cf_taken h m (G_val d v) = [cf_kv (m (cf_head h))]"
| "cf_taken h m _ = []"

definition cf_shape where
  "cf_shape h m us gs qs \<longleftrightarrow> cf_chain (h\<lparr>cf_tail := last (cf_head h # qs)\<rparr>) m us gs qs"

definition cf_log :: "ds_kv list \<Rightarrow> (int \<times> ds_kv) list \<Rightarrow> (ds_kv \<times> int) list \<Rightarrow> ds_kv list \<Rightarrow> ds_kv list \<Rightarrow> ds_kv list \<Rightarrow>
    lane_event list \<Rightarrow> bool" where
  "cf_log xs ps rs ys linked taken evs \<longleftrightarrow>
     queue_replay xs evs = Some ys \<and> accepted evs = ins_ok rs @ linked \<and> delivered evs = pop_ok ps @ taken \<and>
     snd ` set rs \<subseteq> {DS_SUCCESS, DS_ERROR_NOMEM} \<and> fst ` set ps \<subseteq> {DS_SUCCESS, DS_ERROR_NOT_FOUND}"

definition cf_inv :: "('a \<Rightarrow> bool) \<Rightarrow> ('a \<Rightarrow> nat set) \<Rightarrow> ds_kv list \<Rightarrow> ptr \<Rightarrow> 'a cf_sys \<Rightarrow> ptr list \<Rightarrow> ptr list \<Rightarrow> bool" where
  "cf_inv ok used xs hp s gs qs \<longleftrightarrow>
     (let A = cy_arena s; h = cf_heads A hp; m = cf_nodes A; us = used (cf_alloc A) in
      hp \<noteq> NULL \<and> ok (cf_alloc A) \<and> cf_shape h m us gs qs \<and>
      cfp_ok us h m (gs @ cf_head h # qs) (cy_prod s) \<and> cfc_ok h m qs (cy_cons s) \<and>
      cf_log xs (cy_pops s) (cy_inserts s) (map (cf_kv \<circ> m) qs) (cf_linked (cy_prod s)) (cf_taken h m (cy_cons s)) (cy_lin s))"

definition cf_sys_inv :: "('a \<Rightarrow> bool) \<Rightarrow> ('a \<Rightarrow> nat set) \<Rightarrow> ds_kv list \<Rightarrow> ptr \<Rightarrow> 'a cf_sys \<Rightarrow> bool" where
  "cf_sys_inv ok used xs hp s \<longleftrightarrow> (\<exists>gs qs. cf_inv ok used xs hp s gs qs)"

lemma queue_replay_snoc:
  "queue_replay xs (evs @ [ev]) = (case queue_replay xs evs of None \<Rightarrow> None | Some ys \<Rightarrow> queue_replay ys [ev])"
  by (simp only: queue_replay_is_lane_replay lane_replay_append)

lemma cf_shape_parts:
  assumes "cf_shape h m us gs qs"
  shows "seg (cf_next \<circ> m) (cf_garbage h) (gs @ cf_head h # qs) NULL"
    and "cf_head_snapshot h \<in> set (gs @ [cf_head h])"
    and "q \<in> set qs \<Longrightarrow> cf_value (m q) = cf_payload q"
    and "a \<in> set (gs @ cf_head h # qs) \<Longrightarrow> block a cf_entry_bytes \<subseteq> us \<and> unat a + 32 \<le> 2 ^ 64"
    and "distinct (gs @ cf_head h # qs)" and "NULL \<notin> set (gs @ cf_head h # qs)"
proof -
  show s: "seg (cf_next \<circ> m) (cf_garbage h) (gs @ cf_head h # qs) NULL"
    using assms by (simp add: cf_shape_def cf_chain_def)
  show "distinct (gs @ cf_head h # qs)" "NULL \<notin> set (gs @ cf_head h # qs)"
    using seg_distinct [OF s] seg_not_null [OF s] by simp_all
qed (use assms in \<open>auto simp: cf_shape_def cf_chain_def\<close>)

lemma cf_shape_head: "cf_shape (h\<lparr>cf_tail := t\<rparr>) m us gs qs = cf_shape h m us gs qs"
  by (simp add: cf_shape_def)

lemma cf_invD:
  assumes "cf_inv ok used xs hp s gs qs"
  shows "hp \<noteq> NULL" and "ok (cf_alloc (cy_arena s))"
    and "cf_shape (cf_heads (cy_arena s) hp) (cf_nodes (cy_arena s)) (used (cf_alloc (cy_arena s))) gs qs"
    and "cfp_ok (used (cf_alloc (cy_arena s))) (cf_heads (cy_arena s) hp) (cf_nodes (cy_arena s))
      (gs @ cf_head (cf_heads (cy_arena s) hp) # qs) (cy_prod s)"
    and "cfc_ok (cf_heads (cy_arena s) hp) (cf_nodes (cy_arena s)) qs (cy_cons s)"
    and "cf_log xs (cy_pops s) (cy_inserts s) (map (cf_kv \<circ> cf_nodes (cy_arena s)) qs) (cf_linked (cy_prod s))
      (cf_taken (cf_heads (cy_arena s) hp) (cf_nodes (cy_arena s)) (cy_cons s)) (cy_lin s)"
  using assms unfolding cf_inv_def Let_def by blast+

text \<open>Appending an event to the log.\<close>

lemma cf_log_snoc:
  assumes "cf_log xs ps rs ys linked taken evs"
  shows "linked = [x] \<Longrightarrow> cf_log xs ps (rs @ [(x, DS_SUCCESS)]) ys [] taken evs"
    and "linked = [] \<Longrightarrow> cf_log xs ps (rs @ [(x, DS_ERROR_NOMEM)]) ys linked taken (evs @ [EvIns x DS_ERROR_NOMEM])"
    and "linked = [] \<Longrightarrow> cf_log xs ps rs (ys @ [x]) [x] taken (evs @ [EvIns x DS_SUCCESS])"
    and "taken = [x] \<Longrightarrow> cf_log xs (ps @ [(DS_SUCCESS, x)]) rs ys linked [] evs"
    and "ys = [] \<Longrightarrow> taken = [] \<Longrightarrow>
      cf_log xs (ps @ [(DS_ERROR_NOT_FOUND, x)]) rs ys linked taken (evs @ [EvPop DS_ERROR_NOT_FOUND None])"
    and "ys = x # zs \<Longrightarrow> taken = [] \<Longrightarrow> cf_log xs ps rs zs linked [x] (evs @ [EvPop DS_SUCCESS (Some x)])"
  using assms by (auto simp: cf_log_def queue_replay_snoc)

text \<open>
  A turn of the producer: the head and the elements of the stub and of the queue stay, and
  entries are added at the end.
\<close>

lemma cf_inv_prod:
  assumes inv: "cf_inv ok used xs hp s gs qs" and h: "h = cf_heads (cy_arena s) hp"
    and ok: "ok (cf_alloc B)" and shape: "cf_shape (cf_heads B hp) (cf_nodes B) (used (cf_alloc B)) gs' (qs @ zs)"
    and head: "cf_head (cf_heads B hp) = cf_head h"
    and kv: "\<And>a. a \<in> set (cf_head h # qs) \<Longrightarrow> cf_kv (cf_nodes B a) = cf_kv (cf_nodes (cy_arena s) a)"
    and pc: "cfp_ok (used (cf_alloc B)) (cf_heads B hp) (cf_nodes B) (gs' @ cf_head h # qs @ zs) pp"
    and log: "cf_log xs (cy_pops s) rs (map (cf_kv \<circ> cf_nodes (cy_arena s)) qs @ map (cf_kv \<circ> cf_nodes B) zs)
      (cf_linked pp) (cf_taken h (cf_nodes (cy_arena s)) (cy_cons s)) evs"
  shows "cf_sys_inv ok used xs hp (s\<lparr>cy_arena := B, cy_prod := pp, cy_lin := evs, cy_inserts := rs\<rparr>)"
proof -
  note d = cf_invD [OF inv]
  have "cfc_ok (cf_heads B hp) (cf_nodes B) (qs @ zs) (cy_cons s)"
    using d(5) head kv by (cases "cy_cons s") (auto simp: h)
  moreover have "cf_taken (cf_heads B hp) (cf_nodes B) (cy_cons s) = cf_taken h (cf_nodes (cy_arena s)) (cy_cons s)"
    using head kv by (cases "cy_cons s") auto
  moreover have "map (cf_kv \<circ> cf_nodes B) qs = map (cf_kv \<circ> cf_nodes (cy_arena s)) qs" using kv by simp
  ultimately have "cf_inv ok used xs hp (s\<lparr>cy_arena := B, cy_prod := pp, cy_lin := evs, cy_inserts := rs\<rparr>) gs' (qs @ zs)"
    using d(1) ok shape pc log by (simp add: cf_inv_def Let_def head del: map_eq_conv)
  then show ?thesis unfolding cf_sys_inv_def by blast
qed

text \<open>The producer fills an entry it owns.\<close>

lemma cf_shape_upd:
  assumes "cf_shape h m us gs qs" and "e \<notin> set (gs @ cf_head h # qs)"
  shows "cf_shape h (m(e := n)) us gs qs"
  using assms by (auto simp: cf_shape_def cf_chain_def)

lemma cf_inv_fill:
  assumes inv: "cf_inv ok used xs hp s gs qs" and e: "cfp_entry (cy_prod s) = Some e" "cfp_entry pp = Some e"
    and pc: "cfp_local (cf_heads (cy_arena s) hp) ((cf_nodes (cy_arena s))(e := n))
      (gs @ cf_head (cf_heads (cy_arena s) hp) # qs) pp"
    and B: "B = cf_set_node e n (cy_arena s)"
  shows "cf_sys_inv ok used xs hp (s\<lparr>cy_arena := B, cy_prod := pp, cy_lin := cy_lin s, cy_inserts := cy_inserts s\<rparr>)"
proof (rule cf_inv_prod [where zs = "[]" and gs' = gs, OF inv refl])
  note d = cf_invD [OF inv]
  let ?h = "cf_heads (cy_arena s) hp"
  have own: "cf_own (used (cf_alloc (cy_arena s))) (gs @ cf_head ?h # qs) e" using d(4) e(1) by (simp add: cfp_ok_def)
  then have out: "e \<notin> set (gs @ cf_head ?h # qs)" by (simp add: cf_own_def)
  show "ok (cf_alloc B)" "cf_head (cf_heads B hp) = cf_head ?h" using d(2) by (simp_all add: B)
  show "cf_shape (cf_heads B hp) (cf_nodes B) (used (cf_alloc B)) gs (qs @ [])"
    using cf_shape_upd [OF d(3) out] by (simp add: B)
  show "cf_kv (cf_nodes B a) = cf_kv (cf_nodes (cy_arena s) a)" if "a \<in> set (cf_head ?h # qs)" for a
    using that out by (auto simp: B)
  show "cfp_ok (used (cf_alloc B)) (cf_heads B hp) (cf_nodes B) (gs @ cf_head ?h # qs @ []) pp"
    using pc own e(2) by (simp add: cfp_ok_def B)
  have "cf_linked pc = []" if "cfp_entry pc = Some e" for pc using that by (cases pc) auto
  from this [OF e(1)] this [OF e(2)] show "cf_log xs (cy_pops s) (cy_inserts s)
      (map (cf_kv \<circ> cf_nodes (cy_arena s)) qs @ map (cf_kv \<circ> cf_nodes B) [])
      (cf_linked pp) (cf_taken ?h (cf_nodes (cy_arena s)) (cy_cons s)) (cy_lin s)"
    using d(6) by simp
qed

text \<open>The link of an owned entry behind the last one.\<close>

lemma cf_shape_link:
  assumes c: "cf_shape h m us gs qs" and own: "cf_own us (gs @ cf_head h # qs) e"
    and e: "cf_value (m e) = cf_payload e" "cf_next (m e) = NULL" and t: "t = last (cf_head h # qs)"
  shows "cf_shape h (m(t := (m t)\<lparr>cf_next := e\<rparr>)) us gs (qs @ [e])"
proof -
  note p = cf_shape_parts [OF c]
  let ?m = "m(t := (m t)\<lparr>cf_next := e\<rparr>)"
  have o: "e \<noteq> NULL" "e \<notin> set (gs @ cf_head h # qs)" "block e cf_entry_bytes \<subseteq> us" "unat e + 32 \<le> 2 ^ 64"
    using own unfolding cf_own_def by blast+
  have "(cf_next \<circ> m)(last (gs @ cf_head h # qs) := e) = cf_next \<circ> ?m" using t by auto
  then have "seg (cf_next \<circ> ?m) (cf_garbage h) ((gs @ cf_head h # qs) @ [e]) NULL"
    using seg_link [OF p(1) _ o(1,2)] e(2) by simp
  moreover have "cf_value (?m q) = cf_payload q" if "q \<in> set (qs @ [e])" for q
    using that p(3) e(1) by (auto simp del: o_apply)
  ultimately show ?thesis using p(2,4) o(3,4) unfolding cf_shape_def cf_chain_def by auto
qed

text \<open>Taking the oldest consumed entry: there is one, and it leaves the chain.\<close>

lemma cf_take_turn:
  assumes inv: "cf_inv ok used xs hp s gs qs" and F_take: "cy_prod s = F_take x"
  shows "cf_sys_inv ok used xs hp (cf_turn alloc hp T_prod s)"
proof -
  note d = cf_invD [OF inv] and p = cf_shape_parts [OF cf_invD(3) [OF inv]]
  let ?A = "cy_arena s" let ?h = "cf_heads ?A hp" and ?m = "cf_nodes ?A"
  have loc: "cfp_local ?h ?m (gs @ cf_head ?h # qs) (cy_prod s)"
    using d(4) by (simp add: cfp_ok_def)
  have "gs \<noteq> []" using F_take loc p(1,2) by auto
  then obtain g gs' where gs: "gs = g # gs'" and g: "cf_garbage ?h = g" using p(1) by (cases gs) auto
  let ?B = "cf_set_head hp (?h\<lparr>cf_garbage := cf_next (?m g)\<rparr>) ?A"
  have sh: "cf_shape (cf_heads ?B hp) (cf_nodes ?B) (used (cf_alloc ?B)) gs' (qs @ [])"
    using d(3) gs g F_take loc by (auto simp: cf_shape_def cf_chain_def)
  have "cf_own (used (cf_alloc ?A)) (gs' @ cf_head ?h # qs) g"
    using p(4) [of g] p(5,6) gs by (auto simp: cf_own_def)
  then have "cfp_ok (used (cf_alloc ?B)) (cf_heads ?B hp) (cf_nodes ?B) (gs' @ cf_head ?h # qs @ []) (F_key x g)"
    using F_take loc gs by (simp add: cfp_ok_def)
  from cf_inv_prod [OF inv refl _ sh _ _ this, of "cy_inserts s" "cy_lin s"]
  have "cf_sys_inv ok used xs hp (s\<lparr>cy_arena := ?B, cy_prod := F_key x g\<rparr>)" using d(2,6) F_take by simp
  moreover have "g \<noteq> NULL" using p(6) gs by auto
  ultimately show ?thesis using F_take g by (simp add: Let_def)
qed

text \<open>The link makes the entry the last of the queue.\<close>

lemma cf_link_turn:
  assumes inv: "cf_inv ok used xs hp s gs qs" and F_link: "cy_prod s = F_link x e"
  shows "cf_sys_inv ok used xs hp (cf_turn alloc hp T_prod s)"
proof -
  note d = cf_invD [OF inv] and p = cf_shape_parts [OF cf_invD(3) [OF inv]]
  let ?A = "cy_arena s" let ?h = "cf_heads ?A hp" and ?m = "cf_nodes ?A"
  have loc: "cfp_local ?h ?m (gs @ cf_head ?h # qs) (cy_prod s)"
    and own: "pred_option (cf_own (used (cf_alloc ?A)) (gs @ cf_head ?h # qs)) (cfp_entry (cy_prod s))"
    using d(4) by (simp_all add: cfp_ok_def)
  let ?t = "cf_tail ?h"
  let ?B = "cf_set_node ?t ((?m ?t)\<lparr>cf_next := e\<rparr>) ?A"
  have o: "cf_own (used (cf_alloc ?A)) (gs @ cf_head ?h # qs) e" and t: "?t = last (cf_head ?h # qs)"
    and e: "cf_kv (?m e) = x" "cf_value (?m e) = cf_payload e" "cf_next (?m e) = NULL"
    using own loc F_link by simp_all
  have sh: "cf_shape (cf_heads ?B hp) (cf_nodes ?B) (used (cf_alloc ?B)) gs (qs @ [e])"
    using cf_shape_link [OF d(3) o e(2,3) t] by simp
  have et: "e \<noteq> ?t" using o t last_in_set [of "cf_head ?h # qs"] by (auto simp: cf_own_def)
  have kv: "cf_kv (cf_nodes ?B a) = cf_kv (?m a)" for a by simp
  have "cf_linked (cy_prod s) = []" using F_link by simp
  note l = cf_log_snoc(3) [OF d(6) this, of x]
  have "cfp_ok (used (cf_alloc ?B)) (cf_heads ?B hp) (cf_nodes ?B) (gs @ cf_head ?h # qs @ [e]) (F_tail x e)"
    by (simp add: cfp_ok_def)
  from cf_inv_prod [OF inv refl _ sh _ kv this, of "cy_inserts s" "cy_lin s @ [EvIns x DS_SUCCESS]"]
  show ?thesis using l d(2) F_link e(1) et by (simp add: Let_def)
qed

context arena_allocator
begin

text \<open>Asking the allocator: a new entry lies outside of the chain.\<close>

lemma cf_alloc_turn:
  assumes inv: "cf_inv ok used xs hp s gs qs" and F_alloc: "cy_prod s = F_alloc x"
  shows "cf_sys_inv ok used xs hp (cf_turn alloc hp T_prod s)"
proof -
  note d = cf_invD [OF inv] and p = cf_shape_parts [OF cf_invD(3) [OF inv]]
  let ?A = "cy_arena s" let ?h = "cf_heads ?A hp" and ?m = "cf_nodes ?A"
  have loc: "cfp_local ?h ?m (gs @ cf_head ?h # qs) (cy_prod s)"
    using d(4) by (simp add: cfp_ok_def)
  obtain e al where a: "alloc cf_entry_bytes (cf_alloc ?A) = (e, al)" by fastforce
  let ?B = "?A\<lparr>cf_alloc := al\<rparr>"
  have ok: "ok (cf_alloc ?B)" using alloc_ok [OF d(2) a] by simp
  have sh: "cf_shape (cf_heads ?B hp) (cf_nodes ?B) (used (cf_alloc ?B)) gs (qs @ [])"
    using cf_chain_mono d(3) alloc_used [OF d(2) a] unfolding cf_shape_def by simp
  note t = cf_inv_prod [OF inv refl ok sh]
  show ?thesis
  proof (cases "e = NULL")
    case True
    have "cf_linked (cy_prod s) = []" using F_alloc by simp
    note l = cf_log_snoc(2) [OF d(6) this, of x]
    show ?thesis
      using t [of F_idle "cy_inserts s @ [(x, DS_ERROR_NOMEM)]" "cy_lin s @ [EvIns x DS_ERROR_NOMEM]"]
        True l F_alloc a loc by (simp add: cfp_ok_def)
  next
    case False
    have "unat e \<in> block e cf_entry_bytes" by (simp add: block_def cf_entry_bytes_def)
    then have "e \<notin> set (gs @ cf_head ?h # qs)" using alloc_fresh [OF d(2) a False] p(4) by blast
    then have "cf_own (used al) (gs @ cf_head ?h # qs) e"
      using False alloc_fresh [OF d(2) a False] alloc_bounded [OF d(2) a False]
      by (simp add: cf_own_def cf_entry_bytes_def)
    then show ?thesis
      using t [of "F_key x e" "cy_inserts s" "cy_lin s"] False d(6) F_alloc a loc by (simp add: cfp_ok_def)
  qed
qed

lemma cf_prod_turn:
  assumes inv: "cf_inv ok used xs hp s gs qs"
  shows "cf_sys_inv ok used xs hp (cf_turn alloc hp T_prod s)"
proof -
  note d = cf_invD [OF inv]
  let ?A = "cy_arena s" let ?h = "cf_heads ?A hp" and ?m = "cf_nodes ?A"
  have loc: "cfp_local ?h ?m (gs @ cf_head ?h # qs) (cy_prod s)"
    using d(4) by (simp add: cfp_ok_def)
  have same: "cf_sys_inv ok used xs hp (s\<lparr>cy_prod := pp\<rparr>)"
    if "cfp_ok (used (cf_alloc ?A)) ?h ?m (gs @ cf_head ?h # qs) pp" "cf_linked pp = cf_linked (cy_prod s)" for pp
    using cf_inv_prod [OF inv refl d(2), where zs = "[]" and gs' = gs and pp = pp and rs = "cy_inserts s" and evs = "cy_lin s"]
      d(3,6) that by simp
  show ?thesis
  proof (cases "cy_prod s")
    case F_idle
    then show ?thesis using same [of F_idle] d(4) by simp
  next
    case (F_enter x)
    then show ?thesis using same [of "F_snap x"] same [of "F_take x"] loc d(1) by (simp add: cfp_ok_def)
  next
    case (F_snap x)
    let ?B = "cf_set_head hp (?h\<lparr>cf_head_snapshot := cf_head ?h\<rparr>) ?A"
    have "cf_shape (cf_heads ?B hp) (cf_nodes ?B) (used (cf_alloc ?B)) gs (qs @ [])"
      using d(3) by (simp add: cf_shape_def cf_chain_def)
    note t = cf_inv_prod [OF inv refl _ this, where rs = "cy_inserts s" and evs = "cy_lin s"]
    show ?thesis
      using t [of "F_alloc x"] t [of "F_take x"] F_snap loc d(2,6)
      by (cases "cf_head ?h = cf_garbage ?h") (simp_all add: cfp_ok_def Let_def)
  next
    case (F_take x)
    then show ?thesis by (rule cf_take_turn [OF inv])
  next
    case (F_alloc x)
    then show ?thesis by (rule cf_alloc_turn [OF inv])
  next
    case (F_key x e)
    then show ?thesis using cf_inv_fill [OF inv, of e "F_val x e"] loc by simp
  next
    case (F_val x e)
    then show ?thesis using cf_inv_fill [OF inv, of e "F_value x e"] loc by simp
  next
    case (F_value x e)
    then show ?thesis using cf_inv_fill [OF inv, of e "F_null x e"] loc by simp
  next
    case (F_null x e)
    then show ?thesis using cf_inv_fill [OF inv, of e "F_link x e"] loc by simp
  next
    case (F_link x e)
    then show ?thesis by (rule cf_link_turn [OF inv])
  next
    case (F_tail x e)
    let ?B = "cf_set_head hp (?h\<lparr>cf_tail := e\<rparr>) ?A"
    have sh: "cf_shape (cf_heads ?B hp) (cf_nodes ?B) (used (cf_alloc ?B)) gs (qs @ [])"
      using d(3) by (simp add: cf_shape_head)
    have "cf_linked (cy_prod s) = [x]" using F_tail by simp
    note l = cf_log_snoc(1) [OF d(6) this]
    show ?thesis
      using cf_inv_prod [OF inv refl _ sh, of F_idle "cy_inserts s @ [(x, DS_SUCCESS)]" "cy_lin s"] l d(2) loc F_tail
      by (simp add: cfp_ok_def)
  qed
qed

end

text \<open>A turn of the consumer that does not move the head.\<close>

lemma cf_inv_cons:
  assumes inv: "cf_inv ok used xs hp s gs qs" and pc: "cfc_ok (cf_heads (cy_arena s) hp) (cf_nodes (cy_arena s)) qs cp"
    and log: "cf_log xs ps (cy_inserts s) (map (cf_kv \<circ> cf_nodes (cy_arena s)) qs) (cf_linked (cy_prod s))
      (cf_taken (cf_heads (cy_arena s) hp) (cf_nodes (cy_arena s)) cp) evs"
  shows "cf_sys_inv ok used xs hp (s\<lparr>cy_cons := cp, cy_lin := evs, cy_pops := ps\<rparr>)"
proof -
  have "cf_inv ok used xs hp (s\<lparr>cy_cons := cp, cy_lin := evs, cy_pops := ps\<rparr>) gs qs"
    using inv pc log by (simp add: cf_inv_def Let_def)
  then show ?thesis unfolding cf_sys_inv_def by blast
qed

text \<open>Moving the head: the old stub joins the consumed entries, the front becomes the stub.\<close>

lemma cf_inv_publish:
  assumes inv: "cf_inv ok used xs hp s gs (e # es)" and pc: "cy_cons s = G_pub d e (cf_payload e)"
    and B: "B = cf_set_head hp ((cf_heads (cy_arena s) hp)\<lparr>cf_head := e\<rparr>) (cy_arena s)"
  shows "cf_sys_inv ok used xs hp (s\<lparr>cy_arena := B, cy_cons := G_key d (cf_payload e),
    cy_lin := cy_lin s @ [EvPop DS_SUCCESS (Some (cf_kv (cf_nodes (cy_arena s) e)))]\<rparr>)" (is "cf_sys_inv _ _ _ _ ?s")
proof -
  note d = cf_invD [OF inv]
  let ?h = "cf_heads (cy_arena s) hp" and ?m = "cf_nodes (cy_arena s)"
  have "cf_shape (?h\<lparr>cf_head := e\<rparr>) ?m (used (cf_alloc (cy_arena s))) (gs @ [cf_head ?h]) es"
    using d(3) by (auto simp: cf_shape_def cf_chain_def)
  moreover have "cfp_ok (used (cf_alloc (cy_arena s))) (?h\<lparr>cf_head := e\<rparr>) ?m ((gs @ [cf_head ?h]) @ e # es) (cy_prod s)"
    using d(4) by (cases "cy_prod s") (simp_all add: cfp_ok_def)
  moreover have "cf_log xs (cy_pops s) (cy_inserts s) (map (cf_kv \<circ> ?m) es) (cf_linked (cy_prod s)) [cf_kv (?m e)]
      (cy_lin s @ [EvPop DS_SUCCESS (Some (cf_kv (?m e)))])"
    using d(6) pc by (intro cf_log_snoc(6) [OF d(6)]) simp_all
  ultimately have "cf_inv ok used xs hp ?s (gs @ [cf_head ?h]) es" using d(1,2) by (simp add: cf_inv_def Let_def B)
  then show ?thesis unfolding cf_sys_inv_def by blast
qed

lemma cf_cons_turn:
  assumes inv: "cf_inv ok used xs hp s gs qs"
  shows "cf_sys_inv ok used xs hp (cf_turn alloc hp T_cons s)"
proof -
  note d = cf_invD [OF inv] and p = cf_shape_parts [OF cf_invD(3) [OF inv]]
  let ?A = "cy_arena s" let ?h = "cf_heads ?A hp" and ?m = "cf_nodes ?A"
  have same: "cf_sys_inv ok used xs hp (s\<lparr>cy_cons := cp\<rparr>)"
    if "cfc_ok ?h ?m qs cp" "cf_taken ?h ?m cp = cf_taken ?h ?m (cy_cons s)" for cp
    using cf_inv_cons [OF inv that(1), of "cy_pops s" "cy_lin s"] d(6) that(2) by simp
  show ?thesis
  proof (cases "cy_cons s")
    case G_idle
    then show ?thesis using same [of G_idle] by simp
  next
    case (G_enter b)
    then show ?thesis using same [of "G_next b (cf_head ?h)"] d(1) by simp
  next
    case (G_next b a)
    then have a: "a = cf_head ?h" using d(5) by simp
    show ?thesis
    proof (cases qs)
      case Nil
      have "cf_next (?m a) = NULL" using p(1) a Nil by (simp add: seg_append)
      moreover note cf_log_snoc(5) [OF d(6), of b]
      ultimately show ?thesis
        using cf_inv_cons [OF inv, of G_idle "cy_pops s @ [(DS_ERROR_NOT_FOUND, b)]"
            "cy_lin s @ [EvPop DS_ERROR_NOT_FOUND None]"] G_next Nil by simp
    next
      case (Cons e es)
      have "cf_next (?m a) = e" "e \<noteq> NULL" using p(1,6) a Cons by (auto simp: seg_append)
      then show ?thesis using same [of "G_value b e"] G_next Cons by simp
    qed
  next
    case (G_value b e)
    then have "qs \<noteq> []" "e = hd qs" "cf_value (?m e) = cf_payload e" using d(5) p(3) by simp_all
    then show ?thesis using same [of "G_pub b e (cf_payload e)"] G_value by simp
  next
    case (G_pub b e v)
    then obtain es where qs: "qs = e # es" and v: "v = cf_payload e" using d(5) by (cases qs) auto
    have "v \<noteq> NULL" unfolding v using p(4) [of e] qs by (intro cf_payload_not_null) simp
    then show ?thesis using cf_inv_publish [OF inv [unfolded qs] _ refl, of b] G_pub v by (simp add: Let_def)
  next
    case (G_key b v)
    then show ?thesis using same [of "G_val (b\<lparr>key := key (cf_kv (?m (cf_head ?h)))\<rparr>) v"] d(5) by simp
  next
    case (G_val b v)
    let ?x = "cf_kv (?m (cf_head ?h))"
    have x: "b\<lparr>val := val ?x\<rparr> = ?x" using d(5) G_val by (cases b; cases ?x) simp
    have turn: "cf_turn alloc hp T_cons s = s\<lparr>cy_cons := G_idle, cy_lin := cy_lin s,
        cy_pops := cy_pops s @ [(DS_SUCCESS, b\<lparr>val := val ?x\<rparr>)]\<rparr>" using d(5) G_val by simp
    have "cf_log xs (cy_pops s @ [(DS_SUCCESS, ?x)]) (cy_inserts s) (map (cf_kv \<circ> ?m) qs)
        (cf_linked (cy_prod s)) [] (cy_lin s)"
      using G_val by (intro cf_log_snoc(4) [OF d(6)]) simp
    then show ?thesis unfolding turn x by (intro cf_inv_cons [OF inv]) simp_all
  qed
qed

lemma cf_call_turn:
  assumes inv: "cf_inv ok used xs hp s gs qs"
  shows "cf_sys_inv ok used xs hp (cf_turn alloc hp (T_insert x) s)" "cf_sys_inv ok used xs hp (cf_turn alloc hp (T_pop b) s)"
proof -
  have s: "cf_sys_inv ok used xs hp s" using inv unfolding cf_sys_inv_def by blast
  have "cf_inv ok used xs hp (s\<lparr>cy_prod := F_enter x\<rparr>) gs qs" if "cy_prod s = F_idle"
    using inv that by (simp add: cf_inv_def Let_def cfp_ok_def)
  then show "cf_sys_inv ok used xs hp (cf_turn alloc hp (T_insert x) s)" using s by (auto simp: cf_sys_inv_def)
  have "cf_inv ok used xs hp (s\<lparr>cy_cons := G_enter b\<rparr>) gs qs" if "cy_cons s = G_idle"
    using inv that by (simp add: cf_inv_def Let_def)
  then show "cf_sys_inv ok used xs hp (cf_turn alloc hp (T_pop b) s)" using s by (auto simp: cf_sys_inv_def)
qed

lemma cf_schedule_Cons: "cf_schedule alloc hp (t # ts) s = cf_schedule alloc hp ts (cf_turn alloc hp t s)"
  by (simp add: cf_schedule_def)

lemma cf_start_inv:
  assumes "cf_queue ok used hp A xs"
  shows "cf_sys_inv ok used xs hp (cf_sys_start A)"
proof -
  obtain gs qs where "hp \<noteq> NULL" "ok (cf_alloc A)" and c: "cf_chain (cf_heads A hp) (cf_nodes A) (used (cf_alloc A)) gs qs"
    and "xs = map (cf_kv \<circ> cf_nodes A) qs" using assms by (rule cf_queueE)
  moreover have "cf_tail (cf_heads A hp) = last (gs @ cf_head (cf_heads A hp) # qs)" using c by (simp add: cf_chain_def)
  ultimately have "cf_inv ok used xs hp (cf_sys_start A) gs qs"
    by (simp add: cf_inv_def cf_sys_start_def Let_def cfp_ok_def cf_log_def cf_shape_def cf_chain_def)
  then show ?thesis unfolding cf_sys_inv_def by blast
qed

context arena_allocator
begin

lemma cf_turn_inv: "cf_sys_inv ok used xs hp s \<Longrightarrow> cf_sys_inv ok used xs hp (cf_turn alloc hp t s)"
  using cf_prod_turn cf_cons_turn cf_call_turn by (cases t) (fastforce simp only: cf_sys_inv_def)+

lemma cf_schedule_inv: "cf_sys_inv ok used xs hp s \<Longrightarrow> cf_sys_inv ok used xs hp (cf_schedule alloc hp ts s)"
proof (induction ts arbitrary: s)
  case (Cons t ts)
  from Cons.IH [OF cf_turn_inv [OF Cons.prems]] show ?case by (simp add: cf_schedule_Cons)
qed (simp add: cf_schedule_def)

end

subsection \<open>Calls return\<close>

text \<open>Steps that a call has at most before it.\<close>

fun cfp_left :: "cf_prod \<Rightarrow> nat" where
  "cfp_left F_idle = 0"
| "cfp_left (F_enter x) = 10"
| "cfp_left (F_snap x) = 9"
| "cfp_left (F_take x) = 8"
| "cfp_left (F_alloc x) = 7"
| "cfp_left (F_key x e) = 6"
| "cfp_left (F_val x e) = 5"
| "cfp_left (F_value x e) = 4"
| "cfp_left (F_null x e) = 3"
| "cfp_left (F_link x e) = 2"
| "cfp_left (F_tail x e) = 1"

fun cfc_left :: "cf_cons \<Rightarrow> nat" where
  "cfc_left G_idle = 0"
| "cfc_left (G_enter d) = 6"
| "cfc_left (G_next d a) = 5"
| "cfc_left (G_value d e) = 4"
| "cfc_left (G_pub d e v) = 3"
| "cfc_left (G_key d v) = 2"
| "cfc_left (G_val d v) = 1"

fun cfp_elem :: "cf_prod \<Rightarrow> ds_kv option" where
  "cfp_elem F_idle = None"
| "cfp_elem (F_enter x) = Some x"
| "cfp_elem (F_snap x) = Some x"
| "cfp_elem (F_take x) = Some x"
| "cfp_elem (F_alloc x) = Some x"
| "cfp_elem (F_key x e) = Some x"
| "cfp_elem (F_val x e) = Some x"
| "cfp_elem (F_value x e) = Some x"
| "cfp_elem (F_null x e) = Some x"
| "cfp_elem (F_link x e) = Some x"
| "cfp_elem (F_tail x e) = Some x"

lemma cf_insert_step_left:
  assumes "cf_insert_step alloc hp pc A = (pc', evs, ret, B)" and "cfp_elem pc = Some x"
  shows "(ret = [] \<and> cfp_elem pc' = Some x \<and> cfp_left pc' < cfp_left pc) \<or> (pc' = F_idle \<and> (\<exists>c. ret = [(x, c)]))"
  using assms by (cases pc) (auto simp: Let_def split: if_splits prod.splits)

lemma cf_pop_step_left:
  assumes "cf_pop_step hp pc A = (pc', evs, ret, B)" and "pc \<noteq> G_idle"
  shows "(ret = [] \<and> pc' \<noteq> G_idle \<and> cfc_left pc' < cfc_left pc) \<or> (pc' = G_idle \<and> (\<exists>r. ret = [r]))"
  using assms by (cases pc) (auto simp: Let_def split: if_splits)

lemma cf_logs_extend:
  "\<exists>zs. cy_inserts (cf_schedule alloc hp ts s) = cy_inserts s @ zs"
  "\<exists>zs. cy_pops (cf_schedule alloc hp ts s) = cy_pops s @ zs"
proof (induction ts arbitrary: s)
  case (Cons t ts)
  have t: "\<exists>zs. cy_inserts (cf_turn alloc hp t s) = cy_inserts s @ zs"
    "\<exists>zs. cy_pops (cf_turn alloc hp t s) = cy_pops s @ zs" for s
    by (cases t; auto split: prod.splits)+
  { case 1
    show ?case using Cons.IH(1) [of "cf_turn alloc hp t s"] t(1) [of s]
      by (simp add: cf_schedule_Cons) (metis append_assoc) }
  { case 2
    show ?case using Cons.IH(2) [of "cf_turn alloc hp t s"] t(2) [of s]
      by (simp add: cf_schedule_Cons) (metis append_assoc) }
qed (auto simp: cf_schedule_def)

text \<open>An insert returns within its own steps, whatever the consumer does meanwhile.\<close>

lemma cf_insert_returns:
  assumes "cfp_elem (cy_prod s) = Some x" and "cfp_left (cy_prod s) \<le> count_list ts T_prod"
  shows "\<exists>c zs. cy_inserts (cf_schedule alloc hp ts s) = cy_inserts s @ (x, c) # zs"
  using assms
proof (induction ts arbitrary: s)
  case Nil
  then show ?case by (cases "cy_prod s") simp_all
next
  case (Cons t ts)
  show ?case
  proof (cases "t = T_prod")
    case True
    obtain pc evs ret B where st: "cf_insert_step alloc hp (cy_prod s) (cy_arena s) = (pc, evs, ret, B)"
      by (metis prod_cases4)
    let ?s = "cf_turn alloc hp t s"
    have s: "cy_prod ?s = pc" "cy_inserts ?s = cy_inserts s @ ret" using True st by simp_all
    from cf_insert_step_left [OF st Cons.prems(1)] show ?thesis
    proof (elim disjE conjE exE)
      assume "ret = []" "cfp_elem pc = Some x" "cfp_left pc < cfp_left (cy_prod s)"
      then show ?thesis using Cons.IH [of ?s] Cons.prems(2) s True by (simp add: cf_schedule_Cons)
    next
      fix c assume "ret = [(x, c)]"
      then show ?thesis using cf_logs_extend(1) [of alloc hp ts ?s] s by (auto simp: cf_schedule_Cons)
    qed
  next
    case False
    have "cy_prod s \<noteq> F_idle" using Cons.prems(1) by auto
    with False have "cy_prod (cf_turn alloc hp t s) = cy_prod s" "cy_inserts (cf_turn alloc hp t s) = cy_inserts s"
      by (cases t; auto split: prod.splits)+
    then show ?thesis using Cons.IH [of "cf_turn alloc hp t s"] Cons.prems False by (simp add: cf_schedule_Cons)
  qed
qed

text \<open>
  A pop that is due \<open>y\<close>: the element is at the front of the queue, or has just been taken.
\<close>

definition cf_due :: "ds_kv list \<Rightarrow> ds_kv \<Rightarrow> 'a cf_sys \<Rightarrow> bool" where
  "cf_due xs y s \<longleftrightarrow>
     (case cy_cons s of
        G_idle \<Rightarrow> False
      | G_key d v \<Rightarrow> last (delivered (cy_lin s)) = y
      | G_val d v \<Rightarrow> last (delivered (cy_lin s)) = y
      | _ \<Rightarrow> (\<exists>ys. queue_replay xs (cy_lin s) = Some (y # ys)))"

lemma cf_insert_step_events:
  assumes "cf_insert_step alloc hp pc A = (pc', evs, ret, B)"
  shows "evs = [] \<or> (\<exists>x c. evs = [EvIns x c])"
  using assms by (cases pc) (auto simp: Let_def split: if_splits prod.splits)

lemma cf_due_others:
  assumes "cf_due xs y s" and "t \<noteq> T_cons"
  shows "cf_due xs y (cf_turn alloc hp t s)" and "cy_cons (cf_turn alloc hp t s) = cy_cons s"
    and "cy_pops (cf_turn alloc hp t s) = cy_pops s"
proof -
  obtain pc evs ret B where st: "cf_insert_step alloc hp (cy_prod s) (cy_arena s) = (pc, evs, ret, B)"
    by (metis prod_cases4)
  have n: "cy_cons s \<noteq> G_idle" using assms(1) by (auto simp: cf_due_def)
  show "cy_cons (cf_turn alloc hp t s) = cy_cons s" "cy_pops (cf_turn alloc hp t s) = cy_pops s"
    using n assms(2) st by (cases t; simp)+
  have "cf_due xs y (s\<lparr>cy_arena := B, cy_prod := pc, cy_lin := cy_lin s @ evs, cy_inserts := r\<rparr>)" for r
    using cf_insert_step_events [OF st] assms(1)
    by (auto simp: cf_due_def queue_replay_snoc split: cf_cons.splits)
  then show "cf_due xs y (cf_turn alloc hp t s)"
    using n assms st by (cases t) (auto simp: cf_due_def split: cf_cons.splits)
qed

lemma cf_due_cons:
  assumes inv: "cf_inv ok used xs hp s gs qs" and due: "cf_due xs y s"
    and s': "s' = cf_turn alloc hp T_cons s"
  shows "cf_due xs y s' \<and> cy_pops s' = cy_pops s \<and> cfc_left (cy_cons s') < cfc_left (cy_cons s) \<or>
    cy_pops s' = cy_pops s @ [(DS_SUCCESS, y)]"
proof -
  note d = cf_invD [OF inv] and p = cf_shape_parts [OF cf_invD(3) [OF inv]]
  let ?h = "cf_heads (cy_arena s) hp" and ?m = "cf_nodes (cy_arena s)"
  have r: "queue_replay xs (cy_lin s) = Some (map (cf_kv \<circ> ?m) qs)"
    and t: "delivered (cy_lin s) = pop_ok (cy_pops s) @ cf_taken ?h ?m (cy_cons s)"
    using d(6) by (simp_all add: cf_log_def)
  show ?thesis
  proof (cases "cy_cons s")
    case G_idle
    then show ?thesis using due by (simp add: cf_due_def)
  next
    case (G_enter b)
    then show ?thesis using due d(1) s' by (simp add: cf_due_def)
  next
    case (G_next b a)
    then obtain e es where q: "qs = e # es" using due r by (cases qs) (auto simp: cf_due_def)
    then have "cf_next (?m a) = e" "e \<noteq> NULL" using p(1,6) d(5) G_next by (auto simp: seg_append)
    then show ?thesis using G_next due s' by (simp add: cf_due_def)
  next
    case (G_value b e)
    then show ?thesis using due s' by (simp add: cf_due_def)
  next
    case (G_pub b e v)
    then obtain es where qs: "qs = e # es" and v: "v = cf_payload e" using d(5) by (cases qs) auto
    have "v \<noteq> NULL" unfolding v using p(4) [of e] qs by (intro cf_payload_not_null) simp
    moreover have "cf_kv (?m e) = y" using due G_pub r qs by (auto simp: cf_due_def)
    ultimately show ?thesis using G_pub s' by (simp add: cf_due_def Let_def)
  next
    case (G_key b v)
    then show ?thesis using due s' by (simp add: cf_due_def)
  next
    case (G_val b v)
    then have "cf_kv (?m (cf_head ?h)) = y" using due t by (simp add: cf_due_def)
    moreover have "b\<lparr>val := val y\<rparr> = y" if "key b = key y" using that by (cases b; cases y) simp
    ultimately show ?thesis using G_val s' d(5) by simp
  qed
qed

context arena_allocator
begin

lemma cf_pop_returns:
  assumes "cf_sys_inv ok used xs hp s" and "cf_due xs y s" and "cfc_left (cy_cons s) \<le> count_list ts T_cons"
  shows "\<exists>zs. cy_pops (cf_schedule alloc hp ts s) = cy_pops s @ (DS_SUCCESS, y) # zs"
  using assms
proof (induction ts arbitrary: s)
  case Nil
  then show ?case by (cases "cy_cons s") (simp_all add: cf_due_def)
next
  case (Cons t ts)
  let ?s = "cf_turn alloc hp t s"
  have inv: "cf_sys_inv ok used xs hp ?s" using cf_turn_inv Cons.prems(1) .
  show ?case
  proof (cases "t = T_cons")
    case True
    from Cons.prems(1) obtain gs qs where "cf_inv ok used xs hp s gs qs" unfolding cf_sys_inv_def by blast
    from cf_due_cons [OF this Cons.prems(2) refl, of alloc] show ?thesis
    proof (elim disjE conjE)
      assume "cf_due xs y (cf_turn alloc hp T_cons s)" "cy_pops (cf_turn alloc hp T_cons s) = cy_pops s"
        "cfc_left (cy_cons (cf_turn alloc hp T_cons s)) < cfc_left (cy_cons s)"
      then show ?thesis using Cons.IH [OF inv] Cons.prems(3) True by (simp add: cf_schedule_Cons del: cf_turn.simps)
    next
      assume "cy_pops (cf_turn alloc hp T_cons s) = cy_pops s @ [(DS_SUCCESS, y)]"
      then show ?thesis
        using cf_logs_extend(2) [of alloc hp ts ?s] True by (auto simp: cf_schedule_Cons simp del: cf_turn.simps)
    qed
  next
    case False
    note o = cf_due_others [OF Cons.prems(2) False, of alloc hp]
    show ?thesis using Cons.IH [OF inv o(1)] Cons.prems(3) o(2,3) False by (simp add: cf_schedule_Cons)
  qed
qed

end

subsection \<open>Properties\<close>

text \<open>
  C14.  The Concurrency Kit queue is a FIFO while producer and consumer run at once: whatever
  the schedule of their accesses, from a consistent queue the links of entries and the moves
  of the head are in the order in which they happened a history of an abstract queue, in
  which a pop fails only when the queue is empty.  The inserts that returned success are the
  elements of that history, but for one whose insert is about to return; the pops returned
  its elements in order, each whole, but for one whose pop is still copying it; no pop finds
  the queue corrupt.  When no call is in progress the arena holds a consistent queue with
  the remaining elements.
\<close>

theorem cf_threads_fifo:
  assumes "cf_queue user_ok user_used hp A xs"
  shows "let s = cf_schedule user_allocator hp ts (cf_sys_start A) in
    \<exists>ys zs. queue_replay xs (cy_lin s) = Some ys \<and> xs @ accepted (cy_lin s) = delivered (cy_lin s) @ ys \<and>
      accepted (cy_lin s) = ins_ok (cy_inserts s) @ cf_linked (cy_prod s) \<and>
      delivered (cy_lin s) = pop_ok (cy_pops s) @ zs \<and> length zs \<le> 1 \<and> (cy_cons s = G_idle \<longrightarrow> zs = []) \<and>
      fst ` set (cy_pops s) \<subseteq> {DS_SUCCESS, DS_ERROR_NOT_FOUND} \<and>
      snd ` set (cy_inserts s) \<subseteq> {DS_SUCCESS, DS_ERROR_NOMEM} \<and>
      (cy_prod s = F_idle \<and> cy_cons s = G_idle \<longrightarrow> cf_queue user_ok user_used hp (cy_arena s) ys)"
proof -
  define s where "s = cf_schedule user_allocator hp ts (cf_sys_start A)"
  obtain gs qs where inv: "cf_inv user_ok user_used xs hp s gs qs"
    using ua.cf_schedule_inv [OF cf_start_inv [OF assms], of ts] unfolding s_def cf_sys_inv_def by blast
  note d = cf_invD [OF inv]
  let ?h = "cf_heads (cy_arena s) hp" and ?m = "cf_nodes (cy_arena s)"
  let ?ys = "map (cf_kv \<circ> ?m) qs" and ?zs = "cf_taken ?h ?m (cy_cons s)"
  have l: "queue_replay xs (cy_lin s) = Some ?ys" "accepted (cy_lin s) = ins_ok (cy_inserts s) @ cf_linked (cy_prod s)"
    "delivered (cy_lin s) = pop_ok (cy_pops s) @ ?zs" "fst ` set (cy_pops s) \<subseteq> {DS_SUCCESS, DS_ERROR_NOT_FOUND}"
    "snd ` set (cy_inserts s) \<subseteq> {DS_SUCCESS, DS_ERROR_NOMEM}"
    using d(6) unfolding cf_log_def by blast+
  have z: "length ?zs \<le> 1" "cy_cons s = G_idle \<longrightarrow> ?zs = []" by (cases "cy_cons s"; simp)+
  have "cf_queue user_ok user_used hp (cy_arena s) ?ys" if "cy_prod s = F_idle"
    using that d(1-4) by (intro cf_queueI [where gs = gs and qs = qs]) (simp_all add: cfp_ok_def cf_shape_def cf_chain_def)
  then show ?thesis
    unfolding Let_def s_def [symmetric] using l z queue_replay_fifo [OF l(1)]
    by (intro exI [of _ ?ys] exI [of _ ?zs]) simp
qed

text \<open>
  A schedule in which the producer takes the old stub again while the consumer, having
  published the new head, copies the payload.
\<close>

definition cf_demo_turns :: "turn list" where
  "cf_demo_turns =
     T_insert \<lparr>key = 1, val = 10\<rparr> # replicate 9 T_prod @ T_pop zero_kv # replicate 4 T_cons @
     T_insert \<lparr>key = 2, val = 20\<rparr> # replicate 3 T_prod @ [T_cons, T_prod, T_cons] @ replicate 5 T_prod"

definition cf_demo_run :: "nat \<Rightarrow> user_alloc cf_sys" where
  "cf_demo_run k = cf_schedule user_allocator 0x1000 (take k cf_demo_turns) (cf_sys_start cf_demo)"

theorem cf_threads_fifo_witness:
  "pop_ok (cy_pops (cf_demo_run 30)) = [\<lparr>key = 1, val = 10\<rparr>] \<and>
   ins_ok (cy_inserts (cf_demo_run 30)) = [\<lparr>key = 1, val = 10\<rparr>, \<lparr>key = 2, val = 20\<rparr>] \<and>
   cf_queue user_ok user_used 0x1000 (cy_arena (cf_demo_run 30)) [\<lparr>key = 2, val = 20\<rparr>]"
proof -
  define s where "s = cf_demo_run 30"
  have e: "pop_ok (cy_pops s) = [\<lparr>key = 1, val = 10\<rparr>] \<and> cy_prod s = F_idle \<and> cy_cons s = G_idle \<and>
    ins_ok (cy_inserts s) = [\<lparr>key = 1, val = 10\<rparr>, \<lparr>key = 2, val = 20\<rparr>]"
    unfolding s_def by code_simp
  have "cf_queue user_ok user_used 0x1000 (cy_arena s) [\<lparr>key = 2, val = 20\<rparr>]"
    using cf_threads_fifo [OF cf_demo_queue, of "take 30 cf_demo_turns", folded cf_demo_run_def, folded s_def, unfolded Let_def] e
    by auto
  then show ?thesis using e unfolding s_def by blast
qed

text \<open>The entry whose memory the next step of the consumer reads, or whose address it publishes.\<close>

fun cfc_entry :: "cf_cons \<Rightarrow> ptr option" where
  "cfc_entry (G_next d a) = Some a"
| "cfc_entry (G_value d e) = Some e"
| "cfc_entry (G_pub d e v) = Some e"
| "cfc_entry (G_key d v) = Some (v - 16)"
| "cfc_entry (G_val d v) = Some (v - 16)"
| "cfc_entry _ = None"

text \<open>
  C15.  Recycling is safe: the entry that the producer fills, recycled or new, is never the
  one the consumer reads, although the consumer copies the payload after it has published
  the head, and it is not the stub at the head.
\<close>

theorem cf_threads_recycle_safe:
  assumes q: "cf_queue user_ok user_used hp A xs" and s: "s = cf_schedule user_allocator hp ts (cf_sys_start A)"
    and e: "cfp_entry (cy_prod s) = Some e"
  shows "cfc_entry (cy_cons s) \<noteq> Some e \<and> e \<noteq> cf_head (cf_heads (cy_arena s) hp)"
proof -
  obtain gs qs where inv: "cf_inv user_ok user_used xs hp s gs qs"
    using ua.cf_schedule_inv [OF cf_start_inv [OF q], of ts] unfolding s cf_sys_inv_def by blast
  note d = cf_invD [OF inv]
  have "e \<notin> set (gs @ cf_head (cf_heads (cy_arena s) hp) # qs)" using d(4) e by (simp add: cfp_ok_def cf_own_def)
  then show ?thesis using d(5) by (cases "cy_cons s") (auto simp: cf_payload_def)
qed

theorem cf_threads_recycle_safe_witness:
  "cfp_entry (cy_prod (cf_demo_run 19)) = Some 0x100000001FD8 \<and> cy_cons (cf_demo_run 19) = G_key zero_kv 0x100000001FC8 \<and>
   cfc_entry (cy_cons (cf_demo_run 19)) \<noteq> Some 0x100000001FD8"
proof -
  have "cfp_entry (cy_prod (cf_demo_run 19)) = Some 0x100000001FD8 \<and>
      cy_cons (cf_demo_run 19) = G_key zero_kv 0x100000001FC8" by code_simp
  with cf_threads_recycle_safe [OF cf_demo_queue cf_demo_run_def, of 19 "0x100000001FD8"] show ?thesis by blast
qed

text \<open>
  C16.  Calls do not wait for the other side: an insert called in a reachable state returns
  success or a lack of memory once the producer has made ten steps, and a pop called on a
  queue that is not empty returns success with the front once the consumer has made six,
  whatever the other side does in between.
\<close>

theorem cf_calls_return:
  assumes "cf_queue user_ok user_used hp A xs" and s: "s = cf_schedule user_allocator hp us (cf_sys_start A)"
  shows "(cy_prod s = F_idle \<and> 10 \<le> count_list ts T_prod \<longrightarrow>
      (\<exists>c zs. c \<in> {DS_SUCCESS, DS_ERROR_NOMEM} \<and>
        cy_inserts (cf_schedule user_allocator hp (T_insert x # ts) s) = cy_inserts s @ (x, c) # zs)) \<and>
    (cy_cons s = G_idle \<and> queue_replay xs (cy_lin s) = Some (y # ys) \<and> 6 \<le> count_list ts T_cons \<longrightarrow>
      (\<exists>zs. cy_pops (cf_schedule user_allocator hp (T_pop d # ts) s) = cy_pops s @ (DS_SUCCESS, y) # zs))"
proof -
  have inv: "cf_sys_inv user_ok user_used xs hp (cf_schedule user_allocator hp vs s)" for vs
    unfolding s by (intro ua.cf_schedule_inv cf_start_inv assms(1))
  have i: "\<exists>c zs. c \<in> {DS_SUCCESS, DS_ERROR_NOMEM} \<and>
      cy_inserts (cf_schedule user_allocator hp (T_insert x # ts) s) = cy_inserts s @ (x, c) # zs"
    if idle: "cy_prod s = F_idle" "10 \<le> count_list ts T_prod"
  proof -
    let ?r = "cy_inserts (cf_schedule user_allocator hp (T_insert x # ts) s)"
    obtain c zs where r: "?r = cy_inserts s @ (x, c) # zs"
      using cf_insert_returns [of "cf_turn user_allocator hp (T_insert x) s" x ts user_allocator hp] idle by (auto simp: cf_schedule_Cons)
    have "snd ` set ?r \<subseteq> {DS_SUCCESS, DS_ERROR_NOMEM}"
      using inv [of "T_insert x # ts"] unfolding cf_sys_inv_def cf_inv_def cf_log_def Let_def by blast
    then show ?thesis using r by auto
  qed
  have p: "\<exists>zs. cy_pops (cf_schedule user_allocator hp (T_pop d # ts) s) = cy_pops s @ (DS_SUCCESS, y) # zs"
    if "cy_cons s = G_idle" "queue_replay xs (cy_lin s) = Some (y # ys)" "6 \<le> count_list ts T_cons"
    using ua.cf_pop_returns [of xs hp "cf_turn user_allocator hp (T_pop d) s" y ts] inv [of "[T_pop d]"] that
    by (simp add: cf_schedule_def cf_due_def)
  show ?thesis using i p by blast
qed

theorem cf_calls_return_witness:
  "\<exists>zs. cy_pops (cf_schedule user_allocator 0x1000 (T_pop zero_kv # replicate 6 T_cons) (cf_demo_run 10)) =
     (DS_SUCCESS, \<lparr>key = 1, val = 10\<rparr>) # zs"
proof -
  have "queue_replay [] (cy_lin (cf_demo_run 10)) = Some [\<lparr>key = 1, val = 10\<rparr>]" "cy_cons (cf_demo_run 10) = G_idle"
    "cy_pops (cf_demo_run 10) = []" by code_simp+
  moreover have "count_list (replicate 6 T_cons) T_cons = 6" by (simp add: eval_nat_numeral)
  ultimately show ?thesis
    using cf_calls_return [OF cf_demo_queue cf_demo_run_def, of 10 "replicate 6 T_cons" zero_kv] by simp
qed

subsection \<open>Without interference\<close>

text \<open>Run alone, the steps of a call add up to the operation, on every branch.\<close>

lemma cf_schedule_append: "cf_schedule alloc hp (ts @ us) s = cf_schedule alloc hp us (cf_schedule alloc hp ts s)"
  by (simp add: cf_schedule_def)

lemma cf_alone_fill:
  assumes "cy_prod s = F_key x e" and A: "A = cy_arena s"
  shows "cf_schedule alloc hp (replicate 6 T_prod) s =
    s\<lparr>cy_arena := ds_ck_fifo_spsc_enqueue_lkmm hp e (cf_payload e)
        (cf_set_node e ((cf_nodes A e)\<lparr>cf_kv := \<lparr>key = key x, val = val x\<rparr>\<rparr>) A),
      cy_prod := F_idle, cy_lin := cy_lin s @ [EvIns x DS_SUCCESS], cy_inserts := cy_inserts s @ [(x, DS_SUCCESS)]\<rparr>"
proof -
  have six: "replicate 6 T_prod = [T_prod, T_prod, T_prod, T_prod, T_prod, T_prod]" by (simp add: eval_nat_numeral)
  have kv: "k\<lparr>key := key x, val := val x\<rparr> = \<lparr>key = key x, val = val x\<rparr>" for k :: ds_kv by (cases k) simp
  show ?thesis
    unfolding six using assms
    by (cases "cf_tail (cf_heads A hp) = e")
      (simp_all add: cf_schedule_def ds_ck_fifo_spsc_enqueue_lkmm_def Let_def cf_set_head_def cf_set_node_def kv)
qed

lemma cf_alone_recycle:
  assumes p: "cy_prod s = F_enter x" and hp: "hp \<noteq> NULL" and r: "ds_ck_fifo_spsc_recycle_lkmm hp (cy_arena s) = (e, B)"
  shows "\<exists>n. cf_schedule alloc hp (replicate n T_prod) s =
    s\<lparr>cy_arena := B, cy_prod := if e = NULL then F_alloc x else F_key x e\<rparr>"
proof -
  let ?h = "cf_heads (cy_arena s) hp"
  note defs = cf_schedule_def ds_ck_fifo_spsc_recycle_lkmm_def Let_def eval_nat_numeral
  consider (take) "cf_head_snapshot ?h \<noteq> cf_garbage ?h"
    | (none) "cf_head_snapshot ?h = cf_garbage ?h" "cf_head ?h = cf_garbage ?h"
    | (snap) "cf_head_snapshot ?h = cf_garbage ?h" "cf_head ?h \<noteq> cf_garbage ?h" by blast
  then show ?thesis
  proof cases
    case take
    then show ?thesis using p hp r by (intro exI [of _ 2]) (auto simp: defs)
  next
    case none
    then show ?thesis using p hp r by (intro exI [of _ 2]) (auto simp: defs)
  next
    case snap
    then show ?thesis using p hp r by (intro exI [of _ 3]) (auto simp: defs)
  qed
qed

lemma cf_alone_insert:
  assumes p: "cy_prod s = F_idle" and i: "ds_ck_fifo_spsc_insert sd alloc hp (key x) (val x) (cy_arena s) = (r, B)"
  shows "\<exists>n evs. cf_schedule alloc hp (T_insert x # replicate n T_prod) s =
    s\<lparr>cy_arena := B, cy_prod := F_idle, cy_lin := cy_lin s @ evs, cy_inserts := cy_inserts s @ [(x, r)]\<rparr>"
proof (cases "hp = NULL")
  case True
  then show ?thesis using p i
    by (intro exI [of _ 1] exI [of _ "[]"]) (auto simp: cf_schedule_def ds_variant ds_ck_fifo_spsc_insert_lkmm_def)
next
  case hp: False
  let ?go = "\<lambda>n. cf_schedule alloc hp (replicate n T_prod)" and ?s = "s\<lparr>cy_prod := F_enter x\<rparr>"
  have go: "?go (m + n) t = ?go n (?go m t)" for m n t by (simp add: replicate_add cf_schedule_append)
  obtain e A1 where rc: "ds_ck_fifo_spsc_recycle_lkmm hp (cy_arena s) = (e, A1)" by fastforce
  obtain n where n: "?go n ?s = ?s\<lparr>cy_arena := A1, cy_prod := if e = NULL then F_alloc x else F_key x e\<rparr>"
    using cf_alone_recycle [of ?s x hp e A1 alloc] hp rc by auto
  obtain p al where a: "alloc cf_entry_bytes (cf_alloc A1) = (p, al)" by fastforce
  consider (reuse) "e \<noteq> NULL" | (full) "e = NULL" "p = NULL" | (fresh) "e = NULL" "p \<noteq> NULL" by blast
  then have "\<exists>n evs. ?go n ?s =
      s\<lparr>cy_arena := B, cy_prod := F_idle, cy_lin := cy_lin s @ evs, cy_inserts := cy_inserts s @ [(x, r)]\<rparr>"
  proof cases
    case reuse
    then show ?thesis using n i hp rc cf_alone_fill [OF _ refl, of "?go n ?s" x e alloc hp]
      by (intro exI [of _ "n + 6"] exI [of _ "[EvIns x DS_SUCCESS]"])
        (simp add: go ds_variant ds_ck_fifo_spsc_insert_lkmm_def Let_def)
  next
    case full
    have "?go (n + 1) ?s = s\<lparr>cy_arena := A1\<lparr>cf_alloc := al\<rparr>, cy_prod := F_idle,
        cy_lin := cy_lin s @ [EvIns x DS_ERROR_NOMEM], cy_inserts := cy_inserts s @ [(x, DS_ERROR_NOMEM)]\<rparr>"
      unfolding go n using full a by (simp add: cf_schedule_def)
    moreover have "r = DS_ERROR_NOMEM" "B = A1\<lparr>cf_alloc := al\<rparr>"
      using i hp rc a full by (auto simp: ds_variant ds_ck_fifo_spsc_insert_lkmm_def Let_def)
    ultimately show ?thesis by blast
  next
    case fresh
    have "?go (n + 1) ?s = ?s\<lparr>cy_arena := A1\<lparr>cf_alloc := al\<rparr>, cy_prod := F_key x p\<rparr>"
      unfolding go n using fresh a by (simp add: cf_schedule_def)
    then show ?thesis using fresh i hp rc a cf_alone_fill [OF _ refl, of "?go (n + 1) ?s" x p alloc hp]
      by (intro exI [of _ "(n + 1) + 6"] exI [of _ "[EvIns x DS_SUCCESS]"], unfold go [of "n + 1"])
        (simp add: ds_variant ds_ck_fifo_spsc_insert_lkmm_def Let_def)
  qed
  then show ?thesis using p by (simp add: cf_schedule_Cons)
qed

lemma cf_alone_pop:
  assumes "cy_cons s = G_idle" and "ds_ck_fifo_spsc_pop sd hp (Some d) (cy_arena s) = (r, Some d', B)"
    and s': "s' = cf_schedule alloc hp (T_pop d # replicate 6 T_cons) s"
  shows "cy_arena s' = B" and "cy_pops s' = cy_pops s @ [(r, d')]" and "cy_cons s' = G_idle"
proof -
  have six: "replicate 6 T_cons = [T_cons, T_cons, T_cons, T_cons, T_cons, T_cons]" by (simp add: eval_nat_numeral)
  let ?e = "cf_next (cf_nodes (cy_arena s) (cf_head (cf_heads (cy_arena s) hp)))"
  show "cy_arena s' = B" "cy_pops s' = cy_pops s @ [(r, d')]" "cy_cons s' = G_idle"
    unfolding s' six using assms(1,2)
    by (cases "hp = NULL"; cases "?e = NULL"; cases "cf_value (cf_nodes (cy_arena s) ?e) = NULL";
        force simp: cf_schedule_def ds_variant ds_ck_fifo_spsc_delete_lkmm_def ds_ck_fifo_spsc_dequeue_lkmm_def
          Let_def cf_payload_kv_def)+
qed
end
