(* ===== verification/MsqueueThreads.thy ===== *)
theory MsqueueThreads
  imports Msqueue Totals
begin

text \<open>
  The Michael-Scott queue with any number of threads at work at once.  Insert and pop of
  \<^verbatim>\<open>include/ds_msqueue.h\<close>, in their userspace variants, are cut into steps that make one
  access to the shared arena each, and a schedule interleaves the steps of the threads in any
  order, on sequentially consistent memory.  The userspace allocator hands out every block
  once and its release only counts, so a call of insert takes a node that was not used
  before, and a released node keeps its contents; which nodes have been released is recorded.
\<close>

subsection \<open>One access at a time\<close>

text \<open>
  Where an insert is: about to store key, value and next pointer of its node; in the loop,
  with \<open>r\<close> failed attempts, about to load the tail, to load the next pointer of the tail
  seen, to move a tail that lags, to link the node; then to count and to move the tail; or,
  after too many attempts, to release the node.
\<close>

datatype msi_pc =
    I_key
  | I_val
  | I_null
  | I_tail nat
  | I_next ptr nat
  | I_help ptr ptr nat
  | I_link ptr nat
  | I_count ptr
  | I_swing ptr
  | I_free

text \<open>
  Where a pop is: about to load the head, the tail, the next pointer of the head seen, the
  head again; to move a tail that lags; to copy key and value of the next node; to move the
  head; then to release the old head and to count.
\<close>

datatype msp_pc =
    P_head nat
  | P_tail ptr nat
  | P_next ptr ptr nat
  | P_check ptr ptr ptr nat
  | P_help ptr ptr nat
  | P_key ptr ptr nat
  | P_val ptr ptr u64 nat
  | P_cas ptr ptr ds_kv nat
  | P_free ptr ds_kv
  | P_count ds_kv

datatype ms_thread = M_idle | M_ins ptr ds_kv msi_pc | M_pop msp_pc

text \<open>
  What a step shows: a node linked, the head moved (with the element copied before), a next
  pointer found NULL, a node released, and the answers: empty, given up, an element.
\<close>

datatype ms_note =
  O_none | O_ins ds_kv | O_pop ds_kv | O_saw_empty | O_free ptr | O_done | O_empty | O_invalid | O_got ds_kv

definition ms_ins_again :: "ptr \<Rightarrow> ds_kv \<Rightarrow> nat \<Rightarrow> ms_thread" where
  "ms_ins_again e x retry_count = M_ins e x (if retry_count < ms_max_retries then I_tail retry_count else I_free)"

definition ms_pop_again :: "nat \<Rightarrow> ms_thread \<times> ms_note" where
  "ms_pop_again retry_count =
     (if retry_count < ms_max_retries then (M_pop (P_head retry_count), O_none) else (M_idle, O_invalid))"

fun ms_insert_step :: "(ptr \<Rightarrow> 'a \<Rightarrow> 'a) \<Rightarrow> ptr \<Rightarrow> ptr \<Rightarrow> ds_kv \<Rightarrow> msi_pc \<Rightarrow> 'a ms_arena \<Rightarrow> ms_thread \<times> ms_note \<times> 'a ms_arena" where
  "ms_insert_step free hp e x I_key A =
     (M_ins e x I_val, O_none, ms_set_node e ((ms_nodes A e)\<lparr>ms_data := (ms_data (ms_nodes A e))\<lparr>key := key x\<rparr>\<rparr>) A)"
| "ms_insert_step free hp e x I_val A =
     (M_ins e x I_null, O_none, ms_set_node e ((ms_nodes A e)\<lparr>ms_data := (ms_data (ms_nodes A e))\<lparr>val := val x\<rparr>\<rparr>) A)"
| "ms_insert_step free hp e x I_null A =
     (ms_ins_again e x 0, O_none, ms_set_node e ((ms_nodes A e)\<lparr>ms_next := NULL\<rparr>) A)"
| "ms_insert_step free hp e x (I_tail r) A = (M_ins e x (I_next (ms_tail (ms_heads A hp)) r), O_none, A)"
| "ms_insert_step free hp e x (I_next tail r) A =
     (let next = ms_next (ms_nodes A tail) in
      (M_ins e x (if next \<noteq> NULL then I_help tail next r else I_link tail r), O_none, A))"
| "ms_insert_step free hp e x (I_help tail next r) A =
     (let (_, new_tail) = arena_atomic_cmpxchg (ms_tail (ms_heads A hp)) tail next in
      (ms_ins_again e x (r + 1), O_none, ms_set_head hp ((ms_heads A hp)\<lparr>ms_tail := new_tail\<rparr>) A))"
| "ms_insert_step free hp e x (I_link tail r) A =
     (let (observed, new_next) = arena_atomic_cmpxchg (ms_next (ms_nodes A tail)) NULL e;
          A = ms_set_node tail ((ms_nodes A tail)\<lparr>ms_next := new_next\<rparr>) A in
      if observed = NULL then (M_ins e x (I_count tail), O_ins x, A) else (ms_ins_again e x (r + 1), O_none, A))"
| "ms_insert_step free hp e x (I_count tail) A =
     (M_ins e x (I_swing tail), O_none, ms_set_head hp ((ms_heads A hp)\<lparr>ms_count := ms_count (ms_heads A hp) + 1\<rparr>) A)"
| "ms_insert_step free hp e x (I_swing tail) A =
     (let (_, new_tail) = arena_atomic_cmpxchg (ms_tail (ms_heads A hp)) tail e in
      (M_idle, O_done, ms_set_head hp ((ms_heads A hp)\<lparr>ms_tail := new_tail\<rparr>) A))"
| "ms_insert_step free hp e x I_free A = (M_idle, O_free e, A\<lparr>ms_alloc := free e (ms_alloc A)\<rparr>)"

text \<open>The tests on the head, the next pointer and the tail follow the second load of the head.\<close>

fun ms_pop_step :: "(ptr \<Rightarrow> 'a \<Rightarrow> 'a) \<Rightarrow> ptr \<Rightarrow> msp_pc \<Rightarrow> 'a ms_arena \<Rightarrow> ms_thread \<times> ms_note \<times> 'a ms_arena" where
  "ms_pop_step free hp (P_head r) A = (M_pop (P_tail (ms_head (ms_heads A hp)) r), O_none, A)"
| "ms_pop_step free hp (P_tail head r) A =
     (let tail = ms_tail (ms_heads A hp) in
      if head = NULL \<or> tail = NULL then (M_idle, O_invalid, A) else (M_pop (P_next head tail r), O_none, A))"
| "ms_pop_step free hp (P_next head tail r) A =
     (let next = ms_next (ms_nodes A head) in
      (M_pop (P_check head tail next r), if next = NULL then O_saw_empty else O_none, A))"
| "ms_pop_step free hp (P_check head tail next r) A =
     (if ms_head (ms_heads A hp) \<noteq> head then (let (t, ev) = ms_pop_again (r + 1) in (t, ev, A))
      else if next = NULL then (M_idle, O_empty, A)
      else if head = tail then (M_pop (P_help tail next r), O_none, A)
      else (M_pop (P_key head next r), O_none, A))"
| "ms_pop_step free hp (P_help tail next r) A =
     (let (_, new_tail) = arena_atomic_cmpxchg (ms_tail (ms_heads A hp)) tail next;
          (t, ev) = ms_pop_again (r + 1) in
      (t, ev, ms_set_head hp ((ms_heads A hp)\<lparr>ms_tail := new_tail\<rparr>) A))"
| "ms_pop_step free hp (P_key head next r) A = (M_pop (P_val head next (key (ms_data (ms_nodes A next))) r), O_none, A)"
| "ms_pop_step free hp (P_val head next k r) A =
     (M_pop (P_cas head next \<lparr>key = k, val = val (ms_data (ms_nodes A next))\<rparr> r), O_none, A)"
| "ms_pop_step free hp (P_cas head next d r) A =
     (let (observed, new_head) = arena_atomic_cmpxchg (ms_head (ms_heads A hp)) head next;
          A = ms_set_head hp ((ms_heads A hp)\<lparr>ms_head := new_head\<rparr>) A in
      if observed = head then (M_pop (P_free head d), O_pop d, A)
      else (let (t, ev) = ms_pop_again (r + 1) in (t, ev, A)))"
| "ms_pop_step free hp (P_free head d) A = (M_pop (P_count d), O_free head, A\<lparr>ms_alloc := free head (ms_alloc A)\<rparr>)"
| "ms_pop_step free hp (P_count d) A =
     (M_idle, O_got d, ms_set_head hp ((ms_heads A hp)\<lparr>ms_count := ms_count (ms_heads A hp) - 1\<rparr>) A)"

fun ms_step :: "(ptr \<Rightarrow> 'a \<Rightarrow> 'a) \<Rightarrow> ptr \<Rightarrow> ms_thread \<Rightarrow> 'a ms_arena \<Rightarrow> ms_thread \<times> ms_note \<times> 'a ms_arena" where
  "ms_step free hp M_idle A = (M_idle, O_none, A)"
| "ms_step free hp (M_ins e x pc) A = ms_insert_step free hp e x pc A"
| "ms_step free hp (M_pop pc) A = ms_pop_step free hp pc A"

subsection \<open>Threads\<close>

text \<open>
  The system: the arena, where each thread is, the nodes handed out and those released, the
  exchanges that linked a node or moved the head as a history of queue operations, to which
  the loads of a NULL next pointer by pops are added, the number of pops that answered that
  the queue is empty, and the elements that pops returned.
\<close>

record 'a ms_sys =
  mq_arena :: "'a ms_arena"
  mq_threads :: "ms_thread list"
  mq_used :: "ptr set"
  mq_freed :: "ptr list"
  mq_lin :: "lane_event list"
  mq_empties :: nat
  mq_got :: "ds_kv list"

datatype ms_act = B_insert nat ptr ds_kv | B_pop nat | B_step nat

fun ms_note_events :: "ms_note \<Rightarrow> lane_event list" where
  "ms_note_events (O_ins x) = [EvIns x DS_SUCCESS]"
| "ms_note_events (O_pop x) = [EvPop DS_SUCCESS (Some x)]"
| "ms_note_events O_saw_empty = [EvPop DS_ERROR_NOT_FOUND None]"
| "ms_note_events _ = []"

fun ms_note_got :: "ms_note \<Rightarrow> ds_kv list" where
  "ms_note_got (O_got x) = [x]"
| "ms_note_got _ = []"

fun ms_note_freed :: "ms_note \<Rightarrow> ptr list" where
  "ms_note_freed (O_free a) = [a]"
| "ms_note_freed _ = []"

text \<open>
  The entries of the calls: insert returns at once when the queue or the node it got from the
  allocator is NULL.
\<close>

definition ms_insert_call :: "ptr \<Rightarrow> ptr \<Rightarrow> ds_kv \<Rightarrow> ms_thread" where
  "ms_insert_call hp e x = (if hp = NULL \<or> e = NULL then M_idle else M_ins e x I_key)"

definition ms_pop_call :: "ptr \<Rightarrow> ms_thread" where
  "ms_pop_call hp = (if hp = NULL then M_idle else M_pop (P_head 0))"

fun ms_turn :: "(ptr \<Rightarrow> 'a \<Rightarrow> 'a) \<Rightarrow> ptr \<Rightarrow> ms_act \<Rightarrow> 'a ms_sys \<Rightarrow> 'a ms_sys" where
  "ms_turn free hp (B_insert i e x) s =
     (if i < length (mq_threads s) \<and> mq_threads s ! i = M_idle \<and> e \<notin> mq_used s
      then s\<lparr>mq_threads := (mq_threads s)[i := ms_insert_call hp e x], mq_used := insert e (mq_used s)\<rparr> else s)"
| "ms_turn free hp (B_pop i) s =
     (if i < length (mq_threads s) \<and> mq_threads s ! i = M_idle
      then s\<lparr>mq_threads := (mq_threads s)[i := ms_pop_call hp]\<rparr> else s)"
| "ms_turn free hp (B_step i) s =
     (if i < length (mq_threads s) then
        let (t, ev, A) = ms_step free hp (mq_threads s ! i) (mq_arena s) in
        s\<lparr>mq_arena := A, mq_threads := (mq_threads s)[i := t], mq_freed := mq_freed s @ ms_note_freed ev,
          mq_lin := mq_lin s @ ms_note_events ev, mq_empties := mq_empties s + of_bool (ev = O_empty),
          mq_got := mq_got s @ ms_note_got ev\<rparr>
      else s)"

definition ms_run :: "(ptr \<Rightarrow> 'a \<Rightarrow> 'a) \<Rightarrow> ptr \<Rightarrow> ms_act list \<Rightarrow> 'a ms_sys \<Rightarrow> 'a ms_sys" where
  "ms_run free hp acts s = fold (ms_turn free hp) acts s"

text \<open>At the start the dummy is the only node in use.\<close>

definition ms_start :: "nat \<Rightarrow> ptr \<Rightarrow> 'a ms_arena \<Rightarrow> 'a ms_sys" where
  "ms_start n hp A = \<lparr>mq_arena = A, mq_threads = replicate n M_idle, mq_used = {ms_head (ms_heads A hp)}, mq_freed = [],
     mq_lin = [], mq_empties = 0, mq_got = []\<rparr>"

subsection \<open>The invariant\<close>

text \<open>The node of an insert that has not been linked.\<close>

fun ms_own :: "ms_thread \<Rightarrow> ptr option" where
  "ms_own (M_ins e x (I_count tail)) = None"
| "ms_own (M_ins e x (I_swing tail)) = None"
| "ms_own (M_ins e x pc) = Some e"
| "ms_own _ = None"

text \<open>
  With \<open>ns\<close> the nodes linked so far in their order, the dummy first, \<open>hi\<close> and \<open>ti\<close> the places
  of head and tail among them: what a thread knows.
\<close>

definition ms_ready :: "(ptr \<Rightarrow> ds_msqueue_elem) \<Rightarrow> ptr \<Rightarrow> ds_kv \<Rightarrow> bool" where
  "ms_ready m e x \<longleftrightarrow> m e = \<lparr>ms_next = NULL, ms_data = x\<rparr>"

definition ms_after :: "ptr list \<Rightarrow> (ptr \<Rightarrow> ds_msqueue_elem) \<Rightarrow> ptr \<Rightarrow> ptr \<Rightarrow> bool" where
  "ms_after ns m a b \<longleftrightarrow> a \<in> set ns \<and> b \<noteq> NULL \<and> ms_next (m a) = b"

definition ms_seen :: "ptr list \<Rightarrow> nat \<Rightarrow> nat \<Rightarrow> ptr \<Rightarrow> ptr \<Rightarrow> bool" where
  "ms_seen ns hi ti head tail \<longleftrightarrow> (\<exists>a b. head = ns ! a \<and> tail = ns ! b \<and> a \<le> b \<and> a \<le> hi \<and> b \<le> ti)"

definition ms_front :: "ptr list \<Rightarrow> nat \<Rightarrow> nat \<Rightarrow> ptr \<Rightarrow> ptr \<Rightarrow> bool" where
  "ms_front ns hi ti head next \<longleftrightarrow> (\<exists>a. head = ns ! a \<and> next = ns ! Suc a \<and> a \<le> hi \<and> Suc a \<le> ti)"

fun ms_local :: "ptr list \<Rightarrow> nat \<Rightarrow> nat \<Rightarrow> (ptr \<Rightarrow> ds_msqueue_elem) \<Rightarrow> ms_thread \<Rightarrow> bool" where
  "ms_local ns hi ti m (M_ins e x I_val) \<longleftrightarrow> key (ms_data (m e)) = key x"
| "ms_local ns hi ti m (M_ins e x I_null) \<longleftrightarrow> ms_data (m e) = x"
| "ms_local ns hi ti m (M_ins e x (I_tail r)) \<longleftrightarrow> ms_ready m e x"
| "ms_local ns hi ti m (M_ins e x (I_next tail r)) \<longleftrightarrow> ms_ready m e x \<and> tail \<in> set (take (Suc ti) ns)"
| "ms_local ns hi ti m (M_ins e x (I_help tail next r)) \<longleftrightarrow> ms_ready m e x \<and> ms_after ns m tail next"
| "ms_local ns hi ti m (M_ins e x (I_link tail r)) \<longleftrightarrow> ms_ready m e x \<and> tail \<in> set (take (Suc ti) ns)"
| "ms_local ns hi ti m (M_ins e x (I_count tail)) \<longleftrightarrow> ms_after ns m tail e"
| "ms_local ns hi ti m (M_ins e x (I_swing tail)) \<longleftrightarrow> ms_after ns m tail e"
| "ms_local ns hi ti m (M_pop (P_tail head r)) \<longleftrightarrow> head \<in> set (take (Suc hi) ns)"
| "ms_local ns hi ti m (M_pop (P_next head tail r)) \<longleftrightarrow> ms_seen ns hi ti head tail"
| "ms_local ns hi ti m (M_pop (P_check head tail next r)) \<longleftrightarrow>
     ms_seen ns hi ti head tail \<and> (next \<noteq> NULL \<longrightarrow> ms_after ns m head next)"
| "ms_local ns hi ti m (M_pop (P_help tail next r)) \<longleftrightarrow> ms_after ns m tail next"
| "ms_local ns hi ti m (M_pop (P_key head next r)) \<longleftrightarrow> ms_front ns hi ti head next"
| "ms_local ns hi ti m (M_pop (P_val head next k r)) \<longleftrightarrow> ms_front ns hi ti head next \<and> k = key (ms_data (m next))"
| "ms_local ns hi ti m (M_pop (P_cas head next d r)) \<longleftrightarrow> ms_front ns hi ti head next \<and> d = ms_data (m next)"
| "ms_local ns hi ti m _ \<longleftrightarrow> True"

text \<open>Counter updates to come, elements not yet returned, answers that the queue is empty to come.\<close>

fun ms_plus :: "ms_thread \<Rightarrow> u64" where
  "ms_plus (M_ins e x (I_count tail)) = 1"
| "ms_plus (M_pop (P_free head d)) = - 1"
| "ms_plus (M_pop (P_count d)) = - 1"
| "ms_plus _ = 0"

fun ms_taken :: "ms_thread \<Rightarrow> ds_kv multiset" where
  "ms_taken (M_pop (P_free head d)) = {#d#}"
| "ms_taken (M_pop (P_count d)) = {#d#}"
| "ms_taken _ = {#}"

fun ms_pending :: "ms_thread \<Rightarrow> nat" where
  "ms_pending (M_pop (P_check head tail next r)) = of_bool (next = NULL)"
| "ms_pending _ = 0"

definition sightings :: "lane_event list \<Rightarrow> nat" where
  "sightings evs = length (filter (\<lambda>ev. ev = EvPop DS_ERROR_NOT_FOUND None) evs)"

definition ms_inv :: "ptr \<Rightarrow> 'a ms_arena \<Rightarrow> ms_thread list \<Rightarrow> ptr set \<Rightarrow> lane_event list \<Rightarrow> nat \<Rightarrow> ds_kv list \<Rightarrow> ptr list \<Rightarrow> nat \<Rightarrow> bool" where
  "ms_inv hp A ts used lin empties got ns ti \<longleftrightarrow>
     (let m = ms_nodes A; h = ms_heads A hp; D = length (delivered lin); xs = accepted lin in
      ns \<noteq> [] \<and> seg (ms_next \<circ> m) (hd ns) ns NULL \<and> map (ms_data \<circ> m) (tl ns) = xs \<and>
      ms_head h = ns ! D \<and> ms_tail h = ns ! ti \<and> D \<le> ti \<and> ti < length ns \<and> length ns \<le> ti + 2 \<and>
      queue_replay [] lin = Some (drop D xs) \<and> set ns \<subseteq> used \<and>
      (\<forall>j < length ts. ms_local ns D ti m (ts ! j)) \<and>
      (\<forall>e. tally (\<lambda>t. ms_own t = Some e) ts \<le> of_bool (e \<in> used - set ns - {NULL})) \<and>
      ms_count h + tot (\<lambda>_. ms_plus) ts = of_nat (length xs) - of_nat D \<and>
      mset got + tot (\<lambda>_. ms_taken) ts = mset (delivered lin) \<and>
      empties + tot (\<lambda>_. ms_pending) ts \<le> sightings lin)"

lemma ms_invD:
  assumes "ms_inv hp A ts used lin empties got ns ti"
  shows "ns \<noteq> []" and "seg (ms_next \<circ> ms_nodes A) (hd ns) ns NULL" and "map (ms_data \<circ> ms_nodes A) (tl ns) = accepted lin"
    and "ms_head (ms_heads A hp) = ns ! length (delivered lin)" and "ms_tail (ms_heads A hp) = ns ! ti"
    and "length (delivered lin) \<le> ti" and "ti < length ns" and "length ns \<le> ti + 2"
    and "queue_replay [] lin = Some (drop (length (delivered lin)) (accepted lin))" and "set ns \<subseteq> used"
    and "j < length ts \<Longrightarrow> ms_local ns (length (delivered lin)) ti (ms_nodes A) (ts ! j)"
    and "tally (\<lambda>t. ms_own t = Some e) ts \<le> of_bool (e \<in> used - set ns - {NULL})"
    and "ms_count (ms_heads A hp) + tot (\<lambda>_. ms_plus) ts = of_nat (length (accepted lin)) - of_nat (length (delivered lin))"
    and "mset got + tot (\<lambda>_. ms_taken) ts = mset (delivered lin)"
    and "empties + tot (\<lambda>_. ms_pending) ts \<le> sightings lin"
  using assms unfolding ms_inv_def Let_def by blast+

lemma ms_own_inv:
  assumes "ms_inv hp A ts used lin empties got ns ti" and "j < length ts" and "ms_own (ts ! j) = Some e"
  shows "e \<in> used" and "e \<notin> set ns" and "e \<noteq> NULL" and "k < length ts \<Longrightarrow> ms_own (ts ! k) = Some e \<Longrightarrow> k = j"
  using tally_pos [OF assms(2), of "\<lambda>t. ms_own t = Some e"] assms(3) ms_invD(12) [OF assms(1), of e]
    tally_one [OF _ _ _ assms(2), of "\<lambda>t. ms_own t = Some e" k]
  by (auto simp: of_bool_def split: if_splits)

text \<open>What a thread knows stays true when nodes are linked and head and tail move.\<close>

lemma ms_local_frame:
  assumes "ms_local ns hi ti m t" and "ns' = ns @ zs" and "hi \<le> hi'" and "ti \<le> ti'" and "hi \<le> ti" and "ti < length ns"
    and "\<And>a. a \<in> set ns \<Longrightarrow> ms_data (m' a) = ms_data (m a)"
    and "\<And>a. a \<in> set ns \<Longrightarrow> ms_next (m a) \<noteq> NULL \<Longrightarrow> ms_next (m' a) = ms_next (m a)"
    and "\<And>e. ms_own t = Some e \<Longrightarrow> m' e = m e"
  shows "ms_local ns' hi' ti' m' t"
proof -
  have take: "set (take (Suc k) ns) \<subseteq> set (take (Suc k') ns')" if "k \<le> k'" for k k'
    using that set_take_subset_set_take [of "Suc k" "Suc k'" ns'] assms(2) by auto
  have after: "ms_after ns' m' a b" if "ms_after ns m a b" for a b
    using that assms(2,8) by (auto simp: ms_after_def)
  have seen: "ms_seen ns' hi' ti' a b" if s: "ms_seen ns hi ti a b" for a b
  proof -
    obtain i j where "a = ns ! i" "b = ns ! j" "i \<le> j" "i \<le> hi" "j \<le> ti" using s by (auto simp: ms_seen_def)
    then show ?thesis using assms(2-6) unfolding ms_seen_def by (intro exI [of _ i] exI [of _ j]) (auto simp: nth_append)
  qed
  have front: "ms_front ns' hi' ti' a b \<and> ms_data (m' b) = ms_data (m b)" if f: "ms_front ns hi ti a b" for a b
  proof -
    obtain i where i: "a = ns ! i" "b = ns ! Suc i" "i \<le> hi" "Suc i \<le> ti" using f by (auto simp: ms_front_def)
    then show ?thesis
      using assms(2-6) assms(7) [of b] unfolding ms_front_def by (intro conjI exI [of _ i]) (auto simp: nth_append)
  qed
  show ?thesis
  proof (cases t)
    case (M_ins e x pc)
    then show ?thesis
      using assms(1,9) take [OF assms(4)] after by (cases pc) (auto simp: ms_ready_def)
  next
    case (M_pop pc)
    then show ?thesis using assms(1) take [OF assms(3)] after seen front by (cases pc) auto
  qed simp
qed

subsection \<open>Every turn keeps the invariant\<close>

text \<open>
  A turn of thread \<open>i\<close>: it changes its own node, or the next pointer of the last linked node,
  and links at most its own node.
\<close>

lemma ms_inv_turn:
  assumes inv: "ms_inv hp A ts used lin empties got ns ti" and i: "i < length ts"
    and nodes: "\<And>a. a \<notin> set ns \<Longrightarrow> ms_own (ts ! i) \<noteq> Some a \<Longrightarrow> ms_nodes A' a = ms_nodes A a"
      "\<And>a. a \<in> set ns \<Longrightarrow> ms_data (ms_nodes A' a) = ms_data (ms_nodes A a)"
      "\<And>a. a \<in> set ns \<Longrightarrow> ms_next (ms_nodes A a) \<noteq> NULL \<Longrightarrow> ms_next (ms_nodes A' a) = ms_next (ms_nodes A a)"
    and ns: "ns' = ns @ zs" "set zs \<subseteq> set_option (ms_own (ts ! i))" "seg (ms_next \<circ> ms_nodes A') (hd ns') ns' NULL"
    and lin: "lin' = lin @ evs" "map (ms_data \<circ> ms_nodes A') (tl ns') = accepted lin'"
      "queue_replay [] lin' = Some (drop (length (delivered lin')) (accepted lin'))"
    and head: "ms_head (ms_heads A' hp) = ns' ! length (delivered lin')" "ms_tail (ms_heads A' hp) = ns' ! ti'"
      "length (delivered lin') \<le> ti'" "ti \<le> ti'" "ti' < length ns'" "length ns' \<le> ti' + 2"
    and used: "used \<subseteq> used'"
    and t: "ms_local ns' (length (delivered lin')) ti' (ms_nodes A') t"
      "\<And>e. ms_own t = Some e \<Longrightarrow> e \<in> used' - set ns' - {NULL} \<and> (ms_own (ts ! i) = Some e \<or> e \<notin> used)"
    and plus: "ms_count (ms_heads A' hp) + ms_plus t - (of_nat (length (accepted lin')) - of_nat (length (delivered lin'))) =
      ms_count (ms_heads A hp) + ms_plus (ts ! i) - (of_nat (length (accepted lin)) - of_nat (length (delivered lin)))"
    and taken: "mset got' + ms_taken t + mset (delivered lin) = mset got + ms_taken (ts ! i) + mset (delivered lin')"
    and pending: "empties' + ms_pending t + sightings lin \<le> empties + ms_pending (ts ! i) + sightings lin'"
  shows "ms_inv hp A' (ts[i := t]) used' lin' empties' got' ns' ti'"
proof -
  note d = ms_invD [OF inv]
  have D: "length (delivered lin) \<le> length (delivered lin')" using lin(1) by simp
  have other: "ms_local ns' (length (delivered lin')) ti' (ms_nodes A') (ts ! j)" if j: "j < length ts" "j \<noteq> i" for j
  proof (rule ms_local_frame [OF d(11) [OF j(1)] ns(1) D head(4) d(6,7) nodes(2,3)])
    fix e assume e: "ms_own (ts ! j) = Some e"
    show "ms_nodes A' e = ms_nodes A e"
      using nodes(1) ms_own_inv(2,4) [OF inv j(1) e] i j(2) by blast
  qed
  have loc: "ms_local ns' (length (delivered lin')) ti' (ms_nodes A') (ts[i := t] ! j)" if "j < length ts" for j
    using other [OF that] t(1) i by (cases "j = i") auto
  have sub: "set ns' \<subseteq> used'" using ns(1,2) d(10) used ms_own_inv(1) [OF inv i] by (cases "ms_own (ts ! i)") auto
  have own: "tally (\<lambda>t. ms_own t = Some e) (ts[i := t]) \<le> of_bool (e \<in> used' - set ns' - {NULL})" for e
  proof -
    have u: "tally (\<lambda>t. ms_own t = Some e) (ts[i := t]) + of_bool (ms_own (ts ! i) = Some e) =
        tally (\<lambda>t. ms_own t = Some e) ts + of_bool (ms_own t = Some e)" by (rule tally_update [OF i])
    show ?thesis
      using u d(12) [of e] t(2) [of e] used ns(1,2) by (auto simp: of_bool_def split: if_splits)
  qed
  have c: "ms_count (ms_heads A' hp) + tot (\<lambda>_. ms_plus) (ts[i := t]) = of_nat (length (accepted lin')) - of_nat (length (delivered lin'))"
    by (rule sum_moves [OF d(13) tot_update [OF i] plus])
  have g: "mset got' + tot (\<lambda>_. ms_taken) (ts[i := t]) = mset (delivered lin')"
    by (rule mset_moves [OF d(14) tot_update [OF i] taken])
  have p: "empties' + tot (\<lambda>_. ms_pending) (ts[i := t]) \<le> sightings lin'"
    using d(15) tot_update [OF i, of "\<lambda>_. ms_pending" t] pending by linarith
  show ?thesis
    unfolding ms_inv_def Let_def using d(1) ns(1,3) lin(2,3) head sub loc own c g p by simp
qed

text \<open>Turns that change neither nodes nor pointers.\<close>

lemma ms_inv_read:
  assumes inv: "ms_inv hp A ts used lin empties got ns ti" and i: "i < length ts"
    and A: "ms_nodes A' = ms_nodes A" "ms_head (ms_heads A' hp) = ms_head (ms_heads A hp)"
      "ms_tail (ms_heads A' hp) = ms_tail (ms_heads A hp)"
      "ms_count (ms_heads A' hp) + ms_plus t = ms_count (ms_heads A hp) + ms_plus (ts ! i)"
    and t: "ms_local ns (length (delivered lin)) ti (ms_nodes A) t" "ms_own t \<in> {None, ms_own (ts ! i)}"
    and taken: "mset got' + ms_taken t = mset got + ms_taken (ts ! i)"
    and pending: "empties' + ms_pending t \<le> empties + ms_pending (ts ! i)"
  shows "ms_inv hp A' (ts[i := t]) used lin empties' got' ns ti"
proof -
  note d = ms_invD [OF inv]
  have own: "e \<in> used - set ns - {NULL} \<and> (ms_own (ts ! i) = Some e \<or> e \<notin> used)" if "ms_own t = Some e" for e
    using t(2) that ms_own_inv(1-3) [OF inv i, of e] by auto
  show ?thesis
    using d(2-9) A t(1) own taken pending
    by (intro ms_inv_turn [OF inv i, where zs = "[]" and evs = "[]"]) auto
qed

text \<open>Stores into the own node.\<close>

lemma ms_inv_store:
  assumes inv: "ms_inv hp A ts used lin empties got ns ti" and i: "i < length ts"
    and e: "ms_own (ts ! i) = Some e" "ms_own t = Some e"
    and t: "ms_local ns (length (delivered lin)) ti ((ms_nodes A)(e := v)) t"
      "ms_plus t = ms_plus (ts ! i)" "ms_taken t = ms_taken (ts ! i)" "ms_pending t = ms_pending (ts ! i)"
  shows "ms_inv hp (ms_set_node e v A) (ts[i := t]) used lin empties got ns ti"
proof -
  note d = ms_invD [OF inv] and o = ms_own_inv [OF inv i e(1)]
  have tl: "e \<notin> set (tl ns)" using o(2) d(1) list.set_sel(2) by metis
  show ?thesis
    using d(2-9) e t o(1-3) tl by (intro ms_inv_turn [OF inv i, where zs = "[]" and evs = "[]"]) auto
qed

text \<open>Moving the tail on by one node.\<close>

lemma ms_after_place:
  assumes inv: "ms_inv hp A ts used lin empties got ns ti" and a: "ms_after ns (ms_nodes A) (ns ! k) b" and k: "k < length ns"
  shows "Suc k < length ns" and "b = ns ! Suc k"
  using seg_nth [OF ms_invD(2) [OF inv] k] a by (auto simp: ms_after_def split: if_splits)

lemma ms_inv_swing:
  assumes inv: "ms_inv hp A ts used lin empties got ns ti" and i: "i < length ts"
    and a: "ms_after ns (ms_nodes A) tail next"
    and t: "ms_local ns (length (delivered lin)) ti (ms_nodes A) t" "ms_own t \<in> {None, ms_own (ts ! i)}"
      "ms_plus t = ms_plus (ts ! i)" "ms_taken t = ms_taken (ts ! i)" "ms_pending t = ms_pending (ts ! i)"
  shows "\<exists>ti. ms_inv hp (ms_set_head hp ((ms_heads A hp)\<lparr>ms_tail := snd (arena_atomic_cmpxchg (ms_tail (ms_heads A hp)) tail next)\<rparr>) A)
      (ts[i := t]) used lin empties got ns ti"
proof (cases "ms_tail (ms_heads A hp) = tail")
  case True
  note d = ms_invD [OF inv]
  have p: "Suc ti < length ns" "next = ns ! Suc ti" using ms_after_place [OF inv _ d(7)] a True d(5) by simp_all
  have loc: "ms_local ns (length (delivered lin)) (Suc ti) (ms_nodes A) t"
    by (rule ms_local_frame [OF t(1)]) (use d(6,7) in simp_all)
  have own: "e \<in> used - set ns - {NULL} \<and> (ms_own (ts ! i) = Some e \<or> e \<notin> used)" if "ms_own t = Some e" for e
    using t(2) that ms_own_inv(1-3) [OF inv i, of e] by auto
  have "ms_inv hp (ms_set_head hp ((ms_heads A hp)\<lparr>ms_tail := next\<rparr>) A) (ts[i := t]) used lin empties got ns (Suc ti)"
    using d(2-9) p loc own t(3-) by (intro ms_inv_turn [OF inv i, where zs = "[]" and evs = "[]"]) auto
  then show ?thesis using True by (auto simp: arena_atomic_cmpxchg_def)
next
  case False
  have "ms_inv hp (ms_set_head hp (ms_heads A hp) A) (ts[i := t]) used lin empties got ns ti"
    using t by (intro ms_inv_read [OF inv i]) auto
  then show ?thesis using False by (auto simp: arena_atomic_cmpxchg_def)
qed

text \<open>Linking the own node.\<close>

lemma ms_inv_link:
  assumes inv: "ms_inv hp A ts used lin empties got ns ti" and i: "i < length ts"
    and t: "ts ! i = M_ins e x (I_link tail r)" and null: "ms_next (ms_nodes A tail) = NULL"
  shows "ms_inv hp (ms_set_node tail ((ms_nodes A tail)\<lparr>ms_next := e\<rparr>) A) (ts[i := M_ins e x (I_count tail)]) used
    (lin @ [EvIns x DS_SUCCESS]) empties got (ns @ [e]) ti"
proof -
  note d = ms_invD [OF inv] and o = ms_own_inv [OF inv i, of e]
  let ?m = "(ms_nodes A)(tail := (ms_nodes A tail)\<lparr>ms_next := e\<rparr>)"
  have l: "ms_ready (ms_nodes A) e x" "tail \<in> set (take (Suc ti) ns)" using d(11) [OF i] t by simp_all
  have own: "e \<in> used" "e \<notin> set ns" "e \<noteq> NULL" using o(1-3) t by simp_all
  obtain k where k: "tail = ns ! k" "k \<le> ti" using l(2) d(7) by (auto simp: in_set_conv_nth less_Suc_eq_le)
  then have "length ns = Suc k" using null d(7) by (intro seg_last_place [OF d(2)]) simp_all
  then have last: "k = ti" "length ns = Suc ti" "tail = last ns" using k d(1,7) by (auto simp: last_conv_nth)
  have ne: "e \<noteq> tail" "tail \<in> set ns" using own(2) k d(7) by auto
  have dist: "tail \<notin> set (butlast ns)"
    using seg_distinct [OF d(2)] last(3) d(1) by (metis append_butlast_last_id distinct_append disjoint_iff list.set_intros(1))
  have data: "ms_data \<circ> ?m = ms_data \<circ> ms_nodes A" by (auto simp: fun_eq_iff)
  have s: "seg (ms_next \<circ> ?m) (hd (ns @ [e])) (ns @ [e]) NULL"
  proof -
    have "(ms_next \<circ> ms_nodes A)(tail := e) = ms_next \<circ> ?m" by (auto simp: fun_eq_iff)
    then show ?thesis
      using seg_link [OF d(2,1) own(3,2)] l(1) last(3) d(1) by (simp add: ms_ready_def)
  qed
  have E: "length (accepted lin) = ti" using arg_cong [OF d(3), of length] last(2) by simp
  have rep: "queue_replay [] (lin @ [EvIns x DS_SUCCESS]) =
      Some (drop (length (delivered lin)) (accepted lin @ [x]))"
    using d(6,9) E by (simp add: queue_replay_is_lane_replay lane_replay_append)
  have m: "map (ms_data \<circ> ?m) (tl (ns @ [e])) = accepted (lin @ [EvIns x DS_SUCCESS])"
    using d(1,3) l(1) by (simp add: data ms_ready_def)
  show ?thesis
  proof (rule ms_inv_turn [OF inv i, where zs = "[e]" and evs = "[EvIns x DS_SUCCESS]" and ti' = ti])
    show "map (ms_data \<circ> ms_nodes (ms_set_node tail (ms_nodes A tail\<lparr>ms_next := e\<rparr>) A)) (tl (ns @ [e])) =
      accepted (lin @ [EvIns x DS_SUCCESS])" using m by simp
    show "seg (ms_next \<circ> ms_nodes (ms_set_node tail (ms_nodes A tail\<lparr>ms_next := e\<rparr>) A)) (hd (ns @ [e])) (ns @ [e]) NULL"
      using s by simp
  qed (use d(4-8) t ne null last(2) rep own(3) in \<open>auto simp: nth_append ms_after_def sightings_def\<close>)
qed

text \<open>Moving the head.\<close>

lemma ms_inv_head:
  assumes inv: "ms_inv hp A ts used lin empties got ns ti" and i: "i < length ts"
    and t: "ts ! i = M_pop (P_cas head next x r)" and h: "ms_head (ms_heads A hp) = head"
  shows "ms_inv hp (ms_set_head hp ((ms_heads A hp)\<lparr>ms_head := next\<rparr>) A) (ts[i := M_pop (P_free head x)]) used
    (lin @ [EvPop DS_SUCCESS (Some x)]) empties got ns ti"
proof -
  note d = ms_invD [OF inv]
  let ?D = "length (delivered lin)"
  obtain a where a: "head = ns ! a" "next = ns ! Suc a" "a \<le> ?D" "Suc a \<le> ti" and x: "x = ms_data (ms_nodes A next)"
    using d(11) [OF i] t by (auto simp: ms_front_def)
  have b: "a < length ns" "?D < length ns" using a(3) d(6,7) by linarith+
  have "ns ! a = ns ! ?D" by (rule trans [OF trans [OF a(1) [symmetric] h [symmetric]] d(4)])
  then have "a = ?D" by (rule nth_eq_iff_index_eq [OF seg_distinct [OF d(2)] b, THEN iffD1])
  then have p: "next = ns ! Suc ?D" "Suc ?D \<le> ti" using a by simp_all
  have E: "length (accepted lin) = length ns - 1" using arg_cong [OF d(3), of length] by simp
  then have lt: "?D < length (accepted lin)" using p(2) d(7) by simp
  have "accepted lin ! ?D = ms_data (ms_nodes A (tl ns ! ?D))"
    using lt arg_cong [OF d(3), of "\<lambda>zs. zs ! ?D"] E by simp
  then have "accepted lin ! ?D = x" using x p(1) lt E d(1) by (simp add: nth_tl)
  then have "drop ?D (accepted lin) = x # drop (Suc ?D) (accepted lin)" using lt Cons_nth_drop_Suc by metis
  then have rep: "queue_replay [] (lin @ [EvPop DS_SUCCESS (Some x)]) = Some (drop (Suc ?D) (accepted lin))"
    using d(9) by (simp add: queue_replay_is_lane_replay lane_replay_append)
  show ?thesis
    using d(2-8) t p rep
    by (intro ms_inv_turn [OF inv i, where zs = "[]" and evs = "[EvPop DS_SUCCESS (Some x)]"])
       (auto simp: sightings_def DS_SUCCESS_def DS_ERROR_NOT_FOUND_def)
qed

text \<open>A pop that finds the next pointer NULL: the queue is empty at that moment.\<close>

lemma ms_inv_sight:
  assumes inv: "ms_inv hp A ts used lin empties got ns ti" and i: "i < length ts"
    and t: "ts ! i = M_pop (P_next head tail r)" and null: "ms_next (ms_nodes A head) = NULL"
  shows "ms_inv hp A (ts[i := M_pop (P_check head tail NULL r)]) used (lin @ [EvPop DS_ERROR_NOT_FOUND None]) empties got ns ti"
proof -
  note d = ms_invD [OF inv]
  let ?D = "length (delivered lin)"
  have s: "ms_seen ns ?D ti head tail" using d(11) [OF i] t by simp
  then obtain a where a: "head = ns ! a" "a \<le> ?D" by (auto simp: ms_seen_def)
  have "length ns = Suc a" using null a d(6,7) by (intro seg_last_place [OF d(2)]) simp_all
  then have "length ns = Suc ?D" using a(2) d(6,7) by simp
  then have "length (accepted lin) = ?D" using arg_cong [OF d(3), of length] by simp
  then have rep: "queue_replay [] (lin @ [EvPop DS_ERROR_NOT_FOUND None]) = Some (drop ?D (accepted lin))"
    using d(9) by (simp add: queue_replay_is_lane_replay lane_replay_append)
  show ?thesis
    using d(2-8) t rep s
    by (intro ms_inv_turn [OF inv i, where zs = "[]" and evs = "[EvPop DS_ERROR_NOT_FOUND None]"])
       (auto simp: sightings_def)
qed

definition ms_ok :: "ptr \<Rightarrow> 'a ms_arena \<Rightarrow> ms_thread list \<Rightarrow> ptr set \<Rightarrow> lane_event list \<Rightarrow> nat \<Rightarrow> ds_kv list \<Rightarrow> bool" where
  "ms_ok hp A ts used lin empties got \<longleftrightarrow> (\<exists>ns ti. ms_inv hp A ts used lin empties got ns ti)"

lemma ms_okI: "ms_inv hp A ts used lin empties got ns ti \<Longrightarrow> ms_ok hp A ts used lin empties got"
  by (auto simp: ms_ok_def)

lemma ms_ok_swing:
  assumes "ms_inv hp A ts used lin empties got ns ti" and "i < length ts" and "ms_after ns (ms_nodes A) tail next"
    and "ms_local ns (length (delivered lin)) ti (ms_nodes A) t" "ms_own t \<in> {None, ms_own (ts ! i)}"
      "ms_plus t = ms_plus (ts ! i)" "ms_taken t = ms_taken (ts ! i)" "ms_pending t = ms_pending (ts ! i)"
  shows "ms_ok hp (ms_set_head hp ((ms_heads A hp)\<lparr>ms_tail := snd (arena_atomic_cmpxchg (ms_tail (ms_heads A hp)) tail next)\<rparr>) A)
      (ts[i := t]) used lin empties got"
  using ms_inv_swing [OF assms] unfolding ms_ok_def by blast

lemmas ms_ok_read = ms_okI [OF ms_inv_read]
lemmas ms_ok_store = ms_okI [OF ms_inv_store]

lemma ms_ins_again_facts:
  "ms_own (ms_ins_again e x r) = Some e" "ms_plus (ms_ins_again e x r) = 0" "ms_taken (ms_ins_again e x r) = {#}"
  "ms_pending (ms_ins_again e x r) = 0" "ms_ready m e x \<Longrightarrow> ms_local ns hi ti m (ms_ins_again e x r)"
  by (simp_all add: ms_ins_again_def)

lemma ms_pop_again_facts:
  assumes "ms_pop_again r = (t, ev)"
  shows "ms_own t = None" "ms_plus t = 0" "ms_taken t = {#}" "ms_pending t = 0" "ms_local ns hi ti m t"
    "ms_note_events ev = []" "ms_note_got ev = []" "ev \<noteq> O_empty"
  using assms by (auto simp: ms_pop_again_def split: if_splits)

lemma ms_insert_inv:
  assumes inv: "ms_inv hp A ts used lin empties got ns ti" and i: "i < length ts" and ti: "ts ! i = M_ins e x pc"
    and step: "ms_insert_step free hp e x pc A = (t, ev, B)"
  shows "ms_ok hp B (ts[i := t]) used (lin @ ms_note_events ev) (empties + of_bool (ev = O_empty)) (got @ ms_note_got ev)"
proof -
  note d = ms_invD [OF inv] and l = ms_invD(11) [OF inv i]
  show ?thesis
  proof (cases pc)
    case I_key
    then show ?thesis
      using step ti ms_ok_store [OF inv i, of e "M_ins e x I_val" "(ms_nodes A e)\<lparr>ms_data := (ms_data (ms_nodes A e))\<lparr>key := key x\<rparr>\<rparr>"]
      by auto
  next
    case I_val
    have "(ms_data (ms_nodes A e))\<lparr>val := val x\<rparr> = x"
      using l ti I_val by (cases x; cases "ms_data (ms_nodes A e)") simp
    then show ?thesis
      using step ti I_val ms_ok_store [OF inv i, of e "M_ins e x I_null" "(ms_nodes A e)\<lparr>ms_data := x\<rparr>"] by auto
  next
    case I_null
    then show ?thesis
      using step ti l ms_ok_store [OF inv i, of e "ms_ins_again e x 0" "(ms_nodes A e)\<lparr>ms_next := NULL\<rparr>"]
      by (cases "ms_nodes A e") (auto simp: ms_ins_again_facts ms_ready_def)
  next
    case (I_tail r)
    have "ns ! ti \<in> set (take (Suc ti) ns)" using d(7) by (simp add: take_Suc_conv_app_nth)
    then show ?thesis
      using step ti l I_tail ms_ok_read [OF inv i, of A "M_ins e x (I_next (ms_tail (ms_heads A hp)) r)" got empties] d(5) by auto
  next
    case (I_next tail r)
    have "tail \<in> set ns" using l ti I_next by (auto dest: in_set_takeD)
    then show ?thesis
      using step ti l I_next ms_ok_read [OF inv i, of A "M_ins e x (I_help tail (ms_next (ms_nodes A tail)) r)" got empties]
        ms_ok_read [OF inv i, of A "M_ins e x (I_link tail r)" got empties]
      by (auto simp: Let_def ms_after_def split: if_splits)
  next
    case (I_help tail nx r)
    then show ?thesis
      using step ti l ms_ok_swing [OF inv i, of tail nx "ms_ins_again e x (r + 1)"]
      by (auto simp: Let_def split_def ms_ins_again_facts)
  next
    case (I_link tail r)
    show ?thesis
    proof (cases "ms_next (ms_nodes A tail) = NULL")
      case True
      then show ?thesis
        using step I_link ms_okI [OF ms_inv_link [OF inv i ti [unfolded I_link] True]] by (auto simp: Let_def)
    next
      case False
      then have "B = ms_set_node tail (ms_nodes A tail) A" "ev = O_none" "t = ms_ins_again e x (r + 1)"
        using step I_link by (auto simp: Let_def arena_atomic_cmpxchg_def)
      then show ?thesis
        using ti l I_link ms_ok_read [OF inv i, of B t got empties] by (auto simp: ms_ins_again_facts)
    qed
  next
    case (I_count tail)
    then show ?thesis
      using step ti l ms_ok_read [OF inv i, of B "M_ins e x (I_swing tail)" got empties] by auto
  next
    case (I_swing tail)
    then show ?thesis
      using step ti l ms_ok_swing [OF inv i, of tail e M_idle] by (auto simp: Let_def split_def)
  next
    case I_free
    then show ?thesis using step ti ms_ok_read [OF inv i, of B M_idle got empties] by auto
  qed
qed

lemma ms_pop_inv:
  assumes inv: "ms_inv hp A ts used lin empties got ns ti" and i: "i < length ts" and ti: "ts ! i = M_pop pc"
    and step: "ms_pop_step free hp pc A = (t, ev, B)"
  shows "ms_ok hp B (ts[i := t]) used (lin @ ms_note_events ev) (empties + of_bool (ev = O_empty)) (got @ ms_note_got ev)"
proof -
  note d = ms_invD [OF inv] and l = ms_invD(11) [OF inv i]
  let ?D = "length (delivered lin)"
  show ?thesis
  proof (cases pc)
    case (P_head r)
    have "ns ! ?D \<in> set (take (Suc ?D) ns)" using d(6,7) by (simp add: take_Suc_conv_app_nth)
    then show ?thesis
      using step ti P_head ms_ok_read [OF inv i, of A "M_pop (P_tail (ms_head (ms_heads A hp)) r)" got empties] d(4) by auto
  next
    case (P_tail head r)
    obtain a where "head = ns ! a" "a \<le> ?D"
      using l ti P_tail d(6,7) by (auto simp: in_set_conv_nth less_Suc_eq_le)
    then have "ms_seen ns ?D ti head (ms_tail (ms_heads A hp))" using d(5,6) unfolding ms_seen_def by fastforce
    then show ?thesis
      using step ti P_tail ms_ok_read [OF inv i, of A "M_pop (P_next head (ms_tail (ms_heads A hp)) r)" got empties]
        ms_ok_read [OF inv i, of A M_idle got empties] by (auto simp: Let_def split: if_splits)
  next
    case (P_next head tail r)
    show ?thesis
    proof (cases "ms_next (ms_nodes A head) = NULL")
      case True
      then show ?thesis using step P_next ms_okI [OF ms_inv_sight [OF inv i ti [unfolded P_next] True]] by auto
    next
      case False
      have "head \<in> set ns" using l ti P_next d(6,7) by (auto simp: ms_seen_def)
      then show ?thesis
        using step ti l P_next False ms_ok_read [OF inv i, of A "M_pop (P_check head tail (ms_next (ms_nodes A head)) r)" got empties]
        by (auto simp: ms_after_def)
    qed
  next
    case (P_check head tail nx r)
    have seen: "ms_seen ns ?D ti head tail" "nx \<noteq> NULL \<Longrightarrow> ms_after ns (ms_nodes A) head nx" using l ti P_check by auto
    consider "ms_head (ms_heads A hp) \<noteq> head" | "ms_head (ms_heads A hp) = head" "nx = NULL"
      | "ms_head (ms_heads A hp) = head" "nx \<noteq> NULL" "head = tail"
      | "ms_head (ms_heads A hp) = head" "nx \<noteq> NULL" "head \<noteq> tail" by blast
    then show ?thesis
    proof cases
      case 1
      then have "ms_pop_again (r + 1) = (t, ev)" "B = A" using step P_check by (auto simp: Let_def split_def)
      then show ?thesis
        using ti P_check ms_pop_again_facts [of "r + 1" t ev] ms_ok_read [OF inv i, of A t got empties] by auto
    next
      case 2
      then show ?thesis using step ti P_check ms_ok_read [OF inv i, of A M_idle got "Suc empties"] by auto
    next
      case 3
      then show ?thesis
        using step ti P_check seen ms_ok_read [OF inv i, of A "M_pop (P_help tail nx r)" got empties] by auto
    next
      case 4
      obtain a b where p: "head = ns ! a" "tail = ns ! b" "a \<le> b" "a \<le> ?D" "b \<le> ti" using seen(1) by (auto simp: ms_seen_def)
      then have "Suc a \<le> ti" using 4(3) by (metis le_neq_implies_less Suc_leI le_trans)
      moreover have "nx = ns ! Suc a" using ms_after_place(2) [OF inv, of a nx] seen(2) 4(2) p d(6,7) by simp
      ultimately have "ms_front ns ?D ti head nx" using p by (auto simp: ms_front_def)
      then show ?thesis
        using 4 step ti P_check ms_ok_read [OF inv i, of A "M_pop (P_key head nx r)" got empties] by auto
    qed
  next
    case (P_help tail nx r)
    obtain t' ev' where "ms_pop_again (r + 1) = (t', ev')" by fastforce
    then show ?thesis
      using step ti l P_help ms_pop_again_facts [of "r + 1" t ev] ms_ok_swing [OF inv i, of tail nx t]
      by (auto simp: Let_def split_def)
  next
    case (P_key head nx r)
    then show ?thesis
      using step ti l ms_ok_read [OF inv i, of A "M_pop (P_val head nx (key (ms_data (ms_nodes A nx))) r)" got empties] by auto
  next
    case (P_val head nx k r)
    have "\<lparr>key = key y, val = val y\<rparr> = y" for y :: ds_kv by simp
    then show ?thesis
      using step ti l P_val ms_ok_read [OF inv i, of A "M_pop (P_cas head nx (ms_data (ms_nodes A nx)) r)" got empties] by auto
  next
    case (P_cas head nx x r)
    show ?thesis
    proof (cases "ms_head (ms_heads A hp) = head")
      case True
      then show ?thesis using step P_cas ms_okI [OF ms_inv_head [OF inv i ti [unfolded P_cas] True]] by (auto simp: Let_def)
    next
      case False
      then have "ms_pop_again (r + 1) = (t, ev)" "B = ms_set_head hp (ms_heads A hp) A"
        using step P_cas by (auto simp: Let_def split_def arena_atomic_cmpxchg_def)
      then show ?thesis
        using ti P_cas ms_pop_again_facts [of "r + 1" t ev] ms_ok_read [OF inv i, of B t got empties] by auto
    qed
  next
    case (P_free head x)
    then show ?thesis using step ti ms_ok_read [OF inv i, of B "M_pop (P_count x)" got empties] by auto
  next
    case (P_count x)
    then show ?thesis using step ti ms_ok_read [OF inv i, of B M_idle "got @ [x]" empties] by auto
  qed
qed

definition ms_sys_inv :: "ptr \<Rightarrow> 'a ms_sys \<Rightarrow> bool" where
  "ms_sys_inv hp s \<longleftrightarrow>
     ms_ok hp (mq_arena s) (mq_threads s) (mq_used s) (mq_lin s) (mq_empties s) (mq_got s)"

lemma ms_turn_inv:
  assumes "ms_sys_inv hp s"
  shows "ms_sys_inv hp (ms_turn free hp a s)"
proof -
  obtain ns ti where inv: "ms_inv hp (mq_arena s) (mq_threads s) (mq_used s) (mq_lin s) (mq_empties s) (mq_got s) ns ti"
    using assms by (auto simp: ms_sys_inv_def ms_ok_def)
  note d = ms_invD [OF inv]
  show ?thesis
  proof (cases a)
    case (B_insert i e x)
    show ?thesis
    proof (cases "i < length (mq_threads s) \<and> mq_threads s ! i = M_idle \<and> e \<notin> mq_used s")
      case True
      then have "e \<notin> set ns" using d(10) by blast
      then have "ms_ok hp (mq_arena s) ((mq_threads s)[i := ms_insert_call hp e x]) (insert e (mq_used s)) (mq_lin s)
          (mq_empties s) (mq_got s)"
        using True d(2-9)
        by (intro ms_okI [OF ms_inv_turn [OF inv, where zs = "[]" and evs = "[]"]]) (auto simp: ms_insert_call_def split: if_splits)
      then show ?thesis using True B_insert by (auto simp: ms_sys_inv_def)
    qed (use assms B_insert in auto)
  next
    case (B_pop i)
    then show ?thesis
      using assms ms_ok_read [OF inv, of i "mq_arena s" "ms_pop_call hp" "mq_got s" "mq_empties s"]
      by (auto simp: ms_sys_inv_def ms_pop_call_def split: if_splits)
  next
    case (B_step i)
    show ?thesis
    proof (cases "i < length (mq_threads s)")
      case i: True
      obtain t ev B where st: "ms_step free hp (mq_threads s ! i) (mq_arena s) = (t, ev, B)" by (metis prod_cases3)
      have "ms_ok hp B ((mq_threads s)[i := t]) (mq_used s) (mq_lin s @ ms_note_events ev)
          (mq_empties s + of_bool (ev = O_empty)) (mq_got s @ ms_note_got ev)"
      proof (cases "mq_threads s ! i")
        case M_idle
        then show ?thesis using st i ms_ok_read [OF inv i, of "mq_arena s" M_idle "mq_got s" "mq_empties s"] by auto
      next
        case (M_ins e x pc)
        then show ?thesis using st by (intro ms_insert_inv [OF inv i M_ins]) simp
      next
        case (M_pop pc)
        then show ?thesis using st by (intro ms_pop_inv [OF inv i M_pop]) simp
      qed
      then show ?thesis using B_step i st by (simp add: ms_sys_inv_def)
    qed (use assms B_step in simp)
  qed
qed

lemma ms_run_inv: "ms_sys_inv hp s \<Longrightarrow> ms_sys_inv hp (ms_run free hp acts s)"
proof (induction acts arbitrary: s)
  case (Cons a acts)
  from Cons.IH [OF ms_turn_inv [OF Cons.prems]] show ?case by (simp add: ms_run_def)
qed (simp add: ms_run_def)

lemma ms_init_inv:
  assumes "ds_msqueue_init sd alloc hp A = (DS_SUCCESS, A')"
  shows "ms_sys_inv hp (ms_start n hp A')"
proof -
  let ?p = "ms_head (ms_heads A' hp)"
  have "?p \<noteq> NULL" "ms_tail (ms_heads A' hp) = ?p" "ms_next (ms_nodes A' ?p) = NULL" "ms_count (ms_heads A' hp) = 0"
    using assms by (auto simp: ds_variant ds_msqueue_init_lkmm_def Let_def ds_codes split: if_splits prod.splits)
  then have "ms_inv hp A' (replicate n M_idle) {?p} [] 0 [] [?p] 0"
    by (simp add: ms_inv_def Let_def tot_replicate_zero tally_def sightings_def)
  from ms_okI [OF this] show ?thesis by (simp add: ms_sys_inv_def ms_start_def)
qed

lemma ms_tail_place:
  assumes "k \<le> ti" and "ti < length ns" and "length ns \<le> ti + 2"
  shows "ms_tail_ok (ns ! ti) (drop k ns)"
proof (cases "length ns = Suc ti")
  case True
  then show ?thesis using assms by (simp add: ms_tail_ok_def last_conv_nth)
next
  case False
  then have n: "length ns = ti + 2" using assms(2,3) by simp
  then have "butlast (drop k ns) \<noteq> []" using assms(1) by (simp flip: length_greater_0_conv)
  then have "last (butlast (drop k ns)) = ns ! ti"
    using n assms(1) by (simp add: last_conv_nth nth_butlast)
  moreover have "2 \<le> length (drop k ns)" using n assms(1) by simp
  ultimately show ?thesis by (metis ms_tail_ok_def)
qed

subsection \<open>Properties\<close>

text \<open>
  C13.  The Michael-Scott queue is linearisable under any number of threads: whatever the
  schedule of their accesses, the exchanges that linked a node or moved the head, together
  with the loads at which pops found no next node, are in the order in which they happened a
  history of an abstract queue whose contents are the elements after the node at the head;
  the tail points to the last node or the one before it.  Pops return elements that the
  history delivered, each at most as often, and answer that the queue is empty at most as
  often as they saw it empty.  When no call is in progress all delivered elements have been
  returned and the counter is the number of elements.
\<close>

theorem ms_threads_fifo:
  assumes "ds_msqueue_init sd alloc hp A = (DS_SUCCESS, A')"
  shows "let s = ms_run free hp acts (ms_start n hp A'); h = ms_heads (mq_arena s) hp; m = ms_nodes (mq_arena s) in
    \<exists>qs. seg (ms_next \<circ> m) (ms_head h) (ms_head h # qs) NULL \<and> ms_tail_ok (ms_tail h) (ms_head h # qs) \<and>
      queue_replay [] (mq_lin s) = Some (map (ms_data \<circ> m) qs) \<and>
      accepted (mq_lin s) = delivered (mq_lin s) @ map (ms_data \<circ> m) qs \<and>
      mset (mq_got s) \<subseteq># mset (delivered (mq_lin s)) \<and> mq_empties s \<le> sightings (mq_lin s) \<and>
      (list_all (\<lambda>t. t = M_idle) (mq_threads s) \<longrightarrow>
         mset (mq_got s) = mset (delivered (mq_lin s)) \<and> ms_count h = of_nat (length qs))"
proof -
  let ?s = "ms_run free hp acts (ms_start n hp A')"
  let ?h = "ms_heads (mq_arena ?s) hp" and ?m = "ms_nodes (mq_arena ?s)" and ?D = "length (delivered (mq_lin ?s))"
  obtain ns ti where inv: "ms_inv hp (mq_arena ?s) (mq_threads ?s) (mq_used ?s) (mq_lin ?s) (mq_empties ?s) (mq_got ?s) ns ti"
    using ms_run_inv [OF ms_init_inv [OF assms]] unfolding ms_sys_inv_def ms_ok_def by blast
  note d = ms_invD [OF inv]
  have D: "?D < length ns" using d(6,7) by simp
  have q: "ms_head ?h # drop (Suc ?D) ns = drop ?D ns" using d(4) D by (simp add: Cons_nth_drop_Suc)
  have s: "seg (ms_next \<circ> ?m) (ms_head ?h) (ms_head ?h # drop (Suc ?D) ns) NULL"
    unfolding q using seg_drop [OF d(2) D] d(4) by simp
  have tail: "ms_tail_ok (ms_tail ?h) (ms_head ?h # drop (Suc ?D) ns)"
    unfolding q d(5) by (rule ms_tail_place [OF d(6-8)])
  have c: "drop ?D (accepted (mq_lin ?s)) = map (ms_data \<circ> ?m) (drop (Suc ?D) ns)"
    using arg_cong [OF d(3), of "drop ?D"] by (simp add: drop_map drop_Suc flip: drop_tl)
  have a: "accepted (mq_lin ?s) = delivered (mq_lin ?s) @ map (ms_data \<circ> ?m) (drop (Suc ?D) ns)"
    using queue_replay_fifo [OF d(9)] by (simp add: c)
  have g: "mset (mq_got ?s) \<subseteq># mset (delivered (mq_lin ?s))"
    using d(14) mset_subset_eq_add_left [of "mset (mq_got ?s)"] by metis
  have i: "mset (mq_got ?s) = mset (delivered (mq_lin ?s)) \<and> ms_count ?h = of_nat (length (drop (Suc ?D) ns))"
    if idle: "list_all (\<lambda>t. t = M_idle) (mq_threads ?s)"
  proof -
    have zero: "tot (\<lambda>_. f) (mq_threads ?s) = 0" if "f M_idle = 0" for f :: "ms_thread \<Rightarrow> 'b :: comm_monoid_add"
      using idle that by (intro tot_zero) (auto simp: list_all_length)
    have "length (accepted (mq_lin ?s)) = ?D + length (drop (Suc ?D) ns)" using arg_cong [OF a, of length] by simp
    then show ?thesis using d(13,14) zero [of ms_plus] zero [of ms_taken] by simp
  qed
  show ?thesis
    unfolding Let_def using s tail d(9) a g i d(15) by (intro exI [of _ "drop (Suc ?D) ns"]) (simp add: c)
qed

text \<open>
  Two threads.  Thread 0 inserts and stops after its load of the tail; thread 1 inserts,
  pops its element, whereby the dummy is released, and stops; thread 0 goes on.
\<close>

definition ms_demo_acts :: "ms_act list" where
  "ms_demo_acts =
     [B_insert 0 0x3000 \<lparr>key = 1, val = 10\<rparr>] @ replicate 4 (B_step 0) @
     [B_insert 1 0x4000 \<lparr>key = 2, val = 20\<rparr>] @ replicate 8 (B_step 1) @ [B_pop 1] @ replicate 9 (B_step 1) @
     replicate 7 (B_step 0)"

definition ms_demo_arena :: "unit ms_arena" where
  "ms_demo_arena = \<lparr>ms_heads = \<lambda>_. \<lparr>ms_head = 5, ms_tail = 6, ms_count = 7\<rparr>,
     ms_nodes = \<lambda>_. \<lparr>ms_next = 8, ms_data = zero_kv\<rparr>, ms_alloc = ()\<rparr>"

definition ms_demo_run :: "nat \<Rightarrow> unit ms_sys" where
  "ms_demo_run k = ms_run (\<lambda>_ a. a) 0x1000 (take k ms_demo_acts)
     (ms_start 2 0x1000 (snd (ds_msqueue_init USERSPACE (\<lambda>_ a. (0x2000, a)) 0x1000 ms_demo_arena)))"

lemma ms_demo_init:
  "ds_msqueue_init USERSPACE (\<lambda>_ a. (0x2000, a)) 0x1000 ms_demo_arena =
     (DS_SUCCESS, snd (ds_msqueue_init USERSPACE (\<lambda>_ a. (0x2000, a)) 0x1000 ms_demo_arena))"
  by (simp add: ds_variant ds_msqueue_init_lkmm_def Let_def)

theorem ms_threads_fifo_witness:
  "mq_got (ms_demo_run 100) = [\<lparr>key = 2, val = 20\<rparr>] \<and> ms_count (ms_heads (mq_arena (ms_demo_run 100)) 0x1000) = 1 \<and>
   mset (mq_got (ms_demo_run 100)) = mset (delivered (mq_lin (ms_demo_run 100))) \<and>
   accepted (mq_lin (ms_demo_run 100)) = [\<lparr>key = 2, val = 20\<rparr>, \<lparr>key = 1, val = 10\<rparr>]"
proof -
  define s where "s = ms_demo_run 100"
  have e: "mq_got s = [\<lparr>key = 2, val = 20\<rparr>] \<and> mq_threads s = [M_idle, M_idle] \<and>
      ms_count (ms_heads (mq_arena s) 0x1000) = 1 \<and>
      accepted (mq_lin s) = [\<lparr>key = 2, val = 20\<rparr>, \<lparr>key = 1, val = 10\<rparr>]"
    unfolding s_def by code_simp
  have "mset (mq_got s) = mset (delivered (mq_lin s))"
    using ms_threads_fifo [OF ms_demo_init, of "\<lambda>_ a. a" "take 100 ms_demo_acts" 2, folded ms_demo_run_def, folded s_def, unfolded Let_def] e
    by auto
  then show ?thesis using e unfolding s_def by blast
qed


subsection \<open>Without interference\<close>

text \<open>Run alone with a tail that does not lag, the steps of a call add up to the operation.\<close>

lemma ms_run_Cons: "ms_run free hp (a # acts) s = ms_run free hp acts (ms_turn free hp a s)"
  by (simp add: ms_run_def)

lemma ms_alone_insert:
  assumes hp: "hp \<noteq> NULL" and alloc: "alloc ms_elem_bytes (ms_alloc A) = (e, al)" "e \<noteq> NULL" "e \<notin> mq_used s"
    and A: "mq_arena s = A\<lparr>ms_alloc := al\<rparr>" and i: "i < length (mq_threads s)" "mq_threads s ! i = M_idle"
    and tail: "ms_tail (ms_heads A hp) \<noteq> e" "ms_next (ms_nodes A (ms_tail (ms_heads A hp))) = NULL"
    and s': "s' = ms_run free hp (B_insert i e x # replicate 8 (B_step i)) s"
  shows "ds_msqueue_insert USERSPACE alloc free hp (key x) (val x) A = (DS_SUCCESS, mq_arena s')"
    and "mq_threads s' = mq_threads s" and "mq_lin s' = mq_lin s @ [EvIns x DS_SUCCESS]"
proof -
  have pcs: "(mq_threads s)[i := M_idle] = mq_threads s" using i(2) list_update_id by metis
  have steps: "replicate 8 (B_step i) = [B_step i, B_step i, B_step i, B_step i, B_step i, B_step i, B_step i, B_step i]"
    by (simp add: eval_nat_numeral)
  have x: "d\<lparr>key := key x, val := val x\<rparr> = \<lparr>key = key x, val = val x\<rparr>" for d :: ds_kv by (cases d) simp
  show "ds_msqueue_insert USERSPACE alloc free hp (key x) (val x) A = (DS_SUCCESS, mq_arena s')"
    "mq_threads s' = mq_threads s" "mq_lin s' = mq_lin s @ [EvIns x DS_SUCCESS]"
    unfolding s' steps using hp alloc A i tail pcs x
    by (simp_all add: ms_run_Cons ms_run_def ms_insert_call_def ms_ins_again_def ms_max_retries_def ds_msqueue_insert_def
        ds_msqueue_insert_c_def msqueue_add_node_c_def numeral_eq_Suc ms_add_loop.simps(2) Let_def ms_set_head_def ms_set_node_def)
qed

lemma ms_alone_pop:
  assumes hp: "hp \<noteq> NULL" and i: "i < length (mq_threads s)" "mq_threads s ! i = M_idle"
    and h: "h = ms_heads (mq_arena s) hp" "ms_head h \<noteq> NULL" "ms_tail h \<noteq> NULL" "ms_tail h \<noteq> ms_head h"
    and nx: "q = ms_next (ms_nodes (mq_arena s) (ms_head h))" "q \<noteq> NULL"
    and s': "s' = ms_run free hp (B_pop i # replicate 9 (B_step i)) s"
  shows "ds_msqueue_pop USERSPACE free hp (Some d) (mq_arena s) =
      (DS_SUCCESS, Some (ms_data (ms_nodes (mq_arena s) q)), mq_arena s')"
    and "mq_threads s' = mq_threads s" and "mq_got s' = mq_got s @ [ms_data (ms_nodes (mq_arena s) q)]"
proof -
  have pcs: "(mq_threads s)[i := M_idle] = mq_threads s" using i(2) list_update_id by metis
  have steps: "replicate 9 (B_step i) =
      [B_step i, B_step i, B_step i, B_step i, B_step i, B_step i, B_step i, B_step i, B_step i]"
    by (simp add: eval_nat_numeral)
  have x: "d\<lparr>key := key y, val := val y\<rparr> = y" "\<lparr>key = key y, val = val y\<rparr> = y" for d y :: ds_kv by (cases d; cases y; simp)+
  show "ds_msqueue_pop USERSPACE free hp (Some d) (mq_arena s) =
      (DS_SUCCESS, Some (ms_data (ms_nodes (mq_arena s) q)), mq_arena s')"
    "mq_threads s' = mq_threads s" "mq_got s' = mq_got s @ [ms_data (ms_nodes (mq_arena s) q)]"
    unfolding s' steps using hp i h nx pcs x
    by (simp_all add: ms_run_Cons ms_run_def ms_pop_call_def ms_pop_again_def ms_max_retries_def ds_msqueue_pop_def
        ds_msqueue_pop_c_def numeral_eq_Suc ms_pop_loop_c.simps(2) Let_def ms_set_head_def)
qed

end
