(* ===== verification/Metrics.thy ===== *)
theory Metrics
  imports DsApi
begin

text \<open>
  The latency metrics of \<^verbatim>\<open>include/ds_metrics.h\<close>: one ring of samples and five running
  counters per category, filled by \<^verbatim>\<open>ds_metrics_record\<close> and summarised by
  \<^verbatim>\<open>ds_metrics_print\<close>.  The counters are 64-bit and wrap.  Of the printed table the
  integer columns are modelled; the success rate and the throughput are computed in
  floating point and left out.
\<close>

subsection \<open>State\<close>

record ds_metric_sample =
  latency_ns :: u64
  success :: u8

definition DS_METRICS_RING_SIZE :: u64 where "DS_METRICS_RING_SIZE = 8192"

record ds_metrics_ring =
  write_idx :: u64
  mcount :: u64
  success_count :: u64
  total_latency_ns :: u64
  success_latency_ns :: u64
  samples :: "u64 \<Rightarrow> ds_metric_sample"

datatype ds_metrics_category = DS_METRICS_LKMM_PRODUCER | DS_METRICS_USER_CONSUMER
  | DS_METRICS_USER_PRODUCER | DS_METRICS_LKMM_CONSUMER

type_synonym ds_metrics_store = "ds_metrics_category \<Rightarrow> ds_metrics_ring"

definition zero_ring :: ds_metrics_ring where
  "zero_ring = \<lparr>write_idx = 0, mcount = 0, success_count = 0, total_latency_ns = 0, success_latency_ns = 0,
     samples = (\<lambda>_. \<lparr>latency_ns = 0, success = 0\<rparr>)\<rparr>"

subsection \<open>Recording\<close>

text \<open>
  \<^verbatim>\<open>ds_metrics_clock\<close> reads a monotonic clock; \<^verbatim>\<open>DS_METRICS_CLOCK_END\<close> is the
  difference of two readings.
\<close>

definition ds_metrics_clock :: "timespec \<Rightarrow> u64" where
  "ds_metrics_clock ts = tv_sec ts * 1000000000 + tv_nsec ts"

definition DS_METRICS_CLOCK_END :: "u64 \<Rightarrow> u64 \<Rightarrow> u64" where
  "DS_METRICS_CLOCK_END now start = now - start"

text \<open>The store pointer may be NULL, which is \<open>None\<close>.\<close>

definition ds_metrics_record ::
  "ds_metrics_store option \<Rightarrow> ds_metrics_category \<Rightarrow> u64 \<Rightarrow> int \<Rightarrow> ds_metrics_store option" where
  "ds_metrics_record store cat lat result =
     (case store of
        None \<Rightarrow> None
      | Some st \<Rightarrow>
          let ring = st cat;
              old_idx = write_idx ring;
              ring = ring\<lparr>write_idx := old_idx + 1\<rparr>;
              slot = old_idx AND (DS_METRICS_RING_SIZE - 1);
              ok = (if result = DS_SUCCESS then 1 else 0 :: u8);
              ring = ring\<lparr>samples := (samples ring)(slot := (samples ring slot)\<lparr>latency_ns := lat, success := ok\<rparr>)\<rparr>;
              ring = ring\<lparr>mcount := mcount ring + 1\<rparr>;
              ring = ring\<lparr>total_latency_ns := total_latency_ns ring + lat\<rparr>;
              ring = (if ok \<noteq> 0
                then ring\<lparr>success_count := success_count ring + 1,
                       success_latency_ns := success_latency_ns ring + lat\<rparr>
                else ring) in
          Some (st(cat := ring)))"

text \<open>
  \<^verbatim>\<open>DS_METRICS_RECORD_OP\<close>: read the clock, perform the operation on the state, read the
  clock again, record.  The operation returns its code with its other results.
\<close>

definition DS_METRICS_RECORD_OP ::
  "u64 \<times> u64 \<Rightarrow> ds_metrics_category \<Rightarrow> ('s \<Rightarrow> int \<times> 'r) \<Rightarrow> 's \<Rightarrow> ds_metrics_store \<Rightarrow>
   (int \<times> 'r) \<times> ds_metrics_store" where
  "DS_METRICS_RECORD_OP clk cat op_block s store =
     (let start = fst clk;
          (result, r) = op_block s;
          elapsed = DS_METRICS_CLOCK_END (snd clk) start in
      ((result, r), the (ds_metrics_record (Some store) cat elapsed result)))"

subsection \<open>The table\<close>

fun ds_metrics_category_name :: "ds_metrics_category \<Rightarrow> string" where
  "ds_metrics_category_name DS_METRICS_LKMM_PRODUCER = ''LKMM producer''"
| "ds_metrics_category_name DS_METRICS_USER_CONSUMER = ''User consumer''"
| "ds_metrics_category_name DS_METRICS_USER_PRODUCER = ''User producer''"
| "ds_metrics_category_name DS_METRICS_LKMM_CONSUMER = ''LKMM consumer''"

text \<open>One row: name, total, successes, average of all, average of the successful ones.\<close>

definition metrics_row :: "ds_metrics_store \<Rightarrow> ds_metrics_category \<Rightarrow> string \<times> u64 \<times> u64 \<times> u64 \<times> u64" where
  "metrics_row st c =
     (let ring = st c;
          total = mcount ring;
          succ = success_count ring;
          lat_all = total_latency_ns ring;
          lat_ok = success_latency_ns ring;
          avg_all = (if total > 0 then lat_all div total else 0);
          avg_ok = (if succ > 0 then lat_ok div succ else 0) in
      (ds_metrics_category_name c, total, succ, avg_all, avg_ok))"

definition ds_metrics_print ::
  "ds_metrics_store option \<Rightarrow> string option \<Rightarrow> (string \<times> u64 \<times> u64 \<times> u64 \<times> u64) list" where
  "ds_metrics_print store ds_name =
     (case (store, ds_name) of
        (Some st, Some _) \<Rightarrow>
          map (metrics_row st) [DS_METRICS_LKMM_PRODUCER, DS_METRICS_USER_CONSUMER,
            DS_METRICS_USER_PRODUCER, DS_METRICS_LKMM_CONSUMER]
      | _ \<Rightarrow> [])"

subsection \<open>What a store has recorded\<close>

text \<open>
  The measurements of one category in the order they were recorded (latency, result); the
  ring holds the last 8192 of them, each at its index modulo 8192.
\<close>

definition metrics_ring_of :: "ds_metrics_ring \<Rightarrow> (u64 \<times> int) list \<Rightarrow> bool" where
  "metrics_ring_of ring ms \<longleftrightarrow>
     write_idx ring = of_nat (length ms) \<and> mcount ring = of_nat (length ms) \<and>
     success_count ring = of_nat (length (filter (\<lambda>m. snd m = DS_SUCCESS) ms)) \<and>
     total_latency_ns ring = sum_list (map fst ms) \<and>
     success_latency_ns ring = sum_list (map fst (filter (\<lambda>m. snd m = DS_SUCCESS) ms)) \<and>
     (\<forall>i < length ms. length ms \<le> i + 8192 \<longrightarrow>
        samples ring (of_nat (i mod 8192)) =
          \<lparr>latency_ns = fst (ms ! i), success = (if snd (ms ! i) = DS_SUCCESS then 1 else 0)\<rparr>)"

text \<open>A sequence of calls; each names its category.\<close>

fun record_all :: "(ds_metrics_category \<times> u64 \<times> int) list \<Rightarrow> ds_metrics_store option \<Rightarrow> ds_metrics_store option" where
  "record_all [] st = st"
| "record_all ((c, l, r) # ms) st = record_all ms (ds_metrics_record st c l r)"

lemma metrics_slot: "(of_nat n :: u64) AND (DS_METRICS_RING_SIZE - 1) = of_nat (n mod 8192)"
proof -
  have m: "DS_METRICS_RING_SIZE - 1 = (mask 13 :: u64)"
    by (simp add: DS_METRICS_RING_SIZE_def mask_eq_exp_minus_1)
  have "take_bit 13 (of_nat n :: u64) = of_nat (take_bit 13 n)" by (simp add: take_bit_of_nat)
  then show ?thesis unfolding m by (simp add: take_bit_eq_mask [symmetric] take_bit_eq_mod)
qed

lemma of_nat_slot_eq: "(of_nat (i mod 8192) :: u64) = of_nat (j mod 8192) \<longleftrightarrow> i mod 8192 = j mod 8192"
proof -
  have "unat (of_nat (k mod 8192) :: u64) = k mod 8192" for k :: nat
    by (simp add: unat_of_nat less_trans [of _ 8192])
  then show ?thesis by metis
qed

text \<open>One call appends one measurement to its category and leaves the others alone.\<close>

lemma slot_differs:
  assumes "i < n" "n < i + 8192" shows "i mod 8192 \<noteq> n mod (8192 :: nat)"
proof
  assume "i mod 8192 = n mod (8192 :: nat)"
  then have "8192 dvd n - i" using assms(1) mod_eq_dvd_iff_nat [of i n 8192] by simp
  then show False using assms by (auto dest: dvd_imp_le)
qed

lemma metrics_ring_append:
  assumes "metrics_ring_of (st c) ms" and "ds_metrics_record (Some st) c l r = Some st'"
  shows "metrics_ring_of (st' c) (ms @ [(l, r)])"
proof -
  let ?s = "\<lparr>latency_ns = l, success = (if r = DS_SUCCESS then 1 else 0)\<rparr> :: ds_metric_sample"
  have "write_idx (st c) AND (DS_METRICS_RING_SIZE - 1) = of_nat (length ms mod 8192)"
    using assms(1) by (simp add: metrics_ring_of_def metrics_slot)
  moreover have "(samples (st c) x)\<lparr>latency_ns := l, success := (if r = DS_SUCCESS then 1 else 0)\<rparr> = ?s" for x
    by (cases "samples (st c) x") simp
  ultimately have new: "samples (st' c) = (samples (st c))(of_nat (length ms mod 8192) := ?s)"
    using assms(2) by (auto simp: ds_metrics_record_def Let_def)
  have "samples (st' c) (of_nat (i mod 8192)) =
      \<lparr>latency_ns = fst ((ms @ [(l, r)]) ! i), success = (if snd ((ms @ [(l, r)]) ! i) = DS_SUCCESS then 1 else 0)\<rparr>"
    if i: "i < length (ms @ [(l, r)])" "length (ms @ [(l, r)]) \<le> i + 8192" for i
  proof (cases "i = length ms")
    case False
    then have "i mod 8192 \<noteq> length ms mod 8192" using i by (intro slot_differs) auto
    then show ?thesis using i assms(1) False new by (simp add: of_nat_slot_eq metrics_ring_of_def nth_append)
  qed (simp add: new)
  then show ?thesis
    using assms unfolding metrics_ring_of_def
    by (auto simp: ds_metrics_record_def Let_def add.commute)
qed

lemma metrics_record_other:
  "ds_metrics_record (Some st) c l r = Some st' \<Longrightarrow> d \<noteq> c \<Longrightarrow> st' d = st d"
  by (auto simp: ds_metrics_record_def Let_def)

lemma metrics_record_some: "\<exists>st'. ds_metrics_record (Some st) c l r = Some st'"
  by (simp add: ds_metrics_record_def Let_def)

lemma zero_ring_of: "metrics_ring_of zero_ring []"
  by (simp add: metrics_ring_of_def zero_ring_def)

text \<open>The measurements of one category among a sequence of calls.\<close>

definition of_category :: "ds_metrics_category \<Rightarrow> (ds_metrics_category \<times> u64 \<times> int) list \<Rightarrow> (u64 \<times> int) list" where
  "of_category c ms = map snd (filter (\<lambda>m. fst m = c) ms)"

lemma record_all_rings:
  assumes "\<And>c. metrics_ring_of (st c) (pre c)"
  shows "\<exists>st'. record_all ms (Some st) = Some st' \<and> (\<forall>c. metrics_ring_of (st' c) (pre c @ of_category c ms))"
  using assms
proof (induction ms arbitrary: st pre)
  case Nil
  then show ?case by (simp add: of_category_def)
next
  case (Cons m ms)
  obtain c l r where m: "m = (c, l, r)" by (cases m)
  obtain st1 where r1: "ds_metrics_record (Some st) c l r = Some st1" using metrics_record_some by blast
  have "metrics_ring_of (st1 d) ((pre(c := pre c @ [(l, r)])) d)" for d
    using Cons.prems [of d] metrics_ring_append [OF _ r1] metrics_record_other [OF r1, of d] by (cases "d = c") auto
  from Cons.IH [of st1 "pre(c := pre c @ [(l, r)])", OF this] obtain st' where
    "record_all ms (Some st1) = Some st'"
    "\<forall>d. metrics_ring_of (st' d) ((pre(c := pre c @ [(l, r)])) d @ of_category d ms)" by blast
  then show ?case using m r1 by (auto simp: of_category_def split: if_splits)
qed

subsection \<open>Properties\<close>

text \<open>
  C9.  Whatever the sequence of measurements, each category's counters are the number of
  its measurements and of its successes and the sums of their latencies (modulo
  \<open>2 ^ 64\<close>), and its ring holds the last 8192 measurements, older ones being overwritten
  first.
\<close>

theorem metrics_record_exact:
  "\<exists>st. record_all ms (Some (\<lambda>_. zero_ring)) = Some st \<and> (\<forall>c. metrics_ring_of (st c) (of_category c ms))"
  using record_all_rings [of "\<lambda>_. zero_ring" "\<lambda>_. []" ms] zero_ring_of by simp

lemma sum_list_unat:
  "sum_list (map unat xs) < 2 ^ 64 \<Longrightarrow> unat (sum_list xs :: u64) = sum_list (map unat xs)"
proof (induction xs)
  case (Cons x xs)
  then show ?case by (simp add: unat_word_ariths)
qed simp

text \<open>
  The averages of the printed table are the rounded-down arithmetic means of the
  recorded latencies, as long as fewer than \<open>2 ^ 64\<close> measurements were made and their sum
  stays below \<open>2 ^ 64\<close> nanoseconds.
\<close>

theorem metrics_row_mean:
  assumes r: "metrics_ring_of (st c) ms" and n: "length ms < 2 ^ 64"
    and s: "sum_list (map (unat \<circ> fst) ms) < 2 ^ 64"
    and row: "metrics_row st c = (name, tot, ok, avg_all, avg_ok)"
  shows "unat tot = length ms \<and> unat ok = length (filter (\<lambda>m. snd m = DS_SUCCESS) ms) \<and>
    unat avg_all = sum_list (map (unat \<circ> fst) ms) div length ms \<and>
    unat avg_ok = sum_list (map (unat \<circ> fst) (filter (\<lambda>m. snd m = DS_SUCCESS) ms)) div
      length (filter (\<lambda>m. snd m = DS_SUCCESS) ms)"
proof -
  let ?ok = "filter (\<lambda>m. snd m = DS_SUCCESS) ms"
  have nok: "length ?ok < 2 ^ 64" using n le_less_trans [OF length_filter_le] by blast
  have "sum_list (map (unat \<circ> fst) ?ok) \<le> sum_list (map (unat \<circ> fst) ms)" by (induction ms) auto
  then have sok: "sum_list (map unat (map fst ?ok)) < 2 ^ 64" using s by simp
  have lens: "unat (of_nat (length ms) :: u64) = length ms" "unat (of_nat (length ?ok) :: u64) = length ?ok"
    using n nok by (simp_all add: unat_of_nat)
  have "unat (sum_list (map fst ms)) = sum_list (map (unat \<circ> fst) ms)"
    using sum_list_unat [of "map fst ms"] s by simp
  moreover have "unat (sum_list (map fst ?ok)) = sum_list (map (unat \<circ> fst) ?ok)"
    using sum_list_unat [OF sok] by simp
  ultimately show ?thesis
    using r row lens unfolding metrics_row_def Let_def metrics_ring_of_def
    by (auto simp: unat_div word_neq_0_conv [symmetric] unat_eq_zero [symmetric] split: if_splits)
qed

theorem metrics_row_mean_witness:
  "\<exists>st. record_all [(DS_METRICS_USER_CONSUMER, 10, 0), (DS_METRICS_LKMM_PRODUCER, 7, 0),
       (DS_METRICS_USER_CONSUMER, 25, - 1)] (Some (\<lambda>_. zero_ring)) = Some st \<and>
     metrics_row st DS_METRICS_USER_CONSUMER = (''User consumer'', 2, 1, 17, 10)"
proof -
  let ?ms = "[(DS_METRICS_USER_CONSUMER, 10, 0), (DS_METRICS_LKMM_PRODUCER, 7, 0), (DS_METRICS_USER_CONSUMER, 25, - 1)]
    :: (ds_metrics_category \<times> u64 \<times> int) list"
  let ?u = "[(10, 0), (25, - 1)] :: (u64 \<times> int) list"
  obtain st where st: "record_all ?ms (Some (\<lambda>_. zero_ring)) = Some st"
    "metrics_ring_of (st DS_METRICS_USER_CONSUMER) (of_category DS_METRICS_USER_CONSUMER ?ms)"
    using record_all_rings [of "\<lambda>_. zero_ring" "\<lambda>_. []" ?ms] zero_ring_of by auto
  then have r: "metrics_ring_of (st DS_METRICS_USER_CONSUMER) ?u" by (simp add: of_category_def)
  obtain a b c d where row: "metrics_row st DS_METRICS_USER_CONSUMER = (''User consumer'', a, b, c, d)"
    by (simp add: metrics_row_def Let_def)
  have "unat a = 2" "unat b = 1" "unat c = 17" "unat d = 10"
    using metrics_row_mean [OF r _ _ row] by (auto simp: DS_SUCCESS_def numeral_2_eq_2 [symmetric])
  then have "a = 2" "b = 1" "c = 17" "d = 10" by (simp_all add: word_unat_eq_iff)
  then show ?thesis using st(1) row by blast
qed

end
