(* ===== verification/Relay.thy ===== *)
theory Relay
  imports LaneContracts Metrics "HOL-Library.Sublist"
begin

text \<open>
  The relay applications (\<^verbatim>\<open>src/skeleton_*.bpf.c\<close> and \<^verbatim>\<open>src/skeleton_*.c\<close>), which
  share one shape: the inode-create hook sets up the first lane (KU, kernel to user) on
  first use and inserts into it; the relay thread waits for that lane, sets up the second
  one (UK, user to kernel), then pops from KU and inserts into UK for ever; the uprobe
  handler pops from UK and prints; on exit the main thread triggers the uprobe until
  everything relayed has been consumed.  The handlers are written here once, over the
  operations of the two lanes (\<open>relay_ops\<close>); each application supplies its own.  A
  handler runs as one step; clock readings, the process id and the time stamp are
  arguments.
\<close>

subsection \<open>State\<close>

text \<open>
  The arena, the metrics, the BPF globals, the statics and locals of the relay process,
  and the lines printed by the consumer.  \<open>rl_ku\<close> and \<open>rl_uk\<close> are history variables: the
  operations performed on each lane with their results, which no handler reads.
\<close>

record 's relay =
  rl_arena :: 's
  rl_metrics :: ds_metrics_store
  total_kernel_prod_ops :: u64
  total_kernel_prod_failures :: u64
  total_kernel_consume_ops :: u64
  total_kernel_consume_failures :: u64
  total_kernel_consumed :: u64
  initialized_ku :: bool
  ku_dequeued_count :: u64
  uk_enqueued_count :: u64
  relay_started :: bool
  uk_initialized :: bool
  relay_data :: ds_kv
  rl_printk :: "ds_kv list"
  rl_ku :: "lane_event list"
  rl_uk :: "lane_event list"

subsection \<open>The operations of an application\<close>

text \<open>
  Kernel side operations for \<open>ku_init\<close>, \<open>ku_insert\<close> (given the CPU they run on) and
  \<open>uk_pop\<close>, userspace ones for the rest; \<open>ku_present\<close> and \<open>uk_present\<close> are the tests
  (of the head's pointers, or of a flag) that tell whether a lane has been set up.
  \<open>absent_counted\<close>: whether the uprobe handler counts calls that find no UK lane, which
  the stack application does not.  \<open>verify_guarded\<close>: whether the verifier skips lanes that
  have not been set up, which the stack application does not.
\<close>

record 's relay_ops =
  ku_init :: "u32 \<Rightarrow> 's \<Rightarrow> int \<times> 's"
  ku_insert :: "u32 \<Rightarrow> u64 \<Rightarrow> u64 \<Rightarrow> 's \<Rightarrow> int \<times> 's"
  ku_present :: "'s relay \<Rightarrow> bool"
  ku_pop :: "ds_kv option \<Rightarrow> 's \<Rightarrow> int \<times> ds_kv option \<times> 's"
  uk_present :: "'s \<Rightarrow> bool"
  uk_init :: "'s \<Rightarrow> int \<times> 's"
  uk_insert :: "u64 \<Rightarrow> u64 \<Rightarrow> 's \<Rightarrow> int \<times> 's"
  uk_pop :: "ds_kv option \<Rightarrow> 's \<Rightarrow> int \<times> ds_kv option \<times> 's"
  ku_verify :: "'s \<Rightarrow> int"
  uk_verify :: "'s \<Rightarrow> int"
  absent_counted :: bool
  verify_guarded :: bool

subsection \<open>The kernel handlers\<close>

definition lsm_inode_create ::
  "'s relay_ops \<Rightarrow> u32 \<Rightarrow> u64 \<Rightarrow> u64 \<Rightarrow> u64 \<times> u64 \<Rightarrow> 's relay \<Rightarrow> int \<times> 's relay" where
  "lsm_inode_create ops cpu pid_tgid ts clk R =
     (let (proceed, R) =
        (if initialized_ku R then (True, R)
         else
           let (result, A) = ku_init ops cpu (rl_arena R);
               R = R\<lparr>rl_arena := A\<rparr> in
           if result \<noteq> DS_SUCCESS
           then (False, R\<lparr>total_kernel_prod_failures := total_kernel_prod_failures R + 1\<rparr>)
           else (True, R\<lparr>initialized_ku := True\<rparr>)) in
      if \<not> proceed then (0, R)
      else
        let pid = drop_bit 32 pid_tgid;
            ((result, A), M) =
              DS_METRICS_RECORD_OP clk DS_METRICS_LKMM_PRODUCER (ku_insert ops cpu pid ts) (rl_arena R) (rl_metrics R);
            R = R\<lparr>rl_arena := A, rl_metrics := M, rl_ku := rl_ku R @ [EvIns \<lparr>key = pid, val = ts\<rparr> result]\<rparr>;
            R = R\<lparr>total_kernel_prod_ops := total_kernel_prod_ops R + 1\<rparr>;
            R = (if result \<noteq> DS_SUCCESS
              then R\<lparr>total_kernel_prod_failures := total_kernel_prod_failures R + 1\<rparr> else R) in
        (0, R))"

definition bpf_consume :: "'s relay_ops \<Rightarrow> u64 \<times> u64 \<Rightarrow> 's relay \<Rightarrow> int \<times> 's relay" where
  "bpf_consume ops clk R =
     (if \<not> uk_present ops (rl_arena R) then
        (DS_ERROR_INVALID,
         if absent_counted ops
         then R\<lparr>total_kernel_consume_ops := total_kernel_consume_ops R + 1,
           total_kernel_consume_failures := total_kernel_consume_failures R + 1\<rparr>
         else R)
      else
        let ((ret, out, A), M) =
              DS_METRICS_RECORD_OP clk DS_METRICS_LKMM_CONSUMER (uk_pop ops (Some zero_kv)) (rl_arena R) (rl_metrics R);
            R = R\<lparr>rl_arena := A, rl_metrics := M, rl_uk := rl_uk R @ [EvPop ret out]\<rparr>;
            R = R\<lparr>total_kernel_consume_ops := total_kernel_consume_ops R + 1\<rparr>;
            R = (if ret = DS_SUCCESS
              then R\<lparr>total_kernel_consumed := total_kernel_consumed R + 1, rl_printk := rl_printk R @ [the out]\<rparr>
              else R\<lparr>total_kernel_consume_failures := total_kernel_consume_failures R + 1\<rparr>) in
        (ret, R))"

subsection \<open>The relay thread\<close>

text \<open>
  One pass of a loop of \<^verbatim>\<open>relay_worker\<close>: of the waiting loop until KU has been set up,
  then of the relay loop.
\<close>

definition relay_setup_uk :: "'s relay_ops \<Rightarrow> 's relay \<Rightarrow> bool \<times> 's relay" where
  "relay_setup_uk ops R =
     (if uk_initialized R then (True, R)
      else if uk_present ops (rl_arena R) then (True, R\<lparr>uk_initialized := True\<rparr>)
      else
        let (ret, A) = uk_init ops (rl_arena R);
            R = R\<lparr>rl_arena := A\<rparr> in
        if ret \<noteq> DS_SUCCESS then (False, R) else (True, R\<lparr>uk_initialized := True\<rparr>))"

definition relay_move :: "'s relay_ops \<Rightarrow> u64 \<times> u64 \<Rightarrow> u64 \<times> u64 \<Rightarrow> 's relay \<Rightarrow> 's relay" where
  "relay_move ops clk1 clk2 R =
     (let ((ret, out, A), M) =
            DS_METRICS_RECORD_OP clk1 DS_METRICS_USER_CONSUMER (ku_pop ops (Some (relay_data R))) (rl_arena R) (rl_metrics R);
          R = R\<lparr>rl_arena := A, rl_metrics := M, relay_data := the out, rl_ku := rl_ku R @ [EvPop ret out]\<rparr> in
      if ret = DS_SUCCESS then
        let R = R\<lparr>ku_dequeued_count := ku_dequeued_count R + 1\<rparr>;
            ((ins_ret, A), M) =
              DS_METRICS_RECORD_OP clk2 DS_METRICS_USER_PRODUCER
                (uk_insert ops (key (relay_data R)) (val (relay_data R))) (rl_arena R) (rl_metrics R);
            R = R\<lparr>rl_arena := A, rl_metrics := M, rl_uk := rl_uk R @ [EvIns (relay_data R) ins_ret]\<rparr> in
        if ins_ret = DS_SUCCESS then R\<lparr>uk_enqueued_count := uk_enqueued_count R + 1\<rparr> else R
      else R)"

definition relay_worker_pass :: "'s relay_ops \<Rightarrow> u64 \<times> u64 \<Rightarrow> u64 \<times> u64 \<Rightarrow> 's relay \<Rightarrow> 's relay" where
  "relay_worker_pass ops clk1 clk2 R =
     (if \<not> relay_started R then
        if ku_present ops R then R\<lparr>relay_started := True\<rparr> else R
      else
        let (proceed, R) = relay_setup_uk ops R in
        if \<not> proceed then R else relay_move ops clk1 clk2 R)"

subsection \<open>The main thread at exit\<close>

text \<open>Each trigger runs the uprobe handler once; \<open>clk\<close> gives the clock readings of each.\<close>

function trigger_loop ::
  "'s relay_ops \<Rightarrow> (u64 \<Rightarrow> u64 \<times> u64) \<Rightarrow> u64 \<Rightarrow> u64 \<Rightarrow> u64 \<Rightarrow> 's relay \<Rightarrow> u64 \<times> 's relay" where
  "trigger_loop ops clk target max_attempts attempts R =
     (if attempts < max_attempts \<and> total_kernel_consumed R < target
      then trigger_loop ops clk target max_attempts (attempts + 1) (snd (bpf_consume ops (clk attempts) R))
      else (attempts, R))"
  by pat_completeness auto
termination
proof (relation "measure (\<lambda>(ops, clk, target, max_attempts, attempts, R). unat (max_attempts - attempts))")
  fix ops :: "'s relay_ops" and clk :: "u64 \<Rightarrow> u64 \<times> u64" and target m a :: u64 and R :: "'s relay"
  assume "a < m \<and> total_kernel_consumed R < target"
  then have "m - a \<noteq> 0" by auto
  then have "unat (m - a - 1) < unat (m - a)" using unat_minus_one [of "m - a"] by (simp add: unat_gt_0)
  then show "((ops, clk, target, m, a + 1, snd (bpf_consume ops (clk a) R)), ops, clk, target, m, a, R)
      \<in> measure (\<lambda>(ops, clk, target, max_attempts, attempts, R). unat (max_attempts - attempts))"
    by (simp add: diff_diff_eq)
qed simp

declare trigger_loop.simps [simp del]

definition trigger_kernel_consumer_on_exit ::
  "'s relay_ops \<Rightarrow> (u64 \<Rightarrow> u64 \<times> u64) \<Rightarrow> 's relay \<Rightarrow> 's relay" where
  "trigger_kernel_consumer_on_exit ops clk R =
     (let initial_consumed = total_kernel_consumed R;
          target_consumed = initial_consumed + uk_enqueued_count R;
          max_attempts = uk_enqueued_count R + 1024 in
      if uk_enqueued_count R = 0 then snd (bpf_consume ops (clk 0) R)
      else snd (trigger_loop ops clk target_consumed max_attempts 0 R))"

definition verify_data_structure :: "'s relay_ops \<Rightarrow> 's relay \<Rightarrow> int" where
  "verify_data_structure ops R =
     (let ku_result = (if verify_guarded ops \<longrightarrow> ku_present ops R then ku_verify ops (rl_arena R) else DS_SUCCESS);
          uk_result = (if verify_guarded ops \<longrightarrow> uk_present ops (rl_arena R) then uk_verify ops (rl_arena R) else DS_SUCCESS) in
      if ku_result = DS_SUCCESS \<and> uk_result = DS_SUCCESS then DS_SUCCESS else DS_ERROR_INVALID)"

subsection \<open>Reachable states\<close>

text \<open>
  The hook, the relay thread and the uprobe run in any order, each any number of times.
\<close>

inductive relay_step :: "'s relay_ops \<Rightarrow> 's relay \<Rightarrow> 's relay \<Rightarrow> bool" for ops where
  create: "relay_step ops R (snd (lsm_inode_create ops cpu pid_tgid ts clk R))"
| pass: "relay_step ops R (relay_worker_pass ops clk1 clk2 R)"
| consume: "relay_step ops R (snd (bpf_consume ops clk R))"

inductive relay_reach :: "'s relay_ops \<Rightarrow> 's relay \<Rightarrow> 's relay \<Rightarrow> bool" for ops R0 where
  start: "relay_reach ops R0 R0"
| step: "relay_reach ops R0 R \<Longrightarrow> relay_step ops R R' \<Longrightarrow> relay_reach ops R0 R'"

inductive_cases relay_stepE: "relay_step ops R R'"

text \<open>The state the programs are loaded with, over an arena \<open>A\<close>.\<close>

definition relay_start :: "'s \<Rightarrow> 's relay" where
  "relay_start A =
     \<lparr>rl_arena = A, rl_metrics = (\<lambda>_. zero_ring), total_kernel_prod_ops = 0, total_kernel_prod_failures = 0,
      total_kernel_consume_ops = 0, total_kernel_consume_failures = 0, total_kernel_consumed = 0,
      initialized_ku = False, ku_dequeued_count = 0, uk_enqueued_count = 0, relay_started = False,
      uk_initialized = False, relay_data = zero_kv, rl_printk = [], rl_ku = [], rl_uk = []\<rparr>"

subsection \<open>What the relay relies on\<close>

text \<open>
  \<open>rep s ku uk\<close>: the arena \<open>s\<close> holds the two lanes with the given contents (next
  element to be popped first), \<open>None\<close> for a lane that has not been set up; \<open>put\<close> says
  where an insertion goes, at the end in a queue, in front in a stack.  Each operation
  acts on its own lane and leaves the other alone.
\<close>

locale relay_lanes =
  fixes ops :: "'s relay_ops"
    and put :: "ds_kv \<Rightarrow> ds_kv list \<Rightarrow> ds_kv list"
    and rep :: "'s \<Rightarrow> ds_kv list option \<Rightarrow> ds_kv list option \<Rightarrow> bool"
  assumes put_mset: "mset (put x xs) = add_mset x (mset xs)"
    and ku_present_iff: "rep (rl_arena R) ku uk \<Longrightarrow> (initialized_ku R \<longleftrightarrow> ku \<noteq> None) \<Longrightarrow>
      ku_present ops R \<longleftrightarrow> ku \<noteq> None"
    and uk_present_iff: "rep s ku uk \<Longrightarrow> uk_present ops s \<longleftrightarrow> uk \<noteq> None"
    and ku_init_law: "rep s None uk \<Longrightarrow> ku_init ops cpu s = (r, s') \<Longrightarrow>
      rep s' (if r = DS_SUCCESS then Some [] else None) uk"
    and uk_init_law: "rep s ku None \<Longrightarrow> uk_init ops s = (r, s') \<Longrightarrow>
      rep s' ku (if r = DS_SUCCESS then Some [] else None)"
    and ku_insert_law: "rep s (Some xs) uk \<Longrightarrow> ku_insert ops cpu k v s = (r, s') \<Longrightarrow>
      rep s' (Some (if r = DS_SUCCESS then put \<lparr>key = k, val = v\<rparr> xs else xs)) uk"
    and uk_insert_law: "rep s ku (Some ys) \<Longrightarrow> uk_insert ops k v s = (r, s') \<Longrightarrow>
      rep s' ku (Some (if r = DS_SUCCESS then put \<lparr>key = k, val = v\<rparr> ys else ys))"
    and ku_pop_empty: "rep s (Some []) uk \<Longrightarrow>
      \<exists>out s'. ku_pop ops (Some d) s = (DS_ERROR_NOT_FOUND, out, s') \<and> rep s' (Some []) uk"
    and ku_pop_front: "rep s (Some (x # xs)) uk \<Longrightarrow>
      \<exists>s'. ku_pop ops (Some d) s = (DS_SUCCESS, Some x, s') \<and> rep s' (Some xs) uk"
    and uk_pop_empty: "rep s ku (Some []) \<Longrightarrow>
      \<exists>out s'. uk_pop ops (Some d) s = (DS_ERROR_NOT_FOUND, out, s') \<and> rep s' ku (Some [])"
    and uk_pop_front: "rep s ku (Some (y # ys)) \<Longrightarrow>
      \<exists>s'. uk_pop ops (Some d) s = (DS_SUCCESS, Some y, s') \<and> rep s' ku (Some ys)"

definition lane_items :: "ds_kv list option \<Rightarrow> ds_kv list" where
  "lane_items l = (case l of None \<Rightarrow> [] | Some xs \<Rightarrow> xs)"

lemma lane_items_simps [simp]: "lane_items None = []" "lane_items (Some xs) = xs"
  by (simp_all add: lane_items_def)

text \<open>The invariant: flags match the lanes, counters and printed lines match the history.\<close>

definition relay_inv ::
  "(ds_kv \<Rightarrow> ds_kv list \<Rightarrow> ds_kv list) \<Rightarrow> ('s \<Rightarrow> ds_kv list option \<Rightarrow> ds_kv list option \<Rightarrow> bool) \<Rightarrow> 's relay \<Rightarrow> ds_kv list option \<Rightarrow> ds_kv list option \<Rightarrow> bool" where
  "relay_inv put rep R ku uk \<longleftrightarrow> rep (rl_arena R) ku uk \<and>
     (initialized_ku R \<longleftrightarrow> ku \<noteq> None) \<and> (relay_started R \<longrightarrow> ku \<noteq> None) \<and> (uk_initialized R \<longrightarrow> uk \<noteq> None) \<and>
     lane_replay put [] (rl_ku R) = Some (lane_items ku) \<and>
     lane_replay put [] (rl_uk R) = Some (lane_items uk) \<and>
     offered (rl_uk R) = delivered (rl_ku R) \<and> rl_printk R = delivered (rl_uk R) \<and>
     ku_dequeued_count R = of_nat (length (delivered (rl_ku R))) \<and>
     uk_enqueued_count R = of_nat (length (accepted (rl_uk R))) \<and>
     total_kernel_consumed R = of_nat (length (delivered (rl_uk R)))"

lemma record_op_eq:
  "DS_METRICS_RECORD_OP clk c f s M =
     (f s, the (ds_metrics_record (Some M) c (DS_METRICS_CLOCK_END (snd clk) (fst clk)) (fst (f s))))"
  by (simp add: DS_METRICS_RECORD_OP_def split_def Let_def)

context relay_lanes
begin

lemma inv_start: "rep A None None \<Longrightarrow> relay_inv put rep (relay_start A) None None"
  by (simp add: relay_inv_def relay_start_def)

lemma inv_create:
  assumes i: "relay_inv put rep R ku uk"
  shows "\<exists>ku'. relay_inv put rep (snd (lsm_inode_create ops cpu pt ts clk R)) ku' uk"
proof -
  have ins: "\<exists>ku'. relay_inv put rep (snd (lsm_inode_create ops cpu pt ts clk S)) ku' uk"
    if S: "relay_inv put rep S (Some xs) uk" for S xs
  proof -
    obtain r A where a: "ku_insert ops cpu (drop_bit 32 pt) ts (rl_arena S) = (r, A)" by fastforce
    have "initialized_ku S" using S by (simp add: relay_inv_def lane_replay_append)
    with a show ?thesis
      using S ku_insert_law [OF _ a, of xs uk]
      by (intro exI [of _ "Some (if r = DS_SUCCESS then put \<lparr>key = drop_bit 32 pt, val = ts\<rparr> xs else xs)"])
        (auto simp: lsm_inode_create_def record_op_eq Let_def relay_inv_def lane_replay_append split: if_splits)
  qed
  show ?thesis
  proof (cases ku)
    case None
    obtain r A where a: "ku_init ops cpu (rl_arena R) = (r, A)" by fastforce
    have n: "\<not> initialized_ku R" using i None by (simp add: relay_inv_def lane_replay_append)
    have rep: "rep A (if r = DS_SUCCESS then Some [] else None) uk"
      using i None ku_init_law [OF _ a] by (simp add: relay_inv_def lane_replay_append)
    show ?thesis
    proof (cases "r = DS_SUCCESS")
      case True
      let ?S = "R\<lparr>rl_arena := A, initialized_ku := True\<rparr>"
      have "relay_inv put rep ?S (Some []) uk" using i None rep True by (simp add: relay_inv_def lane_replay_append)
      moreover have "lsm_inode_create ops cpu pt ts clk R = lsm_inode_create ops cpu pt ts clk ?S"
        using n a True by (simp add: lsm_inode_create_def)
      ultimately show ?thesis using ins [of ?S "[]"] by simp
    next
      case False
      then have "relay_inv put rep (snd (lsm_inode_create ops cpu pt ts clk R)) None uk"
        using i None rep n a by (simp add: lsm_inode_create_def relay_inv_def Let_def lane_replay_append)
      then show ?thesis by blast
    qed
  qed (use i ins in blast)
qed

lemma inv_consume:
  assumes i: "relay_inv put rep R ku uk"
  shows "relay_inv put rep (snd (bpf_consume ops clk R)) ku (map_option tl uk) \<and>
    rl_printk (snd (bpf_consume ops clk R)) = rl_printk R @ take 1 (lane_items uk)"
proof (cases uk)
  case None
  then show ?thesis using i uk_present_iff [of "rl_arena R" ku uk] by (simp add: bpf_consume_def relay_inv_def lane_replay_append)
next
  case (Some ys)
  have p: "uk_present ops (rl_arena R)" and rep: "rep (rl_arena R) ku (Some ys)"
    using i Some uk_present_iff [of "rl_arena R" ku uk] by (simp_all add: relay_inv_def lane_replay_append)
  show ?thesis
  proof (cases ys)
    case Nil
    with rep obtain e A where "uk_pop ops (Some zero_kv) (rl_arena R) = (DS_ERROR_NOT_FOUND, e, A)"
      "rep A ku (Some [])" using uk_pop_empty by blast
    then show ?thesis using i p Some Nil by (cases e) (simp_all add: bpf_consume_def record_op_eq Let_def relay_inv_def lane_replay_append)
  next
    case (Cons y zs)
    with rep obtain A where "uk_pop ops (Some zero_kv) (rl_arena R) = (DS_SUCCESS, Some y, A)"
      "rep A ku (Some zs)" using uk_pop_front by blast
    then show ?thesis using i p Some Cons by (simp add: bpf_consume_def record_op_eq Let_def relay_inv_def lane_replay_append)
  qed
qed

lemma inv_setup_uk:
  assumes i: "relay_inv put rep R ku uk" and s: "relay_setup_uk ops R = (proceed, R')"
  shows "\<exists>uk'. relay_inv put rep R' ku uk' \<and> (proceed \<longrightarrow> uk' \<noteq> None) \<and> relay_started R' = relay_started R"
proof (cases uk)
  case None
  obtain r A where a: "uk_init ops (rl_arena R) = (r, A)" by fastforce
  have "rep A ku (if r = DS_SUCCESS then Some [] else None)"
    using i None uk_init_law [OF _ a] by (simp add: relay_inv_def lane_replay_append)
  then show ?thesis
    using i s a None uk_present_iff [of "rl_arena R" ku uk]
    by (intro exI [of _ "if r = DS_SUCCESS then Some [] else None"])
      (auto simp: relay_setup_uk_def relay_inv_def Let_def lane_replay_append split: if_splits)
next
  case (Some ys)
  then show ?thesis
    using i s uk_present_iff [of "rl_arena R" ku uk]
    by (intro exI [of _ uk]) (auto simp: relay_setup_uk_def relay_inv_def lane_replay_append split: if_splits)
qed

lemma inv_move:
  assumes i: "relay_inv put rep R (Some xs) (Some ys)"
  shows "\<exists>ku uk. relay_inv put rep (relay_move ops clk1 clk2 R) ku uk"
proof (cases xs)
  case Nil
  then obtain e A where "ku_pop ops (Some (relay_data R)) (rl_arena R) = (DS_ERROR_NOT_FOUND, e, A)"
    "rep A (Some []) (Some ys)" using ku_pop_empty i by (fastforce simp: relay_inv_def lane_replay_append)
  then show ?thesis using i Nil
    by (intro exI [of _ "Some []"] exI [of _ "Some ys"])
      (cases e; simp add: relay_move_def record_op_eq Let_def relay_inv_def lane_replay_append)
next
  case (Cons x zs)
  then obtain A where p: "ku_pop ops (Some (relay_data R)) (rl_arena R) = (DS_SUCCESS, Some x, A)"
    "rep A (Some zs) (Some ys)" using ku_pop_front i by (fastforce simp: relay_inv_def lane_replay_append)
  obtain r B where q: "uk_insert ops (key x) (val x) A = (r, B)" by fastforce
  note uk_insert_law [OF p(2) q, unfolded kv_collapse]
  then show ?thesis using i Cons p(1) q
    by (intro exI [of _ "Some zs"] exI [of _ "Some (if r = DS_SUCCESS then put x ys else ys)"])
      (auto simp: relay_move_def record_op_eq Let_def relay_inv_def lane_replay_append split: if_splits)
qed

lemma inv_pass:
  assumes i: "relay_inv put rep R ku uk"
  shows "\<exists>ku' uk'. relay_inv put rep (relay_worker_pass ops clk1 clk2 R) ku' uk'"
proof (cases "relay_started R")
  case False
  then show ?thesis
    using i ku_present_iff [of R ku uk]
    by (intro exI [of _ ku] exI [of _ uk]) (auto simp: relay_worker_pass_def relay_inv_def lane_replay_append)
next
  case True
  obtain pr S where s: "relay_setup_uk ops R = (pr, S)" by fastforce
  obtain uk' where u: "relay_inv put rep S ku uk'" "pr \<longrightarrow> uk' \<noteq> None" using inv_setup_uk [OF i s] by blast
  obtain xs where "ku = Some xs" using i True by (auto simp: relay_inv_def lane_replay_append)
  then have "pr \<Longrightarrow> \<exists>ku' uk'. relay_inv put rep (relay_move ops clk1 clk2 S) ku' uk'"
    using u inv_move [of S xs _ clk1 clk2] by (metis not_None_eq)
  then show ?thesis using True s u(1) by (auto simp: relay_worker_pass_def)
qed

lemma inv_reach:
  assumes "relay_reach ops R0 R" and "relay_inv put rep R0 ku uk"
  shows "\<exists>ku uk. relay_inv put rep R ku uk"
  using assms
proof (induction rule: relay_reach.induct)
  case start
  then show ?case by blast
next
  case (step R R')
  then obtain ku uk where i: "relay_inv put rep R ku uk" by blast
  from step.hyps(2) show ?case
    by (cases rule: relay_stepE) (use inv_create [OF i] inv_pass [OF i] inv_consume [OF i] in blast)+
qed

lemma consume_accepted [simp]:
  "accepted (rl_uk (snd (bpf_consume ops clk R))) = accepted (rl_uk R)"
  by (simp add: bpf_consume_def record_op_eq split_def Let_def)

lemma inv_balance:
  assumes "relay_inv put rep R ku uk"
  shows "mset (accepted (rl_ku R)) = mset (delivered (rl_ku R)) + mset (lane_items ku)"
    and "mset (accepted (rl_uk R)) = mset (delivered (rl_uk R)) + mset (lane_items uk)"
    and "length (accepted (rl_uk R)) = length (delivered (rl_uk R)) + length (lane_items uk)"
proof -
  show "mset (accepted (rl_ku R)) = mset (delivered (rl_ku R)) + mset (lane_items ku)"
    using lane_replay_mset [of put "[]" "rl_ku R", OF put_mset] assms by (simp add: relay_inv_def)
  show u: "mset (accepted (rl_uk R)) = mset (delivered (rl_uk R)) + mset (lane_items uk)"
    using lane_replay_mset [of put "[]" "rl_uk R", OF put_mset] assms by (simp add: relay_inv_def)
  show "length (accepted (rl_uk R)) = length (delivered (rl_uk R)) + length (lane_items uk)"
    using arg_cong [OF u, of size] by simp
qed

text \<open>
  Triggering the consumer: as long as the target is not below the number of relayed
  elements, the loop empties the lane, since every trigger consumes one element.
\<close>

lemma trigger_loop_drains:
  assumes "relay_inv put rep R ku (Some ys)" and "length (accepted (rl_uk R)) \<le> unat target"
    and "length (accepted (rl_uk R)) < 2 ^ 64" and "unat a + length ys \<le> unat m"
  shows "relay_inv put rep (snd (trigger_loop ops clk target m a R)) ku (Some []) \<and>
    rl_printk (snd (trigger_loop ops clk target m a R)) = rl_printk R @ ys"
  using assms
proof (induction "unat m - unat a" arbitrary: a R ys)
  case 0
  have "\<not> a < m" "length ys = 0"
    using 0(1) 0(5) unfolding word_less_nat_alt by linarith+
  then show ?case using 0 by (simp add: trigger_loop.simps)
next
  case (Suc n)
  let ?R = "snd (bpf_consume ops (clk a) R)"
  have am: "a < m" using Suc.hyps(2) by (simp add: word_less_nat_alt)
  then have a1: "unat (a + 1) = Suc (unat a)"
    using unsigned_less [of m, where 'a = nat] unat_plus_u64 [of a 1] by (simp add: word_less_nat_alt)
  have i: "relay_inv put rep ?R ku (Some (tl ys))" "rl_printk ?R = rl_printk R @ take 1 ys"
    using inv_consume [OF Suc.prems(1)] by simp_all
  note len = inv_balance(3) [OF Suc.prems(1), simplified]
  show ?case
  proof (cases "total_kernel_consumed R < target")
    case True
    then have "trigger_loop ops clk target m a R = trigger_loop ops clk target m (a + 1) ?R"
      using am by (subst trigger_loop.simps) simp
    moreover have "unat (a + 1) + length (tl ys) \<le> unat m" using Suc.prems(4) Suc.hyps(2) a1 by (cases ys) auto
    moreover have "take 1 ys @ tl ys = ys" by (cases ys) auto
    ultimately show ?thesis using Suc.hyps(1) [OF _ i(1)] Suc.hyps(2) Suc.prems(2,3) a1 i(2) by simp
  next
    case False
    have "length (delivered (rl_uk R)) < 2 ^ 64" using len Suc.prems(3) by simp
    then have "unat target \<le> length (delivered (rl_uk R))"
      using Suc.prems(1) False by (simp add: relay_inv_def word_less_nat_alt unat_of_nat not_less)
    then have "length ys = 0" using len Suc.prems(2) by linarith
    then show ?thesis using Suc.prems(1) False by (subst (1 2) trigger_loop.simps) simp
  qed
qed

lemma exit_drains:
  assumes i: "relay_inv put rep R ku (Some ys)" and n: "length (accepted (rl_uk R)) < 2 ^ 62"
  shows "relay_inv put rep (trigger_kernel_consumer_on_exit ops clk R) ku (Some []) \<and>
    rl_printk (trigger_kernel_consumer_on_exit ops clk R) = rl_printk R @ ys"
proof -
  note len = inv_balance(3) [OF i, simplified]
  have "uk_enqueued_count R = of_nat (length (accepted (rl_uk R)))" using i by (simp only: relay_inv_def)
  then have e: "unat (uk_enqueued_count R) = length (accepted (rl_uk R))" using n by (simp add: unat_of_nat)
  have c: "unat (total_kernel_consumed R) \<le> length (accepted (rl_uk R))"
    using i n len by (simp add: relay_inv_def unat_of_nat)
  have t: "unat (total_kernel_consumed R + uk_enqueued_count R) =
      unat (total_kernel_consumed R) + unat (uk_enqueued_count R)"
    using e c n by (intro unat_plus_u64) simp
  have m: "unat (uk_enqueued_count R + 1024) = unat (uk_enqueued_count R) + 1024"
    using e n by (simp add: unat_plus_u64)
  have ys: "length ys \<le> length (accepted (rl_uk R))" using len by simp
  show ?thesis
  proof (cases "uk_enqueued_count R = 0")
    case True
    then have "ys = []" using e ys by simp
    then show ?thesis using inv_consume [OF i, of "clk 0"] True by (simp add: trigger_kernel_consumer_on_exit_def)
  next
    case False
    then show ?thesis
      using trigger_loop_drains [OF i, of "total_kernel_consumed R + uk_enqueued_count R" 0
          "uk_enqueued_count R + 1024" clk] e t m n ys
      by (simp add: trigger_kernel_consumer_on_exit_def Let_def)
  qed
qed

text \<open>Every reachable state of a relay that starts on an arena without lanes.\<close>

lemma relay_conserves:
  assumes "rep A None None" and "relay_reach ops (relay_start A) R"
  shows "\<exists>ku uk. rep (rl_arena R) ku uk \<and>
    mset (accepted (rl_ku R)) = mset (delivered (rl_ku R)) + mset (lane_items ku) \<and>
    offered (rl_uk R) = delivered (rl_ku R) \<and>
    mset (accepted (rl_uk R)) = mset (rl_printk R) + mset (lane_items uk)"
proof -
  obtain ku uk where i: "relay_inv put rep R ku uk"
    using inv_reach [OF assms(2) inv_start [OF assms(1)]] by blast
  from inv_balance [OF i] i show ?thesis by (auto simp: relay_inv_def)
qed

lemma relay_drains:
  assumes "rep A None None" and "relay_reach ops (relay_start A) R"
    and "uk_initialized R" and "length (accepted (rl_uk R)) < 2 ^ 62"
  shows "\<exists>ku. rep (rl_arena (trigger_kernel_consumer_on_exit ops clk R)) ku (Some []) \<and>
    mset (rl_printk (trigger_kernel_consumer_on_exit ops clk R)) = mset (accepted (rl_uk R))"
proof -
  obtain ku uk where i: "relay_inv put rep R ku uk"
    using inv_reach [OF assms(2) inv_start [OF assms(1)]] by blast
  then obtain ys where ys: "uk = Some ys" using assms(3) by (auto simp: relay_inv_def)
  note d = exit_drains [OF i [unfolded ys] assms(4), of clk]
  have "rl_printk R = delivered (rl_uk R)" using i by (simp only: relay_inv_def)
  then have "mset (rl_printk (trigger_kernel_consumer_on_exit ops clk R)) = mset (accepted (rl_uk R))"
    using inv_balance(2) [OF i] ys by (simp add: conjunct2 [OF d])
  with d show ?thesis by (auto simp: relay_inv_def)
qed

end

text \<open>Queues in both lanes: the printed stream keeps the order of the hook's insertions.\<close>

locale relay_fifo = relay_lanes ops "\<lambda>x xs. xs @ [x]" rep
  for ops :: "'s relay_ops" and rep
begin

lemma inv_fifo:
  assumes "relay_inv (\<lambda>x xs. xs @ [x]) rep R ku uk"
  shows "accepted (rl_ku R) = delivered (rl_ku R) @ lane_items ku"
    and "accepted (rl_uk R) = delivered (rl_uk R) @ lane_items uk"
  using assms queue_replay_fifo [of "[]"]
  by (simp_all add: relay_inv_def queue_replay_is_lane_replay)

lemma relay_in_order:
  assumes "rep A None None" and "relay_reach ops (relay_start A) R"
  shows "\<exists>ku uk. rep (rl_arena R) ku uk \<and> accepted (rl_ku R) = delivered (rl_ku R) @ lane_items ku \<and>
    offered (rl_uk R) = delivered (rl_ku R) \<and> accepted (rl_uk R) = rl_printk R @ lane_items uk"
proof -
  obtain ku uk where i: "relay_inv (\<lambda>x xs. xs @ [x]) rep R ku uk"
    using inv_reach [OF assms(2) inv_start [OF assms(1)]] by blast
  from inv_fifo [OF i] i show ?thesis by (auto simp: relay_inv_def)
qed

end

lemma accepted_subseq_offered: "subseq (accepted evs) (offered evs)"
  by (induction evs rule: accepted.induct) auto

text \<open>Every element printed was inserted by the hook, in the same order.\<close>

lemma relay_order:
  assumes "accepted ku = delivered ku @ xs" "offered uk = delivered ku" "accepted uk = printed @ ys"
  shows "subseq printed (accepted ku)"
proof -
  have "subseq printed (accepted uk)" using assms(3) by (simp add: prefix_imp_subseq)
  also have "subseq (accepted uk) (delivered ku)" using accepted_subseq_offered [of uk] assms(2) by simp
  also have "subseq (delivered ku) (accepted ku)" using assms(1) by (simp add: prefix_imp_subseq)
  finally show ?thesis .
qed

end
