(* ===== verification/RelayMain.thy ===== *)
theory RelayMain
  imports Relay
begin

text \<open>
  The main program of a relay application (\<^verbatim>\<open>main\<close> of \<^verbatim>\<open>src/skeleton_*.c\<close>): command
  line, setting up the arena range, attachment, the run until a signal arrives, the exit
  sequence, verification and the statistics.  The environment supplies what \<^verbatim>\<open>getopt\<close>,
  the skeleton's load, the two attachments and \<^verbatim>\<open>pthread_create\<close> return.
\<close>

subsection \<open>Command line\<close>

record test_config =
  cfg_verify :: bool
  cfg_print_stats :: bool

definition default_config :: test_config where
  "default_config = \<lparr>cfg_verify = False, cfg_print_stats = True\<rparr>"

datatype parse_outcome = Parsed test_config | Help_exit | Bad_option

text \<open>The list holds what the calls of \<^verbatim>\<open>getopt\<close> return before \<open>-1\<close>.\<close>

fun parse_args :: "char list \<Rightarrow> test_config \<Rightarrow> parse_outcome" where
  "parse_args [] config = Parsed config"
| "parse_args (opt # opts) config =
     (if opt = CHR ''v'' then parse_args opts (config\<lparr>cfg_verify := True\<rparr>)
      else if opt = CHR ''s'' then parse_args opts (config\<lparr>cfg_print_stats := True\<rparr>)
      else if opt = CHR ''h'' then Help_exit
      else Bad_option)"

text \<open>The first attachment that fails decides.\<close>

definition attach_programs :: "int \<Rightarrow> int \<Rightarrow> int" where
  "attach_programs lsm_err uprobe_err = (if lsm_err \<noteq> 0 then lsm_err else uprobe_err)"

subsection \<open>Statistics\<close>

text \<open>
  The numbers of \<^verbatim>\<open>print_statistics\<close> in the order they are printed; \<open>rp_lanes\<close> is
  what the application prints about its two lanes.
\<close>

record 'v relay_report =
  rp_prod_ops :: u64
  rp_prod_failures :: u64
  rp_consume_ops :: u64
  rp_consume_failures :: u64
  rp_consumed :: u64
  rp_ku_popped :: u64
  rp_uk_pushed :: u64
  rp_lanes :: 'v
  rp_metrics :: "(string \<times> u64 \<times> u64 \<times> u64 \<times> u64) list"

definition print_statistics :: "string \<Rightarrow> ('s \<Rightarrow> 'v) \<Rightarrow> 's relay \<Rightarrow> 'v relay_report" where
  "print_statistics ds_name lanes R =
     \<lparr>rp_prod_ops = total_kernel_prod_ops R, rp_prod_failures = total_kernel_prod_failures R,
      rp_consume_ops = total_kernel_consume_ops R, rp_consume_failures = total_kernel_consume_failures R,
      rp_consumed = total_kernel_consumed R, rp_ku_popped = ku_dequeued_count R,
      rp_uk_pushed = uk_enqueued_count R, rp_lanes = lanes (rl_arena R),
      rp_metrics = ds_metrics_print (Some (rl_metrics R)) (Some ds_name)\<rparr>"

subsection \<open>The run\<close>

text \<open>What happens between attachment and the signal, as a list of handler activations.\<close>

datatype relay_act = Act_create u32 u64 u64 "u64 \<times> u64" | Act_pass "u64 \<times> u64" "u64 \<times> u64" | Act_consume "u64 \<times> u64"

fun relay_act_step :: "'s relay_ops \<Rightarrow> relay_act \<Rightarrow> 's relay \<Rightarrow> 's relay" where
  "relay_act_step ops (Act_create cpu pid_tgid ts clk) R = snd (lsm_inode_create ops cpu pid_tgid ts clk R)"
| "relay_act_step ops (Act_pass clk1 clk2) R = relay_worker_pass ops clk1 clk2 R"
| "relay_act_step ops (Act_consume clk) R = snd (bpf_consume ops clk R)"

definition relay_run :: "'s relay_ops \<Rightarrow> relay_act list \<Rightarrow> 's relay \<Rightarrow> 's relay" where
  "relay_run ops = fold (relay_act_step ops)"

text \<open>
  What the environment decides: the options, whether the skeleton loads, the codes of the
  two attachments and of the thread creation, the activations, and the clock at exit.
\<close>

record main_env =
  me_options :: "char list"
  me_loaded :: bool
  me_lsm_err :: int
  me_uprobe_err :: int
  me_thread_err :: int
  me_acts :: "relay_act list"
  me_clk :: "u64 \<Rightarrow> u64 \<times> u64"

text \<open>
  \<open>set_range\<close> is the application's \<^verbatim>\<open>setup_userspace_allocator\<close> on the arena.  The result
  is the exit status, the final state, and what the verifier and the statistics report.
\<close>

definition relay_main ::
  "'s relay_ops \<Rightarrow> ('s \<Rightarrow> int \<times> 's) \<Rightarrow> string \<Rightarrow> ('s \<Rightarrow> 'v) \<Rightarrow> main_env \<Rightarrow> 's relay \<Rightarrow>
   int \<times> 's relay \<times> int option \<times> 'v relay_report option" where
  "relay_main ops set_range ds_name lanes env R =
     (case parse_args (me_options env) default_config of
        Help_exit \<Rightarrow> (0, R, None, None)
      | Bad_option \<Rightarrow> (1, R, None, None)
      | Parsed config \<Rightarrow>
          if \<not> me_loaded env then (1, R, None, None)
          else
            let (err, A) = set_range (rl_arena R);
                R = R\<lparr>rl_arena := A\<rparr> in
            if err \<noteq> 0 then (err, R, None, None)
            else
              let err = attach_programs (me_lsm_err env) (me_uprobe_err env) in
              if err \<noteq> 0 then (err, R, None, None)
              else if me_thread_err env \<noteq> 0 then (- 1, R, None, None)
              else
                let R = relay_run ops (me_acts env) R;
                    R = trigger_kernel_consumer_on_exit ops (me_clk env) R in
                (0, R,
                 if cfg_verify config then Some (verify_data_structure ops R) else None,
                 if cfg_print_stats config then Some (print_statistics ds_name lanes R) else None))"

lemma relay_run_simps [simp]:
  "relay_run ops [] R = R" "relay_run ops (a # acts) R = relay_run ops acts (relay_act_step ops a R)"
  by (simp_all add: relay_run_def)

lemma relay_act_step_step: "relay_step ops R (relay_act_step ops a R)"
  by (cases a) (simp_all add: relay_step.intros)

lemma relay_step_act: "relay_step ops R R' \<Longrightarrow> \<exists>a. R' = relay_act_step ops a R"
  by (erule relay_stepE) (metis relay_act_step.simps)+

lemma relay_run_reach: "relay_reach ops R0 R \<Longrightarrow> relay_reach ops R0 (relay_run ops acts R)"
  by (induction acts arbitrary: R) (auto intro: relay_reach.step relay_act_step_step)

text \<open>Every reachable state is the end of a run.\<close>

lemma relay_reach_run: "relay_reach ops R0 R \<longleftrightarrow> (\<exists>acts. R = relay_run ops acts R0)"
proof
  assume "relay_reach ops R0 R"
  then show "\<exists>acts. R = relay_run ops acts R0"
  proof (induction rule: relay_reach.induct)
    case start
    show ?case by (rule exI [of _ "[]"]) simp
  next
    case (step R R')
    then obtain acts where r: "R = relay_run ops acts R0" by blast
    from relay_step_act [OF step.hyps(2)] obtain a where "R' = relay_act_step ops a R" by blast
    with r show ?case by (intro exI [of _ "acts @ [a]"]) (simp add: relay_run_def)
  qed
next
  show "\<exists>acts. R = relay_run ops acts R0 \<Longrightarrow> relay_reach ops R0 R"
    using relay_run_reach [OF relay_reach.start] by blast
qed

lemma parse_args_ok:
  "set opts \<subseteq> {CHR ''v'', CHR ''s''} \<Longrightarrow>
   parse_args opts cfg = Parsed \<lparr>cfg_verify = (cfg_verify cfg \<or> CHR ''v'' \<in> set opts),
     cfg_print_stats = (cfg_print_stats cfg \<or> CHR ''s'' \<in> set opts)\<rparr>"
  by (induction opts arbitrary: cfg) auto

subsection \<open>The counters agree\<close>

text \<open>
  The figures the statistics print, against the metrics and against what happened: every
  measured operation is counted once on both sides.
\<close>

definition relay_counts :: "'s relay \<Rightarrow> bool" where
  "relay_counts R \<longleftrightarrow>
     mcount (rl_metrics R DS_METRICS_LKMM_PRODUCER) = total_kernel_prod_ops R \<and>
     success_count (rl_metrics R DS_METRICS_LKMM_PRODUCER) = of_nat (length (accepted (rl_ku R))) \<and>
     success_count (rl_metrics R DS_METRICS_USER_CONSUMER) = ku_dequeued_count R \<and>
     mcount (rl_metrics R DS_METRICS_USER_PRODUCER) = ku_dequeued_count R \<and>
     success_count (rl_metrics R DS_METRICS_USER_PRODUCER) = uk_enqueued_count R \<and>
     uk_enqueued_count R = of_nat (length (accepted (rl_uk R))) \<and>
     success_count (rl_metrics R DS_METRICS_LKMM_CONSUMER) = total_kernel_consumed R \<and>
     total_kernel_consumed R = of_nat (length (rl_printk R)) \<and>
     total_kernel_consume_ops R = total_kernel_consumed R + total_kernel_consume_failures R"

lemma record_counts:
  assumes "DS_METRICS_RECORD_OP clk c f s M = (x, M')"
  shows "mcount (M' d) = (if d = c then mcount (M c) + 1 else mcount (M d))"
    and "success_count (M' d) =
      (if d = c \<and> fst (f s) = DS_SUCCESS then success_count (M c) + 1 else success_count (M d))"
    and "x = f s"
  using assms by (auto simp: DS_METRICS_RECORD_OP_def ds_metrics_record_def Let_def split_def)

lemma counts_create: "relay_counts R \<Longrightarrow> relay_counts (snd (lsm_inode_create ops cpu pt ts clk R))"
  by (auto simp: relay_counts_def lsm_inode_create_def split_def Let_def
      record_counts [OF surjective_pairing])

lemma counts_consume: "relay_counts R \<Longrightarrow> relay_counts (snd (bpf_consume ops clk R))"
  by (auto simp: relay_counts_def bpf_consume_def split_def Let_def
      record_counts [OF surjective_pairing])

lemma counts_move: "relay_counts R \<Longrightarrow> relay_counts (relay_move ops clk1 clk2 R)"
  by (auto simp: relay_counts_def relay_move_def split_def Let_def
      record_counts [OF surjective_pairing])

lemma counts_setup_uk: "relay_counts R \<Longrightarrow> relay_counts (snd (relay_setup_uk ops R))"
  by (auto simp: relay_setup_uk_def relay_counts_def split_def Let_def)

lemma counts_started: "relay_counts R \<Longrightarrow> relay_counts (R\<lparr>relay_started := True\<rparr>)"
  by (simp add: relay_counts_def)

lemma counts_pass: "relay_counts R \<Longrightarrow> relay_counts (relay_worker_pass ops clk1 clk2 R)"
  by (simp add: relay_worker_pass_def split_def Let_def counts_move counts_setup_uk counts_started)

lemma relay_act_counts: "relay_counts R \<Longrightarrow> relay_counts (relay_act_step ops a R)"
  by (cases a) (simp_all add: counts_create counts_consume counts_pass)


subsection \<open>A complete run\<close>

text \<open>Nothing fails before the run, and the run is shorter than \<open>2 ^ 62\<close> activations.\<close>

definition env_ok :: "main_env \<Rightarrow> bool" where
  "env_ok env \<longleftrightarrow> set (me_options env) \<subseteq> {CHR ''v'', CHR ''s''} \<and> me_loaded env \<and>
     me_lsm_err env = 0 \<and> me_uprobe_err env = 0 \<and> me_thread_err env = 0 \<and> length (me_acts env) < 2 ^ 62"

lemma relay_main_ok:
  assumes "env_ok env" and "set_range (rl_arena R) = (0, A)"
  shows "relay_main ops set_range ds_name lanes env R =
    (let R = trigger_kernel_consumer_on_exit ops (me_clk env) (relay_run ops (me_acts env) (R\<lparr>rl_arena := A\<rparr>)) in
     (0, R, if CHR ''v'' \<in> set (me_options env) then Some (verify_data_structure ops R) else None,
      Some (print_statistics ds_name lanes R)))"
  using assms by (simp add: relay_main_def env_ok_def parse_args_ok default_config_def attach_programs_def Let_def)

lemma relay_start_arena [simp]: "rl_arena (relay_start A) = A" "(relay_start A)\<lparr>rl_arena := A'\<rparr> = relay_start A'"
  by (simp_all add: relay_start_def)

lemma relay_run_bounded:
  "length (accepted (rl_uk (relay_run ops acts R))) \<le> length (accepted (rl_uk R)) + length acts"
proof (induction acts arbitrary: R)
  case (Cons a acts)
  have "length (accepted (rl_uk (relay_act_step ops a R))) \<le> Suc (length (accepted (rl_uk R)))"
    by (cases a) (auto simp: lsm_inode_create_def bpf_consume_def relay_worker_pass_def relay_move_def
        relay_setup_uk_def split_def Let_def)
  with Cons [of "relay_act_step ops a R"] show ?case by simp
qed simp

text \<open>The verifiers accept every represented lane.\<close>

definition lanes_verify ::
  "'s relay_ops \<Rightarrow> ('s \<Rightarrow> ds_kv list option \<Rightarrow> ds_kv list option \<Rightarrow> bool) \<Rightarrow> bool" where
  "lanes_verify ops rep \<longleftrightarrow> verify_guarded ops \<and> (\<forall>s xs uk. rep s (Some xs) uk \<longrightarrow> ku_verify ops s = DS_SUCCESS) \<and>
     (\<forall>s ku ys. rep s ku (Some ys) \<longrightarrow> uk_verify ops s = DS_SUCCESS)"

context relay_lanes
begin

lemma trigger_loop_absent:
  "relay_inv put rep R ku None \<Longrightarrow> ops' = ops \<Longrightarrow> relay_inv put rep (snd (trigger_loop ops' clk target m a R)) ku None"
proof (induction ops' clk target m a R rule: trigger_loop.induct)
  case (1 ops' clk target m a R)
  then show ?case using inv_consume [of R ku None "clk a"] by (subst trigger_loop.simps) simp
qed

lemma exit_drains_any:
  assumes i: "relay_inv put rep R ku uk" and n: "length (accepted (rl_uk R)) < 2 ^ 62"
  shows "relay_inv put rep (trigger_kernel_consumer_on_exit ops clk R) ku (map_option (\<lambda>_. []) uk)"
proof (cases uk)
  case None
  then show ?thesis using i inv_consume [OF i, of "clk 0"] trigger_loop_absent [of R ku]
    by (simp add: trigger_kernel_consumer_on_exit_def Let_def)
next
  case (Some ys)
  with exit_drains [OF i [unfolded Some] n] show ?thesis by simp
qed

lemma verify_passes:
  assumes i: "relay_inv put rep R ku uk"
    and v: "lanes_verify ops rep"
  shows "verify_data_structure ops R = DS_SUCCESS"
proof -
  have r: "rep (rl_arena R) ku uk" "initialized_ku R \<longleftrightarrow> ku \<noteq> None" using i by (simp_all add: relay_inv_def)
  have "ku_present ops R \<Longrightarrow> ku_verify ops (rl_arena R) = DS_SUCCESS"
    using ku_present_iff [OF r] r(1) v unfolding lanes_verify_def by (cases ku) blast+
  moreover have "uk_present ops (rl_arena R) \<Longrightarrow> uk_verify ops (rl_arena R) = DS_SUCCESS"
    using uk_present_iff [OF r(1)] r(1) v unfolding lanes_verify_def by (cases uk) blast+
  ultimately show ?thesis using v by (simp add: verify_data_structure_def lanes_verify_def)
qed

text \<open>
  The program returns 0; what it printed is what the second lane accepted; the statistics
  say so; and the verifier passes if the lanes' verifiers accept represented lanes.
\<close>

lemma main_completes:
  assumes e: "env_ok env" and s: "set_range A = (0, A')" and r: "rep A' None None"
    and v: "lanes_verify ops rep"
  shows "\<exists>R report ku uk. relay_main ops set_range ds_name lanes env (relay_start A) =
      (0, R, if CHR ''v'' \<in> set (me_options env) then Some DS_SUCCESS else None, Some report) \<and>
    relay_inv put rep R ku uk \<and> lane_items uk = [] \<and> mset (rl_printk R) = mset (accepted (rl_uk R)) \<and>
    rp_consumed report = rp_uk_pushed report"
proof -
  let ?S = "relay_run ops (me_acts env) (relay_start A')"
  let ?R = "trigger_kernel_consumer_on_exit ops (me_clk env) ?S"
  obtain ku uk where i: "relay_inv put rep ?S ku uk"
    using inv_reach [OF relay_run_reach [OF relay_reach.start] inv_start [OF r]] by blast
  have "accepted (rl_uk (relay_start A')) = []" by (simp add: relay_start_def)
  then have "length (accepted (rl_uk ?S)) < 2 ^ 62"
    using e relay_run_bounded [of ops "me_acts env" "relay_start A'"] by (simp add: env_ok_def)
  then have j: "relay_inv put rep ?R ku (map_option (\<lambda>_. []) uk)" by (rule exit_drains_any [OF i])
  have p: "verify_data_structure ops ?R = DS_SUCCESS" by (rule verify_passes [OF j v])
  have m: "relay_main ops set_range ds_name lanes env (relay_start A) =
      (0, ?R, if CHR ''v'' \<in> set (me_options env) then Some DS_SUCCESS else None,
       Some (print_statistics ds_name lanes ?R))"
    using relay_main_ok [OF e, of set_range "relay_start A" A' ops ds_name lanes] s p by (simp add: Let_def)
  have items: "lane_items (map_option (\<lambda>_. []) uk) = []" by (cases uk) simp_all
  then have "mset (rl_printk ?R) = mset (accepted (rl_uk ?R))" "length (rl_printk ?R) = length (accepted (rl_uk ?R))"
    using inv_balance(2,3) [OF j] j by (simp_all add: relay_inv_def)
  moreover from calculation have "rp_consumed (print_statistics ds_name lanes ?R) = rp_uk_pushed (print_statistics ds_name lanes ?R)"
    using j by (simp add: print_statistics_def relay_inv_def)
  ultimately show ?thesis using m j items by blast
qed

end

context relay_fifo
begin

lemma main_in_order:
  assumes e: "env_ok env" and s: "set_range A = (0, A')" and r: "rep A' None None"
    and v: "lanes_verify ops rep"
  shows "\<exists>R report. relay_main ops set_range ds_name lanes env (relay_start A) =
      (0, R, if CHR ''v'' \<in> set (me_options env) then Some DS_SUCCESS else None, Some report) \<and>
    rl_printk R = accepted (rl_uk R) \<and> subseq (rl_printk R) (accepted (rl_ku R)) \<and>
    rp_consumed report = rp_uk_pushed report"
proof -
  obtain R report ku uk where m: "relay_main ops set_range ds_name lanes env (relay_start A) =
      (0, R, if CHR ''v'' \<in> set (me_options env) then Some DS_SUCCESS else None, Some report)"
    "relay_inv (\<lambda>x xs. xs @ [x]) rep R ku uk" "lane_items uk = []" "rp_consumed report = rp_uk_pushed report"
    using main_completes [of env set_range A A', OF e s r v, of ds_name lanes] by blast
  have p: "rl_printk R = delivered (rl_uk R)" "offered (rl_uk R) = delivered (rl_ku R)"
    using m(2) by (simp_all only: relay_inv_def)
  note f = inv_fifo [OF m(2)]
  have "rl_printk R = accepted (rl_uk R)" using f(2) m(3) p(1) by simp
  moreover have "subseq (rl_printk R) (accepted (rl_ku R))"
    using relay_order [OF f(1) p(2) f(2)] p(1) by simp
  ultimately show ?thesis using m(1,4) by blast
qed

end

end
