(* ===== verification/SharedArena.thy ===== *)
theory SharedArena
  imports RelayMain ArenaAlloc
begin

text \<open>
  The arena shared by the two sides of a relay application: the kernel's page fragments
  and the userspace range, and the contract of a structure that allocates only when it is
  set up (the three rings, the bounded queue, the trace buffer).  Under that contract two
  instances in one arena, the first set up by the kernel and the second by userspace,
  satisfy what the relay relies on.
\<close>

subsection \<open>Both allocators\<close>

record 'k relay_alloc =
  ra_kern :: "'k kern_alloc"
  ra_user :: user_alloc

definition relay_kalloc :: "('k \<Rightarrow> ptr \<times> 'k) \<Rightarrow> u32 \<Rightarrow> 'k relay_alloc allocator" where
  "relay_kalloc alloc_pages cpu n a =
     (let (p, k) = bpf_arena_alloc_kern alloc_pages cpu n (ra_kern a) in (p, a\<lparr>ra_kern := k\<rparr>))"

definition relay_ualloc :: "'k relay_alloc allocator" where
  "relay_ualloc n a = (let (p, u) = user_allocator n (ra_user a) in (p, a\<lparr>ra_user := u\<rparr>))"

text \<open>
  \<^verbatim>\<open>setup_userspace_allocator\<close>: everything of the arena after its first page becomes the
  userspace range.  \<open>page_size\<close> is what \<^verbatim>\<open>sysconf\<close> returns, \<open>max_entries\<close> the number
  of pages of the arena map, \<open>arena\<close> its address.
\<close>

definition setup_userspace_allocator :: "u64 \<Rightarrow> u32 \<Rightarrow> ptr \<Rightarrow> user_alloc \<Rightarrow> int \<times> user_alloc" where
  "setup_userspace_allocator page_size max_entries arena s =
     (if sint page_size \<le> 0 then (- 1, s)
      else
        let arena_bytes = ucast max_entries * page_size in
        if arena_bytes \<le> page_size then (- 1, s)
        else
          let alloc_base = arena + page_size;
              alloc_bytes = arena_bytes - page_size in
          (0, bpf_arena_userspace_set_range page_size alloc_base alloc_bytes s))"

text \<open>Every page the kernel may still get lies in the region \<open>K\<close>.\<close>

definition pages_in :: "('k \<Rightarrow> ptr \<times> 'k) \<Rightarrow> nat set \<Rightarrow> 'k \<Rightarrow> bool" where
  "pages_in alloc_pages K k \<longleftrightarrow>
     (\<forall>n p k'. alloc_pages (((snd \<circ> alloc_pages) ^^ n) k) = (p, k') \<longrightarrow> p \<noteq> NULL \<longrightarrow>
        unat p + 4096 \<le> 2 ^ 64 \<and> {unat p ..< unat p + 4096} \<subseteq> K)"

definition kern_ready :: "('k \<Rightarrow> ptr \<times> 'k) \<Rightarrow> nat set \<Rightarrow> 'k relay_alloc \<Rightarrow> bool" where
  "kern_ready alloc_pages K a \<longleftrightarrow>
     (\<forall>cpu. page_frag_cur_page (ra_kern a) cpu = NULL) \<and> pages_in alloc_pages K (kern_pages (ra_kern a))"

definition user_ready :: "nat set \<Rightarrow> 'k relay_alloc \<Rightarrow> bool" where
  "user_ready U a \<longleftrightarrow> user_ok (ra_user a) \<and>
     (u_base (ra_user a) \<noteq> NULL \<longrightarrow>
        {unat (u_base (ra_user a)) ..< unat (u_base (ra_user a)) + unat (u_size (ra_user a))} \<subseteq> U)"

lemma pages_in_step: "pages_in ap K k \<Longrightarrow> pages_in ap K (snd (ap k))"
  unfolding pages_in_def
proof (intro allI impI)
  fix n p k'
  assume a: "\<forall>n p k'. ap (((snd \<circ> ap) ^^ n) k) = (p, k') \<longrightarrow> p \<noteq> NULL \<longrightarrow>
      unat p + 4096 \<le> 2 ^ 64 \<and> {unat p ..< unat p + 4096} \<subseteq> K"
    and "ap (((snd \<circ> ap) ^^ n) (snd (ap k))) = (p, k')" "p \<noteq> NULL"
  then show "unat p + 4096 \<le> 2 ^ 64 \<and> {unat p ..< unat p + 4096} \<subseteq> K"
    using a [rule_format, of "Suc n" p k'] by (simp add: funpow_swap1)
qed

text \<open>The first kernel allocation on a CPU takes a page and its upper end, or fails.\<close>

lemma kern_first_fragment:
  assumes fresh: "page_frag_cur_page k cpu = NULL" and pg: "ap (kern_pages k) = (page, kp)"
    and al: "bpf_arena_alloc_kern ap cpu n k = (p, k')"
  shows "page \<noteq> NULL \<Longrightarrow> round_up n 8 < PAGE_SIZE - 8 \<Longrightarrow> unat page + 4096 \<le> 2 ^ 64 \<Longrightarrow>
      unat p = unat page + (4088 - unat (round_up n 8))"
    and "\<not> (page \<noteq> NULL \<and> round_up n 8 < PAGE_SIZE - 8) \<Longrightarrow>
      p = NULL \<and> page_frag_cur_page k' = page_frag_cur_page k \<and> kern_pages k' \<in> {kern_pages k, kp}"
proof -
  let ?s = "snd (bpf_arena_refill_page ap cpu k)"
  show "unat p = unat page + (4088 - unat (round_up n 8))"
    if c: "page \<noteq> NULL" "round_up n 8 < PAGE_SIZE - 8" "unat page + 4096 \<le> 2 ^ 64"
  proof -
    have "kern_take_fragment cpu page (round_up n 8) ?s = (p, k')"
      using al c(1) c(2) [unfolded not_le [symmetric]] fresh pg
      by (simp add: bpf_arena_alloc_kern_def bpf_arena_refill_page_def Let_def)
    moreover have "unat (page_frag_cur_offset ?s cpu) = 4088"
      using pg c by (simp add: bpf_arena_refill_page_def Let_def)
    moreover have "unat (round_up n 8) \<le> 4088" using c by (simp add: word_less_nat_alt)
    ultimately show ?thesis using kern_fragment_fits(1) [of "round_up n 8" ?s cpu page p k'] c by simp
  qed
  show "p = NULL \<and> page_frag_cur_page k' = page_frag_cur_page k \<and> kern_pages k' \<in> {kern_pages k, kp}"
    if "\<not> (page \<noteq> NULL \<and> round_up n 8 < PAGE_SIZE - 8)"
    using that al fresh pg
    by (auto simp: bpf_arena_alloc_kern_def bpf_arena_refill_page_def Let_def not_less split: if_splits)
qed

lemma relay_kalloc_first:
  assumes r: "kern_ready ap K a" and al: "relay_kalloc ap cpu n a = (p, a')"
    and n: "n \<noteq> 0" "unat n < 2 ^ 31"
  shows "ra_user a' = ra_user a" and "p = NULL \<Longrightarrow> kern_ready ap K a'"
    and "p \<noteq> NULL \<Longrightarrow> block p n \<subseteq> K \<and> unat p + unat n \<le> 2 ^ 64"
proof -
  obtain k where k: "bpf_arena_alloc_kern ap cpu n (ra_kern a) = (p, k)" and a': "a' = a\<lparr>ra_kern := k\<rparr>"
    using al by (auto simp: relay_kalloc_def split: prod.splits)
  show "ra_user a' = ra_user a" by (simp add: a')
  obtain page kp where pg: "ap (kern_pages (ra_kern a)) = (page, kp)" by fastforce
  have fresh: "page_frag_cur_page (ra_kern a) cpu = NULL" "pages_in ap K (kern_pages (ra_kern a))"
    using r by (simp_all add: kern_ready_def)
  have page: "unat page + 4096 \<le> 2 ^ 64 \<and> {unat page ..< unat page + 4096} \<subseteq> K" if "page \<noteq> NULL"
    using fresh(2) pg that unfolding pages_in_def by (metis funpow_0)
  note first = kern_first_fragment [of "ra_kern a" cpu ap page kp n p k, OF fresh(1) pg k]
  show "kern_ready ap K a'" if "p = NULL"
  proof (cases "page \<noteq> NULL \<and> round_up n 8 < PAGE_SIZE - 8")
    case True
    then have "unat p = unat page + (4088 - unat (round_up n 8))" "0 < unat page"
      using first(1) page by (simp_all add: unat_gt_0)
    then show ?thesis using that by simp
  next
    case False
    then show ?thesis
      using first(2) r pages_in_step [OF fresh(2)] pg by (auto simp: a' kern_ready_def)
  qed
  show "block p n \<subseteq> K \<and> unat p + unat n \<le> 2 ^ 64" if "p \<noteq> NULL"
  proof -
    have c: "page \<noteq> NULL" "round_up n 8 < PAGE_SIZE - 8" using first(2) that by blast+
    have "unat n + unat (8 :: u32) \<le> 2 ^ 32" using n(2) by simp
    then have "unat n \<le> unat (round_up n 8)" using n(1) by (intro round_up_bounds) (auto simp: pow2_word_def)
    moreover have "unat (round_up n 8) < 4088" using c(2) by (simp add: word_less_nat_alt)
    ultimately have "block p n \<subseteq> {unat page ..< unat page + 4096}" "unat p + unat n \<le> unat page + 4096"
      using first(1) [OF c] page [OF c(1)] by (auto simp: block_def)
    then show ?thesis using page [OF c(1)] by (meson order_trans)
  qed
qed

text \<open>Userspace allocations stay inside the range that was set.\<close>

lemma user_alloc_keeps_range:
  assumes "user_ok s" and "user_allocator n s = (p, s')"
  shows "u_base s' = u_base s \<and> u_size s' = u_size s"
  using assms(2) unfolding user_allocator_def bpf_arena_alloc_user_def user_ok_lock [OF assms(1)] Let_def
  by (auto simp: user_take_fragment_def user_open_page_def Let_def split: if_splits)

lemma relay_ualloc_step:
  assumes r: "user_ready U a" and al: "relay_ualloc n a = (p, a')"
  shows "ra_kern a' = ra_kern a" and "user_ready U a'"
    and "p \<noteq> NULL \<Longrightarrow> block p n \<subseteq> U \<and> unat p + unat n \<le> 2 ^ 64"
proof -
  obtain u where u: "user_allocator n (ra_user a) = (p, u)" and a': "a' = a\<lparr>ra_user := u\<rparr>"
    using al by (auto simp: relay_ualloc_def split: prod.splits)
  have ok: "user_ok (ra_user a)" using r by (simp add: user_ready_def)
  show "ra_kern a' = ra_kern a" by (simp add: a')
  show ready: "user_ready U a'"
    using r ua.alloc_ok [OF ok u] user_alloc_keeps_range [OF ok u] by (simp add: user_ready_def a')
  show "block p n \<subseteq> U \<and> unat p + unat n \<le> 2 ^ 64" if "p \<noteq> NULL"
  proof -
    have "block p n \<subseteq> user_used u" using ua.alloc_fresh [OF ok u that] by blast
    also have "\<dots> \<subseteq> {x. u_base u \<noteq> NULL \<and> unat (u_base u) \<le> x \<and> x < unat (u_base u) + unat (u_size u)}"
      using ua.alloc_ok [OF ok u] by (auto simp: user_used_def user_ok_def split: if_splits)
    also have "\<dots> \<subseteq> U" using ready by (auto simp: user_ready_def a')
    finally show ?thesis using ua.alloc_bounded [OF ok u that] by blast
  qed
qed

subsection \<open>Cells of an array\<close>

text \<open>The bytes of the cells of size \<open>n\<close> at the addresses \<open>S\<close>.\<close>

definition cell_span :: "nat \<Rightarrow> ptr set \<Rightarrow> nat set" where
  "cell_span n S = (\<Union>a \<in> S. {unat a ..< unat a + n})"

lemma cell_span_outside:
  assumes "{unat a ..< unat a + n} \<subseteq> X" and "X \<inter> cell_span n S = {}" and "0 < n"
  shows "a \<notin> S"
proof
  assume "a \<in> S"
  then have "unat a \<in> cell_span n S" using assms(3) by (auto simp: cell_span_def)
  moreover have "unat a \<in> X" using assms(1,3) by (auto simp: subset_iff)
  ultimately show False using assms(2) by blast
qed

lemma cell_span_cell: "a \<in> S \<Longrightarrow> cell_span n S \<subseteq> X \<Longrightarrow> {unat a ..< unat a + n} \<subseteq> X"
  by (auto simp: cell_span_def)

subsection \<open>Structures that allocate only when set up\<close>

text \<open>
  \<open>holds hp s xs\<close>: the head at \<open>hp\<close> represents \<open>xs\<close>; \<open>own hp s\<close>: the bytes of its
  array; \<open>agree hp X s s'\<close>: the two arenas have the same head at \<open>hp\<close> and the same
  contents in the bytes \<open>X\<close>.  An operation changes only its own head and array.
\<close>

locale array_lane =
  fixes init :: "'k relay_alloc allocator \<Rightarrow> ptr \<Rightarrow> 's \<Rightarrow> int \<times> 's"
    and ins :: "ptr \<Rightarrow> u64 \<Rightarrow> u64 \<Rightarrow> 's \<Rightarrow> int \<times> 's"
    and pop :: "ptr \<Rightarrow> ds_kv option \<Rightarrow> 's \<Rightarrow> int \<times> ds_kv option \<times> 's"
    and put :: "ds_kv \<Rightarrow> ds_kv list \<Rightarrow> ds_kv list"
    and holds :: "ptr \<Rightarrow> 's \<Rightarrow> ds_kv list \<Rightarrow> bool"
    and own :: "ptr \<Rightarrow> 's \<Rightarrow> nat set"
    and agree :: "ptr \<Rightarrow> nat set \<Rightarrow> 's \<Rightarrow> 's \<Rightarrow> bool"
    and present :: "ptr \<Rightarrow> 's \<Rightarrow> bool"
    and alloc_of :: "'s \<Rightarrow> 'k relay_alloc"
    and bytes :: u32
  assumes put_law: "mset (put x xs) = add_mset x (mset xs)"
    and bytes_bound: "bytes \<noteq> 0" "unat bytes < 2 ^ 31"
    and lane_present: "holds hp s xs \<Longrightarrow> present hp s"
    and lane_agree: "holds hp s xs \<Longrightarrow> own hp s \<subseteq> X \<Longrightarrow> agree hp X s s' \<Longrightarrow> holds hp s' xs \<and> own hp s' = own hp s"
    and absent_agree: "\<not> present hp s \<Longrightarrow> agree hp X s s' \<Longrightarrow> \<not> present hp s'"
    and init_fails: "hp \<noteq> NULL \<Longrightarrow> \<not> present hp s \<Longrightarrow> init alloc hp s = (r, s') \<Longrightarrow> alloc bytes (alloc_of s) = (NULL, al) \<Longrightarrow>
      r \<noteq> DS_SUCCESS \<and> \<not> present hp s' \<and> alloc_of s' = al \<and> (\<forall>h X. h \<noteq> hp \<longrightarrow> agree h X s s')"
    and init_works: "hp \<noteq> NULL \<Longrightarrow> \<not> present hp s \<Longrightarrow> init alloc hp s = (r, s') \<Longrightarrow> alloc bytes (alloc_of s) = (p, al) \<Longrightarrow> p \<noteq> NULL \<Longrightarrow>
      unat p + unat bytes \<le> 2 ^ 64 \<Longrightarrow>
      r = DS_SUCCESS \<and> holds hp s' [] \<and> own hp s' \<subseteq> block p bytes \<and> alloc_of s' = al \<and>
      (\<forall>h X. h \<noteq> hp \<longrightarrow> X \<inter> block p bytes = {} \<longrightarrow> agree h X s s')"
    and ins_law: "holds hp s xs \<Longrightarrow> ins hp k v s = (r, s') \<Longrightarrow>
      holds hp s' (if r = DS_SUCCESS then put \<lparr>key = k, val = v\<rparr> xs else xs) \<and> own hp s' = own hp s \<and>
      alloc_of s' = alloc_of s \<and> (\<forall>h X. h \<noteq> hp \<longrightarrow> X \<inter> own hp s = {} \<longrightarrow> agree h X s s')"
    and pop_empty: "holds hp s [] \<Longrightarrow> \<exists>out s'. pop hp (Some d) s = (DS_ERROR_NOT_FOUND, out, s') \<and>
      holds hp s' [] \<and> own hp s' = own hp s \<and> alloc_of s' = alloc_of s \<and>
      (\<forall>h X. h \<noteq> hp \<longrightarrow> X \<inter> own hp s = {} \<longrightarrow> agree h X s s')"
    and pop_front: "holds hp s (x # xs) \<Longrightarrow> \<exists>s'. pop hp (Some d) s = (DS_SUCCESS, Some x, s') \<and>
      holds hp s' xs \<and> own hp s' = own hp s \<and> alloc_of s' = alloc_of s \<and>
      (\<forall>h X. h \<noteq> hp \<longrightarrow> X \<inter> own hp s = {} \<longrightarrow> agree h X s s')"

text \<open>The relay operations of such a structure, with the heads of the two lanes.\<close>

definition array_ops ::
  "('k relay_alloc allocator \<Rightarrow> ptr \<Rightarrow> 's \<Rightarrow> int \<times> 's) \<Rightarrow> (ptr \<Rightarrow> u64 \<Rightarrow> u64 \<Rightarrow> 's \<Rightarrow> int \<times> 's) \<Rightarrow>
   (ptr \<Rightarrow> ds_kv option \<Rightarrow> 's \<Rightarrow> int \<times> ds_kv option \<times> 's) \<Rightarrow> (ptr \<Rightarrow> 's \<Rightarrow> bool) \<Rightarrow> (ptr \<Rightarrow> 's \<Rightarrow> int) \<Rightarrow>
   ('k \<Rightarrow> ptr \<times> 'k) \<Rightarrow> ptr \<Rightarrow> ptr \<Rightarrow> 's relay_ops" where
  "array_ops init ins pop present verify alloc_pages hk hu =
     \<lparr>ku_init = (\<lambda>cpu. init (relay_kalloc alloc_pages cpu) hk), ku_insert = (\<lambda>cpu. ins hk),
      ku_present = (\<lambda>R. present hk (rl_arena R)), ku_pop = pop hk, uk_present = present hu,
      uk_init = init relay_ualloc hu, uk_insert = ins hu, uk_pop = pop hu,
      ku_verify = verify hk, uk_verify = verify hu, absent_counted = True, verify_guarded = True\<rparr>"

text \<open>The two lanes in one arena: the kernel's array in \<open>K\<close>, the userspace one in \<open>U\<close>.\<close>

definition array_rep ::
  "(ptr \<Rightarrow> 's \<Rightarrow> ds_kv list \<Rightarrow> bool) \<Rightarrow> (ptr \<Rightarrow> 's \<Rightarrow> nat set) \<Rightarrow> (ptr \<Rightarrow> 's \<Rightarrow> bool) \<Rightarrow> ('s \<Rightarrow> 'k relay_alloc) \<Rightarrow>
   ('k \<Rightarrow> ptr \<times> 'k) \<Rightarrow> nat set \<Rightarrow> nat set \<Rightarrow> ptr \<Rightarrow> ptr \<Rightarrow>
   's \<Rightarrow> ds_kv list option \<Rightarrow> ds_kv list option \<Rightarrow> bool" where
  "array_rep holds own present alloc_of alloc_pages K U hk hu s ku uk \<longleftrightarrow>
     hk \<noteq> NULL \<and> hu \<noteq> NULL \<and> hk \<noteq> hu \<and> K \<inter> U = {} \<and> user_ready U (alloc_of s) \<and>
     (case ku of None \<Rightarrow> \<not> present hk s \<and> kern_ready alloc_pages K (alloc_of s)
      | Some xs \<Rightarrow> holds hk s xs \<and> own hk s \<subseteq> K) \<and>
     (case uk of None \<Rightarrow> \<not> present hu s | Some ys \<Rightarrow> holds hu s ys \<and> own hu s \<subseteq> U)"

context array_lane
begin

abbreviation (input) "two_lanes ap K U hk hu \<equiv> array_rep holds own present alloc_of ap K U hk hu"

text \<open>A change of one lane's head and array leaves the other lane as it is.\<close>

lemma other_lane:
  assumes "case l of None \<Rightarrow> \<not> present h s | Some xs \<Rightarrow> holds h s xs \<and> own h s \<subseteq> R" and "agree h R s s'"
  shows "case l of None \<Rightarrow> \<not> present h s' | Some xs \<Rightarrow> holds h s' xs \<and> own h s' \<subseteq> R"
  using assms absent_agree [of h s R s'] lane_agree [of h s _ R s'] by (cases l) auto

lemma two_lanes_ku:
  assumes "two_lanes ap K U hk hu s (Some xs) uk" and "holds hk s' xs'" "own hk s' = own hk s"
    and "alloc_of s' = alloc_of s" and "\<forall>h X. h \<noteq> hk \<longrightarrow> X \<inter> own hk s = {} \<longrightarrow> agree h X s s'"
  shows "two_lanes ap K U hk hu s' (Some xs') uk"
proof -
  have "agree hu U s s'" using assms(1,5) unfolding array_rep_def by (metis option.simps(5) disjoint_iff subsetD)
  then show ?thesis using assms other_lane [of hu s U uk s'] by (simp add: array_rep_def)
qed

lemma two_lanes_uk:
  assumes "two_lanes ap K U hk hu s ku (Some ys)" and "holds hu s' ys'" "own hu s' = own hu s"
    and "alloc_of s' = alloc_of s" and "\<forall>h X. h \<noteq> hu \<longrightarrow> X \<inter> own hu s = {} \<longrightarrow> agree h X s s'"
  shows "two_lanes ap K U hk hu s' ku (Some ys')"
proof -
  have "agree hk K s s'" using assms(1,5) unfolding array_rep_def by (metis option.simps(5) disjoint_iff subsetD)
  then show ?thesis
    using assms absent_agree [of hk s K s'] lane_agree [of hk s _ K s']
    by (cases ku) (auto simp: array_rep_def)
qed

end

sublocale array_lane \<subseteq> rl: relay_lanes
  "array_ops init ins pop present verify ap hk hu" put "array_rep holds own present alloc_of ap K U hk hu"
  for verify ap K U hk hu
proof unfold_locales
  let ?ops = "array_ops init ins pop present verify ap hk hu"
  let ?rep = "array_rep holds own present alloc_of ap K U hk hu"
  show "mset (put x xs) = add_mset x (mset xs)" for x xs by (rule put_law)
  show "ku_present ?ops R \<longleftrightarrow> ku \<noteq> None" if "?rep (rl_arena R) ku uk" for R ku uk
    using that lane_present by (auto simp: array_rep_def array_ops_def split: option.splits)
  show "uk_present ?ops s \<longleftrightarrow> uk \<noteq> None" if "?rep s ku uk" for s ku uk
    using that lane_present by (auto simp: array_rep_def array_ops_def split: option.splits)
  show "?rep s' (if r = DS_SUCCESS then Some [] else None) uk"
    if a: "?rep s None uk" and i: "ku_init ?ops cpu s = (r, s')" for s uk cpu r s'
  proof -
    obtain p al where al: "relay_kalloc ap cpu bytes (alloc_of s) = (p, al)" by fastforce
    have pre: "\<not> present hk s" "kern_ready ap K (alloc_of s)" "user_ready U (alloc_of s)" "hk \<noteq> hu" "K \<inter> U = {}"
      and null: "hk \<noteq> NULL" "hu \<noteq> NULL"
      using a by (simp_all add: array_rep_def)
    have i': "init (relay_kalloc ap cpu) hk s = (r, s')" using i by (simp add: array_ops_def)
    note f = relay_kalloc_first [OF pre(2) al bytes_bound]
    have u: "user_ready U al" using pre(3) f(1) by (simp add: user_ready_def)
    show ?thesis
    proof (cases "p = NULL")
      case True
      note w = init_fails [OF null(1) pre(1) i' al [unfolded True]]
      then show ?thesis using a pre null u f(2) True other_lane [of hu s U uk s'] by (simp add: array_rep_def)
    next
      case False
      note w = init_works [OF null(1) pre(1) i' al False]
      have "U \<inter> block p bytes = {}" using f(3) [OF False] pre(5) by blast
      then have "agree hu U s s'" using w f(3) [OF False] pre(4) by metis
      then show ?thesis
        using a w f(3) [OF False] pre null u other_lane [of hu s U uk s'] by (auto simp: array_rep_def)
    qed
  qed
  show "?rep s' ku (if r = DS_SUCCESS then Some [] else None)"
    if a: "?rep s ku None" and i: "uk_init ?ops s = (r, s')" for s ku r s'
  proof -
    obtain p al where al: "relay_ualloc bytes (alloc_of s) = (p, al)" by fastforce
    have pre: "\<not> present hu s" "user_ready U (alloc_of s)" "hk \<noteq> hu" "K \<inter> U = {}"
      and null: "hk \<noteq> NULL" "hu \<noteq> NULL"
      using a by (simp_all add: array_rep_def)
    have i': "init relay_ualloc hu s = (r, s')" using i by (simp add: array_ops_def)
    note f = relay_ualloc_step [OF pre(2) al]
    have k: "kern_ready ap K (alloc_of s) \<Longrightarrow> kern_ready ap K al" using f(1) by (simp add: kern_ready_def)
    have ku: "case ku of None \<Rightarrow> \<not> present hk s \<and> kern_ready ap K (alloc_of s)
        | Some xs \<Rightarrow> holds hk s xs \<and> own hk s \<subseteq> K" using a by (simp add: array_rep_def)
    show ?thesis
    proof (cases "p = NULL")
      case True
      note w = init_fails [OF null(2) pre(1) i' al [unfolded True]]
      then have "agree hk K s s'" using pre(3) by blast
      then show ?thesis
        using ku w pre null k f(2) absent_agree [of hk s K s'] lane_agree [of hk s _ K s']
        by (cases ku) (auto simp: array_rep_def)
    next
      case False
      note w = init_works [OF null(2) pre(1) i' al False]
      have "K \<inter> block p bytes = {}" using f(3) [OF False] pre(4) by blast
      then have "agree hk K s s'" using w f(3) [OF False] pre(3) by metis
      then show ?thesis
        using ku w f(3) [OF False] pre null k f(2) absent_agree [of hk s K s'] lane_agree [of hk s _ K s']
        by (cases ku) (auto simp: array_rep_def)
    qed
  qed
  show "?rep s' (Some (if r = DS_SUCCESS then put \<lparr>key = k, val = v\<rparr> xs else xs)) uk"
    if a: "?rep s (Some xs) uk" and i: "ku_insert ?ops cpu k v s = (r, s')" for s xs uk cpu k v r s'
  proof -
    have "holds hk s xs" "ins hk k v s = (r, s')" using a i by (simp_all add: array_rep_def array_ops_def)
    then show ?thesis using two_lanes_ku [OF a] ins_law by metis
  qed
  show "?rep s' ku (Some (if r = DS_SUCCESS then put \<lparr>key = k, val = v\<rparr> ys else ys))"
    if a: "?rep s ku (Some ys)" and i: "uk_insert ?ops k v s = (r, s')" for s ys ku k v r s'
  proof -
    have "holds hu s ys" "ins hu k v s = (r, s')" using a i by (simp_all add: array_rep_def array_ops_def)
    then show ?thesis using two_lanes_uk [OF a] ins_law by metis
  qed
  show "\<exists>out s'. ku_pop ?ops (Some d) s = (DS_ERROR_NOT_FOUND, out, s') \<and> ?rep s' (Some []) uk"
    if a: "?rep s (Some []) uk" for s uk d
    using two_lanes_ku [OF a, of _ "[]"] pop_empty [of hk s d] a by (fastforce simp: array_rep_def array_ops_def)
  show "\<exists>s'. ku_pop ?ops (Some d) s = (DS_SUCCESS, Some x, s') \<and> ?rep s' (Some xs) uk"
    if a: "?rep s (Some (x # xs)) uk" for s x xs uk d
    using two_lanes_ku [OF a, of _ xs] pop_front [of hk s x xs d] a by (fastforce simp: array_rep_def array_ops_def)
  show "\<exists>out s'. uk_pop ?ops (Some d) s = (DS_ERROR_NOT_FOUND, out, s') \<and> ?rep s' ku (Some [])"
    if a: "?rep s ku (Some [])" for s ku d
    using two_lanes_uk [OF a, of _ "[]"] pop_empty [of hu s d] a by (fastforce simp: array_rep_def array_ops_def)
  show "\<exists>s'. uk_pop ?ops (Some d) s = (DS_SUCCESS, Some y, s') \<and> ?rep s' ku (Some ys)"
    if a: "?rep s ku (Some (y # ys))" for s ku y ys d
    using two_lanes_uk [OF a, of _ ys] pop_front [of hu s y ys d] a by (fastforce simp: array_rep_def array_ops_def)
qed

text \<open>The same with queues.\<close>

locale array_queue = array_lane init ins pop "\<lambda>x xs. xs @ [x]" holds own agree present alloc_of bytes
  for init ins pop holds own agree present alloc_of bytes

sublocale array_queue \<subseteq> rlq: relay_fifo
  "array_ops init ins pop present verify ap hk hu" "array_rep holds own present alloc_of ap K U hk hu"
  for verify ap K U hk hu
  by unfold_locales

subsection \<open>The range the applications set up\<close>

text \<open>The size in bytes of the metrics store, one of the globals at the start of the arena.\<close>

definition sizeof_ds_metric_sample :: nat where "sizeof_ds_metric_sample = 8 + 1 + 7"

definition sizeof_ds_metrics_ring :: nat where
  "sizeof_ds_metrics_ring = 5 * 8 + unat DS_METRICS_RING_SIZE * sizeof_ds_metric_sample"

definition sizeof_ds_metrics_store :: nat where "sizeof_ds_metrics_store = 4 * sizeof_ds_metrics_ring"

lemma sizeof_metrics [simp]: "sizeof_ds_metrics_store = 524448"
  by (simp add: sizeof_ds_metrics_store_def sizeof_ds_metrics_ring_def sizeof_ds_metric_sample_def DS_METRICS_RING_SIZE_def)

lemma setup_range:
  fixes P arena :: u64 and max_entries :: u32
  assumes P: "pow2_word P" "16 \<le> unat P" "0 < sint P" and m: "1 < max_entries"
    and top: "unat arena + unat max_entries * unat P + unat P \<le> 2 ^ 64" and lock: "\<not> u_lock s"
  shows "\<exists>t. setup_userspace_allocator P max_entries arena s = (0, t) \<and> user_ok t \<and> u_next_page_off t = 0 \<and>
    (u_base t \<noteq> NULL \<longrightarrow> u_page_size t = P \<and>
       unat arena + unat P \<le> unat (u_base t) \<and>
       unat (u_base t) + unat (u_size t) \<le> unat arena + unat max_entries * unat P)"
proof -
  let ?bytes = "ucast max_entries * P :: u64"
  have m1: "1 < unat max_entries" using m by (simp add: word_less_nat_alt)
  have "unat (ucast max_entries :: u64) = unat max_entries" by (rule unat_ucast_u64)
  then have b: "unat ?bytes = unat max_entries * unat P"
    using top P(2) unat_mult_lem [of "ucast max_entries :: u64" P] by simp
  have big: "unat P < unat max_entries * unat P" using m1 P(2) by simp
  have base: "unat (arena + P) = unat arena + unat P" using top big by (intro unat_plus_u64) linarith
  have sz: "unat (?bytes - P) = unat max_entries * unat P - unat P"
    using b big by (simp add: unat_sub word_le_nat_alt)
  have f: "unat (arena + P) + unat (?bytes - P) + unat P \<le> 2 ^ 64" using base sz top big by linarith
  let ?t = "bpf_arena_userspace_set_range P (arena + P) (?bytes - P) s"
  note sr = set_range_fields [OF P(1,3) f, of s]
  have "setup_userspace_allocator P max_entries arena s = (0, ?t)"
    using P(3) b big by (simp add: setup_userspace_allocator_def Let_def word_le_nat_alt not_le)
  moreover have "u_base ?t \<noteq> NULL \<longrightarrow> u_page_size ?t = P \<and> unat arena + unat P \<le> unat (u_base ?t) \<and>
       unat (u_base ?t) + unat (u_size ?t) \<le> unat arena + unat max_entries * unat P"
    using sr(1) base sz big by auto
  moreover from this have "user_ok ?t" using sr P(2) lock top by (auto simp: user_ok_def)
  ultimately show ?thesis using sr(2) by blast
qed

lemma user_alloc_pages:
  assumes "user_ok s" and "user_allocator n s = (p, s')"
  shows "u_page_size s' = u_page_size s \<and>
    unat (u_next_page_off s') \<le> unat (u_next_page_off s) + unat (u_page_size s)"
  using assms(2) unfolding user_allocator_def bpf_arena_alloc_user_def user_ok_lock [OF assms(1)] Let_def
  by (auto simp: user_take_fragment_def user_open_page_def Let_def unat_word_ariths(1) split: if_splits)

lemma user_used_pages: "user_used s \<subseteq> {unat (u_base s) ..< unat (u_base s) + unat (u_next_page_off s)}"
  by (auto simp: user_used_def)

lemma user_alloc_seq_pages:
  assumes "alloc_seq user_allocator ns s = (bs, s')" and "user_ok s" and "(p, n) \<in> set bs"
  shows "block p n \<subseteq> {unat (u_base s) ..<
    unat (u_base s) + unat (u_next_page_off s) + length ns * unat (u_page_size s)}"
  using assms
proof (induction ns arbitrary: s bs)
  case (Cons m ns)
  obtain q t where a: "user_allocator m s = (q, t)" by fastforce
  obtain cs where r: "alloc_seq user_allocator ns t = (cs, s')" "bs = (if q = NULL then cs else (q, m) # cs)"
    using Cons.prems(1) a by (auto simp: split_def Let_def prod_eq_iff)
  note keep = user_alloc_keeps_range [OF Cons.prems(2) a] user_alloc_pages [OF Cons.prems(2) a]
  consider "(p, n) \<in> set cs" | "q \<noteq> NULL" "p = q" "n = m" using r(2) Cons.prems(3) by (auto split: if_splits)
  then show ?case
  proof cases
    case 1
    then show ?thesis using Cons.IH [OF r(1) ua.alloc_ok [OF Cons.prems(2) a]] keep by fastforce
  next
    case 2
    then have "block p n \<subseteq> user_used t" using ua.alloc_fresh [OF Cons.prems(2) a] by blast
    then show ?thesis using user_used_pages [of t] keep by fastforce
  qed
qed simp

lemma set_range_aligned:
  fixes P base :: u64
  assumes P: "pow2_word P" "0 < sint P" and al: "unat P dvd unat base"
    and f: "unat base + unat sz + unat P \<le> 2 ^ 64" and nz: "base \<noteq> NULL" "sz \<noteq> 0"
  shows "u_base (bpf_arena_userspace_set_range P base sz s) = base \<and>
    u_page_size (bpf_arena_userspace_set_range P base sz s) = P"
proof -
  have p0: "0 < unat P" using pow2_word_pos [OF P(1)] .
  obtain k where k: "unat base = unat P * k" using al by blast
  have "unat base + unat P - 1 = unat P * k + (unat P - 1)" using p0 k by simp
  moreover have "(unat P * k + (unat P - 1)) div unat P = k + (unat P - 1) div unat P" using p0 by (intro div_mult_self4) simp
  ultimately have "(unat base + unat P - 1) div unat P = k" using p0 by (simp only: div_less diff_less zero_less_one add_0_right)
  then have "unat ((base + P - 1) AND NOT (P - 1)) = unat base"
    using unat_align_up [OF P(1), of base] f k by (simp add: mult.commute)
  then have a: "(base + P - 1) AND NOT (P - 1) = base" by (rule unsigned_word_eqI)
  have "unat (base + sz) = unat base + unat sz" using f p0 by (intro unat_plus_u64) linarith
  moreover have "0 < unat sz" using nz(2) by (simp add: unat_gt_0)
  ultimately have "\<not> base + sz \<le> base" by (simp add: word_le_nat_alt)
  then show ?thesis using a P(2) nz by (simp add: bpf_arena_userspace_set_range_def Let_def)
qed

text \<open>
  C8.  The range that the applications give to the userspace allocator starts one page
  into the arena, but the globals at the start of the arena, the metrics store among
  them, take more than 128 pages: the first 127 blocks userspace obtains all lie in the
  bytes of those globals.
\<close>

theorem user_blocks_overlap_globals:
  assumes "unat arena + 1001 * 4096 \<le> 2 ^ 64" and "4096 dvd unat arena" and "\<not> u_lock s"
    and "setup_userspace_allocator 4096 1000 arena s = (e, t)"
    and "alloc_seq user_allocator ns t = (bs, t')" and "length ns \<le> 127" and "(p, n) \<in> set bs"
  shows "block p n \<subseteq> {unat arena ..< unat arena + sizeof_ds_metrics_store}"
proof -
  let ?t = "bpf_arena_userspace_set_range 4096 (arena + 4096) (1000 * 4096 - 4096) s"
  have P: "pow2_word (4096 :: u64)" by (simp add: pow2_word_def)
  obtain t0 where t0: "setup_userspace_allocator 4096 1000 arena s = (0, t0)" "user_ok t0" "u_next_page_off t0 = 0"
    using setup_range [of 4096 1000 arena s] P assms(1,3) by auto
  then have t: "t = t0" "t = ?t" using assms(4) by (simp_all add: setup_userspace_allocator_def Let_def)
  have b: "unat (arena + 4096) = unat arena + 4096" using assms(1) by (simp add: unat_plus_u64)
  then have "arena + 4096 \<noteq> NULL" by (metis add_is_0 unsigned_0 zero_neq_numeral)
  then have f: "u_base t = arena + 4096" "u_page_size t = 4096"
    using set_range_aligned [of 4096 "arena + 4096" "1000 * 4096 - 4096" s] P assms(1,2) b
    unfolding t(2) by simp_all
  have "block p n \<subseteq> {unat (u_base t) ..< unat (u_base t) + unat (u_next_page_off t) + length ns * unat (u_page_size t)}"
    using user_alloc_seq_pages [OF assms(5) _ assms(7)] t0 t(1) by simp
  also have "\<dots> \<subseteq> {unat arena ..< unat arena + sizeof_ds_metrics_store}"
    unfolding f t0(3) [folded t(1)] using assms(6) b by auto
  finally show ?thesis .
qed

theorem user_blocks_overlap_globals_witness:
  "block 0x100000001FE0 24 \<subseteq> {0x100000000000 ..< 0x100000000000 + sizeof_ds_metrics_store}"
proof -
  obtain e t where s: "setup_userspace_allocator 4096 1000 0x100000000000 demo_user_alloc = (e, t)" by fastforce
  then have "t = demo_user_alloc\<lparr>u_size := 999 * 4096\<rparr>"
    by (simp add: setup_userspace_allocator_def bpf_arena_userspace_set_range_def demo_user_alloc_eq Let_def)
  then have "fst (alloc_seq user_allocator [24] t) = [(0x100000001FE0, 24)]"
    by (simp add: demo_user_alloc_eq user_allocator_def bpf_arena_alloc_user_def round_up_def
        spin_acquire_free user_open_page_def user_take_fragment_def Let_def)
  then have "alloc_seq user_allocator [24] t = ([(0x100000001FE0, 24)], snd (alloc_seq user_allocator [24] t))"
    by (metis prod.collapse)
  from user_blocks_overlap_globals [OF _ _ _ s this] show ?thesis by (simp add: demo_user_alloc_eq)
qed

subsection \<open>A complete run in a shared arena\<close>

lemma subseq_mset: "subseq xs ys \<Longrightarrow> mset xs \<subseteq># mset ys"
  by (induction rule: list_emb.induct) (auto intro: subset_mset.order_trans)

text \<open>
  What a run starts from: two heads, no page in use on any CPU, the lock free, a sensible
  page size, and kernel pages outside the range that userspace is about to take.
\<close>

definition relay_range :: "u64 \<Rightarrow> u32 \<Rightarrow> ptr \<Rightarrow> nat set" where
  "relay_range page_size max_entries arena =
     {unat arena + unat page_size ..< unat arena + unat max_entries * unat page_size}"

definition relay_fresh ::
  "('k \<Rightarrow> ptr \<times> 'k) \<Rightarrow> nat set \<Rightarrow> u64 \<Rightarrow> u32 \<Rightarrow> ptr \<Rightarrow> ptr \<Rightarrow> ptr \<Rightarrow> 'k relay_alloc \<Rightarrow> bool" where
  "relay_fresh alloc_pages K page_size max_entries arena hk hu a \<longleftrightarrow>
     hk \<noteq> NULL \<and> hu \<noteq> NULL \<and> hk \<noteq> hu \<and> kern_ready alloc_pages K a \<and> \<not> u_lock (ra_user a) \<and>
     pow2_word page_size \<and> 16 \<le> unat page_size \<and> 0 < sint page_size \<and> 1 < max_entries \<and>
     unat arena + unat max_entries * unat page_size + unat page_size \<le> 2 ^ 64 \<and>
     K \<inter> relay_range page_size max_entries arena = {}"

definition relay_set_range :: "u64 \<Rightarrow> u32 \<Rightarrow> ptr \<Rightarrow> 'k relay_alloc \<Rightarrow> int \<times> 'k relay_alloc" where
  "relay_set_range page_size max_entries arena a =
     (let (err, u) = setup_userspace_allocator page_size max_entries arena (ra_user a) in
      (err, a\<lparr>ra_user := u\<rparr>))"

lemma relay_set_range_ready:
  assumes "relay_fresh ap K P m arena hk hu a"
  shows "\<exists>a'. relay_set_range P m arena a = (0, a') \<and> kern_ready ap K a' \<and> user_ready (relay_range P m arena) a'"
proof -
  obtain u where u: "setup_userspace_allocator P m arena (ra_user a) = (0, u)" "user_ok u"
    "u_base u \<noteq> NULL \<longrightarrow> u_page_size u = P \<and> unat arena + unat P \<le> unat (u_base u) \<and>
       unat (u_base u) + unat (u_size u) \<le> unat arena + unat m * unat P"
    using setup_range [of P m arena "ra_user a"] assms unfolding relay_fresh_def by blast
  then show ?thesis using assms
    by (auto simp: relay_set_range_def relay_fresh_def kern_ready_def user_ready_def relay_range_def)
qed

lemma array_rep_fresh:
  assumes "relay_fresh ap K P m arena hk hu a" and "\<not> present hk s" "\<not> present hu s"
    and "kern_ready ap K (alloc_of s)" "user_ready (relay_range P m arena) (alloc_of s)"
  shows "array_rep holds own present alloc_of ap K (relay_range P m arena) hk hu s None None"
  using assms by (simp add: array_rep_def relay_fresh_def)

context array_lane
begin

lemma lanes_verify_array:
  assumes "\<And>hp s xs. holds hp s xs \<Longrightarrow> verify hp s = DS_SUCCESS"
  shows "lanes_verify (array_ops init ins pop present verify ap hk hu) (array_rep holds own present alloc_of ap K U hk hu)"
  unfolding lanes_verify_def using assms by (auto simp: array_ops_def array_rep_def)

lemma lane_main:
  assumes e: "env_ok env" and f: "relay_fresh ap K P m arena hk hu a"
    and s: "set_range A = (0, A')" and absent: "\<not> present hk A'" "\<not> present hu A'"
    and r: "kern_ready ap K (alloc_of A')" "user_ready (relay_range P m arena) (alloc_of A')"
    and v: "\<And>hp s xs. holds hp s xs \<Longrightarrow> verify hp s = DS_SUCCESS"
  shows "\<exists>R report. relay_main (array_ops init ins pop present verify ap hk hu) set_range ds_name lanes env (relay_start A) =
      (0, R, if CHR ''v'' \<in> set (me_options env) then Some DS_SUCCESS else None, Some report) \<and>
    mset (rl_printk R) = mset (accepted (rl_uk R)) \<and> mset (rl_printk R) \<subseteq># mset (accepted (rl_ku R)) \<and>
    rp_consumed report = rp_uk_pushed report"
proof -
  let ?rep = "array_rep holds own present alloc_of ap K (relay_range P m arena) hk hu"
  let ?ops = "array_ops init ins pop present verify ap hk hu"
  have rep: "?rep A' None None"
    by (rule array_rep_fresh [where a = a and s = A' and present = present and alloc_of = alloc_of, OF f absent r])
  have ver: "lanes_verify ?ops ?rep" by (rule lanes_verify_array [OF v])
  obtain R report ku uk where m: "relay_main ?ops set_range ds_name lanes env (relay_start A) =
      (0, R, if CHR ''v'' \<in> set (me_options env) then Some DS_SUCCESS else None, Some report)"
    "relay_inv put ?rep R ku uk" "mset (rl_printk R) = mset (accepted (rl_uk R))"
    "rp_consumed report = rp_uk_pushed report"
    using rl.main_completes [of env set_range A A', OF e s rep ver, of ds_name lanes] by blast
  have "mset (accepted (rl_uk R)) \<subseteq># mset (delivered (rl_ku R))"
    using subseq_mset [OF accepted_subseq_offered [of "rl_uk R"]] m(2) by (simp add: relay_inv_def)
  also have "\<dots> \<subseteq># mset (accepted (rl_ku R))" using rl.inv_balance(1) [OF m(2)] by simp
  finally show ?thesis using m(1,3,4) by metis
qed

end

context array_queue
begin

lemma queue_main:
  assumes e: "env_ok env" and f: "relay_fresh ap K P m arena hk hu a"
    and s: "set_range A = (0, A')" and absent: "\<not> present hk A'" "\<not> present hu A'"
    and r: "kern_ready ap K (alloc_of A')" "user_ready (relay_range P m arena) (alloc_of A')"
    and v: "\<And>hp s xs. holds hp s xs \<Longrightarrow> verify hp s = DS_SUCCESS"
  shows "\<exists>R report. relay_main (array_ops init ins pop present verify ap hk hu) set_range ds_name lanes env (relay_start A) =
      (0, R, if CHR ''v'' \<in> set (me_options env) then Some DS_SUCCESS else None, Some report) \<and>
    rl_printk R = accepted (rl_uk R) \<and> subseq (rl_printk R) (accepted (rl_ku R)) \<and>
    rp_consumed report = rp_uk_pushed report"
  by (rule rlq.main_in_order [where set_range = set_range, OF e s
        array_rep_fresh [where a = a and s = A' and present = present and alloc_of = alloc_of, OF f absent r]
        lanes_verify_array [OF v]])

end

subsection \<open>An example arena\<close>

text \<open>
  An arena without lanes: heads at 0x1000 and 0x1100, kernel pages at 0x20000 and above
  (at most one), userspace pages from \<open>0x100000001000\<close>.
\<close>

definition one_page :: "nat \<Rightarrow> ptr \<times> nat" where
  "one_page k = (if k = 0 then 0x20000 else NULL, Suc k)"

definition relay_alloc_demo :: "nat relay_alloc" where
  "relay_alloc_demo =
     \<lparr>ra_kern = \<lparr>page_frag_cur_page = (\<lambda>_. NULL), page_frag_cur_offset = (\<lambda>_. 0), kern_obj_cnt = (\<lambda>_. 0), kern_pages = 0\<rparr>,
      ra_user = \<lparr>u_base = 0x100000001000, u_size = 0x4000, u_page_size = 4096, u_next_page_off = 0,
        u_cur_page = NULL, u_cur_offset = 0, u_lock = False, u_obj_cnt = (\<lambda>_. 0)\<rparr>\<rparr>"

abbreviation demo_kern_region :: "nat set" where "demo_kern_region \<equiv> {0x20000 ..< 0x21000}"
abbreviation demo_user_region :: "nat set" where "demo_user_region \<equiv> {0x100000001000 ..< 0x100000005000}"

lemma one_page_iterate: "((snd \<circ> one_page) ^^ n) k = k + n"
  by (induction n) (simp_all add: one_page_def)

lemma relay_alloc_demo_ready:
  "kern_ready one_page demo_kern_region relay_alloc_demo" "user_ready demo_user_region relay_alloc_demo"
proof -
  have "pages_in one_page demo_kern_region 0"
    unfolding pages_in_def one_page_iterate by (simp add: one_page_def split: if_splits)
  then show "kern_ready one_page demo_kern_region relay_alloc_demo"
    by (simp add: kern_ready_def relay_alloc_demo_def)
  show "user_ready demo_user_region relay_alloc_demo"
    by (simp add: user_ready_def relay_alloc_demo_def user_ok_def)
qed

text \<open>A run of the whole program with \<open>-v\<close>: two elements inserted, one relayed before the signal.\<close>

definition relay_demo_env :: main_env where
  "relay_demo_env = \<lparr>me_options = ''v'', me_loaded = True, me_lsm_err = 0, me_uprobe_err = 0, me_thread_err = 0,
     me_acts = [Act_create 0 0x700000000 11 (1, 5), Act_create 1 0x800000000 12 (6, 8),
       Act_pass (9, 9) (9, 9), Act_pass (10, 12) (13, 14)],
     me_clk = (\<lambda>_. (20, 21))\<rparr>"

lemma relay_demo_fresh:
  "relay_fresh one_page demo_kern_region 4096 1000 0x100000000000 0x1000 0x1100 relay_alloc_demo"
proof -
  have "\<not> u_lock (ra_user relay_alloc_demo)" by (simp add: relay_alloc_demo_def)
  then show ?thesis using relay_alloc_demo_ready(1) by (auto simp: relay_fresh_def relay_range_def pow2_word_def)
qed

lemma relay_demo_env_ok: "env_ok relay_demo_env" "CHR ''v'' \<in> set (me_options relay_demo_env)"
  by (simp_all add: env_ok_def relay_demo_env_def)

definition relay_demo_acts :: "relay_act list" where
  "relay_demo_acts = me_acts relay_demo_env @ [Act_consume (15, 16)]"

end
