(* ===== verification/RelayRings.thy ===== *)
theory RelayRings
  imports SharedArena KvRing
begin

text \<open>
  What the relay applications of the three rings share: the rings keep their slots in one
  array, so that an operation is local to a head and its slots (\<open>kv_ring_lane\<close>), which
  gives the contract of the relay.
\<close>

subsection \<open>Rings of slots as lanes of a shared arena\<close>

text \<open>The bytes of the \<open>n\<close> slots at \<open>base\<close>.\<close>

definition kv_slots :: "ptr \<Rightarrow> nat \<Rightarrow> nat set" where
  "kv_slots base n = (\<Union>i \<in> {i. unat i < n}. {unat (kv_slot base i) ..< unat (kv_slot base i) + 16})"

definition kv_agree :: "ptr \<Rightarrow> nat set \<Rightarrow> ('h, 'a) kv_arena \<Rightarrow> ('h, 'a) kv_arena \<Rightarrow> bool" where
  "kv_agree h X A B \<longleftrightarrow> kv_heads B h = kv_heads A h \<and>
     (\<forall>a. {unat a ..< unat a + 16} \<subseteq> X \<longrightarrow> kv_mem B a = kv_mem A a)"

text \<open>Only the head at \<open>hp\<close> and the slots of the array at \<open>base\<close> differ.\<close>

definition kv_local :: "ptr \<Rightarrow> ptr \<Rightarrow> nat \<Rightarrow> ('h, 'a) kv_arena \<Rightarrow> ('h, 'a) kv_arena \<Rightarrow> bool" where
  "kv_local hp base n A B \<longleftrightarrow> (\<forall>h. h \<noteq> hp \<longrightarrow> kv_heads B h = kv_heads A h) \<and> kv_alloc B = kv_alloc A \<and>
     (\<forall>a. (\<forall>i. unat i < n \<longrightarrow> a \<noteq> kv_slot base i) \<longrightarrow> kv_mem B a = kv_mem A a)"

lemma kv_slot_outside:
  assumes "{unat a ..< unat a + 16} \<subseteq> X" and "X \<inter> kv_slots base n = {}" and "unat i < n"
  shows "a \<noteq> kv_slot base i"
proof
  assume "a = kv_slot base i"
  then have "unat a \<in> kv_slots base n" using assms(3) by (auto simp: kv_slots_def)
  moreover have "unat a \<in> X" using assms(1) by (auto simp: subset_iff)
  ultimately show False using assms(2) by blast
qed

lemma kv_local_agree:
  assumes "kv_local hp base n A B" and "h \<noteq> hp" and "X \<inter> kv_slots base n = {}"
  shows "kv_agree h X A B"
  using assms kv_slot_outside [OF _ assms(3)] unfolding kv_local_def kv_agree_def by blast

lemma kv_local_frame:
  "kv_local hp base n A B \<Longrightarrow> kv_alloc B = kv_alloc A \<and>
   (\<forall>h X. h \<noteq> hp \<longrightarrow> X \<inter> kv_slots base n = {} \<longrightarrow> kv_agree h X A B)"
  by (intro conjI allI impI kv_local_agree) (simp_all add: kv_local_def)

lemma kv_local_refl [simp]: "kv_local hp base n A A"
  by (simp add: kv_local_def)

lemma kv_local_set [simp]:
  "kv_local hp base n A (kv_set_head hp h A)"
  "unat i < n \<Longrightarrow> kv_local hp base n A (kv_set_head hp h (kv_set_slot (kv_slot base i) k v A))"
  by (auto simp: kv_local_def kv_set_slot_def)

lemma kv_agree_slot:
  assumes "kv_agree h X A B" and "kv_slots base n \<subseteq> X" and "unat i < n"
  shows "kv_mem B (kv_slot base i) = kv_mem A (kv_slot base i)"
proof -
  have "{unat (kv_slot base i) ..< unat (kv_slot base i) + 16} \<subseteq> X"
    using assms(2,3) unfolding kv_slots_def by blast
  then show ?thesis using assms(1) by (simp add: kv_agree_def)
qed

lemma kv_ring_agree:
  assumes "kv_agree h X A B" and "kv_slots base cap \<subseteq> X" and "0 < cap" "cap \<le> 2 ^ 32"
  shows "kv_ring (kv_mem B) base r n cap = kv_ring (kv_mem A) base r n cap"
proof (rule kv_ring_other)
  fix i
  assume "i < cap"
  then have "unat (of_nat i :: u32) < cap" using assms(4) by (simp add: unat_of_nat)
  then show "kv_mem B (kv_slot base (of_nat i)) = kv_mem A (kv_slot base (of_nat i))"
    by (rule kv_agree_slot [OF assms(1,2)])
qed (rule assms(3))

lemma ring_rel_agree:
  assumes "ring_rel (kv_mem A) base w r cap xs" and "kv_agree h X A B" and "kv_slots base cap \<subseteq> X"
  shows "ring_rel (kv_mem B) base w r cap xs"
  using assms kv_ring_agree [OF assms(2,3)] by (simp add: ring_rel_def)

lemma kv_slots_block:
  assumes "unat n < 2 ^ 28" and "unat p + unat (kv_bytes n) \<le> 2 ^ 64"
  shows "kv_slots p (unat n) \<subseteq> block p (kv_bytes n)"
proof -
  have "unat p + 16 * unat n \<le> 2 ^ 64" using assms by (simp add: unat_kv_bytes)
  then show ?thesis using kv_slot_in_block [OF assms(1)] by (auto simp: kv_slots_def)
qed

locale kv_ring_lane =
  fixes init :: "'k relay_alloc allocator \<Rightarrow> ptr \<Rightarrow> ('h, 'k relay_alloc) kv_arena \<Rightarrow> int \<times> ('h, 'k relay_alloc) kv_arena"
    and ins :: "ptr \<Rightarrow> u64 \<Rightarrow> u64 \<Rightarrow> ('h, 'k relay_alloc) kv_arena \<Rightarrow> int \<times> ('h, 'k relay_alloc) kv_arena"
    and pop :: "ptr \<Rightarrow> ds_kv option \<Rightarrow> ('h, 'k relay_alloc) kv_arena \<Rightarrow> int \<times> ds_kv option \<times> ('h, 'k relay_alloc) kv_arena"
    and queue :: "ptr \<Rightarrow> ('h, 'k relay_alloc) kv_arena \<Rightarrow> ds_kv list \<Rightarrow> bool"
    and room :: "ptr \<Rightarrow> ('h, 'k relay_alloc) kv_arena \<Rightarrow> bool"
    and base :: "'h \<Rightarrow> ptr"
    and cap :: "'h \<Rightarrow> u32"
    and n :: u32
  assumes n_bound: "0 < n" "unat n < 2 ^ 27"
    and fifo: "fifo_lane (\<lambda>x. ins hp (key x) (val x)) (pop hp (Some d)) (queue hp) (room hp)"
    and queue_present: "queue hp A xs \<Longrightarrow> base (kv_heads A hp) \<noteq> NULL"
    and queue_agree: "queue hp A xs \<Longrightarrow> kv_agree hp X A B \<Longrightarrow>
      kv_slots (base (kv_heads A hp)) (unat (cap (kv_heads A hp))) \<subseteq> X \<Longrightarrow> queue hp B xs"
    and ins_local: "queue hp A xs \<Longrightarrow> ins hp k v A = (r, B) \<Longrightarrow>
      kv_local hp (base (kv_heads A hp)) (unat (cap (kv_heads A hp))) A B \<and>
      base (kv_heads B hp) = base (kv_heads A hp) \<and> cap (kv_heads B hp) = cap (kv_heads A hp)"
    and pop_local: "queue hp A xs \<Longrightarrow> pop hp (Some d) A = (r, out, B) \<Longrightarrow>
      kv_local hp (base (kv_heads A hp)) (unat (cap (kv_heads A hp))) A B \<and>
      base (kv_heads B hp) = base (kv_heads A hp) \<and> cap (kv_heads B hp) = cap (kv_heads A hp)"
    and init_none: "hp \<noteq> NULL \<Longrightarrow> alloc (kv_bytes n) (kv_alloc A) = (NULL, al) \<Longrightarrow>
      init alloc hp A = (DS_ERROR_NOMEM, A\<lparr>kv_alloc := al\<rparr>)"
    and init_some: "hp \<noteq> NULL \<Longrightarrow> alloc (kv_bytes n) (kv_alloc A) = (p, al) \<Longrightarrow> p \<noteq> NULL \<Longrightarrow>
      \<exists>h. init alloc hp A = (DS_SUCCESS, kv_set_head hp h (A\<lparr>kv_alloc := al\<rparr>)) \<and>
        queue hp (kv_set_head hp h (A\<lparr>kv_alloc := al\<rparr>)) [] \<and> base h = p \<and> cap h = n"

sublocale kv_ring_lane \<subseteq> arr: array_queue init ins pop queue
  "\<lambda>hp A. kv_slots (base (kv_heads A hp)) (unat (cap (kv_heads A hp)))" kv_agree
  "\<lambda>hp A. base (kv_heads A hp) \<noteq> NULL" kv_alloc "kv_bytes n"
proof unfold_locales
  let ?own = "\<lambda>hp A. kv_slots (base (kv_heads A hp)) (unat (cap (kv_heads A hp)))"
  show "mset (xs @ [x]) = add_mset x (mset xs)" for x :: ds_kv and xs by simp
  have b: "unat (kv_bytes n) = 16 * unat n" using n_bound by (simp add: unat_kv_bytes)
  moreover have "0 < unat n" using n_bound(1) by (simp add: word_less_nat_alt)
  ultimately show "kv_bytes n \<noteq> 0" "unat (kv_bytes n) < 2 ^ 31" using n_bound(2) by auto
  show "base (kv_heads A hp) \<noteq> NULL" if "queue hp A xs" for hp A xs using that by (rule queue_present)
  show "queue hp B xs \<and> ?own hp B = ?own hp A" if "queue hp A xs" "?own hp A \<subseteq> X" "kv_agree hp X A B" for hp A xs X B
    using queue_agree [OF that(1,3,2)] that(3) by (simp add: kv_agree_def)
  show "\<not> base (kv_heads B hp) \<noteq> NULL" if "\<not> base (kv_heads A hp) \<noteq> NULL" "kv_agree hp X A B" for hp A X B
    using that by (simp add: kv_agree_def)
  show "r \<noteq> DS_SUCCESS \<and> \<not> base (kv_heads B hp) \<noteq> NULL \<and> kv_alloc B = al \<and> (\<forall>h X. h \<noteq> hp \<longrightarrow> kv_agree h X A B)"
    if "hp \<noteq> NULL" "\<not> base (kv_heads A hp) \<noteq> NULL" "init alloc hp A = (r, B)" "alloc (kv_bytes n) (kv_alloc A) = (NULL, al)"
    for hp A alloc r B al
    using init_none [of hp alloc A al, OF that(1,4)] that(2,3) by (auto simp: kv_agree_def)
  show "r = DS_SUCCESS \<and> queue hp B [] \<and> ?own hp B \<subseteq> block p (kv_bytes n) \<and> kv_alloc B = al \<and>
      (\<forall>h X. h \<noteq> hp \<longrightarrow> X \<inter> block p (kv_bytes n) = {} \<longrightarrow> kv_agree h X A B)"
    if "hp \<noteq> NULL" "init alloc hp A = (r, B)" "alloc (kv_bytes n) (kv_alloc A) = (p, al)" "p \<noteq> NULL"
      "unat p + unat (kv_bytes n) \<le> 2 ^ 64" for hp A alloc r B p al
  proof -
    have "kv_slots p (unat n) \<subseteq> block p (kv_bytes n)" using n_bound(2) that(5) by (intro kv_slots_block) simp_all
    then show ?thesis using init_some [of hp alloc A p al, OF that(1,3,4)] that(2) by (auto simp: kv_agree_def)
  qed
  show "queue hp B (if r = DS_SUCCESS then xs @ [\<lparr>key = k, val = v\<rparr>] else xs) \<and> ?own hp B = ?own hp A \<and>
      kv_alloc B = kv_alloc A \<and> (\<forall>h X. h \<noteq> hp \<longrightarrow> X \<inter> ?own hp A = {} \<longrightarrow> kv_agree h X A B)"
    if "queue hp A xs" "ins hp k v A = (r, B)" for hp A xs k v r B
  proof -
    note f = fifo_lane.q_ins_room [OF fifo [of hp], OF that(1), of "\<lparr>key = k, val = v\<rparr>"]
      fifo_lane.q_ins_refused [OF fifo [of hp], OF that(1), of "\<lparr>key = k, val = v\<rparr>"]
    have "queue hp B (if r = DS_SUCCESS then xs @ [\<lparr>key = k, val = v\<rparr>] else xs)"
      using f that(2) by (cases "room hp A") auto
    then show ?thesis using ins_local [OF that] kv_local_frame [OF conjunct1 [OF ins_local [OF that]]] by simp
  qed
  show "\<exists>out B. pop hp (Some d) A = (DS_ERROR_NOT_FOUND, out, B) \<and> queue hp B [] \<and> ?own hp B = ?own hp A \<and>
      kv_alloc B = kv_alloc A \<and> (\<forall>h X. h \<noteq> hp \<longrightarrow> X \<inter> ?own hp A = {} \<longrightarrow> kv_agree h X A B)"
    if q: "queue hp A []" for hp A d
  proof -
    obtain out B where p: "pop hp (Some d) A = (DS_ERROR_NOT_FOUND, out, B)" "queue hp B []"
      using fifo_lane.q_pop_empty [OF fifo [of hp] q] by blast
    then show ?thesis using p pop_local [OF q p(1)] kv_local_frame [OF conjunct1 [OF pop_local [OF q p(1)]]]
      by (intro exI [of _ out] exI [of _ B]) simp
  qed
  show "\<exists>B. pop hp (Some d) A = (DS_SUCCESS, Some x, B) \<and> queue hp B xs \<and> ?own hp B = ?own hp A \<and>
      kv_alloc B = kv_alloc A \<and> (\<forall>h X. h \<noteq> hp \<longrightarrow> X \<inter> ?own hp A = {} \<longrightarrow> kv_agree h X A B)"
    if q: "queue hp A (x # xs)" for hp A x xs d
  proof -
    obtain B where p: "pop hp (Some d) A = (DS_SUCCESS, Some x, B)" "queue hp B xs"
      using fifo_lane.q_pop_front [OF fifo [of hp] q] by blast
    then show ?thesis using p pop_local [OF q p(1)] kv_local_frame [OF conjunct1 [OF pop_local [OF q p(1)]]]
      by (intro exI [of _ B]) simp
  qed
qed


subsection \<open>Setting up the userspace range\<close>

definition kv_set_range ::
  "u64 \<Rightarrow> u32 \<Rightarrow> ptr \<Rightarrow> ('h, 'k relay_alloc) kv_arena \<Rightarrow> int \<times> ('h, 'k relay_alloc) kv_arena" where
  "kv_set_range page_size max_entries arena A =
     (let (err, al) = relay_set_range page_size max_entries arena (kv_alloc A) in (err, A\<lparr>kv_alloc := al\<rparr>))"

context kv_ring_lane
begin

lemma ring_main:
  assumes e: "env_ok env" and f: "relay_fresh ap K P m arena hk hu (kv_alloc A)"
    and absent: "base (kv_heads A hk) = NULL" "base (kv_heads A hu) = NULL"
    and v: "\<And>hp s xs. queue hp s xs \<Longrightarrow> verify hp s = DS_SUCCESS"
  shows "\<exists>R report. relay_main (array_ops init ins pop (\<lambda>hp A. base (kv_heads A hp) \<noteq> NULL) verify ap hk hu)
        (kv_set_range P m arena) ds_name lanes env (relay_start A) =
      (0, R, if CHR ''v'' \<in> set (me_options env) then Some DS_SUCCESS else None, Some report) \<and>
    rl_printk R = accepted (rl_uk R) \<and> subseq (rl_printk R) (accepted (rl_ku R)) \<and>
    rp_consumed report = rp_uk_pushed report"
proof -
  obtain al where al: "relay_set_range P m arena (kv_alloc A) = (0, al)" "kern_ready ap K al"
    "user_ready (relay_range P m arena) al" using relay_set_range_ready [OF f] by blast
  then have "kv_set_range P m arena A = (0, A\<lparr>kv_alloc := al\<rparr>)" by (simp add: kv_set_range_def)
  then show ?thesis using al absent by (intro arr.queue_main [where A' = "A\<lparr>kv_alloc := al\<rparr>", OF e f _ _ _ _ _ v]) simp_all
qed

end

end
