(* ===== verification/RelayFolly.thy ===== *)
theory RelayFolly
  imports RelayRings FollySpsc
begin

text \<open>
  The relay application of the Folly ring: \<^verbatim>\<open>src/skeleton_folly_spsc.bpf.c\<close> and
  \<^verbatim>\<open>src/skeleton_folly_spsc.c\<close>.
\<close>

subsection \<open>The application\<close>

definition FOLLY_SPSC_QUEUE_SIZE :: u32 where "FOLLY_SPSC_QUEUE_SIZE = 128"

definition folly_present :: "ptr \<Rightarrow> 'a spsc_arena \<Rightarrow> bool" where
  "folly_present hp A \<longleftrightarrow> spsc_records (kv_heads A hp) \<noteq> NULL"

definition folly_ops :: "('k \<Rightarrow> ptr \<times> 'k) \<Rightarrow> ptr \<Rightarrow> ptr \<Rightarrow> 'k relay_alloc spsc_arena relay_ops" where
  "folly_ops alloc_pages hk hu =
     \<lparr>ku_init = (\<lambda>cpu A. ds_spsc_init_lkmm (relay_kalloc alloc_pages cpu) hk 128 A),
      ku_insert = (\<lambda>cpu. ds_spsc_insert_lkmm hk),
      ku_present = (\<lambda>R. folly_present hk (rl_arena R)),
      ku_pop = ds_spsc_delete_c hk,
      uk_present = folly_present hu,
      uk_init = (\<lambda>A. ds_spsc_init_c relay_ualloc hu FOLLY_SPSC_QUEUE_SIZE A),
      uk_insert = ds_spsc_insert_c hu,
      uk_pop = ds_spsc_delete_lkmm hu,
      ku_verify = ds_spsc_verify_c hk,
      uk_verify = ds_spsc_verify_c hu,
      absent_counted = True, verify_guarded = True\<rparr>"

definition folly_lsm_inode_create where
  "folly_lsm_inode_create alloc_pages hk hu = lsm_inode_create (folly_ops alloc_pages hk hu)"

definition bpf_folly_spsc_consume where
  "bpf_folly_spsc_consume alloc_pages hk hu = bpf_consume (folly_ops alloc_pages hk hu)"

definition folly_relay_worker where
  "folly_relay_worker alloc_pages hk hu = relay_worker_pass (folly_ops alloc_pages hk hu)"

definition folly_trigger_on_exit where
  "folly_trigger_on_exit alloc_pages hk hu = trigger_kernel_consumer_on_exit (folly_ops alloc_pages hk hu)"

definition folly_verify where
  "folly_verify alloc_pages hk hu = verify_data_structure (folly_ops alloc_pages hk hu)"

definition folly_sizes :: "ptr \<Rightarrow> ptr \<Rightarrow> 'a spsc_arena \<Rightarrow> u32 \<times> u32" where
  "folly_sizes hk hu A =
     (if folly_present hk A then ds_spsc_size_c hk A else 0, if folly_present hu A then ds_spsc_size_c hu A else 0)"

definition folly_statistics :: "ptr \<Rightarrow> ptr \<Rightarrow> 'a spsc_arena relay \<Rightarrow> (u32 \<times> u32) relay_report" where
  "folly_statistics hk hu = print_statistics ''Folly SPSC'' (folly_sizes hk hu)"

definition folly_main where
  "folly_main alloc_pages hk hu page_size max_entries arena =
     relay_main (folly_ops alloc_pages hk hu) (kv_set_range page_size max_entries arena) ''Folly SPSC'' (folly_sizes hk hu)"

definition spsc_lane :: "ptr \<Rightarrow> 'a spsc_arena \<Rightarrow> ds_kv list \<Rightarrow> bool" where
  "spsc_lane hp A xs \<longleftrightarrow> spsc_queue hp A xs \<and> folly_present hp A \<and> spsc_size (kv_heads A hp) = 128"

lemma spsc_insert_local:
  assumes "spsc_queue hp A xs" and "ds_spsc_insert_lkmm hp k v A = (r, B)"
  shows "kv_local hp (spsc_records (kv_heads A hp)) (unat (spsc_size (kv_heads A hp))) A B \<and>
    spsc_records (kv_heads B hp) = spsc_records (kv_heads A hp) \<and> spsc_size (kv_heads B hp) = spsc_size (kv_heads A hp)"
  using assms(2) spsc_queue_bounds(1) [OF assms(1)]
  by (auto simp: ds_spsc_insert_lkmm_def Let_def split: if_splits)

lemma spsc_delete_local:
  assumes "ds_spsc_delete_lkmm hp d A = (r, out, B)"
  shows "kv_local hp (spsc_records (kv_heads A hp)) n A B \<and>
    spsc_records (kv_heads B hp) = spsc_records (kv_heads A hp) \<and> spsc_size (kv_heads B hp) = spsc_size (kv_heads A hp)"
  using assms by (auto simp: ds_spsc_delete_lkmm_def Let_def split: if_splits)

lemma spsc_lane_fifo:
  "fifo_lane (\<lambda>x. ds_spsc_insert_lkmm hp (key x) (val x)) (ds_spsc_delete_lkmm hp (Some d)) (spsc_lane hp) (spsc_room hp)"
proof unfold_locales
  fix A :: "'a spsc_arena" and xs and x :: ds_kv
  assume l: "spsc_lane hp A xs"
  then have q: "spsc_queue hp A xs" by (simp add: spsc_lane_def)
  show "spsc_room hp A \<Longrightarrow> \<exists>A'. ds_spsc_insert_lkmm hp (key x) (val x) A = (DS_SUCCESS, A') \<and> spsc_lane hp A' (xs @ [x])"
    using spsc_insert_room [OF q, of x] spsc_insert_local [OF q] l by (fastforce simp: spsc_lane_def folly_present_def)
  show "\<not> spsc_room hp A \<Longrightarrow> \<exists>e A'. ds_spsc_insert_lkmm hp (key x) (val x) A = (e, A') \<and> e \<noteq> DS_SUCCESS \<and> spsc_lane hp A' xs"
    using spsc_insert_full [OF q] l by simp
next
  fix A :: "'a spsc_arena"
  assume "spsc_lane hp A []"
  then show "\<exists>out A'. ds_spsc_delete_lkmm hp (Some d) A = (DS_ERROR_NOT_FOUND, out, A') \<and> spsc_lane hp A' []"
    using spsc_delete_empty by (fastforce simp: spsc_lane_def)
next
  fix A :: "'a spsc_arena" and x xs
  assume l: "spsc_lane hp A (x # xs)"
  then obtain A' where "ds_spsc_delete_lkmm hp (Some d) A = (DS_SUCCESS, Some x, A')" "spsc_queue hp A' xs"
    using spsc_delete_front [of hp A x xs "Some d"] by (auto simp: spsc_lane_def)
  then show "\<exists>A'. ds_spsc_delete_lkmm hp (Some d) A = (DS_SUCCESS, Some x, A') \<and> spsc_lane hp A' xs"
    using l spsc_delete_local [of hp "Some d" A] by (fastforce simp: spsc_lane_def folly_present_def)
qed

interpretation folly: kv_ring_lane "\<lambda>al hp. ds_spsc_init_lkmm al hp 128" ds_spsc_insert_lkmm ds_spsc_delete_lkmm
  spsc_lane spsc_room spsc_records spsc_size 128
proof (rule kv_ring_lane.intro)
  show "0 < (128 :: u32)" "unat (128 :: u32) < 2 ^ 27" by simp_all
  show "fifo_lane (\<lambda>x. ds_spsc_insert_lkmm hp (key x) (val x)) (ds_spsc_delete_lkmm hp (Some d)) (spsc_lane hp) (spsc_room hp)"
    for hp d by (rule spsc_lane_fifo)
  fix A B :: "'a relay_alloc spsc_arena" and hp xs
  assume q: "spsc_lane hp A xs"
  then have q': "spsc_queue hp A xs" by (simp add: spsc_lane_def)
  show "spsc_records (kv_heads A hp) \<noteq> NULL" using q by (simp add: spsc_lane_def folly_present_def)
  show "spsc_lane hp B xs" if "kv_agree hp X A B" "kv_slots (spsc_records (kv_heads A hp)) (unat (spsc_size (kv_heads A hp))) \<subseteq> X" for X
    using q ring_rel_agree [OF _ that] that(1)
    by (auto simp: spsc_lane_def spsc_queue_def Let_def kv_agree_def folly_present_def)
  show "kv_local hp (spsc_records (kv_heads A hp)) (unat (spsc_size (kv_heads A hp))) A B \<and>
      spsc_records (kv_heads B hp) = spsc_records (kv_heads A hp) \<and> spsc_size (kv_heads B hp) = spsc_size (kv_heads A hp)"
    if "ds_spsc_insert_lkmm hp k v A = (r, B)" for k v r using spsc_insert_local [OF q' that] .
  show "kv_local hp (spsc_records (kv_heads A hp)) (unat (spsc_size (kv_heads A hp))) A B \<and>
      spsc_records (kv_heads B hp) = spsc_records (kv_heads A hp) \<and> spsc_size (kv_heads B hp) = spsc_size (kv_heads A hp)"
    if "ds_spsc_delete_lkmm hp (Some d) A = (r, out, B)" for d r out using spsc_delete_local [OF that] .
next
  fix alloc :: "'a relay_alloc allocator" and A :: "'a relay_alloc spsc_arena" and hp al
  assume "alloc (kv_bytes 128) (kv_alloc A) = (NULL, al)"
  then show "ds_spsc_init_lkmm alloc hp 128 A = (DS_ERROR_NOMEM, A\<lparr>kv_alloc := al\<rparr>)"
    by (simp add: ds_spsc_init_lkmm_def)
next
  fix alloc :: "'a relay_alloc allocator" and A :: "'a relay_alloc spsc_arena" and hp p al
  assume "alloc (kv_bytes 128) (kv_alloc A) = (p, al)" "p \<noteq> NULL"
  then show "\<exists>h. ds_spsc_init_lkmm alloc hp 128 A = (DS_SUCCESS, kv_set_head hp h (A\<lparr>kv_alloc := al\<rparr>)) \<and>
      spsc_lane hp (kv_set_head hp h (A\<lparr>kv_alloc := al\<rparr>)) [] \<and> spsc_records h = p \<and> spsc_size h = 128"
    using spsc_init_success [of 128 alloc A p al hp] spsc_empty_head [of 128 hp p]
    by (intro exI [of _ "\<lparr>spsc_write_idx = 0, spsc_read_idx = 0, spsc_size = 128, spsc_records = p\<rparr>"])
      (simp add: spsc_lane_def folly_present_def)
qed

text \<open>The two rings in the shared arena.\<close>

definition folly_lanes ::
  "('k \<Rightarrow> ptr \<times> 'k) \<Rightarrow> nat set \<Rightarrow> nat set \<Rightarrow> ptr \<Rightarrow> ptr \<Rightarrow> 'k relay_alloc spsc_arena \<Rightarrow>
   ds_kv list option \<Rightarrow> ds_kv list option \<Rightarrow> bool" where
  "folly_lanes alloc_pages K U hk hu =
     array_rep spsc_lane (\<lambda>hp A. kv_slots (spsc_records (kv_heads A hp)) (unat (spsc_size (kv_heads A hp))))
       folly_present kv_alloc alloc_pages K U hk hu"

lemma folly_ops_array:
  "folly_ops alloc_pages hk hu =
     array_ops (\<lambda>al hp. ds_spsc_init_lkmm al hp 128) ds_spsc_insert_lkmm ds_spsc_delete_lkmm
       (\<lambda>hp A. spsc_records (kv_heads A hp) \<noteq> NULL) ds_spsc_verify_lkmm alloc_pages hk hu"
  by (simp add: folly_ops_def array_ops_def ds_variant folly_present_def FOLLY_SPSC_QUEUE_SIZE_def fun_eq_iff)

lemma folly_present_fun: "folly_present = (\<lambda>hp A. spsc_records (kv_heads A hp) \<noteq> NULL)"
  by (simp add: folly_present_def fun_eq_iff)




definition folly_demo :: "nat relay_alloc spsc_arena" where
  "folly_demo = \<lparr>kv_heads = (\<lambda>_. \<lparr>spsc_write_idx = 0, spsc_read_idx = 0, spsc_size = 0, spsc_records = NULL\<rparr>),
     kv_mem = (\<lambda>_. zero_kv), kv_alloc = relay_alloc_demo\<rparr>"

lemma folly_demo_lanes: "folly_lanes one_page demo_kern_region demo_user_region 0x1000 0x1100 folly_demo None None"
  using relay_alloc_demo_ready by (auto simp: folly_lanes_def array_rep_def folly_demo_def folly_present_def)

text \<open>Two files are created, the relay thread starts and moves one element, which is consumed.\<close>

definition folly_demo_run :: "nat relay_alloc spsc_arena relay" where
  "folly_demo_run =
     (let R = relay_start folly_demo;
          R = snd (folly_lsm_inode_create one_page 0x1000 0x1100 0 0x700000000 11 (1, 5) R);
          R = snd (folly_lsm_inode_create one_page 0x1000 0x1100 1 0x800000000 12 (6, 8) R);
          R = folly_relay_worker one_page 0x1000 0x1100 (9, 9) (9, 9) R;
          R = folly_relay_worker one_page 0x1000 0x1100 (10, 12) (13, 14) R in
      snd (bpf_folly_spsc_consume one_page 0x1000 0x1100 (15, 16) R))"

lemma folly_demo_reach: "relay_reach (folly_ops one_page 0x1000 0x1100) (relay_start folly_demo) folly_demo_run"
  unfolding folly_demo_run_def Let_def folly_lsm_inode_create_def folly_relay_worker_def bpf_folly_spsc_consume_def
  by (intro relay_reach.step [OF _ relay_step.consume] relay_reach.step [OF _ relay_step.pass]
      relay_reach.step [OF _ relay_step.create] relay_reach.start)




end
