(* ===== verification/RelayCkRing.thy ===== *)
theory RelayCkRing
  imports RelayRings CkRingSpsc
begin

text \<open>
  The relay application of the Concurrency Kit ring: \<^verbatim>\<open>src/skeleton_ck_ring_spsc.bpf.c\<close>
  and \<^verbatim>\<open>src/skeleton_ck_ring_spsc.c\<close>.
\<close>

subsection \<open>The application\<close>

definition CK_RING_SPSC_QUEUE_CAPACITY :: u32 where "CK_RING_SPSC_QUEUE_CAPACITY = 128"

definition ckr_present :: "ptr \<Rightarrow> 'a ckr_arena \<Rightarrow> bool" where
  "ckr_present hp A \<longleftrightarrow> ckr_slots (kv_heads A hp) \<noteq> NULL"

definition ckr_ops :: "('k \<Rightarrow> ptr \<times> 'k) \<Rightarrow> ptr \<Rightarrow> ptr \<Rightarrow> 'k relay_alloc ckr_arena relay_ops" where
  "ckr_ops alloc_pages hk hu =
     \<lparr>ku_init = (\<lambda>cpu A. ds_ck_ring_spsc_init_lkmm (relay_kalloc alloc_pages cpu) hk 128 A),
      ku_insert = (\<lambda>cpu. ds_ck_ring_spsc_insert_lkmm hk),
      ku_present = (\<lambda>R. ckr_present hk (rl_arena R)),
      ku_pop = ds_ck_ring_spsc_pop USERSPACE hk,
      uk_present = ckr_present hu,
      uk_init = (\<lambda>A. ds_ck_ring_spsc_init_c relay_ualloc hu CK_RING_SPSC_QUEUE_CAPACITY A),
      uk_insert = ds_ck_ring_spsc_insert_c hu,
      uk_pop = ds_ck_ring_spsc_pop BPF hu,
      ku_verify = ds_ck_ring_spsc_verify_c hk,
      uk_verify = ds_ck_ring_spsc_verify_c hu,
      absent_counted = True, verify_guarded = True\<rparr>"

definition ckr_lsm_inode_create where
  "ckr_lsm_inode_create alloc_pages hk hu = lsm_inode_create (ckr_ops alloc_pages hk hu)"

definition bpf_ck_ring_spsc_consume where
  "bpf_ck_ring_spsc_consume alloc_pages hk hu = bpf_consume (ckr_ops alloc_pages hk hu)"

definition ckr_relay_worker where
  "ckr_relay_worker alloc_pages hk hu = relay_worker_pass (ckr_ops alloc_pages hk hu)"

definition ckr_trigger_on_exit where
  "ckr_trigger_on_exit alloc_pages hk hu = trigger_kernel_consumer_on_exit (ckr_ops alloc_pages hk hu)"

definition ckr_verify where
  "ckr_verify alloc_pages hk hu = verify_data_structure (ckr_ops alloc_pages hk hu)"

definition ckr_sizes :: "ptr \<Rightarrow> ptr \<Rightarrow> 'a ckr_arena \<Rightarrow> u32 \<times> u32" where
  "ckr_sizes hk hu A =
     (if ckr_present hk A then ds_ck_ring_spsc_size_c hk A else 0,
      if ckr_present hu A then ds_ck_ring_spsc_size_c hu A else 0)"

definition ckr_statistics :: "ptr \<Rightarrow> ptr \<Rightarrow> 'a ckr_arena relay \<Rightarrow> (u32 \<times> u32) relay_report" where
  "ckr_statistics hk hu = print_statistics ''CK Ring SPSC'' (ckr_sizes hk hu)"

definition ckr_main where
  "ckr_main alloc_pages hk hu page_size max_entries arena =
     relay_main (ckr_ops alloc_pages hk hu) (kv_set_range page_size max_entries arena) ''CK Ring SPSC'' (ckr_sizes hk hu)"

subsection \<open>The ring as a lane\<close>

lemma ckr_c_variants:
  "ds_ck_ring_spsc_init_c = ds_ck_ring_spsc_init_lkmm" "ds_ck_ring_spsc_insert_c = ds_ck_ring_spsc_insert_lkmm"
  "ds_ck_ring_spsc_verify_c = ds_ck_ring_spsc_verify_lkmm"
  by (intro ext, simp add: ds_ck_ring_spsc_init_c_def ds_ck_ring_spsc_init_lkmm_def ds_ck_ring_spsc_insert_c_def
      ds_ck_ring_spsc_insert_lkmm_def ds_ck_ring_spsc_verify_c_def ds_ck_ring_spsc_verify_lkmm_def)+

lemma ckr_insert_local:
  assumes "ckr_queue hp A xs" and "ds_ck_ring_spsc_insert_lkmm hp k v A = (r, B)"
  shows "kv_local hp (ckr_slots (kv_heads A hp)) (unat (ckr_capacity (kv_heads A hp))) A B \<and>
    ckr_slots (kv_heads B hp) = ckr_slots (kv_heads A hp) \<and> ckr_capacity (kv_heads B hp) = ckr_capacity (kv_heads A hp)"
proof -
  have "unat (ckr_p_tail (kv_heads A hp)) < unat (ckr_capacity (kv_heads A hp))"
    using ckr_queueD(4) [OF assms(1)] by (simp add: ring_rel_def)
  then show ?thesis using assms(2) by (auto simp: ds_ck_ring_spsc_insert_lkmm_def Let_def split: if_splits)
qed

lemma ckr_delete_local:
  assumes "ds_ck_ring_spsc_delete_lkmm hp d A = (r, out, B)"
  shows "kv_local hp (ckr_slots (kv_heads A hp)) n A B \<and>
    ckr_slots (kv_heads B hp) = ckr_slots (kv_heads A hp) \<and> ckr_capacity (kv_heads B hp) = ckr_capacity (kv_heads A hp)"
  using assms by (auto simp: ds_ck_ring_spsc_delete_lkmm_def Let_def split: if_splits)

interpretation ckrelay: kv_ring_lane "\<lambda>al hp. ds_ck_ring_spsc_init_lkmm al hp 128" ds_ck_ring_spsc_insert_lkmm
  ds_ck_ring_spsc_delete_lkmm ckr_queue ckr_room ckr_slots ckr_capacity 128
proof (rule kv_ring_lane.intro)
  show "0 < (128 :: u32)" "unat (128 :: u32) < 2 ^ 27" by simp_all
  show "fifo_lane (\<lambda>x. ds_ck_ring_spsc_insert_lkmm hp (key x) (val x)) (ds_ck_ring_spsc_delete_lkmm hp (Some d)) (ckr_queue hp) (ckr_room hp)"
    for hp d using ckr.fifo_lane_axioms [of BPF hp BPF d] by (simp only: ds_variant)
  fix A B :: "'a relay_alloc ckr_arena" and hp xs
  assume q: "ckr_queue hp A xs"
  show "ckr_slots (kv_heads A hp) \<noteq> NULL" using ckr_queueD(3) [OF q] .
  show "ckr_queue hp B xs" if "kv_agree hp X A B" "kv_slots (ckr_slots (kv_heads A hp)) (unat (ckr_capacity (kv_heads A hp))) \<subseteq> X" for X
    using q ring_rel_agree [OF _ that] that(1) by (simp add: ckr_queue_def Let_def kv_agree_def)
  show "kv_local hp (ckr_slots (kv_heads A hp)) (unat (ckr_capacity (kv_heads A hp))) A B \<and>
      ckr_slots (kv_heads B hp) = ckr_slots (kv_heads A hp) \<and> ckr_capacity (kv_heads B hp) = ckr_capacity (kv_heads A hp)"
    if "ds_ck_ring_spsc_insert_lkmm hp k v A = (r, B)" for k v r using ckr_insert_local [OF q that] .
  show "kv_local hp (ckr_slots (kv_heads A hp)) (unat (ckr_capacity (kv_heads A hp))) A B \<and>
      ckr_slots (kv_heads B hp) = ckr_slots (kv_heads A hp) \<and> ckr_capacity (kv_heads B hp) = ckr_capacity (kv_heads A hp)"
    if "ds_ck_ring_spsc_delete_lkmm hp (Some d) A = (r, out, B)" for d r out using ckr_delete_local [OF that] .
next
  fix alloc :: "'a relay_alloc allocator" and A :: "'a relay_alloc ckr_arena" and hp al
  assume "hp \<noteq> NULL" "alloc (kv_bytes 128) (kv_alloc A) = (NULL, al)"
  then show "ds_ck_ring_spsc_init_lkmm alloc hp 128 A = (DS_ERROR_NOMEM, A\<lparr>kv_alloc := al\<rparr>)"
    by (simp add: ds_ck_ring_spsc_init_lkmm_def ds_ck_ring_spsc_is_power_of_two_def)
next
  fix alloc :: "'a relay_alloc allocator" and A :: "'a relay_alloc ckr_arena" and hp p al
  assume a: "hp \<noteq> NULL" "alloc (kv_bytes 128) (kv_alloc A) = (p, al)" "p \<noteq> NULL"
  have p2: "ds_ck_ring_spsc_is_power_of_two 128" by (simp add: ds_ck_ring_spsc_is_power_of_two_def)
  then show "\<exists>h. ds_ck_ring_spsc_init_lkmm alloc hp 128 A = (DS_SUCCESS, kv_set_head hp h (A\<lparr>kv_alloc := al\<rparr>)) \<and>
      ckr_queue hp (kv_set_head hp h (A\<lparr>kv_alloc := al\<rparr>)) [] \<and> ckr_slots h = p \<and> ckr_capacity h = 128"
    using ckr_init_success [OF a(1) p2, of alloc A p al] a
    by (intro exI [of _ "\<lparr>ckr_capacity = 128, ckr_mask = 127, ckr_c_head = 0, ckr_p_tail = 0, ckr_slots = p\<rparr>"])
      (simp add: ckr_queue_def ckr_wf_def ring_rel_init)
qed

subsection \<open>The relay\<close>

definition ckr_lanes ::
  "('k \<Rightarrow> ptr \<times> 'k) \<Rightarrow> nat set \<Rightarrow> nat set \<Rightarrow> ptr \<Rightarrow> ptr \<Rightarrow> 'k relay_alloc ckr_arena \<Rightarrow>
   ds_kv list option \<Rightarrow> ds_kv list option \<Rightarrow> bool" where
  "ckr_lanes alloc_pages K U hk hu =
     array_rep ckr_queue (\<lambda>hp A. kv_slots (ckr_slots (kv_heads A hp)) (unat (ckr_capacity (kv_heads A hp))))
       ckr_present kv_alloc alloc_pages K U hk hu"

lemma ckr_present_fun: "ckr_present = (\<lambda>hp A. ckr_slots (kv_heads A hp) \<noteq> NULL)"
  by (simp add: ckr_present_def fun_eq_iff)

lemma ckr_ops_array:
  "ckr_ops alloc_pages hk hu =
     array_ops (\<lambda>al hp. ds_ck_ring_spsc_init_lkmm al hp 128) ds_ck_ring_spsc_insert_lkmm ds_ck_ring_spsc_delete_lkmm
       (\<lambda>hp A. ckr_slots (kv_heads A hp) \<noteq> NULL) ds_ck_ring_spsc_verify_lkmm alloc_pages hk hu"
  by (simp add: ckr_ops_def array_ops_def ds_variant ckr_c_variants ckr_present_def CK_RING_SPSC_QUEUE_CAPACITY_def fun_eq_iff)

text \<open>
  The CK ring relay: in every state reached from an arena without lanes, the
  elements the hook inserted are those the relay popped followed by those still in the
  first ring, every popped element has been offered to the second ring, and what the
  second ring accepted has been printed or is still there, in order; so the printed
  stream is a subsequence of the inserted one.
\<close>

theorem ckr_relay_in_order:
  assumes "ckr_lanes alloc_pages K U hk hu A None None"
    and "relay_reach (ckr_ops alloc_pages hk hu) (relay_start A) R"
  shows "(\<exists>ku uk. ckr_lanes alloc_pages K U hk hu (rl_arena R) ku uk \<and>
      accepted (rl_ku R) = delivered (rl_ku R) @ lane_items ku \<and>
      offered (rl_uk R) = delivered (rl_ku R) \<and> accepted (rl_uk R) = rl_printk R @ lane_items uk) \<and>
    subseq (rl_printk R) (accepted (rl_ku R))"
proof -
  obtain ku uk where l: "ckr_lanes alloc_pages K U hk hu (rl_arena R) ku uk"
    "accepted (rl_ku R) = delivered (rl_ku R) @ lane_items ku"
    "offered (rl_uk R) = delivered (rl_ku R)" "accepted (rl_uk R) = rl_printk R @ lane_items uk"
    using ckrelay.arr.rlq.relay_in_order [where verify = ds_ck_ring_spsc_verify_lkmm] assms
    unfolding ckr_lanes_def ckr_ops_array ckr_present_fun by blast
  from l relay_order show ?thesis by blast
qed

text \<open>
  A whole run of the CK ring relay program: when nothing fails before the run, the
  program returns 0, has printed every element the second ring accepted, in order,
  reports as many consumed as pushed elements, and its verifier passes.
\<close>

theorem ckr_main_completes:
  assumes "env_ok env" and "relay_fresh alloc_pages K page_size max_entries arena hk hu (kv_alloc A)"
    and "\<not> ckr_present hk A" and "\<not> ckr_present hu A"
  shows "\<exists>R report. ckr_main alloc_pages hk hu page_size max_entries arena env (relay_start A) =
      (0, R, if CHR ''v'' \<in> set (me_options env) then Some DS_SUCCESS else None, Some report) \<and>
    rl_printk R = accepted (rl_uk R) \<and> subseq (rl_printk R) (accepted (rl_ku R)) \<and>
    rp_consumed report = rp_uk_pushed report"
proof -
  have "ds_ck_ring_spsc_verify_lkmm hp B = DS_SUCCESS" if "ckr_queue hp B xs" for hp and B :: "'a relay_alloc ckr_arena" and xs
    using ckr_verify_exact [of BPF hp B] that by (auto simp: ds_variant)
  then show ?thesis
    using assms unfolding ckr_main_def ckr_ops_array ckr_present_def
    by (intro ckrelay.ring_main) simp_all
qed

definition ckr_relay_demo :: "nat relay_alloc ckr_arena" where
  "ckr_relay_demo = \<lparr>kv_heads = (\<lambda>_. \<lparr>ckr_capacity = 0, ckr_mask = 0, ckr_c_head = 0, ckr_p_tail = 0, ckr_slots = NULL\<rparr>),
     kv_mem = (\<lambda>_. zero_kv), kv_alloc = relay_alloc_demo\<rparr>"

lemma ckr_demo_lanes: "ckr_lanes one_page demo_kern_region demo_user_region 0x1000 0x1100 ckr_relay_demo None None"
  using relay_alloc_demo_ready by (auto simp: ckr_lanes_def array_rep_def ckr_relay_demo_def ckr_present_def)

theorem ckr_relay_in_order_witness:
  "subseq (rl_printk (relay_run (ckr_ops one_page 0x1000 0x1100) relay_demo_acts (relay_start ckr_relay_demo)))
     (accepted (rl_ku (relay_run (ckr_ops one_page 0x1000 0x1100) relay_demo_acts (relay_start ckr_relay_demo)))) \<and>
   rl_printk (relay_run (ckr_ops one_page 0x1000 0x1100) relay_demo_acts (relay_start ckr_relay_demo)) =
     [\<lparr>key = 7, val = 11\<rparr>]"
proof -
  have "rl_printk (relay_run (ckr_ops one_page 0x1000 0x1100) relay_demo_acts (relay_start ckr_relay_demo)) =
      [\<lparr>key = 7, val = 11\<rparr>]" by code_simp
  with ckr_relay_in_order [OF ckr_demo_lanes relay_run_reach [OF relay_reach.start]] show ?thesis by blast
qed

theorem ckr_main_completes_witness:
  "\<exists>R report. ckr_main one_page 0x1000 0x1100 4096 1000 0x100000000000 relay_demo_env (relay_start ckr_relay_demo) =
      (0, R, Some DS_SUCCESS, Some report) \<and> rl_printk R = accepted (rl_uk R)"
proof -
  have "\<not> ckr_present 0x1000 ckr_relay_demo" "\<not> ckr_present 0x1100 ckr_relay_demo"
    by (simp_all add: ckr_present_def ckr_relay_demo_def)
  moreover have "kv_alloc ckr_relay_demo = relay_alloc_demo" by (simp add: ckr_relay_demo_def)
  ultimately show ?thesis using ckr_main_completes [of relay_demo_env one_page demo_kern_region
        4096 1000 "0x100000000000" "0x1000" "0x1100" ckr_relay_demo] relay_demo_fresh relay_demo_env_ok by auto
qed

end
