(* ===== verification/RelayIoUring.thy ===== *)
theory RelayIoUring
  imports RelayRings IoUring
begin

text \<open>
  The relay application of the io_uring-style ring: \<^verbatim>\<open>src/skeleton_io_uring.bpf.c\<close>
  and \<^verbatim>\<open>src/skeleton_io_uring.c\<close>.
\<close>

subsection \<open>The application\<close>

definition iou_present :: "ptr \<Rightarrow> 'a iou_arena \<Rightarrow> bool" where
  "iou_present hp A \<longleftrightarrow> iou_entries (kv_heads A hp) \<noteq> NULL"

definition iou_ops :: "('k \<Rightarrow> ptr \<times> 'k) \<Rightarrow> ptr \<Rightarrow> ptr \<Rightarrow> 'k relay_alloc iou_arena relay_ops" where
  "iou_ops alloc_pages hk hu =
     \<lparr>ku_init = (\<lambda>cpu A. ds_io_uring_init_lkmm (relay_kalloc alloc_pages cpu) hk 128 A),
      ku_insert = (\<lambda>cpu. ds_io_uring_insert_lkmm hk),
      ku_present = (\<lambda>R. iou_present hk (rl_arena R)),
      ku_pop = ds_io_uring_pop_c hk,
      uk_present = iou_present hu,
      uk_init = (\<lambda>A. ds_io_uring_init_c relay_ualloc hu 128 A),
      uk_insert = ds_io_uring_insert_c hu,
      uk_pop = ds_io_uring_pop_lkmm hu,
      ku_verify = ds_io_uring_verify_c hk,
      uk_verify = ds_io_uring_verify_c hu,
      absent_counted = True, verify_guarded = True\<rparr>"

definition iou_lsm_inode_create where
  "iou_lsm_inode_create alloc_pages hk hu = lsm_inode_create (iou_ops alloc_pages hk hu)"

definition bpf_io_uring_consume where
  "bpf_io_uring_consume alloc_pages hk hu = bpf_consume (iou_ops alloc_pages hk hu)"

definition iou_relay_worker where
  "iou_relay_worker alloc_pages hk hu = relay_worker_pass (iou_ops alloc_pages hk hu)"

definition iou_trigger_on_exit where
  "iou_trigger_on_exit alloc_pages hk hu = trigger_kernel_consumer_on_exit (iou_ops alloc_pages hk hu)"

definition iou_verify where
  "iou_verify alloc_pages hk hu = verify_data_structure (iou_ops alloc_pages hk hu)"

definition iou_sizes :: "ptr \<Rightarrow> ptr \<Rightarrow> 'a iou_arena \<Rightarrow> u32 \<times> u32" where
  "iou_sizes hk hu A =
     (if iou_present hk A then iou_tail (kv_heads A hk) - iou_head (kv_heads A hk) else 0,
      if iou_present hu A then iou_tail (kv_heads A hu) - iou_head (kv_heads A hu) else 0)"

definition iou_statistics :: "ptr \<Rightarrow> ptr \<Rightarrow> 'a iou_arena relay \<Rightarrow> (u32 \<times> u32) relay_report" where
  "iou_statistics hk hu = print_statistics ''IO_URING Ring'' (iou_sizes hk hu)"

definition iou_main where
  "iou_main alloc_pages hk hu page_size max_entries arena =
     relay_main (iou_ops alloc_pages hk hu) (kv_set_range page_size max_entries arena) ''IO_URING Ring'' (iou_sizes hk hu)"

subsection \<open>The ring as a lane\<close>

lemma iou_c_variants:
  "ds_io_uring_init_c = ds_io_uring_init_lkmm" "ds_io_uring_insert_c = ds_io_uring_insert_lkmm"
  "ds_io_uring_pop_c = ds_io_uring_pop_lkmm" "ds_io_uring_verify_c = ds_io_uring_verify_lkmm"
  by (intro ext, simp add: ds_io_uring_init_c_def ds_io_uring_init_lkmm_def ds_io_uring_insert_c_def
      ds_io_uring_insert_lkmm_def ds_io_uring_pop_c_def ds_io_uring_pop_lkmm_def
      ds_io_uring_verify_c_def ds_io_uring_verify_lkmm_def Let_def kv_set_slot_def)+

definition iou_lane :: "ptr \<Rightarrow> 'a iou_arena \<Rightarrow> ds_kv list \<Rightarrow> bool" where
  "iou_lane hp A xs \<longleftrightarrow> iou_queue hp A xs \<and> iou_present hp A"

lemma kv_local_set2:
  "unat i < n \<Longrightarrow> kv_local hp base n A (kv_set_head hp h (kv_set_head hp h' (kv_set_slot (kv_slot base i) k v A)))"
  by (auto simp: kv_local_def kv_set_slot_def)

lemma iou_insert_local:
  assumes "iou_queue hp A xs" and "ds_io_uring_insert_lkmm hp k v A = (r, B)"
  shows "kv_local hp (iou_entries (kv_heads A hp)) (unat (iou_ring_entries (kv_heads A hp))) A B \<and>
    iou_entries (kv_heads B hp) = iou_entries (kv_heads A hp) \<and> iou_ring_entries (kv_heads B hp) = iou_ring_entries (kv_heads A hp)"
proof -
  have p2: "pow2_word (iou_ring_entries (kv_heads A hp))" "iou_ring_mask (kv_heads A hp) = iou_ring_entries (kv_heads A hp) - 1"
    using assms(1) by (simp_all add: iou_queue_def iou_wf_def Let_def)
  then have "unat (iou_tail (kv_heads A hp) AND iou_ring_mask (kv_heads A hp)) < unat (iou_ring_entries (kv_heads A hp))"
    using pow2_word_pos [OF p2(1)] by (simp add: unat_and_pow2_mask)
  then show ?thesis using assms(2)
    by (auto simp: ds_io_uring_insert_lkmm_def Let_def kv_local_set2 split: if_splits)
qed

lemma iou_pop_local:
  assumes "ds_io_uring_pop_lkmm hp d A = (r, out, B)"
  shows "kv_local hp (iou_entries (kv_heads A hp)) n A B \<and>
    iou_entries (kv_heads B hp) = iou_entries (kv_heads A hp) \<and> iou_ring_entries (kv_heads B hp) = iou_ring_entries (kv_heads A hp)"
  using assms by (auto simp: ds_io_uring_pop_lkmm_def Let_def split: if_splits)

lemma iou_lane_fifo:
  "fifo_lane (\<lambda>x. ds_io_uring_insert_lkmm hp (key x) (val x)) (ds_io_uring_pop_lkmm hp (Some d)) (iou_lane hp) (iou_room hp)"
proof unfold_locales
  fix A :: "'a iou_arena" and xs and x :: ds_kv
  assume l: "iou_lane hp A xs"
  then have q: "iou_queue hp A xs" by (simp add: iou_lane_def)
  show "iou_room hp A \<Longrightarrow> \<exists>A'. ds_io_uring_insert_lkmm hp (key x) (val x) A = (DS_SUCCESS, A') \<and> iou_lane hp A' (xs @ [x])"
    using iou_insert_room [OF q, of x] iou_insert_local [OF q] l by (fastforce simp: iou_lane_def iou_present_def)
  show "\<not> iou_room hp A \<Longrightarrow> \<exists>e A'. ds_io_uring_insert_lkmm hp (key x) (val x) A = (e, A') \<and> e \<noteq> DS_SUCCESS \<and> iou_lane hp A' xs"
    using iou_insert_full [OF q, of "key x" "val x"] iou_insert_local [OF q, of "key x" "val x"] l
    by (fastforce simp: iou_lane_def iou_present_def)
next
  fix A :: "'a iou_arena"
  assume "iou_lane hp A []"
  then show "\<exists>out A'. ds_io_uring_pop_lkmm hp (Some d) A = (DS_ERROR_NOT_FOUND, out, A') \<and> iou_lane hp A' []"
    using iou_pop_empty by (fastforce simp: iou_lane_def)
next
  fix A :: "'a iou_arena" and x xs
  assume l: "iou_lane hp A (x # xs)"
  then obtain A' where "ds_io_uring_pop_lkmm hp (Some d) A = (DS_SUCCESS, Some x, A')" "iou_queue hp A' xs"
    using iou_pop_front [of hp A x xs "Some d"] by (auto simp: iou_lane_def)
  then show "\<exists>A'. ds_io_uring_pop_lkmm hp (Some d) A = (DS_SUCCESS, Some x, A') \<and> iou_lane hp A' xs"
    using l iou_pop_local [of hp "Some d" A] by (fastforce simp: iou_lane_def iou_present_def)
qed

interpretation iourelay: kv_ring_lane "\<lambda>al hp. ds_io_uring_init_lkmm al hp 128" ds_io_uring_insert_lkmm
  ds_io_uring_pop_lkmm iou_lane iou_room iou_entries iou_ring_entries 128
proof (rule kv_ring_lane.intro)
  show "0 < (128 :: u32)" "unat (128 :: u32) < 2 ^ 27" by simp_all
  show "fifo_lane (\<lambda>x. ds_io_uring_insert_lkmm hp (key x) (val x)) (ds_io_uring_pop_lkmm hp (Some d)) (iou_lane hp) (iou_room hp)"
    for hp d by (rule iou_lane_fifo)
  fix A B :: "'a relay_alloc iou_arena" and hp xs
  assume l: "iou_lane hp A xs"
  then have q: "iou_queue hp A xs" by (simp add: iou_lane_def)
  show "iou_entries (kv_heads A hp) \<noteq> NULL" using l by (simp add: iou_lane_def iou_present_def)
  show "iou_lane hp B xs" if a: "kv_agree hp X A B" "kv_slots (iou_entries (kv_heads A hp)) (unat (iou_ring_entries (kv_heads A hp))) \<subseteq> X" for X
  proof -
    have p2: "pow2_word (iou_ring_entries (kv_heads A hp))" using q by (simp add: iou_queue_def iou_wf_def Let_def)
    have "unat (iou_ring_entries (kv_heads A hp)) \<le> 2 ^ 32" using iou_entries_bound [OF p2] by simp
    then show ?thesis
      using l a(1) kv_ring_agree [OF a pow2_word_pos [OF p2]]
      by (simp add: iou_lane_def iou_present_def iou_queue_def Let_def kv_agree_def)
  qed
  show "kv_local hp (iou_entries (kv_heads A hp)) (unat (iou_ring_entries (kv_heads A hp))) A B \<and>
      iou_entries (kv_heads B hp) = iou_entries (kv_heads A hp) \<and> iou_ring_entries (kv_heads B hp) = iou_ring_entries (kv_heads A hp)"
    if "ds_io_uring_insert_lkmm hp k v A = (r, B)" for k v r using iou_insert_local [OF q that] .
  show "kv_local hp (iou_entries (kv_heads A hp)) (unat (iou_ring_entries (kv_heads A hp))) A B \<and>
      iou_entries (kv_heads B hp) = iou_entries (kv_heads A hp) \<and> iou_ring_entries (kv_heads B hp) = iou_ring_entries (kv_heads A hp)"
    if "ds_io_uring_pop_lkmm hp (Some d) A = (r, out, B)" for d r out using iou_pop_local [OF that] .
next
  fix alloc :: "'a relay_alloc allocator" and A :: "'a relay_alloc iou_arena" and hp al
  assume "alloc (kv_bytes 128) (kv_alloc A) = (NULL, al)"
  then show "ds_io_uring_init_lkmm alloc hp 128 A = (DS_ERROR_NOMEM, A\<lparr>kv_alloc := al\<rparr>)"
    by (simp add: ds_io_uring_init_lkmm_def)
next
  fix alloc :: "'a relay_alloc allocator" and A :: "'a relay_alloc iou_arena" and hp p al
  assume a: "alloc (kv_bytes 128) (kv_alloc A) = (p, al)" "p \<noteq> NULL"
  then show "\<exists>h. ds_io_uring_init_lkmm alloc hp 128 A = (DS_SUCCESS, kv_set_head hp h (A\<lparr>kv_alloc := al\<rparr>)) \<and>
      iou_lane hp (kv_set_head hp h (A\<lparr>kv_alloc := al\<rparr>)) [] \<and> iou_entries h = p \<and> iou_ring_entries h = 128"
    by (intro exI [of _ "\<lparr>iou_tail = 0, iou_head = 0, iou_ring_entries = 128, iou_ring_mask = 127, iou_sq_flags = 0, iou_entries = p\<rparr>"],
        cases "kv_heads A hp")
      (simp add: ds_io_uring_init_lkmm_def iou_lane_def iou_present_def iou_queue_def iou_wf_def pow2_word_def)
qed

subsection \<open>The relay\<close>

definition iou_lanes ::
  "('k \<Rightarrow> ptr \<times> 'k) \<Rightarrow> nat set \<Rightarrow> nat set \<Rightarrow> ptr \<Rightarrow> ptr \<Rightarrow> 'k relay_alloc iou_arena \<Rightarrow>
   ds_kv list option \<Rightarrow> ds_kv list option \<Rightarrow> bool" where
  "iou_lanes alloc_pages K U hk hu =
     array_rep iou_lane (\<lambda>hp A. kv_slots (iou_entries (kv_heads A hp)) (unat (iou_ring_entries (kv_heads A hp))))
       iou_present kv_alloc alloc_pages K U hk hu"

lemma iou_present_fun: "iou_present = (\<lambda>hp A. iou_entries (kv_heads A hp) \<noteq> NULL)"
  by (simp add: iou_present_def fun_eq_iff)

lemma iou_ops_array:
  "iou_ops alloc_pages hk hu =
     array_ops (\<lambda>al hp. ds_io_uring_init_lkmm al hp 128) ds_io_uring_insert_lkmm ds_io_uring_pop_lkmm
       (\<lambda>hp A. iou_entries (kv_heads A hp) \<noteq> NULL) ds_io_uring_verify_lkmm alloc_pages hk hu"
  by (simp add: iou_ops_def array_ops_def ds_variant iou_c_variants iou_present_def fun_eq_iff)


text \<open>
  A whole run of the io_uring relay program: when nothing fails before the run, the
  program returns 0, has printed every element the second ring accepted, in order,
  reports as many consumed as pushed elements, and its verifier passes.
\<close>

theorem iou_main_completes:
  assumes "env_ok env" and "relay_fresh alloc_pages K page_size max_entries arena hk hu (kv_alloc A)"
    and "\<not> iou_present hk A" and "\<not> iou_present hu A"
  shows "\<exists>R report. iou_main alloc_pages hk hu page_size max_entries arena env (relay_start A) =
      (0, R, if CHR ''v'' \<in> set (me_options env) then Some DS_SUCCESS else None, Some report) \<and>
    rl_printk R = accepted (rl_uk R) \<and> subseq (rl_printk R) (accepted (rl_ku R)) \<and>
    rp_consumed report = rp_uk_pushed report"
proof -
  have "ds_io_uring_verify_lkmm hp B = DS_SUCCESS" if "iou_lane hp B xs" for hp and B :: "'a relay_alloc iou_arena" and xs
    using iou_verify_exact [of BPF hp B] that by (auto simp: ds_variant iou_lane_def)
  then show ?thesis
    using assms unfolding iou_main_def iou_ops_array iou_present_def
    by (intro iourelay.ring_main) simp_all
qed

definition iou_relay_demo :: "nat relay_alloc iou_arena" where
  "iou_relay_demo = \<lparr>kv_heads = (\<lambda>_. \<lparr>iou_tail = 0, iou_head = 0, iou_ring_entries = 0, iou_ring_mask = 0, iou_sq_flags = 0, iou_entries = NULL\<rparr>),
     kv_mem = (\<lambda>_. zero_kv), kv_alloc = relay_alloc_demo\<rparr>"

lemma iou_demo_lanes: "iou_lanes one_page demo_kern_region demo_user_region 0x1000 0x1100 iou_relay_demo None None"
  using relay_alloc_demo_ready by (auto simp: iou_lanes_def array_rep_def iou_relay_demo_def iou_present_def)


theorem iou_main_completes_witness:
  "\<exists>R report. iou_main one_page 0x1000 0x1100 4096 1000 0x100000000000 relay_demo_env (relay_start iou_relay_demo) =
      (0, R, Some DS_SUCCESS, Some report) \<and> rl_printk R = accepted (rl_uk R)"
proof -
  have "\<not> iou_present 0x1000 iou_relay_demo" "\<not> iou_present 0x1100 iou_relay_demo"
    by (simp_all add: iou_present_def iou_relay_demo_def)
  moreover have "kv_alloc iou_relay_demo = relay_alloc_demo" by (simp add: iou_relay_demo_def)
  ultimately show ?thesis using iou_main_completes [of relay_demo_env one_page demo_kern_region
        4096 1000 "0x100000000000" "0x1000" "0x1100" iou_relay_demo] relay_demo_fresh relay_demo_env_ok by auto
qed

end
