(* ===== verification/RelayVyukhov.thy ===== *)
theory RelayVyukhov
  imports SharedArena Vyukhov
begin

text \<open>
  The relay application of the Vyukov queue: \<^verbatim>\<open>src/skeleton_vyukhov.bpf.c\<close> and
  \<^verbatim>\<open>src/skeleton_vyukhov.c\<close>.
\<close>

subsection \<open>The application\<close>

definition VYUKHOV_QUEUE_CAPACITY :: u32 where "VYUKHOV_QUEUE_CAPACITY = 128"

definition vy_present :: "ptr \<Rightarrow> 'a vy_arena \<Rightarrow> bool" where
  "vy_present hp A \<longleftrightarrow> vy_buffer (vy_heads A hp) \<noteq> NULL"

definition vy_ops :: "('k \<Rightarrow> ptr \<times> 'k) \<Rightarrow> ptr \<Rightarrow> ptr \<Rightarrow> 'k relay_alloc vy_arena relay_ops" where
  "vy_ops alloc_pages hk hu =
     \<lparr>ku_init = (\<lambda>cpu A. ds_vyukhov_init_lkmm (relay_kalloc alloc_pages cpu) hk 128 A),
      ku_insert = (\<lambda>cpu. ds_vyukhov_insert_lkmm hk),
      ku_present = (\<lambda>R. vy_present hk (rl_arena R)),
      ku_pop = ds_vyukhov_pop_c hk,
      uk_present = vy_present hu,
      uk_init = (\<lambda>A. ds_vyukhov_init_c relay_ualloc hu VYUKHOV_QUEUE_CAPACITY A),
      uk_insert = ds_vyukhov_insert_c hu,
      uk_pop = ds_vyukhov_pop_lkmm hu,
      ku_verify = ds_vyukhov_verify_c hk,
      uk_verify = ds_vyukhov_verify_c hu,
      absent_counted = True, verify_guarded = True\<rparr>"

definition vy_lsm_inode_create where
  "vy_lsm_inode_create alloc_pages hk hu = lsm_inode_create (vy_ops alloc_pages hk hu)"

definition bpf_vyukhov_consume where
  "bpf_vyukhov_consume alloc_pages hk hu = bpf_consume (vy_ops alloc_pages hk hu)"

definition vy_relay_worker where
  "vy_relay_worker alloc_pages hk hu = relay_worker_pass (vy_ops alloc_pages hk hu)"

definition vy_trigger_on_exit where
  "vy_trigger_on_exit alloc_pages hk hu = trigger_kernel_consumer_on_exit (vy_ops alloc_pages hk hu)"

definition vy_verify where
  "vy_verify alloc_pages hk hu = verify_data_structure (vy_ops alloc_pages hk hu)"

definition vy_counts :: "ptr \<Rightarrow> ptr \<Rightarrow> 'a vy_arena \<Rightarrow> u64 \<times> u64" where
  "vy_counts hk hu A = (vy_count (vy_heads A hk), vy_count (vy_heads A hu))"

definition vy_statistics :: "ptr \<Rightarrow> ptr \<Rightarrow> 'a vy_arena relay \<Rightarrow> (u64 \<times> u64) relay_report" where
  "vy_statistics hk hu = print_statistics ''Vyukhov MPMC'' (vy_counts hk hu)"

definition vy_set_range ::
  "u64 \<Rightarrow> u32 \<Rightarrow> ptr \<Rightarrow> 'k relay_alloc vy_arena \<Rightarrow> int \<times> 'k relay_alloc vy_arena" where
  "vy_set_range page_size max_entries arena A =
     (let (err, al) = relay_set_range page_size max_entries arena (vy_alloc A) in (err, A\<lparr>vy_alloc := al\<rparr>))"

definition vy_main where
  "vy_main alloc_pages hk hu page_size max_entries arena =
     relay_main (vy_ops alloc_pages hk hu) (vy_set_range page_size max_entries arena) ''Vyukhov MPMC'' (vy_counts hk hu)"

subsection \<open>Operations are local to a head and its cells\<close>

definition vy_span :: "ptr \<Rightarrow> nat \<Rightarrow> nat set" where
  "vy_span b n = (\<Union>i \<in> {..< n}. {unat (vy_cell b (of_nat i)) ..< unat (vy_cell b (of_nat i)) + 24})"

definition vy_agree :: "ptr \<Rightarrow> nat set \<Rightarrow> 'a vy_arena \<Rightarrow> 'a vy_arena \<Rightarrow> bool" where
  "vy_agree h X A B \<longleftrightarrow> vy_heads B h = vy_heads A h \<and>
     (\<forall>a. {unat a ..< unat a + 24} \<subseteq> X \<longrightarrow> vy_cells B a = vy_cells A a)"

definition vy_local :: "ptr \<Rightarrow> ptr \<Rightarrow> nat \<Rightarrow> 'a vy_arena \<Rightarrow> 'a vy_arena \<Rightarrow> bool" where
  "vy_local hp b n A B \<longleftrightarrow> (\<forall>h. h \<noteq> hp \<longrightarrow> vy_heads B h = vy_heads A h) \<and> vy_alloc B = vy_alloc A \<and>
     (\<forall>a. a \<notin> (\<lambda>i. vy_cell b (of_nat i)) ` {..< n} \<longrightarrow> vy_cells B a = vy_cells A a)"

lemma vy_local_refl [simp]: "vy_local hp b n A A"
  by (simp add: vy_local_def)

lemma vy_local_trans: "vy_local hp b n A B \<Longrightarrow> vy_local hp b n B C \<Longrightarrow> vy_local hp b n A C"
  by (simp add: vy_local_def)

lemma vy_local_set [simp]:
  "vy_local hp b n A (vy_set_head hp h B) \<longleftrightarrow> vy_local hp b n A B"
  "vy_local hp b n A B \<Longrightarrow> unat i < n \<Longrightarrow> vy_local hp b n A (vy_set_cell (vy_cell b i) c B)"
proof -
  show "vy_local hp b n A (vy_set_head hp h B) \<longleftrightarrow> vy_local hp b n A B" by (simp add: vy_local_def)
  assume l: "vy_local hp b n A B" and "unat i < n"
  then have "vy_cell b i \<in> (\<lambda>i. vy_cell b (of_nat i)) ` {..< n}" by (intro image_eqI [of _ _ "unat i"]) simp_all
  then show "vy_local hp b n A (vy_set_cell (vy_cell b i) c B)" using l by (auto simp: vy_local_def)
qed

lemma vy_local_agree:
  assumes "vy_local hp b n A B" and "h \<noteq> hp" and "X \<inter> vy_span b n = {}"
  shows "vy_agree h X A B"
proof -
  have "a \<notin> (\<lambda>i. vy_cell b (of_nat i)) ` {..< n}" if a: "{unat a ..< unat a + 24} \<subseteq> X" for a
  proof
    assume "a \<in> (\<lambda>i. vy_cell b (of_nat i)) ` {..< n}"
    then have "unat a \<in> vy_span b n" by (auto simp: vy_span_def)
    moreover have "unat a \<in> X" using a by (auto simp: subset_iff)
    ultimately show False using assms(3) by blast
  qed
  then show ?thesis using assms(1,2) by (simp add: vy_local_def vy_agree_def)
qed

text \<open>The shape of a head: what no operation but initialisation changes.\<close>

definition vy_shape :: "ds_vyukhov_head \<Rightarrow> ptr \<times> u64" where
  "vy_shape h = (vy_buffer h, vy_buffer_mask h)"

lemma vy_shape_set [simp]:
  "vy_shape (vy_enqueue_pos_update f h) = vy_shape h" "vy_shape (vy_dequeue_pos_update f h) = vy_shape h"
  "vy_shape (vy_count_update f h) = vy_shape h"
  by (simp_all add: vy_shape_def)

lemma vy_index:
  assumes "vy_wf h"
  shows "unat (pos AND vy_buffer_mask h) < vy_cap h"
  using vy_masked [OF assms, of 0 pos] assms by (simp add: vy_wf_def)

lemma vy_insert_loop_local:
  assumes "vy_insert_loop n hp pos (vy_buffer_mask (vy_heads A hp)) k v A = (r, B)" and "vy_wf (vy_heads A hp)"
  shows "vy_local hp (vy_buffer (vy_heads A hp)) (vy_cap (vy_heads A hp)) A B \<and>
    vy_shape (vy_heads B hp) = vy_shape (vy_heads A hp)"
  using assms
proof (induction n arbitrary: pos)
  case (Suc n)
  then show ?case using vy_index [OF Suc.prems(2), of pos]
    by (auto simp: Let_def arena_atomic_cmpxchg_def split: if_splits prod.splits)
qed simp

lemma vy_pop_loop_local:
  assumes "vy_pop_loop n hp pos (vy_buffer_mask (vy_heads A hp)) d A = (r, out, B)" and "vy_wf (vy_heads A hp)"
  shows "vy_local hp (vy_buffer (vy_heads A hp)) (vy_cap (vy_heads A hp)) A B \<and>
    vy_shape (vy_heads B hp) = vy_shape (vy_heads A hp)"
  using assms
proof (induction n arbitrary: pos)
  case (Suc n)
  then show ?case using vy_index [OF Suc.prems(2), of pos]
    by (auto simp: Let_def arena_atomic_cmpxchg_def split: if_splits prod.splits)
qed simp

lemma vy_insert_local:
  assumes "vy_queue hp A xs" and "ds_vyukhov_insert_lkmm hp k v A = (r, B)"
  shows "vy_local hp (vy_buffer (vy_heads A hp)) (vy_cap (vy_heads A hp)) A B \<and>
    vy_shape (vy_heads B hp) = vy_shape (vy_heads A hp)"
proof (rule vy_insert_loop_local)
  show "vy_insert_loop DS_VYUKHOV_MAX_RETRIES hp (vy_enqueue_pos (vy_heads A hp)) (vy_buffer_mask (vy_heads A hp)) k v A = (r, B)"
    using assms(2) vy_queueD(1,3) [OF assms(1)] by (simp add: ds_vyukhov_insert_lkmm_def)
qed (rule vy_queueD(2) [OF assms(1)])

lemma vy_pop_local:
  assumes "vy_queue hp A xs" and "ds_vyukhov_pop_lkmm hp (Some d) A = (r, out, B)"
  shows "vy_local hp (vy_buffer (vy_heads A hp)) (vy_cap (vy_heads A hp)) A B \<and>
    vy_shape (vy_heads B hp) = vy_shape (vy_heads A hp)"
proof (rule vy_pop_loop_local)
  show "vy_pop_loop DS_VYUKHOV_MAX_RETRIES hp (vy_dequeue_pos (vy_heads A hp)) (vy_buffer_mask (vy_heads A hp)) d A = (r, out, B)"
    using assms(2) vy_queueD(1,3) [OF assms(1)] by (simp add: ds_vyukhov_pop_lkmm_def)
qed (rule vy_queueD(2) [OF assms(1)])

lemma vy_init_loop_local:
  "vy_local hp b m A B \<Longrightarrow> unat i + n \<le> m \<Longrightarrow> m < 2 ^ 32 \<Longrightarrow> vy_local hp b m A (vy_init_loop n i b B)"
proof (induction n i b B rule: vy_init_loop.induct)
  case (2 n i b B)
  have "unat (i + 1) = Suc (unat i)" using 2(3,4) by (simp add: unat_plus_u32)
  moreover have "unat (ucast i :: u64) < m" using 2(3) by (simp add: unat_ucast_u64)
  ultimately show ?case using 2 by (simp add: Let_def)
qed simp

definition vy_own :: "ptr \<Rightarrow> 'a vy_arena \<Rightarrow> nat set" where
  "vy_own hp A = vy_span (vy_buffer (vy_heads A hp)) (vy_cap (vy_heads A hp))"

lemma vy_own_shape: "vy_shape (vy_heads B hp) = vy_shape (vy_heads A hp) \<Longrightarrow> vy_own hp B = vy_own hp A"
  by (simp add: vy_own_def vy_shape_def vy_cap_def)

lemma vy_span_block:
  assumes "unat p + 3072 \<le> 2 ^ 64"
  shows "vy_span p 128 \<subseteq> block p (vy_bytes 128)"
proof -
  have "unat (vy_cell p (of_nat i)) = unat p + 24 * i" if "i < 128" for i
  proof -
    have "unat (24 * of_nat i :: u64) = 24 * i" using that by (simp add: unat_word_ariths unat_of_nat)
    then show ?thesis using that assms unat_plus_u64 [of p "24 * of_nat i"] by (simp add: vy_cell_def)
  qed
  moreover have "unat (vy_bytes 128) = 3072" by (simp add: vy_bytes_def)
  ultimately show ?thesis by (auto simp: vy_span_def block_def)
qed

lemma vy_queue_agree:
  assumes q: "vy_queue hp A xs" and a: "vy_agree hp X A B" and o: "vy_own hp A \<subseteq> X"
  shows "vy_queue hp B xs"
proof -
  let ?h = "vy_heads A hp"
  have h: "vy_heads B hp = ?h" using a by (simp add: vy_agree_def)
  have "vy_cells B (vy_at ?h (vy_dequeue_pos ?h + of_nat i)) = vy_cells A (vy_at ?h (vy_dequeue_pos ?h + of_nat i))" for i
  proof -
    let ?j = "unat ((vy_dequeue_pos ?h + of_nat i) AND vy_buffer_mask ?h)"
    have e: "vy_at ?h (vy_dequeue_pos ?h + of_nat i) = vy_cell (vy_buffer ?h) (of_nat ?j)" by (simp add: vy_at_def)
    have "?j < vy_cap ?h" by (rule vy_index [OF vy_queueD(2) [OF q]])
    then have "{unat (vy_cell (vy_buffer ?h) (of_nat ?j)) ..< unat (vy_cell (vy_buffer ?h) (of_nat ?j)) + 24} \<subseteq> X"
      using o unfolding vy_own_def vy_span_def by blast
    then show ?thesis using a by (simp only: e vy_agree_def)
  qed
  then show ?thesis using q by (simp add: vy_queue_def Let_def h)
qed

lemma vy_init_effect:
  assumes "hp \<noteq> NULL" and a: "alloc (vy_bytes 128) (vy_alloc A) = (p, al)" and "p \<noteq> NULL"
    and i: "ds_vyukhov_init_lkmm alloc hp 128 A = (r, B)"
  shows "r = DS_SUCCESS \<and> vy_queue hp B [] \<and> vy_buffer (vy_heads B hp) = p \<and> vy_cap (vy_heads B hp) = 128 \<and>
    vy_alloc B = al \<and> vy_local hp p 128 (A\<lparr>vy_alloc := al\<rparr>) B"
proof -
  have "pow2_word (128 :: u32)" "\<not> (128 :: u32) < 2" by (simp_all add: pow2_word_def)
  moreover have "ds_vyukhov_init BPF alloc hp 128 A = (r, B)" using i by (simp add: ds_variant)
  ultimately have b: "r = DS_SUCCESS" "vy_queue hp B []" "vy_buffer (vy_heads B hp) = p"
      "vy_cap (vy_heads B hp) = 128" "vy_alloc B = al"
    using vy_init_branches [of BPF alloc hp 128 A r B, OF _ a] assms(1,3) by simp_all
  have "B = vy_init_loop 128 0 p (vy_set_head hp (vy_heads B hp) (A\<lparr>vy_alloc := al\<rparr>))"
    using i a assms(1,3) by (auto simp: ds_vyukhov_init_lkmm_def Let_def vy_init_loop_frame vy_set_head_def split: if_splits)
  moreover have "vy_local hp p 128 (A\<lparr>vy_alloc := al\<rparr>)
      (vy_init_loop 128 0 p (vy_set_head hp (vy_heads B hp) (A\<lparr>vy_alloc := al\<rparr>)))"
    by (rule vy_init_loop_local) simp_all
  ultimately show ?thesis using b by metis
qed

lemma vy_init_nomem:
  assumes "hp \<noteq> NULL" and a: "alloc (vy_bytes 128) (vy_alloc A) = (NULL, al)"
    and i: "ds_vyukhov_init_lkmm alloc hp 128 A = (r, B)"
  shows "r = DS_ERROR_NOMEM \<and> vy_buffer (vy_heads B hp) = NULL \<and> vy_alloc B = al \<and>
    (\<forall>h X. h \<noteq> hp \<longrightarrow> vy_agree h X A B)"
  using assms by (auto simp: ds_vyukhov_init_lkmm_def Let_def vy_agree_def split: if_splits)

lemma vy_frame:
  assumes "vy_queue hp A xs" and "vy_local hp (vy_buffer (vy_heads A hp)) (vy_cap (vy_heads A hp)) A B \<and>
    vy_shape (vy_heads B hp) = vy_shape (vy_heads A hp)"
  shows "vy_own hp B = vy_own hp A \<and> vy_alloc B = vy_alloc A \<and>
    (\<forall>h X. h \<noteq> hp \<longrightarrow> X \<inter> vy_own hp A = {} \<longrightarrow> vy_agree h X A B)"
proof -
  have "vy_agree h X A B" if "h \<noteq> hp" "X \<inter> vy_own hp A = {}" for h X
    using vy_local_agree [OF conjunct1 [OF assms(2)] that(1)] that(2) by (simp add: vy_own_def)
  then show ?thesis using assms(2) vy_own_shape [of B hp A] by (simp add: vy_local_def)
qed

interpretation vyrelay: array_queue "\<lambda>al hp. ds_vyukhov_init_lkmm al hp 128" ds_vyukhov_insert_lkmm
  ds_vyukhov_pop_lkmm vy_queue vy_own vy_agree vy_present vy_alloc "vy_bytes 128"
proof unfold_locales
  show "mset (xs @ [x]) = add_mset x (mset xs)" for x :: ds_kv and xs by simp
  show "vy_bytes 128 \<noteq> 0" "unat (vy_bytes 128) < 2 ^ 31" by (simp_all add: vy_bytes_def)
  show "vy_present hp A" if "vy_queue hp A xs" for hp xs and A :: "'a relay_alloc vy_arena"
    using vy_queueD(3) [OF that] by (simp add: vy_present_def)
  show "vy_queue hp B xs \<and> vy_own hp B = vy_own hp A"
    if "vy_queue hp A xs" "vy_own hp A \<subseteq> X" "vy_agree hp X A B" for hp xs X and A B :: "'a relay_alloc vy_arena"
    using vy_queue_agree [OF that(1,3,2)] that(3) by (simp add: vy_own_def vy_agree_def)
  show "\<not> vy_present hp B" if "\<not> vy_present hp A" "vy_agree hp X A B" for hp X and A B :: "'a relay_alloc vy_arena"
    using that by (simp add: vy_present_def vy_agree_def)
  show "r \<noteq> DS_SUCCESS \<and> \<not> vy_present hp B \<and> vy_alloc B = al \<and> (\<forall>h X. h \<noteq> hp \<longrightarrow> vy_agree h X A B)"
    if "hp \<noteq> NULL" "ds_vyukhov_init_lkmm alloc hp 128 A = (r, B)" "alloc (vy_bytes 128) (vy_alloc A) = (NULL, al)"
    for hp alloc r al and A B :: "'a relay_alloc vy_arena"
    using vy_init_nomem [of hp alloc A al r B, OF that(1,3,2)] by (simp add: vy_present_def)
  show "r = DS_SUCCESS \<and> vy_queue hp B [] \<and> vy_own hp B \<subseteq> block p (vy_bytes 128) \<and> vy_alloc B = al \<and>
      (\<forall>h X. h \<noteq> hp \<longrightarrow> X \<inter> block p (vy_bytes 128) = {} \<longrightarrow> vy_agree h X A B)"
    if a: "hp \<noteq> NULL" "ds_vyukhov_init_lkmm alloc hp 128 A = (r, B)" "alloc (vy_bytes 128) (vy_alloc A) = (p, al)"
      "p \<noteq> NULL" "unat p + unat (vy_bytes 128) \<le> 2 ^ 64"
    for hp alloc r p al and A B :: "'a relay_alloc vy_arena"
  proof -
    note e = vy_init_effect [of hp alloc A p al r B, OF a(1,3,4,2)]
    have s: "vy_span p 128 \<subseteq> block p (vy_bytes 128)" using a(5) by (intro vy_span_block) (simp add: vy_bytes_def)
    have "vy_agree h X A B" if h: "h \<noteq> hp" "X \<inter> block p (vy_bytes 128) = {}" for h X
    proof -
      have "X \<inter> vy_span p 128 = {}" using h(2) s by blast
      then have "vy_agree h X (A\<lparr>vy_alloc := al\<rparr>) B" using e h(1) by (intro vy_local_agree) simp_all
      then show ?thesis by (simp add: vy_agree_def)
    qed
    then show ?thesis using e s by (simp add: vy_own_def)
  qed
  show "vy_queue hp B (if r = DS_SUCCESS then xs @ [\<lparr>key = k, val = v\<rparr>] else xs) \<and> vy_own hp B = vy_own hp A \<and>
      vy_alloc B = vy_alloc A \<and> (\<forall>h X. h \<noteq> hp \<longrightarrow> X \<inter> vy_own hp A = {} \<longrightarrow> vy_agree h X A B)"
    if q: "vy_queue hp A xs" and i: "ds_vyukhov_insert_lkmm hp k v A = (r, B)"
    for hp xs k v r and A B :: "'a relay_alloc vy_arena"
  proof -
    have "vy_queue hp B (if r = DS_SUCCESS then xs @ [\<lparr>key = k, val = v\<rparr>] else xs)"
      using vy_insert_room [OF q, of "\<lparr>key = k, val = v\<rparr>"] vy_insert_full [OF q, of k v] i q
      by (cases "vy_room hp A") auto
    then show ?thesis using vy_frame [OF q vy_insert_local [OF q i]] by simp
  qed
  show "\<exists>out B. ds_vyukhov_pop_lkmm hp (Some d) A = (DS_ERROR_NOT_FOUND, out, B) \<and> vy_queue hp B [] \<and>
      vy_own hp B = vy_own hp A \<and> vy_alloc B = vy_alloc A \<and>
      (\<forall>h X. h \<noteq> hp \<longrightarrow> X \<inter> vy_own hp A = {} \<longrightarrow> vy_agree h X A B)"
    if q: "vy_queue hp A []" for hp d and A :: "'a relay_alloc vy_arena"
    using vy_pop_empty [OF q, of d] q by (auto simp: vy_agree_def)
  show "\<exists>B. ds_vyukhov_pop_lkmm hp (Some d) A = (DS_SUCCESS, Some x, B) \<and> vy_queue hp B xs \<and>
      vy_own hp B = vy_own hp A \<and> vy_alloc B = vy_alloc A \<and>
      (\<forall>h X. h \<noteq> hp \<longrightarrow> X \<inter> vy_own hp A = {} \<longrightarrow> vy_agree h X A B)"
    if q: "vy_queue hp A (x # xs)" for hp x xs d and A :: "'a relay_alloc vy_arena"
  proof -
    obtain B where p: "ds_vyukhov_pop_lkmm hp (Some d) A = (DS_SUCCESS, Some x, B)" "vy_queue hp B xs"
      using vy_pop_front [OF q, of d] by auto
    then show ?thesis using vy_frame [OF q vy_pop_local [OF q p(1)]] by blast
  qed
qed

subsection \<open>The relay\<close>

definition vy_lanes ::
  "('k \<Rightarrow> ptr \<times> 'k) \<Rightarrow> nat set \<Rightarrow> nat set \<Rightarrow> ptr \<Rightarrow> ptr \<Rightarrow> 'k relay_alloc vy_arena \<Rightarrow>
   ds_kv list option \<Rightarrow> ds_kv list option \<Rightarrow> bool" where
  "vy_lanes alloc_pages K U hk hu = array_rep vy_queue vy_own vy_present vy_alloc alloc_pages K U hk hu"

lemma vy_c_variants:
  "ds_vyukhov_init_c = ds_vyukhov_init_lkmm" "ds_vyukhov_insert_c = ds_vyukhov_insert_lkmm"
  "ds_vyukhov_pop_c = ds_vyukhov_pop_lkmm" "ds_vyukhov_verify_c = ds_vyukhov_verify_lkmm"
  by (intro ext, simp add: ds_vyukhov_init_c_def ds_vyukhov_init_lkmm_def ds_vyukhov_insert_c_def
      ds_vyukhov_insert_lkmm_def ds_vyukhov_pop_c_def ds_vyukhov_pop_lkmm_def
      ds_vyukhov_verify_c_def ds_vyukhov_verify_lkmm_def)+

lemma vy_ops_array:
  "vy_ops alloc_pages hk hu =
     array_ops (\<lambda>al hp. ds_vyukhov_init_lkmm al hp 128) ds_vyukhov_insert_lkmm ds_vyukhov_pop_lkmm
       vy_present ds_vyukhov_verify_lkmm alloc_pages hk hu"
  by (simp add: vy_ops_def array_ops_def vy_c_variants VYUKHOV_QUEUE_CAPACITY_def fun_eq_iff)


definition vy_relay_demo :: "nat relay_alloc vy_arena" where
  "vy_relay_demo = \<lparr>vy_heads = (\<lambda>_. \<lparr>vy_enqueue_pos = 0, vy_dequeue_pos = 0, vy_buffer_mask = 0,
     vy_buffer = NULL, vy_count = 0\<rparr>), vy_cells = (\<lambda>_. \<lparr>vy_sequence = 0, vy_data = zero_kv\<rparr>),
     vy_alloc = relay_alloc_demo\<rparr>"

lemma vy_demo_lanes: "vy_lanes one_page demo_kern_region demo_user_region 0x1000 0x1100 vy_relay_demo None None"
  using relay_alloc_demo_ready by (auto simp: vy_lanes_def array_rep_def vy_relay_demo_def vy_present_def)


text \<open>The exit sequence empties the second queue.\<close>

theorem vy_exit_drains:
  assumes "vy_lanes alloc_pages K U hk hu A None None"
    and "relay_reach (vy_ops alloc_pages hk hu) (relay_start A) R"
    and "uk_initialized R" and "length (accepted (rl_uk R)) < 2 ^ 62"
  shows "\<exists>ku. vy_lanes alloc_pages K U hk hu (rl_arena (vy_trigger_on_exit alloc_pages hk hu clk R)) ku (Some []) \<and>
    mset (rl_printk (vy_trigger_on_exit alloc_pages hk hu clk R)) = mset (accepted (rl_uk R))"
  using vyrelay.rl.relay_drains [where verify = ds_vyukhov_verify_lkmm] assms
  unfolding vy_lanes_def vy_ops_array vy_trigger_on_exit_def by blast

end
