(* ===== verification/RelayKcov.thy ===== *)
theory RelayKcov
  imports SharedArena Kcov
begin

text \<open>
  The relay application of the kcov buffer: \<^verbatim>\<open>src/skeleton_kcov.bpf.c\<close> and
  \<^verbatim>\<open>src/skeleton_kcov.c\<close>.  Both lanes are stacks, so the relay keeps the elements but
  not their order.
\<close>

subsection \<open>The application\<close>

definition kc_present :: "ptr \<Rightarrow> 'a kc_arena \<Rightarrow> bool" where
  "kc_present hp A \<longleftrightarrow> kc_area (kc_heads A hp) \<noteq> NULL"

definition kc_ops :: "('k \<Rightarrow> ptr \<times> 'k) \<Rightarrow> ptr \<Rightarrow> ptr \<Rightarrow> 'k relay_alloc kc_arena relay_ops" where
  "kc_ops alloc_pages hk hu =
     \<lparr>ku_init = (\<lambda>cpu A. ds_kcov_init_lkmm (relay_kalloc alloc_pages cpu) hk 509 A),
      ku_insert = (\<lambda>cpu. ds_kcov_insert_lkmm hk),
      ku_present = (\<lambda>R. kc_present hk (rl_arena R)),
      ku_pop = ds_kcov_pop_c hk,
      uk_present = kc_present hu,
      uk_init = (\<lambda>A. ds_kcov_init_c relay_ualloc hu 509 A),
      uk_insert = ds_kcov_insert_c hu,
      uk_pop = ds_kcov_pop_lkmm hu,
      ku_verify = ds_kcov_verify_c hk,
      uk_verify = ds_kcov_verify_c hu,
      absent_counted = True, verify_guarded = True\<rparr>"

definition kc_lsm_inode_create where
  "kc_lsm_inode_create alloc_pages hk hu = lsm_inode_create (kc_ops alloc_pages hk hu)"

definition bpf_kcov_consume where
  "bpf_kcov_consume alloc_pages hk hu = bpf_consume (kc_ops alloc_pages hk hu)"

definition kc_relay_worker where
  "kc_relay_worker alloc_pages hk hu = relay_worker_pass (kc_ops alloc_pages hk hu)"

definition kc_trigger_on_exit where
  "kc_trigger_on_exit alloc_pages hk hu = trigger_kernel_consumer_on_exit (kc_ops alloc_pages hk hu)"

definition kc_verify where
  "kc_verify alloc_pages hk hu = verify_data_structure (kc_ops alloc_pages hk hu)"

text \<open>The statistics print no figure about the buffers.\<close>

definition kc_statistics :: "'a kc_arena relay \<Rightarrow> unit relay_report" where
  "kc_statistics = print_statistics ''KCOV Buffer'' (\<lambda>_. ())"

definition kc_set_range ::
  "u64 \<Rightarrow> u32 \<Rightarrow> ptr \<Rightarrow> 'k relay_alloc kc_arena \<Rightarrow> int \<times> 'k relay_alloc kc_arena" where
  "kc_set_range page_size max_entries arena A =
     (let (err, al) = relay_set_range page_size max_entries arena (kc_alloc A) in (err, A\<lparr>kc_alloc := al\<rparr>))"

definition kc_main where
  "kc_main alloc_pages hk hu page_size max_entries arena =
     relay_main (kc_ops alloc_pages hk hu) (kc_set_range page_size max_entries arena) ''KCOV Buffer'' (\<lambda>_. ())"

subsection \<open>Operations are local to the words of a buffer\<close>

definition kc_cells :: "ptr \<Rightarrow> nat \<Rightarrow> ptr set" where
  "kc_cells area n = (\<lambda>i. kc_word area (of_nat i)) ` {..< n}"

definition kc_own :: "ptr \<Rightarrow> 'a kc_arena \<Rightarrow> nat set" where
  "kc_own hp A = cell_span 8 (kc_cells (kc_area (kc_heads A hp)) (unat (kc_size (kc_heads A hp))))"

definition kc_agree :: "ptr \<Rightarrow> nat set \<Rightarrow> 'a kc_arena \<Rightarrow> 'a kc_arena \<Rightarrow> bool" where
  "kc_agree h X A B \<longleftrightarrow> kc_heads B h = kc_heads A h \<and>
     (\<forall>a. {unat a ..< unat a + 8} \<subseteq> X \<longrightarrow> kc_words B a = kc_words A a)"

definition kc_local :: "ptr set \<Rightarrow> 'a kc_arena \<Rightarrow> 'a kc_arena \<Rightarrow> bool" where
  "kc_local S A B \<longleftrightarrow> kc_heads B = kc_heads A \<and> kc_alloc B = kc_alloc A \<and>
     (\<forall>a. a \<notin> S \<longrightarrow> kc_words B a = kc_words A a)"

lemma kc_local_refl [simp]: "kc_local S A A"
  by (simp add: kc_local_def)

lemma kc_local_set [simp]: "kc_local S A B \<Longrightarrow> a \<in> S \<Longrightarrow> kc_local S A (kc_set_word a w B)"
  by (auto simp: kc_local_def)

lemma kc_cellsI: "i < n \<Longrightarrow> kc_word area (of_nat i) \<in> kc_cells area n"
  by (auto simp: kc_cells_def)

lemma kc_frame:
  assumes "kc_local (kc_cells (kc_area (kc_heads A hp)) (unat (kc_size (kc_heads A hp)))) A B"
  shows "kc_own hp B = kc_own hp A \<and> kc_alloc B = kc_alloc A \<and>
    (\<forall>h X. h \<noteq> hp \<longrightarrow> X \<inter> kc_own hp A = {} \<longrightarrow> kc_agree h X A B)"
  using assms cell_span_outside [of _ 8] by (auto simp: kc_own_def kc_local_def kc_agree_def)

lemma kc_insert_local:
  assumes q: "kc_stack hp A xs" and i: "ds_kcov_insert_lkmm hp k v A = (r, B)"
  shows "kc_local (kc_cells (kc_area (kc_heads A hp)) (unat (kc_size (kc_heads A hp)))) A B"
proof (cases "kc_room hp A")
  case True
  let ?area = "kc_area (kc_heads A hp)" and ?n = "unat (kc_size (kc_heads A hp))"
  obtain A1 where c: "kcov_claim hp A = (Inr (of_nat (1 + 2 * length xs)), A1)" "kc_heads A1 = kc_heads A"
    using kc_claim_room [OF q True] by blast
  have n: "3 + 2 * length xs \<le> ?n" using True by (simp add: kc_room_iff [OF q])
  have "kc_local (kc_cells ?area ?n) A A1"
    using c(1) kc_cellsI [of 0 ?n ?area] n by (auto simp: kcov_claim_def Let_def split: if_splits)
  moreover have "B = kcov_fill hp (of_nat (1 + 2 * length xs)) k v A1" using i c(1) by (simp add: kcov_insert_split)
  moreover have "(of_nat (1 + 2 * length xs) + 1 :: u64) = of_nat (2 + 2 * length xs)" by simp
  ultimately show ?thesis
    using kc_cellsI [of "1 + 2 * length xs" ?n ?area] kc_cellsI [of "2 + 2 * length xs" ?n ?area] n
    by (simp only: kcov_fill_def Let_def kc_local_set c(2))
next
  case False
  then show ?thesis using i kc_insert_full [OF q] by simp
qed

lemma kc_pop_local:
  assumes q: "kc_stack hp A xs" and p: "ds_kcov_pop_lkmm hp (Some d) A = (r, out, B)"
  shows "kc_local (kc_cells (kc_area (kc_heads A hp)) (unat (kc_size (kc_heads A hp)))) A B"
  using p kc_cellsI [of 0 "unat (kc_size (kc_heads A hp))" "kc_area (kc_heads A hp)"] kc_stackD(7) [OF q]
  by (auto simp: ds_kcov_pop_lkmm_def Let_def split: if_splits)

lemma kc_stack_agree:
  assumes q: "kc_stack hp A xs" and a: "kc_agree hp X A B" and o: "kc_own hp A \<subseteq> X"
  shows "kc_stack hp B xs"
proof -
  let ?h = "kc_heads A hp"
  let ?n = "unat (kc_words A (kc_word (kc_area ?h) 0))"
  have h: "kc_heads B hp = ?h" using a by (simp add: kc_agree_def)
  have w: "kc_words B (kc_word (kc_area ?h) (of_nat i)) = kc_words A (kc_word (kc_area ?h) (of_nat i))"
    if "i < unat (kc_size ?h)" for i
    using a cell_span_cell [OF kc_cellsI [OF that] o [unfolded kc_own_def]] by (simp only: kc_agree_def)
  have n: "3 \<le> unat (kc_size ?h)" "1 + 2 * ?n \<le> unat (kc_size ?h)" using q by (simp_all add: kc_stack_def Let_def)
  have w0: "kc_words B (kc_word (kc_area ?h) 0) = kc_words A (kc_word (kc_area ?h) 0)" using w [of 0] n(1) by simp
  have "kc_entry (kc_words A) (kc_area ?h) j = kc_entry (kc_words B) (kc_area ?h) j" if "j < ?n" for j
    using w [of "1 + 2 * j"] w [of "2 + 2 * j"] n(2) that by (simp add: kc_entry_def del: of_nat_add of_nat_mult)
  then have "kc_list (kc_words A) (kc_area ?h) ?n = kc_list (kc_words B) (kc_area ?h) ?n" by (rule kc_list_cong)
  then show ?thesis using q by (simp add: kc_stack_def Let_def h w0)
qed

lemma kc_span_block:
  assumes "unat p + 4072 \<le> 2 ^ 64"
  shows "cell_span 8 (kc_cells p 509) \<subseteq> block p (kc_bytes 509)"
proof -
  have "unat (kc_word p (of_nat i)) = unat p + 8 * i" if "i < 509" for i
  proof -
    have "unat (8 * of_nat i :: u64) = 8 * i" using that by (simp add: unat_word_ariths unat_of_nat)
    then show ?thesis using that assms unat_plus_u64 [of p "8 * of_nat i"] by (simp add: kc_word_def)
  qed
  moreover have "unat (kc_bytes 509) = 4072" by (simp add: kc_bytes_def)
  ultimately show ?thesis by (auto simp: cell_span_def kc_cells_def block_def)
qed

lemma kc_init_effect:
  assumes a: "alloc (kc_bytes 509) (kc_alloc A) = (p, al)" and p: "p \<noteq> NULL"
    and i: "ds_kcov_init_lkmm alloc hp 509 A = (r, B)"
  shows "r = DS_SUCCESS \<and> kc_stack hp B [] \<and> kc_heads B = (kc_heads A)(hp := \<lparr>kc_size = 509, kc_area = p\<rparr>) \<and>
    kc_alloc B = al \<and> kc_words B = (kc_words A)(kc_word p 0 := 0)"
proof -
  have "B = A\<lparr>kc_alloc := al, kc_words := (kc_words A)(kc_word p 0 := 0),
      kc_heads := (kc_heads A)(hp := \<lparr>kc_size = 509, kc_area = p\<rparr>)\<rparr>" "r = DS_SUCCESS"
    using assms by (cases "kc_heads A hp"; auto simp: ds_kcov_init_lkmm_def Let_def KCOV_WORDS_PER_ENTRY_def kc_set_word_def)+
  then show ?thesis using p by (simp add: kc_stack_def kc_list_def)
qed

interpretation kcrelay: array_lane "\<lambda>al hp. ds_kcov_init_lkmm al hp 509" ds_kcov_insert_lkmm
  ds_kcov_pop_lkmm "\<lambda>x xs. x # xs" kc_stack kc_own kc_agree kc_present kc_alloc "kc_bytes 509"
proof unfold_locales
  show "mset (x # xs) = add_mset x (mset xs)" for x :: ds_kv and xs by simp
  show "kc_bytes 509 \<noteq> 0" "unat (kc_bytes 509) < 2 ^ 31" by (simp_all add: kc_bytes_def)
  show "kc_present hp A" if "kc_stack hp A xs" for hp xs and A :: "'a relay_alloc kc_arena"
    using kc_stackD(1) [OF that] by (simp add: kc_present_def)
  show "kc_stack hp B xs \<and> kc_own hp B = kc_own hp A"
    if "kc_stack hp A xs" "kc_own hp A \<subseteq> X" "kc_agree hp X A B" for hp xs X and A B :: "'a relay_alloc kc_arena"
    using kc_stack_agree [OF that(1,3,2)] that(3) by (simp add: kc_own_def kc_agree_def)
  show "\<not> kc_present hp B" if "\<not> kc_present hp A" "kc_agree hp X A B" for hp X and A B :: "'a relay_alloc kc_arena"
    using that by (simp add: kc_present_def kc_agree_def)
  show "r \<noteq> DS_SUCCESS \<and> \<not> kc_present hp B \<and> kc_alloc B = al \<and> (\<forall>h X. h \<noteq> hp \<longrightarrow> kc_agree h X A B)"
    if "\<not> kc_present hp A" "ds_kcov_init_lkmm alloc hp 509 A = (r, B)" "alloc (kc_bytes 509) (kc_alloc A) = (NULL, al)"
    for hp alloc r al and A B :: "'a relay_alloc kc_arena"
    using that by (auto simp: ds_kcov_init_lkmm_def KCOV_WORDS_PER_ENTRY_def kc_present_def kc_agree_def)
  show "r = DS_SUCCESS \<and> kc_stack hp B [] \<and> kc_own hp B \<subseteq> block p (kc_bytes 509) \<and> kc_alloc B = al \<and>
      (\<forall>h X. h \<noteq> hp \<longrightarrow> X \<inter> block p (kc_bytes 509) = {} \<longrightarrow> kc_agree h X A B)"
    if a: "ds_kcov_init_lkmm alloc hp 509 A = (r, B)" "alloc (kc_bytes 509) (kc_alloc A) = (p, al)"
      "p \<noteq> NULL" "unat p + unat (kc_bytes 509) \<le> 2 ^ 64"
    for hp alloc r p al and A B :: "'a relay_alloc kc_arena"
  proof -
    note e = kc_init_effect [of alloc A p al hp r B, OF a(2,3,1)]
    have s: "cell_span 8 (kc_cells p 509) \<subseteq> block p (kc_bytes 509)" using a(4) by (intro kc_span_block) (simp add: kc_bytes_def)
    have "kc_agree h X A B" if h: "h \<noteq> hp" "X \<inter> block p (kc_bytes 509) = {}" for h X
    proof -
      have d: "X \<inter> cell_span 8 (kc_cells p 509) = {}" using h(2) s by blast
      have "kc_word p 0 \<in> kc_cells p 509" using kc_cellsI [of 0 509 p] by simp
      then have "b \<noteq> kc_word p 0" if "{unat b ..< unat b + 8} \<subseteq> X" for b
        using cell_span_outside [OF that d] by auto
      then show ?thesis using e h(1) by (simp add: kc_agree_def)
    qed
    then show ?thesis using e s by (simp add: kc_own_def)
  qed
  show "kc_stack hp B (if r = DS_SUCCESS then \<lparr>key = k, val = v\<rparr> # xs else xs) \<and> kc_own hp B = kc_own hp A \<and>
      kc_alloc B = kc_alloc A \<and> (\<forall>h X. h \<noteq> hp \<longrightarrow> X \<inter> kc_own hp A = {} \<longrightarrow> kc_agree h X A B)"
    if q: "kc_stack hp A xs" and i: "ds_kcov_insert_lkmm hp k v A = (r, B)"
    for hp xs k v r and A B :: "'a relay_alloc kc_arena"
  proof -
    have "kc_stack hp B (if r = DS_SUCCESS then \<lparr>key = k, val = v\<rparr> # xs else xs)"
      using kc_insert_room [OF q, of "\<lparr>key = k, val = v\<rparr>"] kc_insert_full [OF q, of k v] i q
      by (cases "kc_room hp A") auto
    then show ?thesis using kc_frame [OF kc_insert_local [OF q i]] by simp
  qed
  show "\<exists>out B. ds_kcov_pop_lkmm hp (Some d) A = (DS_ERROR_NOT_FOUND, out, B) \<and> kc_stack hp B [] \<and>
      kc_own hp B = kc_own hp A \<and> kc_alloc B = kc_alloc A \<and>
      (\<forall>h X. h \<noteq> hp \<longrightarrow> X \<inter> kc_own hp A = {} \<longrightarrow> kc_agree h X A B)"
    if q: "kc_stack hp A []" for hp d and A :: "'a relay_alloc kc_arena"
    using kc_pop_empty [OF q, of "Some d"] q by (auto simp: kc_agree_def)
  show "\<exists>B. ds_kcov_pop_lkmm hp (Some d) A = (DS_SUCCESS, Some x, B) \<and> kc_stack hp B xs \<and>
      kc_own hp B = kc_own hp A \<and> kc_alloc B = kc_alloc A \<and>
      (\<forall>h X. h \<noteq> hp \<longrightarrow> X \<inter> kc_own hp A = {} \<longrightarrow> kc_agree h X A B)"
    if q: "kc_stack hp A (x # xs)" for hp x xs d and A :: "'a relay_alloc kc_arena"
  proof -
    obtain B where p: "ds_kcov_pop_lkmm hp (Some d) A = (DS_SUCCESS, Some x, B)" "kc_stack hp B xs"
      using kc_pop_top [OF q, of "Some d"] by auto
    then show ?thesis using kc_frame [OF kc_pop_local [OF q p(1)]] by blast
  qed
qed

subsection \<open>The relay\<close>

definition kc_lanes ::
  "('k \<Rightarrow> ptr \<times> 'k) \<Rightarrow> nat set \<Rightarrow> nat set \<Rightarrow> ptr \<Rightarrow> ptr \<Rightarrow> 'k relay_alloc kc_arena \<Rightarrow>
   ds_kv list option \<Rightarrow> ds_kv list option \<Rightarrow> bool" where
  "kc_lanes alloc_pages K U hk hu = array_rep kc_stack kc_own kc_present kc_alloc alloc_pages K U hk hu"

lemma kc_c_variants:
  "ds_kcov_init_c = ds_kcov_init_lkmm" "ds_kcov_insert_c = ds_kcov_insert_lkmm"
  "ds_kcov_pop_c = ds_kcov_pop_lkmm" "ds_kcov_verify_c = ds_kcov_verify_lkmm"
  by (intro ext, simp add: ds_kcov_init_c_def ds_kcov_init_lkmm_def ds_kcov_insert_c_def
      ds_kcov_insert_lkmm_def ds_kcov_pop_c_def ds_kcov_pop_lkmm_def ds_kcov_verify_c_def ds_kcov_verify_lkmm_def)+

lemma kc_ops_array:
  "kc_ops alloc_pages hk hu =
     array_ops (\<lambda>al hp. ds_kcov_init_lkmm al hp 509) ds_kcov_insert_lkmm ds_kcov_pop_lkmm
       kc_present ds_kcov_verify_lkmm alloc_pages hk hu"
  by (simp add: kc_ops_def array_ops_def kc_c_variants fun_eq_iff)


text \<open>Conservation in every reachable state.\<close>

lemma kc_relay_conserves:
  assumes "kc_lanes alloc_pages K U hk hu A None None"
    and "relay_reach (kc_ops alloc_pages hk hu) (relay_start A) R"
  shows "\<exists>ku uk. kc_lanes alloc_pages K U hk hu (rl_arena R) ku uk \<and>
    mset (accepted (rl_ku R)) = mset (delivered (rl_ku R)) + mset (lane_items ku) \<and>
    offered (rl_uk R) = delivered (rl_ku R) \<and>
    mset (accepted (rl_uk R)) = mset (rl_printk R) + mset (lane_items uk)"
  using kcrelay.rl.relay_conserves [where verify = ds_kcov_verify_lkmm] assms
  unfolding kc_lanes_def kc_ops_array by blast

definition kc_relay_demo :: "nat relay_alloc kc_arena" where
  "kc_relay_demo = \<lparr>kc_heads = (\<lambda>_. \<lparr>kc_size = 0, kc_area = NULL\<rparr>), kc_words = (\<lambda>_. 0), kc_alloc = relay_alloc_demo\<rparr>"


end
