(* ===== verification/RelayLinked.thy ===== *)
theory RelayLinked
  imports SharedArena Msqueue CkFifoSpsc CkStackUpmc
begin

text \<open>
  The relay applications of the linked structures: \<^verbatim>\<open>src/skeleton_msqueue\<close>,
  \<^verbatim>\<open>src/skeleton_ck_fifo_spsc\<close> and \<^verbatim>\<open>src/skeleton_ck_stack_upmc\<close> (the BPF program and
  the userspace process of each).  These structures allocate on every insertion, the first
  lane with the kernel allocator, whose fragments leave the page once it is used up, so no
  lane contract holds for them over unbounded runs; the handlers are modelled and
  their counters are covered by the theorem about all applications.
\<close>

subsection \<open>Both allocators on one arena\<close>

text \<open>
  The object counters are words of the arena, so a block allocated on one side can be
  freed on the other; each side runs on the shared counters.
\<close>

record 'k linked_alloc =
  la_kern :: "'k kern_alloc"
  la_user :: user_alloc
  la_obj_cnt :: "ptr \<Rightarrow> u64"

definition linked_kalloc :: "('k \<Rightarrow> ptr \<times> 'k) \<Rightarrow> u32 \<Rightarrow> 'k linked_alloc allocator" where
  "linked_kalloc alloc_pages cpu n a =
     (let (p, k) = bpf_arena_alloc_kern alloc_pages cpu n ((la_kern a)\<lparr>kern_obj_cnt := la_obj_cnt a\<rparr>) in
      (p, a\<lparr>la_kern := k, la_obj_cnt := kern_obj_cnt k\<rparr>))"

definition linked_kfree :: "(ptr \<Rightarrow> 'k \<Rightarrow> 'k) \<Rightarrow> ptr \<Rightarrow> 'k linked_alloc \<Rightarrow> 'k linked_alloc" where
  "linked_kfree free_pages addr a =
     (let k = bpf_arena_free_kern free_pages addr ((la_kern a)\<lparr>kern_obj_cnt := la_obj_cnt a\<rparr>) in
      a\<lparr>la_kern := k, la_obj_cnt := kern_obj_cnt k\<rparr>)"

definition linked_ualloc :: "'k linked_alloc allocator" where
  "linked_ualloc n a =
     (let (p, u) = user_allocator n ((la_user a)\<lparr>u_obj_cnt := la_obj_cnt a\<rparr>) in
      (p, a\<lparr>la_user := u, la_obj_cnt := u_obj_cnt u\<rparr>))"

definition linked_ufree :: "ptr \<Rightarrow> 'k linked_alloc \<Rightarrow> 'k linked_alloc" where
  "linked_ufree addr a =
     (let u = bpf_arena_free_user addr ((la_user a)\<lparr>u_obj_cnt := la_obj_cnt a\<rparr>) in
      a\<lparr>la_user := u, la_obj_cnt := u_obj_cnt u\<rparr>)"

definition linked_set_range :: "u64 \<Rightarrow> u32 \<Rightarrow> ptr \<Rightarrow> 'k linked_alloc \<Rightarrow> int \<times> 'k linked_alloc" where
  "linked_set_range page_size max_entries arena a =
     (let (err, u) = setup_userspace_allocator page_size max_entries arena (la_user a) in
      (err, a\<lparr>la_user := u\<rparr>))"

subsection \<open>The Michael-Scott queue\<close>

definition ms_present :: "ptr \<Rightarrow> 'a ms_arena \<Rightarrow> bool" where
  "ms_present hp A \<longleftrightarrow> ms_head (ms_heads A hp) \<noteq> NULL \<and> ms_tail (ms_heads A hp) \<noteq> NULL"

definition ms_ops ::
  "('k \<Rightarrow> ptr \<times> 'k) \<Rightarrow> (ptr \<Rightarrow> 'k \<Rightarrow> 'k) \<Rightarrow> ptr \<Rightarrow> ptr \<Rightarrow> 'k linked_alloc ms_arena relay_ops" where
  "ms_ops alloc_pages free_pages qk qu =
     \<lparr>ku_init = (\<lambda>cpu. ds_msqueue_init_lkmm (linked_kalloc alloc_pages cpu) qk),
      ku_insert = (\<lambda>cpu. ds_msqueue_insert_lkmm (linked_kalloc alloc_pages cpu) (linked_kfree free_pages) qk),
      ku_present = (\<lambda>R. ms_present qk (rl_arena R)),
      ku_pop = ds_msqueue_pop_c linked_ufree qk,
      uk_present = ms_present qu,
      uk_init = ds_msqueue_init_c linked_ualloc qu,
      uk_insert = ds_msqueue_insert_c linked_ualloc linked_ufree qu,
      uk_pop = ds_msqueue_pop_lkmm (linked_kfree free_pages) qu,
      ku_verify = ds_msqueue_verify_c qk,
      uk_verify = ds_msqueue_verify_c qu,
      absent_counted = True, verify_guarded = True\<rparr>"

definition ms_lsm_inode_create where
  "ms_lsm_inode_create alloc_pages free_pages qk qu = lsm_inode_create (ms_ops alloc_pages free_pages qk qu)"

definition bpf_msq_consume where
  "bpf_msq_consume alloc_pages free_pages qk qu = bpf_consume (ms_ops alloc_pages free_pages qk qu)"

definition ms_relay_worker where
  "ms_relay_worker alloc_pages free_pages qk qu = relay_worker_pass (ms_ops alloc_pages free_pages qk qu)"

definition ms_trigger_on_exit where
  "ms_trigger_on_exit alloc_pages free_pages qk qu = trigger_kernel_consumer_on_exit (ms_ops alloc_pages free_pages qk qu)"

definition ms_verify where
  "ms_verify alloc_pages free_pages qk qu = verify_data_structure (ms_ops alloc_pages free_pages qk qu)"

definition ms_counts :: "ptr \<Rightarrow> ptr \<Rightarrow> 'a ms_arena \<Rightarrow> u64 \<times> u64" where
  "ms_counts qk qu A = (ms_count (ms_heads A qk), ms_count (ms_heads A qu))"

definition ms_statistics :: "ptr \<Rightarrow> ptr \<Rightarrow> 'a ms_arena relay \<Rightarrow> (u64 \<times> u64) relay_report" where
  "ms_statistics qk qu = print_statistics ''MSQueue'' (ms_counts qk qu)"

definition ms_set_range :: "u64 \<Rightarrow> u32 \<Rightarrow> ptr \<Rightarrow> 'k linked_alloc ms_arena \<Rightarrow> int \<times> 'k linked_alloc ms_arena" where
  "ms_set_range page_size max_entries arena A =
     (let (err, al) = linked_set_range page_size max_entries arena (ms_alloc A) in (err, A\<lparr>ms_alloc := al\<rparr>))"

definition ms_main where
  "ms_main alloc_pages free_pages qk qu page_size max_entries arena =
     relay_main (ms_ops alloc_pages free_pages qk qu) (ms_set_range page_size max_entries arena) ''MSQueue'' (ms_counts qk qu)"

subsection \<open>The Concurrency Kit fifo\<close>

definition cf_present :: "ptr \<Rightarrow> 'a cf_arena \<Rightarrow> bool" where
  "cf_present hp A \<longleftrightarrow> cf_head (cf_heads A hp) \<noteq> NULL \<and> cf_tail (cf_heads A hp) \<noteq> NULL"

definition cf_ops :: "('k \<Rightarrow> ptr \<times> 'k) \<Rightarrow> ptr \<Rightarrow> ptr \<Rightarrow> 'k linked_alloc cf_arena relay_ops" where
  "cf_ops alloc_pages hk hu =
     \<lparr>ku_init = (\<lambda>cpu. ds_ck_fifo_spsc_init BPF (linked_kalloc alloc_pages cpu) hk),
      ku_insert = (\<lambda>cpu. ds_ck_fifo_spsc_insert BPF (linked_kalloc alloc_pages cpu) hk),
      ku_present = (\<lambda>R. cf_present hk (rl_arena R)),
      ku_pop = ds_ck_fifo_spsc_pop USERSPACE hk,
      uk_present = cf_present hu,
      uk_init = ds_ck_fifo_spsc_init_c linked_ualloc hu,
      uk_insert = ds_ck_fifo_spsc_insert_c linked_ualloc hu,
      uk_pop = ds_ck_fifo_spsc_pop BPF hu,
      ku_verify = ds_ck_fifo_spsc_verify_c hk,
      uk_verify = ds_ck_fifo_spsc_verify_c hu,
      absent_counted = True, verify_guarded = True\<rparr>"

definition cf_lsm_inode_create where
  "cf_lsm_inode_create alloc_pages hk hu = lsm_inode_create (cf_ops alloc_pages hk hu)"

definition bpf_ck_fifo_spsc_consume where
  "bpf_ck_fifo_spsc_consume alloc_pages hk hu = bpf_consume (cf_ops alloc_pages hk hu)"

definition cf_relay_worker where
  "cf_relay_worker alloc_pages hk hu = relay_worker_pass (cf_ops alloc_pages hk hu)"

definition cf_trigger_on_exit where
  "cf_trigger_on_exit alloc_pages hk hu = trigger_kernel_consumer_on_exit (cf_ops alloc_pages hk hu)"

definition cf_verify where
  "cf_verify alloc_pages hk hu = verify_data_structure (cf_ops alloc_pages hk hu)"

definition cf_empties :: "ptr \<Rightarrow> ptr \<Rightarrow> 'a cf_arena \<Rightarrow> bool \<times> bool" where
  "cf_empties hk hu A =
     (if cf_present hk A then ds_ck_fifo_spsc_isempty_c hk A else True,
      if cf_present hu A then ds_ck_fifo_spsc_isempty_c hu A else True)"

definition cf_statistics :: "ptr \<Rightarrow> ptr \<Rightarrow> 'a cf_arena relay \<Rightarrow> (bool \<times> bool) relay_report" where
  "cf_statistics hk hu = print_statistics ''CK FIFO SPSC'' (cf_empties hk hu)"

definition cf_set_range :: "u64 \<Rightarrow> u32 \<Rightarrow> ptr \<Rightarrow> 'k linked_alloc cf_arena \<Rightarrow> int \<times> 'k linked_alloc cf_arena" where
  "cf_set_range page_size max_entries arena A =
     (let (err, al) = linked_set_range page_size max_entries arena (cf_alloc A) in (err, A\<lparr>cf_alloc := al\<rparr>))"

definition cf_main where
  "cf_main alloc_pages hk hu page_size max_entries arena =
     relay_main (cf_ops alloc_pages hk hu) (cf_set_range page_size max_entries arena) ''CK FIFO SPSC'' (cf_empties hk hu)"

subsection \<open>The Concurrency Kit stack\<close>

text \<open>
  The state is the arena with the flag \<^verbatim>\<open>initialized_uk\<close> of the BPF program's globals;
  \<open>budget\<close> is what \<open>can_loop\<close> allows.  Initialisation cannot fail.
\<close>

definition st_ops ::
  "nat \<Rightarrow> ('k \<Rightarrow> ptr \<times> 'k) \<Rightarrow> ptr \<Rightarrow> ptr \<Rightarrow> ('k linked_alloc st_arena \<times> bool) relay_ops" where
  "st_ops budget alloc_pages hk hu =
     \<lparr>ku_init = (\<lambda>cpu (A, i). (DS_SUCCESS, ds_ck_stack_upmc_init_lkmm hk A, i)),
      ku_insert = (\<lambda>cpu k v (A, i).
        let (r, A) = ds_ck_stack_upmc_insert_lkmm budget (linked_kalloc alloc_pages cpu) hk k v A in (r, A, i)),
      ku_present = initialized_ku,
      ku_pop = (\<lambda>d (A, i). let (r, out, A) = ds_ck_stack_upmc_pop_c budget hk d A in (r, out, A, i)),
      uk_present = (\<lambda>(A, i). i),
      uk_init = (\<lambda>(A, i). (DS_SUCCESS, ds_ck_stack_upmc_init_c hu A, True)),
      uk_insert = (\<lambda>k v (A, i).
        let (r, A) = ds_ck_stack_upmc_insert_c budget linked_ualloc hu k v A in (r, A, i)),
      uk_pop = (\<lambda>d (A, i). let (r, out, A) = ds_ck_stack_upmc_pop_lkmm budget hu d A in (r, out, A, i)),
      ku_verify = (\<lambda>(A, i). ds_ck_stack_upmc_verify_c budget hk A),
      uk_verify = (\<lambda>(A, i). ds_ck_stack_upmc_verify_c budget hu A),
      absent_counted = False, verify_guarded = False\<rparr>"

definition st_lsm_inode_create where
  "st_lsm_inode_create budget alloc_pages hk hu = lsm_inode_create (st_ops budget alloc_pages hk hu)"

definition bpf_ck_stack_upmc_consume where
  "bpf_ck_stack_upmc_consume budget alloc_pages hk hu = bpf_consume (st_ops budget alloc_pages hk hu)"

definition st_relay_worker where
  "st_relay_worker budget alloc_pages hk hu = relay_worker_pass (st_ops budget alloc_pages hk hu)"

definition st_trigger_on_exit where
  "st_trigger_on_exit budget alloc_pages hk hu = trigger_kernel_consumer_on_exit (st_ops budget alloc_pages hk hu)"

definition st_verify where
  "st_verify budget alloc_pages hk hu = verify_data_structure (st_ops budget alloc_pages hk hu)"

definition st_counts :: "ptr \<Rightarrow> ptr \<Rightarrow> 'a st_arena \<times> bool \<Rightarrow> u64 \<times> u64" where
  "st_counts hk hu s = (st_count (st_heads (fst s) hk), st_count (st_heads (fst s) hu))"

definition st_statistics :: "ptr \<Rightarrow> ptr \<Rightarrow> ('a st_arena \<times> bool) relay \<Rightarrow> (u64 \<times> u64) relay_report" where
  "st_statistics hk hu = print_statistics ''CK Stack UPMC'' (st_counts hk hu)"

definition st_set_range ::
  "u64 \<Rightarrow> u32 \<Rightarrow> ptr \<Rightarrow> 'k linked_alloc st_arena \<times> bool \<Rightarrow> int \<times> 'k linked_alloc st_arena \<times> bool" where
  "st_set_range page_size max_entries arena s =
     (let (err, al) = linked_set_range page_size max_entries arena (st_alloc (fst s)) in
      (err, (fst s)\<lparr>st_alloc := al\<rparr>, snd s))"

definition st_main where
  "st_main budget alloc_pages hk hu page_size max_entries arena =
     relay_main (st_ops budget alloc_pages hk hu) (st_set_range page_size max_entries arena) ''CK Stack UPMC'' (st_counts hk hu)"

end
