(* ===== verification/Spec2Isabelle.thy ===== *)
theory Spec2Isabelle
  imports DsApi LaneContracts ArenaAlloc KvRing FollySpsc CkRingSpsc IoUring SpscThreads Vyukhov Kcov
    UserTest UserTestRuns UserTestLive UserTestCases UserTestLinked RoundTrips
    NodeHeap CkStackUpmc Totals StackThreads VyukhovThreads VyukhovThreadRuns CkFifoSpsc CkFifoThreads Msqueue MsqueueThreads
    Metrics Relay RelayMain SharedArena RelayRings
    RelayFolly RelayCkRing RelayIoUring RelayVyukhov RelayKcov RelayLinked
begin

text \<open>
  \<^bold>\<open>BPF arena data structures.\<close>  The program is a collection of lock-free data
  structures (\<^verbatim>\<open>include/ds_*.h\<close>) kept in a BPF arena, memory that a kernel BPF program
  and a userspace process share.  A relay application per structure
  (\<^verbatim>\<open>src/skeleton_*.bpf.c\<close>, \<^verbatim>\<open>src/skeleton_*.c\<close>) moves key-value pairs
  through two instances of it: a kernel hook inserts into the first lane, a userspace
  thread pops from it and inserts into the second, a kernel probe pops from the second.
  Memory comes from the page-fragment allocators of \<^verbatim>\<open>include/libarena_ds.h\<close>.  Most
  operations exist as a kernel variant (\<^verbatim>\<open>_lkmm\<close>) and a userspace variant
  (\<^verbatim>\<open>_c\<close>) with a router between them; all three are definitions here.

  \<^bold>\<open>Theories.\<close>

  \<^item> \<open>DsPrelude\<close>: word types, lemmas on words, masks and rotating windows of a ring.
  \<^item> \<open>DsApi\<close>: \<^verbatim>\<open>include/ds_api.h\<close>: result codes as integers, payload, statistics
    and their printer, the compare-and-exchange primitive.
  \<^item> \<open>LaneContracts\<close>: what the relay relies on.  Locale \<open>lane\<close> (a multiset),
    \<open>fifo_lane\<close> and \<open>lifo_lane\<close> (both sublocales of \<open>lane\<close>); the theorems
    about arbitrary sequences of operations are proved there once.
  \<^item> \<open>ArenaAlloc\<close>: \<^verbatim>\<open>include/libarena_ds.h\<close>, the kernel allocator (per-cpu page
    fragments; the page allocator of the kernel is a parameter) and the userspace
    allocator with its spin lock.  Locales \<open>arena_allocator\<close> and
    \<open>freeing_allocator\<close>, interpreted on the userspace allocator.
  \<^item> \<open>KvRing\<close>: arrays of key-value slots in arena memory, shared by the rings.
  \<^item> \<open>FollySpsc\<close>, \<open>CkRingSpsc\<close>, \<open>IoUring\<close>: the three rings
    (\<^verbatim>\<open>ds_folly_spsc.h\<close>, \<^verbatim>\<open>ds_ck_ring_spsc.h\<close>, \<^verbatim>\<open>ds_io_uring.h\<close>).
  \<^item> \<open>SpscThreads\<close>: the same three rings with producer and consumer running at once, one
    access to the arena at a time, under any schedule.  Locale \<open>spsc_ring\<close> states what
    the code fragments of a ring owe the protocol; \<open>mod_ring\<close>, for the rings that leave a
    slot empty, is a sublocale of it.
  \<^item> \<open>Vyukhov\<close>: the bounded queue with per-cell sequence numbers
    (\<^verbatim>\<open>ds_vyukhov.h\<close>).
  \<^item> \<open>Kcov\<close>: the trace buffer used as a stack (\<^verbatim>\<open>ds_kcov.h\<close>); its insert also
    split in two halves, for interrupts and interleaving.
  \<^item> \<open>NodeHeap\<close>: linked segments of arena addresses and the tortoise-and-hare
    argument.
  \<^item> \<open>CkStackUpmc\<close>, \<open>CkFifoSpsc\<close>, \<open>Msqueue\<close>: the linked structures
    (\<^verbatim>\<open>ds_ck_stack_upmc.h\<close>, \<^verbatim>\<open>ds_ck_fifo_spsc.h\<close>, \<^verbatim>\<open>ds_msqueue.h\<close>).
  \<^item> \<open>Metrics\<close>: \<^verbatim>\<open>include/ds_metrics.h\<close>, the rings of latency samples and the
    report.
  \<^item> \<open>Relay\<close>: the handlers of the relay applications (hook, relay thread, uprobe, exit
    sequence, verifier) over the operations of the two lanes, a step relation, and the
    locales \<open>relay_lanes\<close> and \<open>relay_fifo\<close> with what the relay relies on.
  \<^item> \<open>RelayMain\<close>: command line, attachment, statistics and the main program.
  \<^item> \<open>SharedArena\<close>: both allocators in one arena, the range that the applications set
    up, and the contract \<open>array_lane\<close> of a structure that allocates only when it is
    initialised; it is a sublocale source of \<open>relay_lanes\<close>.
  \<^item> \<open>RelayRings\<close> (what the ring applications share), \<open>RelayFolly\<close>, \<open>RelayCkRing\<close>,
    \<open>RelayIoUring\<close>, \<open>RelayVyukhov\<close>, \<open>RelayKcov\<close>: one application each
    (\<^verbatim>\<open>src/skeleton_<name>.bpf.c\<close> and \<^verbatim>\<open>src/skeleton_<name>.c\<close>), with the interpretation
    of the contract.
  \<^item> \<open>RelayLinked\<close>: the applications of the three linked structures.
  \<^item> \<open>UserTest\<close>: the userspace tests (\<^verbatim>\<open>usertest/usertest_common.h\<close> and the six
    \<^verbatim>\<open>usertest/usertest_<name>.c\<close>): bump allocator, producer and consumer threads as
    programs of single steps, schedules, and the main programs.
  \<^item> \<open>UserTestRuns\<close>: locale \<open>ut_lane\<close>, what a test relies on of its structure, with the
    invariant of every run; \<open>ut_counting\<close> and \<open>ut_ordered\<close> (a sublocale source of \<open>ut_lane\<close>)
    for the tests that count keys and that follow their order.
  \<^item> \<open>UserTestLive\<close>: locale \<open>ut_live\<close>, under which fair schedules end a test; \<open>ut_fifo\<close> and
    \<open>ut_fifo_ordered\<close>, the contract of a queue, give all of the former.
  \<^item> \<open>UserTestCases\<close> (the bump allocator as an \<open>arena_allocator\<close>, the tests of the rings and
    of the Vyukov queue) and \<open>UserTestLinked\<close> (stack, fifo, Michael-Scott queue): the
    interpretations and what each test establishes.
  \<^item> \<open>Totals\<close>: sums of a measure over the threads of a system, and how one turn changes them.
  \<^item> \<open>StackThreads\<close>: push and pop of the stack one access at a time, by any number of
    threads under any schedule.
  \<^item> \<open>VyukhovThreads\<close>, \<open>VyukhovThreadRuns\<close>: insert and pop of Vyukov's queue one access at a
    time, by any number of producers and consumers: the invariant on positions and cells with
    one lemma per kind of move, then the runs.
  \<^item> \<open>MsqueueThreads\<close>: insert and pop of the Michael-Scott queue one access at a time, by any
    number of threads; the invariant follows all nodes ever linked.
  \<^item> \<open>CkFifoThreads\<close>: insert and pop of the Concurrency Kit fifo one access at a time, by its
    producer and its consumer, with the recycling of entries; the invariant is proved for any
    \<open>arena_allocator\<close> and used for the one of userspace.
  \<^item> \<open>RoundTrips\<close>: locale \<open>sized_lane\<close>, the structures of fixed size and how much they take.

  \<^bold>\<open>Correspondence.\<close>  A C structure is a record with one field per member (prefixed per
  structure).  The arena is a record of functions from addresses to typed objects, plus
  the state of the allocator; a pointer is a 64-bit word and NULL is 0.  Integers keep
  their C widths (\<open>u32\<close>, \<open>u64\<close>), so index arithmetic wraps as in C; result codes are
  integers.  A function that takes an output pointer takes an optional value and returns
  it (\<open>None\<close> is a NULL pointer).  \<open>can_loop\<close>, the run-time budget of BPF loops, is
  taken to hold, and the casts between kernel and userspace addresses are the identity.
  Compare-and-exchange is \<open>arena_atomic_cmpxchg\<close>, which may fail in the model as in the
  code; an operation runs without interference from others, except in \<open>SpscThreads\<close>
  (both sides of a ring), \<open>CkFifoThreads\<close> (both sides of the linked fifo),
  \<open>StackThreads\<close> (any number of threads at a stack) and \<open>VyukhovThreads\<close>, \<open>MsqueueThreads\<close>
  (any number of threads at a queue), where single accesses interleave on sequentially
  consistent memory, and for the two halves of the kcov insert.  In \<open>StackThreads\<close> and \<open>MsqueueThreads\<close> a node is inserted at most once: insert
  allocates it, pop of the stack does not free it, and the userspace allocator hands out no
  block twice.  A handler of a relay
  application is one step of \<open>relay_step\<close>; what the environment supplies (clock readings,
  process ids, the results of library calls) is an argument.  The histories \<open>rl_ku\<close> and
  \<open>rl_uk\<close> record the operations on the lanes and are read by no handler.  A step of a test
  thread is one operation on the structure, one counter update, or the check and output of
  one element; \<open>us_produced\<close> and \<open>us_consumed\<close> are what the threads print.

  \<^bold>\<open>Loops and bounds.\<close>  Loops with a bound in the source carry that bound as fuel (100
  attempts in \<open>Vyukhov\<close>, 10 in \<open>Msqueue\<close>, 100000 steps in the verifiers and
  searches), and running out of it is the branch the source takes.  The unbounded loops of
  the stack are given fuel by their number of failed attempts; alone, the first attempt
  succeeds.  The cycle check of the stack ends on every heap, which is proved.  The spin
  lock is a \<open>partial_function\<close>: on a lock held for ever it does not return, and every
  theorem about the allocator shows that it returns and releases the lock.  The loop that
  triggers the consumer at exit is a total function, with its termination proof; the
  theorems that it empties the lane assume fewer than \<open>2 ^ 62\<close> relayed elements, so that
  its 64-bit target does not wrap.  The test threads wait for each other; that they finish
  is proved for every schedule with enough rounds in which each thread has a turn, twice the
  number of steps that are not waiting (\<open>ut_steps\<close>).

  \<^bold>\<open>What is proved.\<close>  For every structure: each operation on every branch; a
  representation invariant that relates the arena to the abstract queue or stack and that
  every operation keeps; the interpretation of the contract, so that every sequence of
  inserts and pops from either side delivers each accepted element once and in order; what
  search, iteration, the size functions and the verifiers answer on represented states
  (exactly, the false alarms included); initialisation on every branch.  For the
  allocators: blocks never overlap (userspace), fragments that fit stay in their page
  (kernel), and two defects of the kernel allocator.  For the metrics: what the rings and
  counters hold after any sequence of records, and the report.  For the applications: in
  every state reached by any interleaving of the handlers the elements are conserved and,
  with queues, in order, from the hook to the printed line; the exit sequence prints
  everything that was relayed; a whole run of the program returns 0 with its verifier and
  its statistics right; and the counters agree with the metrics.  For the rings used from
  both sides at once: order and conservation under every interleaving of single accesses,
  and that calls return.  For the stack under any number of threads: linearisability, and
  that failed exchanges are bounded by successful ones.  For Vyukov's queue under any number
  of producers and consumers: a bounded FIFO in the order of the positions taken, the exact
  meaning of the answers full and empty (which may be given too early, while a cell is in
  use), and bounds on failed attempts and on calls that give up; the runs have fewer than
  \<open>2 ^ 62\<close> turns, so that no position wraps around while a thread still holds it.  For the
  linked fifo used from both sides at once: order, conservation and whole elements while
  entries are recycled, that the producer never writes to an entry the consumer reads, and
  that calls return within a bounded number of steps.  For the Michael-Scott queue under any number of threads:
  linearisability of inserts, pops and the answer that the queue is empty; and that released
  nodes are read.  For the tests: under every schedule nothing is lost, duplicated
  or, in the ordered tests, reordered, a main program that returns, returns 0, and it
  returns under fair schedules.  The theorems on the relays take the
  kernel's pages to lie outside the userspace range; the range that is set up overlaps the
  arena's globals, which is a theorem too.

  \<^bold>\<open>Not modelled.\<close>  Weak memory orderings, and true concurrency within an operation
  apart from \<open>SpscThreads\<close>, \<open>CkFifoThreads\<close>, \<open>StackThreads\<close>, \<open>VyukhovThreads\<close>,
  \<open>MsqueueThreads\<close> and the kcov interleavings; the two floating-point columns of the metrics report;
  the text that is printed around the figures, the usage message and the signal handler;
  the sleeps of the tests and the failure of \<^verbatim>\<open>posix_memalign\<close>; the macros of \<^verbatim>\<open>include/bpf_experimental.h\<close> and
  \<^verbatim>\<open>include/bpf_arena_common.h\<close> (declarations of kernel functions and address space
  casts).  The end-to-end theorems are not stated for the three linked structures, since
  the kernel allocator, which serves every insertion there, leaves its page after about a
  hundred of them.
\<close>

end
